(* ===== verification/Prelude.thy ===== *)
theory Prelude
  imports Main "HOL-Library.Word" "HOL-Library.Sublist"
begin

unbundle bit_operations_syntax

text \<open>
  Shared vocabulary of the development: bytes and machine words, Rust's
  \<^verbatim>\<open>Result\<close> and \<^verbatim>\<open>Option\<close> combinators, the pieces of the standard library the
  sources call (big-endian integer codecs, UTF-8 validation, \<^verbatim>\<open>strip_prefix\<close>,
  \<^verbatim>\<open>chunks\<close>, ...), effectful computations over a threaded world, and the \<open>codec\<close>
  interface every storage encoding satisfies.
\<close>

section \<open>Collections of facts\<close>

named_theorems codec_simps
  \<open>defining equations of the byte codecs\<close>

named_theorems effect_simps
  \<open>unfolding rules of the effect combinators\<close>

section \<open>Machine types\<close>

type_synonym u8 = "8 word"
type_synonym u32 = "32 word"
type_synonym u64 = "64 word"

text \<open>A Rust \<^verbatim>\<open>&[u8]\<close>, \<^verbatim>\<open>Vec<u8>\<close> or \<^verbatim>\<open>Bytes\<close>; a \<^verbatim>\<open>str\<close> is its UTF-8 byte sequence.
  A \<^verbatim>\<open>usize\<close> is a \<^typ>\<open>nat\<close>.\<close>

type_synonym bytes = "u8 list"
type_synonym str = bytes

text \<open>An ASCII string literal of the source.\<close>

definition lit :: "string \<Rightarrow> bytes" where
  "lit s = map of_char s"

lemma lit_append: "lit (xs @ ys) = lit xs @ lit ys"
  by (simp add: lit_def)

lemma length_lit [simp]: "length (lit s) = length s"
  by (simp add: lit_def)

section \<open>Results and options\<close>

text \<open>\<^verbatim>\<open>Result<T, E>\<close> is \<^typ>\<open>'e + 't\<close>; \<open>and_then\<close> is the \<^verbatim>\<open>?\<close> operator.\<close>

definition and_then :: "'e + 'a \<Rightarrow> ('a \<Rightarrow> 'e + 'b) \<Rightarrow> 'e + 'b" where
  "and_then r f = (case r of Inl e \<Rightarrow> Inl e | Inr x \<Rightarrow> f x)"

definition map_err :: "('e \<Rightarrow> 'f) \<Rightarrow> 'e + 'a \<Rightarrow> 'f + 'a" where
  "map_err g r = (case r of Inl e \<Rightarrow> Inl (g e) | Inr x \<Rightarrow> Inr x)"

definition ok_or :: "'e \<Rightarrow> 'a option \<Rightarrow> 'e + 'a" where
  "ok_or e v = (case v of None \<Rightarrow> Inl e | Some x \<Rightarrow> Inr x)"

lemma and_then_simps [simp]:
  "and_then (Inl e) f = Inl e" "and_then (Inr x) f = f x"
  by (simp_all add: and_then_def)

lemma map_err_simps [simp]:
  "map_err g (Inl e) = Inl (g e)" "map_err g (Inr x) = Inr x"
  by (simp_all add: map_err_def)

lemma ok_or_simps [simp]:
  "ok_or e None = Inl e" "ok_or e (Some x) = Inr x"
  by (simp_all add: ok_or_def)

lemma and_then_eq_Inr: "and_then r f = Inr y \<longleftrightarrow> (\<exists>x. r = Inr x \<and> f x = Inr y)"
  by (cases r) auto

lemma map_err_eq_Inr [simp]: "map_err g r = Inr y \<longleftrightarrow> r = Inr y"
  by (cases r) auto

lemma ok_or_eq_Inr [simp]: "ok_or e v = Inr y \<longleftrightarrow> v = Some y"
  by (cases v) auto

lemma list_all2_right: "list_all2 P xs ys \<Longrightarrow> y \<in> set ys \<Longrightarrow> \<exists>x\<in>set xs. P x y"
  by (induction rule: list_all2_induct) auto

lemma list_all2_left: "list_all2 P xs ys \<Longrightarrow> x \<in> set xs \<Longrightarrow> \<exists>y\<in>set ys. P x y"
  by (induction rule: list_all2_induct) auto

section \<open>Effects\<close>

text \<open>
  A fallible computation over a threaded world \<^typ>\<open>'s\<close>: the shape of every \<^verbatim>\<open>async fn\<close>
  that returns a \<^verbatim>\<open>Result\<close>. \<open>eff_bind\<close> is \<^verbatim>\<open>.await?\<close>: the state reached is kept on an error.
\<close>

type_synonym ('s, 'e, 'a) eff = "'s \<Rightarrow> ('e + 'a) \<times> 's"

definition eff_return :: "'a \<Rightarrow> ('s, 'e, 'a) eff" where
  "eff_return x = (\<lambda>s. (Inr x, s))"

definition eff_fail :: "'e \<Rightarrow> ('s, 'e, 'a) eff" where
  "eff_fail e = (\<lambda>s. (Inl e, s))"

definition eff_lift :: "'e + 'a \<Rightarrow> ('s, 'e, 'a) eff" where
  "eff_lift r = (\<lambda>s. (r, s))"

definition eff_bind :: "('s, 'e, 'a) eff \<Rightarrow> ('a \<Rightarrow> ('s, 'e, 'b) eff) \<Rightarrow> ('s, 'e, 'b) eff" where
  "eff_bind m f = (\<lambda>s. case m s of (Inl e, s) \<Rightarrow> (Inl e, s) | (Inr x, s) \<Rightarrow> f x s)"

definition eff_map_err :: "('e \<Rightarrow> 'f) \<Rightarrow> ('s, 'e, 'a) eff \<Rightarrow> ('s, 'f, 'a) eff" where
  "eff_map_err g m = (\<lambda>s. case m s of (r, s) \<Rightarrow> (map_err g r, s))"

text \<open>A call whose result is matched on rather than propagated.\<close>

definition eff_attempt :: "('s, 'e, 'a) eff \<Rightarrow> ('s, 'f, 'e + 'a) eff" where
  "eff_attempt m = (\<lambda>s. case m s of (r, s) \<Rightarrow> (Inr r, s))"

fun eff_map :: "('x \<Rightarrow> ('s, 'e, 'a) eff) \<Rightarrow> 'x list \<Rightarrow> ('s, 'e, 'a list) eff" where
  "eff_map f [] = eff_return []"
| "eff_map f (x # xs) = eff_bind (f x) (\<lambda>y. eff_bind (eff_map f xs) (\<lambda>ys. eff_return (y # ys)))"

lemma eff_bind_return [simp]: "eff_bind (eff_return x) f = f x"
  by (simp add: eff_bind_def eff_return_def)

lemma eff_bind_assoc: "eff_bind (eff_bind m f) g = eff_bind m (\<lambda>x. eff_bind (f x) g)"
  by (rule ext) (simp add: eff_bind_def split: prod.splits sum.splits)

lemma eff_return_run [effect_simps]: "eff_return x s = (r, s') \<longleftrightarrow> r = Inr x \<and> s' = s"
  by (auto simp: eff_return_def)

lemma eff_fail_run [effect_simps]: "eff_fail e s = (r, s') \<longleftrightarrow> r = Inl e \<and> s' = s"
  by (auto simp: eff_fail_def)

lemma eff_lift_run [effect_simps]: "eff_lift v s = (r, s') \<longleftrightarrow> v = r \<and> s' = s"
  by (auto simp: eff_lift_def)

lemma eff_bind_Inr [effect_simps]:
  "eff_bind m f s = (Inr y, s') \<longleftrightarrow> (\<exists>x t. m s = (Inr x, t) \<and> f x t = (Inr y, s'))"
  by (auto simp: eff_bind_def split: prod.splits sum.splits)

lemma eff_bind_Inl:
  "eff_bind m f s = (Inl e, s') \<longleftrightarrow> m s = (Inl e, s') \<or> (\<exists>x t. m s = (Inr x, t) \<and> f x t = (Inl e, s'))"
  by (auto simp: eff_bind_def split: prod.splits sum.splits)

lemma eff_bind_run:
  "eff_bind m f s = (r, s') \<longleftrightarrow>
    (\<exists>e. m s = (Inl e, s') \<and> r = Inl e) \<or> (\<exists>x t. m s = (Inr x, t) \<and> f x t = (r, s'))"
  by (auto simp: eff_bind_def split: prod.splits sum.splits)

lemma eff_attempt_run [effect_simps]:
  "eff_attempt m s = (r, s') \<longleftrightarrow> (\<exists>v. m s = (v, s') \<and> r = Inr v)"
  by (auto simp: eff_attempt_def split: prod.splits)

lemma eff_map_err_Inr [effect_simps]: "eff_map_err g m s = (Inr y, s') \<longleftrightarrow> m s = (Inr y, s')"
  by (auto simp: eff_map_err_def split: prod.splits)

lemma eff_map_err_Inl [effect_simps]:
  "eff_map_err g m s = (Inl e, s') \<longleftrightarrow> (\<exists>e'. m s = (Inl e', s') \<and> e = g e')"
proof -
  obtain r t where "m s = (r, t)" by force
  then show ?thesis by (cases r) (auto simp: eff_map_err_def)
qed

text \<open>Running a sequence whose first computation is known.\<close>

lemma eff_bind_ok: "m s = (Inr x, t) \<Longrightarrow> eff_bind m f s = f x t"
  by (simp add: eff_bind_def)

lemma eff_bind_err: "m s = (Inl e, t) \<Longrightarrow> eff_bind m f s = (Inl e, t)"
  by (simp add: eff_bind_def)

lemma eff_map_err_ok: "m s = (Inr x, t) \<Longrightarrow> eff_map_err g m s = (Inr x, t)"
  by (simp add: eff_map_err_def)

lemma eff_map_err_err: "m s = (Inl e, t) \<Longrightarrow> eff_map_err g m s = (Inl (g e), t)"
  by (simp add: eff_map_err_def)

subsection \<open>Specifications of effects\<close>

text \<open>
  \<open>eff_spec I E P m\<close>: from every world in \<open>I\<close>, \<open>m\<close> ends in a world of \<open>I\<close> with an error in
  \<open>E\<close> or a value in \<open>P\<close>. The rules follow the combinators, so that a client's proof is the
  client's text.
\<close>

definition eff_spec :: "('s \<Rightarrow> bool) \<Rightarrow> ('e \<Rightarrow> bool) \<Rightarrow> ('a \<Rightarrow> bool) \<Rightarrow> ('s, 'e, 'a) eff \<Rightarrow> bool" where
  "eff_spec I E P m \<longleftrightarrow>
     (\<forall>s r s'. I s \<longrightarrow> m s = (r, s') \<longrightarrow> I s' \<and> (case r of Inl e \<Rightarrow> E e | Inr x \<Rightarrow> P x))"

lemma eff_specI:
  assumes "\<And>s r s'. I s \<Longrightarrow> m s = (r, s') \<Longrightarrow> I s' \<and> (case r of Inl e \<Rightarrow> E e | Inr x \<Rightarrow> P x)"
  shows "eff_spec I E P m"
  using assms by (simp add: eff_spec_def)

lemma eff_specD:
  assumes "eff_spec I E P m" and "m s = (r, s')" and "I s"
  shows "I s'" and "r = Inl e \<Longrightarrow> E e" and "r = Inr x \<Longrightarrow> P x"
  using assms by (auto simp: eff_spec_def)

lemma eff_spec_weaken:
  assumes "eff_spec I E P m" and "\<And>e. E e \<Longrightarrow> E' e" and "\<And>x. P x \<Longrightarrow> P' x"
  shows "eff_spec I E' P' m"
  unfolding eff_spec_def
proof (intro allI impI)
  fix s r s' assume "I s" "m s = (r, s')"
  with assms show "I s' \<and> (case r of Inl e \<Rightarrow> E' e | Inr x \<Rightarrow> P' x)"
    by (cases r) (auto simp: eff_spec_def)
qed

lemma eff_spec_return [intro]: "P x \<Longrightarrow> eff_spec I E P (eff_return x)"
  by (auto simp: eff_spec_def eff_return_def)

lemma eff_spec_fail [intro]: "E e \<Longrightarrow> eff_spec I E P (eff_fail e)"
  by (auto simp: eff_spec_def eff_fail_def)

lemma eff_spec_lift:
  assumes "\<And>e. r = Inl e \<Longrightarrow> E e" and "\<And>x. r = Inr x \<Longrightarrow> P x"
  shows "eff_spec I E P (eff_lift r)"
  using assms by (cases r) (auto simp: eff_spec_def eff_lift_def)

lemma eff_spec_bind:
  assumes "eff_spec I E Q m" and "\<And>x. Q x \<Longrightarrow> eff_spec I E P (f x)"
  shows "eff_spec I E P (eff_bind m f)"
  unfolding eff_spec_def
proof (intro allI impI)
  fix s r s' assume "I s" and run: "eff_bind m f s = (r, s')"
  obtain r1 s1 where m: "m s = (r1, s1)" by force
  note M = eff_specD [OF assms(1) m \<open>I s\<close>]
  show "I s' \<and> (case r of Inl e \<Rightarrow> E e | Inr x \<Rightarrow> P x)"
  proof (cases r1)
    case (Inl e)
    with M run m show ?thesis by (auto simp: eff_bind_def)
  next
    case (Inr x)
    with run m have "f x s1 = (r, s')" by (simp add: eff_bind_def)
    with assms(2) [OF M(3) [OF Inr]] M(1) show ?thesis by (simp add: eff_spec_def)
  qed
qed

lemma eff_spec_if:
  assumes "b \<Longrightarrow> eff_spec I E P m1" and "\<not> b \<Longrightarrow> eff_spec I E P m2"
  shows "eff_spec I E P (if b then m1 else m2)"
  using assms by simp

lemma eff_spec_option:
  assumes "r = None \<Longrightarrow> eff_spec I E P m" and "\<And>x. r = Some x \<Longrightarrow> eff_spec I E P (f x)"
  shows "eff_spec I E P (case r of None \<Rightarrow> m | Some x \<Rightarrow> f x)"
  using assms by (cases r) simp_all

lemma eff_spec_map_err:
  assumes "eff_spec I E' P m" and "\<And>e. E' e \<Longrightarrow> E (g e)"
  shows "eff_spec I E P (eff_map_err g m)"
proof (rule eff_specI)
  fix s r s' assume "I s" and run: "eff_map_err g m s = (r, s')"
  obtain r1 where m: "m s = (r1, s')" "r = map_err g r1"
    using run by (auto simp: eff_map_err_def split: prod.splits)
  from eff_specD [OF assms(1) m(1) \<open>I s\<close>] m(2) assms(2)
  show "I s' \<and> (case r of Inl e \<Rightarrow> E e | Inr x \<Rightarrow> P x)" by (cases r1) auto
qed

lemma eff_spec_attempt:
  fixes m :: "('s, 'e, 'a) eff" and E' :: "'f \<Rightarrow> bool"
  assumes "eff_spec I E P m"
  shows "eff_spec I E' (\<lambda>r. case r of Inl e \<Rightarrow> E e | Inr x \<Rightarrow> P x) (eff_attempt m :: ('s, 'f, 'e + 'a) eff)"
proof (rule eff_specI)
  fix s r s' assume "I s" and run: "(eff_attempt m :: ('s, 'f, 'e + 'a) eff) s = (r, s')"
  then obtain v where v: "m s = (v, s')" "r = Inr v" by (auto simp: effect_simps)
  from eff_specD [OF assms v(1) \<open>I s\<close>] v(2)
  show "I s' \<and> (case r of Inl e \<Rightarrow> E' e | Inr x \<Rightarrow> (case x of Inl e \<Rightarrow> E e | Inr x \<Rightarrow> P x))"
    by (cases v) auto
qed

lemma eff_spec_map:
  assumes "\<And>x. x \<in> set xs \<Longrightarrow> eff_spec I E (P x) (f x)"
  shows "eff_spec I E (list_all2 P xs) (eff_map f xs)"
  using assms
proof (induction xs)
  case (Cons x xs)
  have f: "eff_spec I E (P x) (f x)" and IH: "eff_spec I E (list_all2 P xs) (eff_map f xs)" using Cons by auto
  show ?case
    unfolding eff_map.simps
    by (rule eff_spec_bind [OF f], rule eff_spec_bind [OF IH], rule eff_spec_return) simp
qed (simp add: eff_spec_return)

lemma eff_spec_conj:
  assumes "eff_spec I E P m" and "eff_spec J (\<lambda>e. True) (\<lambda>x. True) m"
  shows "eff_spec (\<lambda>s. I s \<and> J s) E P m"
  using assms unfolding eff_spec_def by blast

section \<open>Big-endian integers\<close>

text \<open>\<^verbatim>\<open>to_be_bytes\<close> and \<^verbatim>\<open>from_be_bytes\<close>, generic in the width.\<close>

fun be_bytes :: "nat \<Rightarrow> 'a::len word \<Rightarrow> bytes" where
  "be_bytes 0 w = []"
| "be_bytes (Suc n) w = be_bytes n (drop_bit 8 w) @ [ucast w]"

definition from_be_bytes :: "bytes \<Rightarrow> 'a::len word" where
  "from_be_bytes bs = foldl (\<lambda>acc b. push_bit 8 acc OR ucast b) 0 bs"

definition u32_to_be_bytes :: "u32 \<Rightarrow> bytes" where
  "u32_to_be_bytes w = be_bytes 4 w"

definition u64_to_be_bytes :: "u64 \<Rightarrow> bytes" where
  "u64_to_be_bytes w = be_bytes 8 w"

lemma length_be_bytes [simp]: "length (be_bytes n w) = n"
  by (induction n arbitrary: w) auto

lemma length_u32_to_be_bytes [simp]: "length (u32_to_be_bytes w) = 4"
  by (simp add: u32_to_be_bytes_def)

lemma length_u64_to_be_bytes [simp]: "length (u64_to_be_bytes w) = 8"
  by (simp add: u64_to_be_bytes_def)

lemma from_be_bytes_snoc:
  "from_be_bytes (bs @ [b]) = push_bit 8 (from_be_bytes bs) OR ucast b"
  by (simp add: from_be_bytes_def)

lemma ucast_ucast_byte: "(ucast (ucast w :: u8) :: 'a::len word) = take_bit 8 w"
  by (rule bit_word_eqI) (auto simp: bit_simps)

lemma from_be_bytes_be_bytes:
  "from_be_bytes (be_bytes n w) = take_bit (8 * n) (w :: 'a::len word)"
proof (induction n arbitrary: w)
  case 0
  then show ?case by (simp add: from_be_bytes_def)
next
  case (Suc n)
  show ?case
    by (rule bit_word_eqI)
      (auto simp: from_be_bytes_snoc Suc.IH ucast_ucast_byte bit_simps)
qed

lemma bit_from_be_bytes_bound:
  "bit (from_be_bytes bs :: 'a::len word) i \<Longrightarrow> i < 8 * length bs"
proof (induction bs arbitrary: i rule: rev_induct)
  case Nil
  then show ?case by (simp add: from_be_bytes_def)
next
  case (snoc b bs)
  from snoc.prems consider "8 \<le> i" "bit (from_be_bytes bs :: 'a word) (i - 8)" | "bit b i"
    by (auto simp: from_be_bytes_snoc bit_simps)
  then show ?case
  proof cases
    case 1
    from snoc.IH [OF 1(2)] show ?thesis by simp
  next
    case 2
    then show ?thesis by (auto dest: bit_imp_le_length)
  qed
qed

lemma drop_bit_from_be_bytes_snoc:
  assumes "8 * Suc (length bs) \<le> LENGTH('a)"
  shows "drop_bit 8 (from_be_bytes (bs @ [b]) :: 'a::len word) = from_be_bytes bs"
proof (rule bit_word_eqI)
  fix i assume "i < LENGTH('a)"
  have "bit (from_be_bytes bs :: 'a word) i \<Longrightarrow> i < 8 * length bs"
    by (rule bit_from_be_bytes_bound)
  with assms show "bit (drop_bit 8 (from_be_bytes (bs @ [b]) :: 'a word)) i
      = bit (from_be_bytes bs :: 'a word) i"
    by (auto simp: from_be_bytes_snoc bit_simps dest: bit_imp_le_length)
qed

lemma ucast_from_be_bytes_snoc:
  assumes "8 \<le> LENGTH('a)"
  shows "ucast (from_be_bytes (bs @ [b]) :: 'a::len word) = b"
  using assms by (intro bit_word_eqI) (auto simp: from_be_bytes_snoc bit_simps)

lemma be_bytes_from_be_bytes:
  "8 * length bs \<le> LENGTH('a) \<Longrightarrow> be_bytes (length bs) (from_be_bytes bs :: 'a::len word) = bs"
proof (induction bs rule: rev_induct)
  case Nil
  then show ?case by simp
next
  case (snoc b bs)
  then show ?case
    by (simp add: drop_bit_from_be_bytes_snoc ucast_from_be_bytes_snoc)
qed

lemma u32_from_to_be_bytes [simp]: "from_be_bytes (u32_to_be_bytes w) = w"
  by (simp add: u32_to_be_bytes_def from_be_bytes_be_bytes take_bit_word_eq_self)

lemma u64_from_to_be_bytes [simp]: "from_be_bytes (u64_to_be_bytes w) = w"
  by (simp add: u64_to_be_bytes_def from_be_bytes_be_bytes take_bit_word_eq_self)

lemma u32_to_from_be_bytes: "length bs = 4 \<Longrightarrow> u32_to_be_bytes (from_be_bytes bs) = bs"
  using be_bytes_from_be_bytes [of bs, where 'a = 32] by (simp add: u32_to_be_bytes_def)

lemma u64_to_from_be_bytes: "length bs = 8 \<Longrightarrow> u64_to_be_bytes (from_be_bytes bs) = bs"
  using be_bytes_from_be_bytes [of bs, where 'a = 64] by (simp add: u64_to_be_bytes_def)

lemma u64_to_be_bytes_inject [simp]: "u64_to_be_bytes v = u64_to_be_bytes w \<longleftrightarrow> v = w"
  by (metis u64_from_to_be_bytes)

lemma u32_to_be_bytes_inject [simp]: "u32_to_be_bytes v = u32_to_be_bytes w \<longleftrightarrow> v = w"
  by (metis u32_from_to_be_bytes)

text \<open>\<^verbatim>\<open>saturating_add\<close>.\<close>

definition saturating_add :: "'a::len word \<Rightarrow> 'a word \<Rightarrow> 'a word" where
  "saturating_add x y = (if x + y < x then -1 else x + y)"

section \<open>Slices, chunks and bit counts\<close>

text \<open>\<^verbatim>\<open>&xs[i..j]\<close> for \<open>i \<le> j \<le> length xs\<close>; the callers' bounds are lemmas.\<close>

definition slice :: "'a list \<Rightarrow> nat \<Rightarrow> nat \<Rightarrow> 'a list" where
  "slice xs i j = take (j - i) (drop i xs)"

lemma length_slice [simp]: "length (slice xs i j) = min (j - i) (length xs - i)"
  by (simp add: slice_def)

lemma slice_append_drop: "i \<le> j \<Longrightarrow> slice xs i j @ drop j xs = drop i xs"
  by (metis append_take_drop_id drop_drop le_add_diff_inverse2 slice_def)

lemma take_append_slice: "i \<le> j \<Longrightarrow> take i xs @ slice xs i j = take j xs"
  unfolding slice_def by (metis le_add_diff_inverse take_add)

lemma slice_join: "i \<le> j \<Longrightarrow> j \<le> k \<Longrightarrow> slice xs i j @ slice xs j k = slice xs i k"
proof -
  assume "i \<le> j" "j \<le> k"
  then have "k - i = (j - i) + (k - j)" and "drop j xs = drop (j - i) (drop i xs)" by auto
  then show ?thesis by (simp only: slice_def take_add)
qed

text \<open>\<^verbatim>\<open>xs.chunks(n)\<close> for a positive \<open>n\<close>.\<close>

function chunks :: "nat \<Rightarrow> 'a list \<Rightarrow> 'a list list" where
  "chunks n xs = (if n = 0 \<or> xs = [] then [] else take n xs # chunks n (drop n xs))"
  by pat_completeness auto
termination
  by (relation "measure (\<lambda>(n, xs). length xs)") (auto simp: length_greater_0_conv)

declare chunks.simps [simp del]

lemma chunks_Nil [simp]: "chunks n [] = []"
  by (simp add: chunks.simps)

lemma concat_chunks: "0 < n \<Longrightarrow> concat (chunks n xs) = xs"
proof (induction n xs rule: chunks.induct)
  case (1 n xs)
  then show ?case
    by (cases "xs = []") (simp_all add: chunks.simps [of n xs])
qed

lemma chunks_bounds: "c \<in> set (chunks n xs) \<Longrightarrow> c \<noteq> [] \<and> length c \<le> n"
proof (induction n xs rule: chunks.induct)
  case (1 n xs)
  then show ?case
    by (cases "n = 0 \<or> xs = []") (auto simp: chunks.simps [of n xs])
qed

text \<open>\<^verbatim>\<open>trailing_zeros\<close>: the number of low zero bits, the width itself for zero.\<close>

definition trailing_zeros :: "'a::len word \<Rightarrow> nat" where
  "trailing_zeros w = length (takeWhile (\<lambda>i. \<not> bit w i) [0..<LENGTH('a)])"

text \<open>\<^verbatim>\<open>from_le_bytes\<close>.\<close>

definition from_le_bytes :: "bytes \<Rightarrow> 'a::len word" where
  "from_le_bytes bs = from_be_bytes (rev bs)"

section \<open>UTF-8 validation\<close>

text \<open>
  \<^verbatim>\<open>std::str::from_utf8\<close> accepts exactly the well-formed byte sequences of the Unicode
  standard's table 3-7: no overlong forms, no surrogates, nothing above U+10FFFF.
\<close>

definition utf8_cont :: "u8 \<Rightarrow> bool" where
  "utf8_cont b \<longleftrightarrow> 0x80 \<le> b \<and> b \<le> 0xBF"

fun utf8_conts :: "u8 list \<Rightarrow> nat \<Rightarrow> bool" where
  "utf8_conts bs 0 = True"
| "utf8_conts [] (Suc n) = False"
| "utf8_conts (b # bs) (Suc n) = (utf8_cont b \<and> utf8_conts bs n)"

text \<open>The length of the sequence a lead byte opens, and the range of its second byte.\<close>

definition utf8_lead :: "u8 \<Rightarrow> (nat \<times> u8 \<times> u8) option" where
  "utf8_lead b =
     (if 0xC2 \<le> b \<and> b \<le> 0xDF then Some (0, 0x80, 0xBF)
      else if b = 0xE0 then Some (1, 0xA0, 0xBF)
      else if 0xE1 \<le> b \<and> b \<le> 0xEC then Some (1, 0x80, 0xBF)
      else if b = 0xED then Some (1, 0x80, 0x9F)
      else if 0xEE \<le> b \<and> b \<le> 0xEF then Some (1, 0x80, 0xBF)
      else if b = 0xF0 then Some (2, 0x90, 0xBF)
      else if 0xF1 \<le> b \<and> b \<le> 0xF3 then Some (2, 0x80, 0xBF)
      else if b = 0xF4 then Some (2, 0x80, 0x8F)
      else None)"

function valid_utf8 :: "bytes \<Rightarrow> bool" where
  "valid_utf8 [] = True"
| "valid_utf8 (b # bs) =
     (if b < 0x80 then valid_utf8 bs
      else case utf8_lead b of
        None \<Rightarrow> False
      | Some (n, lo, hi) \<Rightarrow>
          (case bs of
             [] \<Rightarrow> False
           | c # cs \<Rightarrow> lo \<le> c \<and> c \<le> hi \<and> utf8_conts cs n \<and> valid_utf8 (drop n cs)))"
  by pat_completeness auto
termination
  by (relation "measure length") auto

definition from_utf8 :: "bytes \<Rightarrow> str option" where
  "from_utf8 bs = (if valid_utf8 bs then Some bs else None)"

lemma from_utf8_eq_Some [simp]: "from_utf8 bs = Some s \<longleftrightarrow> valid_utf8 bs \<and> s = bs"
  by (auto simp: from_utf8_def)

lemma utf8_conts_append: "utf8_conts xs n \<Longrightarrow> utf8_conts (xs @ ys) n \<and> n \<le> length xs"
  by (induction xs n rule: utf8_conts.induct) auto

lemma valid_utf8_append: "valid_utf8 xs \<Longrightarrow> valid_utf8 ys \<Longrightarrow> valid_utf8 (xs @ ys)"
proof (induction xs rule: valid_utf8.induct)
  case 1
  then show ?case by simp
next
  case (2 b bs)
  show ?case
  proof (cases "b < 0x80")
    case True
    with 2 show ?thesis by simp
  next
    case False
    with "2.prems"(1) obtain n lo hi c cs where
      lead: "utf8_lead b = Some (n, lo, hi)" and bs: "bs = c # cs" and
      ok: "lo \<le> c" "c \<le> hi" "utf8_conts cs n" "valid_utf8 (drop n cs)"
      by (cases bs) (auto split: option.splits)
    have "valid_utf8 (drop n cs @ ys)"
      using "2.IH"(2) [OF False lead refl refl bs] ok "2.prems"(2) by simp
    with False lead bs ok utf8_conts_append [OF ok(3), of ys] show ?thesis
      by simp
  qed
qed

lemma valid_utf8_ascii: "(\<forall>b\<in>set bs. b < 0x80) \<Longrightarrow> valid_utf8 bs"
  by (induction bs) auto

section \<open>Object ids\<close>

text \<open>
  The \<^verbatim>\<open>gix_hash\<close> data the sources pass around: an \<^verbatim>\<open>ObjectId\<close> is a SHA-1 or SHA-256
  digest, that is, 20 or 32 bytes, and its \<^verbatim>\<open>kind()\<close> is told by its width.
  \<^verbatim>\<open>ObjectId::try_from\<close> on a byte slice accepts exactly these two widths.
\<close>

type_synonym ObjectId = bytes

datatype HashKind = Sha1 | Sha256

fun len_in_bytes :: "HashKind \<Rightarrow> nat" where
  "len_in_bytes Sha1 = 20"
| "len_in_bytes Sha256 = 32"

definition oid_ok :: "ObjectId \<Rightarrow> bool" where
  "oid_ok i \<longleftrightarrow> length i = 20 \<or> length i = 32"

definition oid_kind :: "ObjectId \<Rightarrow> HashKind" where
  "oid_kind i = (if length i = 20 then Sha1 else Sha256)"

definition oid_try_from :: "bytes \<Rightarrow> ObjectId option" where
  "oid_try_from bs = (if oid_ok bs then Some bs else None)"

lemma len_in_bytes_oid_kind: "oid_ok i \<Longrightarrow> len_in_bytes (oid_kind i) = length i"
  by (auto simp: oid_ok_def oid_kind_def)

lemma oid_ok_len_in_bytes: "length i = len_in_bytes k \<Longrightarrow> oid_ok i"
  by (cases k) (simp_all add: oid_ok_def)

lemma oid_kind_len_in_bytes: "length i = len_in_bytes k \<Longrightarrow> oid_kind i = k"
  by (cases k) (simp_all add: oid_kind_def)

lemma oid_try_from_eq_Some [simp]: "oid_try_from bs = Some i \<longleftrightarrow> oid_ok bs \<and> i = bs"
  by (auto simp: oid_try_from_def)

section \<open>The codec interface\<close>

text \<open>
  Every key and value of the store is written by an encoder and read back by a decoder.
  The contract: decoding an encoding of a well-formed value gives the value back, and a
  successful decode is of a well-formed value whose encoding is exactly the input, so
  that no two byte strings stand for the same value.
\<close>

locale codec =
  fixes encode :: "'v \<Rightarrow> bytes"
    and decode :: "bytes \<Rightarrow> 'e + 'v"
    and wf :: "'v \<Rightarrow> bool"
  assumes roundtrip: "wf v \<Longrightarrow> decode (encode v) = Inr v"
    and canonical: "decode bs = Inr v \<Longrightarrow> wf v \<and> encode v = bs"
begin

lemma decode_iff: "decode bs = Inr v \<longleftrightarrow> wf v \<and> bs = encode v"
  using roundtrip canonical by blast

lemma encode_inj: "wf v \<Longrightarrow> wf w \<Longrightarrow> encode v = encode w \<longleftrightarrow> v = w"
  using roundtrip by (metis sum.inject(2))

lemma inj_on_encode: "inj_on encode {v. wf v}"
  using encode_inj by (auto intro: inj_onI)

lemma decode_unique: "decode bs = Inr v \<Longrightarrow> decode cs = Inr v \<Longrightarrow> bs = cs"
  using canonical by blast

end

end
