(* ===== verification/Zlib.thy ===== *)
theory Zlib
  imports Prelude
begin

text \<open>
  \<^verbatim>\<open>src/storage/zlib.rs\<close>: the deflate and inflate wrappers every stored object goes
  through. The compressor itself (\<^verbatim>\<open>zlib_rs\<close>) is a parameter: a record of the two calls
  the wrappers make, with the documented inverse law as a named predicate.
\<close>

text \<open>
  \<open>compress_slice level content\<close> is the stream \<^verbatim>\<open>zlib_rs::compress_slice\<close> writes into a
  buffer of \<^verbatim>\<open>compress_bound\<close> bytes; \<open>decompress_slice n stream\<close> is the return code
  (whether it is \<^verbatim>\<open>Ok\<close>) and the content written into an output buffer of \<open>n\<close> bytes.
\<close>

record zlib_rs =
  compress_slice :: "u32 \<Rightarrow> bytes \<Rightarrow> bytes"
  decompress_slice :: "nat \<Rightarrow> bytes \<Rightarrow> bool \<times> bytes"

definition deflate :: "zlib_rs \<Rightarrow> bytes \<Rightarrow> u32 \<Rightarrow> bytes" where
  "deflate Z content level = compress_slice Z level content"

definition inflate :: "zlib_rs \<Rightarrow> bytes \<Rightarrow> u64 \<Rightarrow> bytes option" where
  "inflate Z zlib uncompressed_len =
     (let (ok_code, content) = decompress_slice Z (unat uncompressed_len) zlib;
          ok = (ok_code \<and> word_of_nat (length content) = uncompressed_len) in
      if ok then Some content else None)"

text \<open>
  What zlib documents: a stream inflates, into a buffer of the content's size, to the
  content it was deflated from at one of the levels 0 to 9; and no more than the buffer is written.
  The level is a setting that is rejected outside this range when the server starts.
\<close>

definition zlib_ok :: "zlib_rs \<Rightarrow> bool" where
  "zlib_ok Z \<longleftrightarrow>
     (\<forall>level content. level \<le> 9 \<longrightarrow> decompress_slice Z (length content) (compress_slice Z level content) = (True, content)) \<and>
     (\<forall>n stream. length (snd (decompress_slice Z n stream)) \<le> n)"

lemma inflate_length:
  assumes "zlib_ok Z" and "inflate Z stream n = Some content"
  shows "length content = unat n"
proof -
  let ?r = "decompress_slice Z (unat n) stream"
  from assms(2) have c: "content = snd ?r" "word_of_nat (length content) = n"
    by (auto simp: inflate_def Let_def split: prod.splits if_splits)
  have "length content \<le> unat n"
    using assms(1) c(1) by (simp add: zlib_ok_def)
  also have "unat n < 2 ^ 64"
    using unsigned_less [of n, where 'a = nat] by simp
  finally have "length content < 2 ^ 64" .
  then have "unat (word_of_nat (length content) :: u64) = length content"
    by (simp add: unat_of_nat)
  then show ?thesis using c(2) by simp
qed

lemma inflate_deflate:
  assumes "zlib_ok Z" and "length content < 2 ^ 64" and "level \<le> 9"
  shows "inflate Z (deflate Z content level) (word_of_nat (length content)) = Some content"
proof -
  have "unat (word_of_nat (length content) :: u64) = length content"
    using assms(2) by (simp add: unat_of_nat)
  then show ?thesis
    using assms(1,3) by (simp add: inflate_def deflate_def zlib_ok_def)
qed

text \<open>A concrete compressor that satisfies the law: it stores the content uncompressed.\<close>

definition stored_zlib :: zlib_rs where
  "stored_zlib = \<lparr>compress_slice = (\<lambda>level content. content),
                  decompress_slice = (\<lambda>n stream. (length stream \<le> n, take n stream))\<rparr>"

lemma stored_zlib_ok: "zlib_ok stored_zlib"
  by (simp add: zlib_ok_def stored_zlib_def)

end
