(* ===== verification/Values.thy ===== *)
theory Values
  imports Prelude
begin

text \<open>
  The value codec of \<^verbatim>\<open>src/storage/values.rs\<close>: metadata values, object records, ref
  targets and commit-graph records, each a one-byte tag (but for the commit-graph record)
  followed by its payload. The lemmas give each codec both directions of its contract
  (round trip and canonicity), every error branch of the fixed-width decoders, and the
  limit the one-byte parent count puts on commit-graph records.
\<close>

section \<open>Definitions\<close>

datatype ValueError =
    Empty
  | UnknownTag u8
  | Truncated
  | TrailingBytes
  | InvalidUtf8
  | InvalidObjectId

text \<open>\<^verbatim>\<open>gix_object::Kind\<close>: the four object kinds of git.\<close>

datatype Kind = KBlob | KTree | KCommit | KTag

text \<open>Both readers take the first bytes of a slice that the callers have length-checked.\<close>

definition read_u32_be :: "bytes \<Rightarrow> u32" where
  "read_u32_be bs = from_be_bytes (take 4 bs)"

definition read_u64_be :: "bytes \<Rightarrow> u64" where
  "read_u64_be bs = from_be_bytes (take 8 bs)"

datatype MetaValue =
    MUtf8 str
  | MU8 u8
  | MU32 u32
  | MRaw bytes

fun meta_encode :: "MetaValue \<Rightarrow> bytes" where
  "meta_encode (MUtf8 s) = 0x01 # s"
| "meta_encode (MU8 v) = [0x02, v]"
| "meta_encode (MU32 v) = 0x03 # u32_to_be_bytes v"
| "meta_encode (MRaw bs) = 0x04 # bs"

definition meta_decode :: "bytes \<Rightarrow> ValueError + MetaValue" where
  "meta_decode bs =
     (case bs of
        [] \<Rightarrow> Inl Empty
      | tag # rest \<Rightarrow>
          if tag = 0x01 then
            and_then (ok_or InvalidUtf8 (from_utf8 rest)) (\<lambda>s. Inr (MUtf8 s))
          else if tag = 0x02 then
            (if length rest = 0 then Inl Truncated
             else if length rest = 1 then Inr (MU8 (rest ! 0))
             else Inl TrailingBytes)
          else if tag = 0x03 then
            (if length rest < 4 then Inl Truncated
             else if length rest = 4 then Inr (MU32 (read_u32_be rest))
             else Inl TrailingBytes)
          else if tag = 0x04 then Inr (MRaw rest)
          else Inl (UnknownTag tag))"

datatype ObjectRecord =
    BlobInline u64 bytes
  | BlobPointer u64
  | TreeRecord u64 bytes
  | CommitRecord u64 bytes
  | TagRecord u64 bytes

fun record_kind :: "ObjectRecord \<Rightarrow> Kind" where
  "record_kind (BlobInline _ _) = KBlob"
| "record_kind (BlobPointer _) = KBlob"
| "record_kind (TreeRecord _ _) = KTree"
| "record_kind (CommitRecord _ _) = KCommit"
| "record_kind (TagRecord _ _) = KTag"

fun record_size :: "ObjectRecord \<Rightarrow> u64" where
  "record_size (BlobPointer sz) = sz"
| "record_size (BlobInline uncompressed_len _) = uncompressed_len"
| "record_size (TreeRecord uncompressed_len _) = uncompressed_len"
| "record_size (CommitRecord uncompressed_len _) = uncompressed_len"
| "record_size (TagRecord uncompressed_len _) = uncompressed_len"

definition encode_compressed :: "u8 \<Rightarrow> u64 \<Rightarrow> bytes \<Rightarrow> bytes" where
  "encode_compressed tag uncompressed_len zlib = [tag] @ u64_to_be_bytes uncompressed_len @ zlib"

definition decode_compressed :: "bytes \<Rightarrow> ValueError + (u64 \<times> bytes)" where
  "decode_compressed rest =
     (if length rest < 8 then Inl Truncated
      else Inr (read_u64_be (take 8 rest), drop 8 rest))"

fun record_encode :: "ObjectRecord \<Rightarrow> bytes" where
  "record_encode (BlobInline n z) = encode_compressed 0x01 n z"
| "record_encode (BlobPointer sz) = 0x02 # u64_to_be_bytes sz"
| "record_encode (TreeRecord n z) = encode_compressed 0x03 n z"
| "record_encode (CommitRecord n z) = encode_compressed 0x04 n z"
| "record_encode (TagRecord n z) = encode_compressed 0x05 n z"

definition record_decode :: "bytes \<Rightarrow> ValueError + ObjectRecord" where
  "record_decode bs =
     (case bs of
        [] \<Rightarrow> Inl Empty
      | tag # rest \<Rightarrow>
          if tag = 0x01 then and_then (decode_compressed rest) (\<lambda>(n, z). Inr (BlobInline n z))
          else if tag = 0x02 then
            (if length rest < 8 then Inl Truncated
             else if length rest = 8 then Inr (BlobPointer (read_u64_be rest))
             else Inl TrailingBytes)
          else if tag = 0x03 then and_then (decode_compressed rest) (\<lambda>(n, z). Inr (TreeRecord n z))
          else if tag = 0x04 then and_then (decode_compressed rest) (\<lambda>(n, z). Inr (CommitRecord n z))
          else if tag = 0x05 then and_then (decode_compressed rest) (\<lambda>(n, z). Inr (TagRecord n z))
          else Inl (UnknownTag tag))"

datatype RefTarget =
    Direct ObjectId
  | Reference str

fun target_encode :: "RefTarget \<Rightarrow> bytes" where
  "target_encode (Direct i) = 0x01 # i"
| "target_encode (Reference name) = 0x02 # name"

definition target_decode :: "bytes \<Rightarrow> ValueError + RefTarget" where
  "target_decode bs =
     (case bs of
        [] \<Rightarrow> Inl Empty
      | tag # rest \<Rightarrow>
          if tag = 0x01 then
            and_then (ok_or InvalidObjectId (oid_try_from rest)) (\<lambda>i. Inr (Direct i))
          else if tag = 0x02 then
            and_then (ok_or InvalidUtf8 (from_utf8 rest)) (\<lambda>s. Inr (Reference s))
          else Inl (UnknownTag tag))"

record CommitGraphRecord =
  generation :: u32
  root_tree :: ObjectId
  parents :: "ObjectId list"

text \<open>\<^verbatim>\<open>self.parents.len() as u8\<close> truncates: the count is taken modulo 256.\<close>

definition graph_encode :: "CommitGraphRecord \<Rightarrow> bytes" where
  "graph_encode g =
     u32_to_be_bytes (generation g) @ root_tree g @ [word_of_nat (length (parents g))]
       @ concat (parents g)"

text \<open>The loop that reads \<^verbatim>\<open>parent_count\<close> ids of \<open>width\<close> bytes each, from \<^verbatim>\<open>header_len\<close> on.\<close>

fun decode_parents :: "bytes \<Rightarrow> nat \<Rightarrow> nat \<Rightarrow> nat \<Rightarrow> nat \<Rightarrow> ValueError + ObjectId list" where
  "decode_parents bs header_len width i 0 = Inr []"
| "decode_parents bs header_len width i (Suc n) =
     (let start = header_len + i * width in
      and_then (ok_or InvalidObjectId (oid_try_from (take width (drop start bs)))) (\<lambda>p.
      and_then (decode_parents bs header_len width (Suc i) n) (\<lambda>ps.
      Inr (p # ps))))"

definition graph_decode :: "bytes \<Rightarrow> HashKind \<Rightarrow> ValueError + CommitGraphRecord" where
  "graph_decode bs hash_kind =
     (let width = len_in_bytes hash_kind;
          header_len = 4 + width + 1 in
      if length bs < header_len then Inl Truncated
      else
        let gen = read_u32_be (take 4 bs) in
        and_then (ok_or InvalidObjectId (oid_try_from (take width (drop 4 bs)))) (\<lambda>tree.
        let parent_count = unat (bs ! (4 + width));
            expected_len = header_len + parent_count * width in
        if length bs < expected_len then Inl Truncated
        else if length bs > expected_len then Inl TrailingBytes
        else
          and_then (decode_parents bs header_len width 0 parent_count) (\<lambda>ps.
          Inr \<lparr>generation = gen, root_tree = tree, parents = ps\<rparr>)))"

section \<open>Well-formed values\<close>

text \<open>What Rust's types guarantee of a value: strings are UTF-8, ids are 20 or 32 bytes.\<close>

fun meta_wf :: "MetaValue \<Rightarrow> bool" where
  "meta_wf (MUtf8 s) = valid_utf8 s"
| "meta_wf _ = True"

fun target_wf :: "RefTarget \<Rightarrow> bool" where
  "target_wf (Direct i) = oid_ok i"
| "target_wf (Reference s) = valid_utf8 s"

text \<open>A commit-graph record of a repository of hash kind \<open>k\<close> that fits the one-byte count.\<close>

definition graph_uniform :: "HashKind \<Rightarrow> CommitGraphRecord \<Rightarrow> bool" where
  "graph_uniform k g \<longleftrightarrow>
     length (root_tree g) = len_in_bytes k \<and> (\<forall>p\<in>set (parents g). length p = len_in_bytes k)"

definition graph_wf :: "HashKind \<Rightarrow> CommitGraphRecord \<Rightarrow> bool" where
  "graph_wf k g \<longleftrightarrow> graph_uniform k g \<and> length (parents g) \<le> 255"

section \<open>The scalar codecs\<close>

lemma read_u32_be_append [simp]: "read_u32_be (u32_to_be_bytes w @ r) = w"
  by (simp add: read_u32_be_def)

lemma read_u64_be_append [simp]: "read_u64_be (u64_to_be_bytes w @ r) = w"
  by (simp add: read_u64_be_def)

lemma read_u32_be_exact [simp]: "read_u32_be (u32_to_be_bytes w) = w"
  by (simp add: read_u32_be_def)

lemma read_u64_be_exact [simp]: "read_u64_be (u64_to_be_bytes w) = w"
  by (simp add: read_u64_be_def)

lemma u32_read: "4 \<le> length bs \<Longrightarrow> u32_to_be_bytes (read_u32_be bs) = take 4 bs"
  by (simp add: read_u32_be_def u32_to_from_be_bytes)

lemma u64_read: "8 \<le> length bs \<Longrightarrow> u64_to_be_bytes (read_u64_be bs) = take 8 bs"
  by (simp add: read_u64_be_def u64_to_from_be_bytes)

interpretation meta_values: codec meta_encode meta_decode meta_wf
proof
  fix v assume "meta_wf v"
  then show "meta_decode (meta_encode v) = Inr v"
    by (cases v) (auto simp: meta_decode_def from_utf8_def)
next
  fix bs v assume "meta_decode bs = Inr v"
  then show "meta_wf v \<and> meta_encode v = bs"
    by (auto simp: meta_decode_def and_then_eq_Inr u32_read from_utf8_def length_Suc_conv
        split: list.splits if_splits)
qed

lemma decode_compressed_eq_Inr:
  "decode_compressed rest = Inr (n, z) \<longleftrightarrow> rest = u64_to_be_bytes n @ z"
proof
  assume a: "decode_compressed rest = Inr (n, z)"
  then have "u64_to_be_bytes n = take 8 rest" "z = drop 8 rest"
    by (auto simp: decode_compressed_def u64_read split: if_splits)
  then show "rest = u64_to_be_bytes n @ z" by simp
qed (simp add: decode_compressed_def read_u64_be_def)

interpretation object_records: codec record_encode record_decode "\<lambda>_. True"
proof
  fix v show "record_decode (record_encode v) = Inr v"
    by (cases v) (auto simp: record_decode_def encode_compressed_def and_then_eq_Inr
        decode_compressed_eq_Inr)
next
  fix bs v assume "record_decode bs = Inr v"
  then show "True \<and> record_encode v = bs"
    by (auto simp: record_decode_def encode_compressed_def and_then_eq_Inr decode_compressed_eq_Inr
        u64_read split: list.splits if_splits)
qed

interpretation ref_targets: codec target_encode target_decode target_wf
proof
  fix v assume "target_wf v"
  then show "target_decode (target_encode v) = Inr v"
    by (cases v) (auto simp: target_decode_def oid_try_from_def from_utf8_def)
next
  fix bs v assume "target_decode bs = Inr v"
  then show "target_wf v \<and> target_encode v = bs"
    by (auto simp: target_decode_def and_then_eq_Inr from_utf8_def split: list.splits if_splits)
qed

section \<open>The commit-graph codec\<close>

lemma oid_ok_width: "length i = len_in_bytes k \<Longrightarrow> oid_try_from i = Some i"
  by (simp add: oid_ok_len_in_bytes)

lemma length_concat_uniform: "(\<forall>p\<in>set ps. length p = w) \<Longrightarrow> length (concat ps) = length ps * w"
  by (induction ps) auto

lemma decode_parents_concat:
  assumes "\<forall>p\<in>set qs. length p = len_in_bytes k"
    and "drop (h + i * len_in_bytes k) bs = concat qs"
  shows "decode_parents bs h (len_in_bytes k) i (length qs) = Inr qs"
  using assms
proof (induction qs arbitrary: i)
  case Nil
  then show ?case by simp
next
  case (Cons q qs)
  let ?w = "len_in_bytes k"
  from Cons.prems have q: "length q = ?w" and qs: "\<forall>p\<in>set qs. length p = ?w"
    and here: "drop (h + i * ?w) bs = q @ concat qs" by auto
  have "drop (h + Suc i * ?w) bs = drop ?w (drop (h + i * ?w) bs)"
    by (simp add: algebra_simps)
  with here q have "drop (h + Suc i * ?w) bs = concat qs" by simp
  then have "decode_parents bs h ?w (Suc i) (length qs) = Inr qs"
    by (rule Cons.IH [OF qs])
  moreover have "oid_try_from (take ?w (drop (h + i * ?w) bs)) = Some q"
    using here q by (simp add: oid_ok_len_in_bytes)
  ultimately show ?case
    by (auto simp: Let_def and_then_eq_Inr)
qed

lemma decode_parents_Inr:
  assumes "decode_parents bs h w i n = Inr qs" and "h + (i + n) * w \<le> length bs"
  shows "length qs = n \<and> (\<forall>q\<in>set qs. length q = w) \<and> concat qs = take (n * w) (drop (h + i * w) bs)"
  using assms
proof (induction n arbitrary: i qs)
  case 0
  then show ?case by simp
next
  case (Suc n)
  from Suc.prems(1) obtain q qs' where qs: "qs = q # qs'"
    and q: "q = take w (drop (h + i * w) bs)"
    and rest: "decode_parents bs h w (Suc i) n = Inr qs'"
    by (auto simp: Let_def and_then_eq_Inr)
  have len: "h + (Suc i + n) * w \<le> length bs"
    using Suc.prems(2) by (simp add: algebra_simps)
  have "length q = w"
    using Suc.prems(2) q by (simp add: algebra_simps)
  moreover have "take (Suc n * w) (drop (h + i * w) bs)
      = q @ take (n * w) (drop (h + Suc i * w) bs)"
    unfolding q by (simp add: take_add algebra_simps)
  ultimately show ?case
    using Suc.IH [OF rest len] by (simp add: qs)
qed

lemma graph_encode_parts:
  assumes "graph_uniform k g"
  defines "h \<equiv> 4 + len_in_bytes k + 1"
  shows "length (graph_encode g) = h + length (parents g) * len_in_bytes k"
    and "take 4 (graph_encode g) = u32_to_be_bytes (generation g)"
    and "take (len_in_bytes k) (drop 4 (graph_encode g)) = root_tree g"
    and "graph_encode g ! (4 + len_in_bytes k) = word_of_nat (length (parents g))"
    and "drop h (graph_encode g) = concat (parents g)"
  using assms length_concat_uniform [of "parents g" "len_in_bytes k"]
  by (auto simp: graph_encode_def graph_uniform_def nth_append)

lemma graph_decode_encode:
  assumes "graph_wf k g"
  shows "graph_decode (graph_encode g) k = Inr g"
proof -
  from assms have u: "graph_uniform k g" and n: "length (parents g) \<le> 255"
    by (auto simp: graph_wf_def)
  have cnt: "unat (word_of_nat (length (parents g)) :: u8) = length (parents g)"
    using n by (simp add: unat_of_nat)
  have ps: "\<forall>p\<in>set (parents g). length p = len_in_bytes k"
    and t: "length (root_tree g) = len_in_bytes k"
    using u by (auto simp: graph_uniform_def)
  have "decode_parents (graph_encode g) (4 + len_in_bytes k + 1) (len_in_bytes k) 0 (length (parents g))
      = Inr (parents g)"
    by (rule decode_parents_concat [OF ps]) (use graph_encode_parts [OF u] in simp)
  then show ?thesis
    unfolding graph_decode_def Let_def graph_encode_parts [OF u] cnt
    by (simp add: oid_ok_width [OF t])
qed

lemma graph_decode_canonical:
  assumes "graph_decode bs k = Inr g"
  shows "graph_wf k g \<and> graph_encode g = bs"
proof -
  let ?w = "len_in_bytes k"
  let ?n = "unat (bs ! (4 + ?w))"
  from assms have len: "length bs = 4 + ?w + 1 + ?n * ?w"
    and gen: "generation g = read_u32_be (take 4 bs)"
    and tree: "root_tree g = take ?w (drop 4 bs)"
    and ps: "decode_parents bs (4 + ?w + 1) ?w 0 ?n = Inr (parents g)"
    by (auto simp: graph_decode_def Let_def and_then_eq_Inr split: if_splits)
  have p: "length (parents g) = ?n" "\<forall>q\<in>set (parents g). length q = ?w"
    "concat (parents g) = drop (4 + ?w + 1) bs"
    using decode_parents_Inr [OF ps] len by auto
  have "unat (bs ! (4 + ?w)) < 256"
    using unsigned_less [of "bs ! (4 + ?w)", where 'a = nat] by simp
  then have wf: "graph_wf k g"
    using p len tree by (auto simp: graph_wf_def graph_uniform_def)
  have split: "bs = take 4 bs @ take ?w (drop 4 bs) @ drop ?w (drop 4 bs)"
    by (simp only: append_take_drop_id)
  have "4 + ?w < length bs" using len by simp
  then have count: "drop ?w (drop 4 bs) = [bs ! (4 + ?w)] @ drop (4 + ?w + 1) bs"
    using Cons_nth_drop_Suc [of "4 + ?w" bs] by (simp add: add.commute)
  have "graph_encode g = take 4 bs @ take ?w (drop 4 bs) @ [bs ! (4 + ?w)] @ drop (4 + ?w + 1) bs"
    unfolding graph_encode_def gen tree p(1) p(3) using len by (simp add: u32_read)
  also have "\<dots> = bs"
    unfolding count [symmetric] using split by (rule sym)
  finally show ?thesis using wf by simp
qed

interpretation graph_records: codec graph_encode "\<lambda>bs. graph_decode bs k" "graph_wf k" for k
  by unfold_locales (auto simp: graph_decode_encode graph_decode_canonical)

lemma graph_count_wraps:
  assumes "graph_uniform k g" and "256 \<le> length (parents g)"
  shows "graph_decode (graph_encode g) k = Inl TrailingBytes"
proof -
  let ?n = "length (parents g)"
  have t: "length (root_tree g) = len_in_bytes k"
    using assms(1) by (auto simp: graph_uniform_def)
  have "unat (word_of_nat ?n :: u8) = ?n mod 256"
    by (simp add: unat_of_nat)
  moreover have "?n mod 256 < ?n"
    using assms(2) by (meson mod_less_divisor order_less_le_trans zero_less_numeral)
  moreover have "0 < len_in_bytes k" by (cases k) simp_all
  ultimately have "unat (word_of_nat ?n :: u8) * len_in_bytes k < ?n * len_in_bytes k"
    by simp
  then show ?thesis
    unfolding graph_decode_def Let_def graph_encode_parts [OF assms(1)]
    by (simp add: oid_ok_width [OF t])
qed

section \<open>Properties\<close>

text \<open>C29: Each value codec is exact: a byte string decodes to a value precisely when it is that
  value's encoding and the value is one Rust's types admit (a commit-graph record: of the
  repository's hash kind, with at most 255 parents).\<close>

theorem values_decode_exactly:
  "(meta_decode bs = Inr m \<longleftrightarrow> meta_wf m \<and> bs = meta_encode m) \<and>
   (record_decode bs = Inr rec \<longleftrightarrow> bs = record_encode rec) \<and>
   (target_decode bs = Inr t \<longleftrightarrow> target_wf t \<and> bs = target_encode t) \<and>
   (graph_decode bs k = Inr g \<longleftrightarrow> graph_wf k g \<and> bs = graph_encode g)"
  using meta_values.decode_iff object_records.decode_iff ref_targets.decode_iff
    graph_records.decode_iff by simp

text \<open>C37: The parent count of a commit-graph record is one byte: a record of a commit with 256 or
  more parents encodes without complaint and then never decodes.\<close>

theorem octopus_record_unreadable:
  assumes "graph_uniform k g" and "256 \<le> length (parents g)"
  shows "graph_decode (graph_encode g) k = Inl TrailingBytes"
  using assms by (rule graph_count_wraps)

theorem octopus_record_unreadable_witness:
  "graph_decode (graph_encode \<lparr>generation = 1, root_tree = replicate 20 0,
     parents = replicate 256 (replicate 20 0)\<rparr>) Sha1 = Inl TrailingBytes"
  by (rule octopus_record_unreadable) (simp_all add: graph_uniform_def)

end
