(* ===== verification/Delta_Correct.thy ===== *)
theory Delta_Correct
  imports Delta
begin

text \<open>
  Correctness of the delta encoder (\<^verbatim>\<open>src/git/pack_out.rs\<close>) against a decoder for git's
  delta format, equivalence of the word-at-a-time prefix comparison and of the rolling
  fingerprint with their plain definitions, and the bounds that keep the block index and
  the slices inside their buffers.
\<close>

section \<open>Git's delta format\<close>

text \<open>
  The reference decoder, from the pack-format documentation: two little-endian base-128
  sizes, then instructions. A command byte with the high bit set copies: bits 0 to 3 say
  which offset bytes follow, bits 4 to 6 which size bytes, and size 0 stands for 65536.
  A command byte from 1 to 127 inserts that many literal bytes; 0 is reserved.
\<close>

fun read_varint :: "bytes \<Rightarrow> (nat \<times> bytes) option" where
  "read_varint [] = None"
| "read_varint (b # bs) =
     (if b AND 0x80 = 0 then Some (unat b, bs)
      else case read_varint bs of
        None \<Rightarrow> None
      | Some (n, rest) \<Rightarrow> Some (unat (b AND 0x7f) + 128 * n, rest))"

fun read_field :: "u8 \<Rightarrow> (u8 \<times> nat) list \<Rightarrow> bytes \<Rightarrow> (nat \<times> bytes) option" where
  "read_field cmd [] bs = Some (0, bs)"
| "read_field cmd ((m, sh) # fs) bs =
     (if cmd AND m = 0 then read_field cmd fs bs
      else case bs of
        [] \<Rightarrow> None
      | b # bs \<Rightarrow>
          (case read_field cmd fs bs of
             None \<Rightarrow> None
           | Some (n, rest) \<Rightarrow> Some (unat b * 2 ^ sh + n, rest)))"

lemma read_field_shorter: "read_field cmd fs bs = Some (n, rest) \<Longrightarrow> length rest \<le> length bs"
proof (induction cmd fs bs arbitrary: n rest rule: read_field.induct)
  case (2 cmd m sh fs bs)
  then show ?case
    by (cases bs) (fastforce split: if_splits option.splits)+
qed simp

function apply_instrs :: "bytes \<Rightarrow> bytes \<Rightarrow> bytes \<Rightarrow> bytes option" where
  "apply_instrs base [] out = Some out"
| "apply_instrs base (cmd # rest) out =
     (if cmd AND 0x80 \<noteq> 0 then
        (case read_field cmd [(0x01, 0), (0x02, 8), (0x04, 16), (0x08, 24)] rest of
           None \<Rightarrow> None
         | Some (offset, rest1) \<Rightarrow>
             (case read_field cmd [(0x10, 0), (0x20, 8), (0x40, 16)] rest1 of
                None \<Rightarrow> None
              | Some (sz, rest2) \<Rightarrow>
                  let len = (if sz = 0 then 0x10000 else sz) in
                  if offset + len \<le> length base
                  then apply_instrs base rest2 (out @ slice base offset (offset + len))
                  else None))
      else if cmd = 0 \<or> length rest < unat cmd then None
      else apply_instrs base (drop (unat cmd) rest) (out @ take (unat cmd) rest))"
  by pat_completeness auto
termination
  by (relation "measure (\<lambda>(base, bs, out). length bs)") (auto simp del: read_field.simps dest!: read_field_shorter)

definition apply_delta :: "bytes \<Rightarrow> bytes \<Rightarrow> bytes option" where
  "apply_delta base delta =
     (case read_varint delta of
        None \<Rightarrow> None
      | Some (base_size, rest) \<Rightarrow>
          (case read_varint rest of
             None \<Rightarrow> None
           | Some (tsize, instrs) \<Rightarrow>
               if base_size \<noteq> length base then None
               else
                 (case apply_instrs base instrs [] of
                    None \<Rightarrow> None
                  | Some out \<Rightarrow> if length out = tsize then Some out else None)))"

section \<open>Sizes\<close>

lemma bit_0x80: "bit (0x80 :: u8) i \<longleftrightarrow> i = 7"
proof -
  have "(0x80 :: u8) = 2 ^ 7" by simp
  then show ?thesis by (simp only: bit_exp_iff) auto
qed

lemma bit_0x7f: "bit (0x7f :: u8) i \<longleftrightarrow> i < 7"
proof -
  have "(0x7f :: u8) = mask 7" by (simp add: mask_eq_exp_minus_1)
  then show ?thesis by (simp only: bit_mask_iff) auto
qed

lemma high_bit_cases:
  assumes "unat (b :: u8) < 128"
  shows "b AND 0x80 = 0" "(b OR 0x80) AND 0x80 \<noteq> 0" "(b OR 0x80) AND 0x7f = b"
proof -
  have "take_bit 7 b = b"
    using assms by (simp add: word_unat_eq_iff unsigned_take_bit_eq take_bit_eq_mod unat_mod)
  then have hb: "bit b i \<Longrightarrow> i < 7" for i
    by (metis bit_take_bit_iff)
  show "b AND 0x80 = 0"
    by (rule bit_word_eqI) (auto simp only: bit_and_iff bit_0x80 bit_0_eq bot_apply bot_bool_def dest: hb)
  show "(b OR 0x80) AND 0x7f = b"
    by (rule bit_word_eqI) (auto simp only: bit_and_iff bit_or_iff bit_0x80 bit_0x7f dest: hb)
  have "bit ((b OR 0x80) AND 0x80) 7" by (simp add: bit_simps bit_0x80)
  then show "(b OR 0x80) AND 0x80 \<noteq> 0" by auto
qed

lemma unat_low7: "unat (ucast (sz AND 0x7f) :: u8) = unat (sz :: u64) mod 128"
proof -
  have "(sz AND 0x7f) = take_bit 7 sz"
    by (rule bit_word_eqI) (auto simp: bit_simps bit_numeral_rec numeral_eq_Suc less_Suc_eq)
  then show ?thesis
    by (simp add: unsigned_ucast_eq unsigned_take_bit_eq take_bit_eq_mod unat_mod)
qed

lemma encode_size_varint:
  "\<exists>e. (\<forall>out. encode_size sz out = out @ e) \<and> (\<forall>rest. read_varint (e @ rest) = Some (unat sz, rest))"
proof (induction sz rule: measure_induct_rule [where f = unat])
  case (less sz)
  let ?b = "ucast (sz AND 0x7f) :: u8" and ?sz' = "drop_bit 7 sz"
  have sz': "unat ?sz' = unat sz div 128"
    by (subst unat_drop_bit_eq) (simp add: drop_bit_eq_div)
  have b: "unat ?b = unat sz mod 128" by (rule unat_low7)
  have hi: "?b AND 0x80 = 0" "(?b OR 0x80) AND 0x80 \<noteq> 0" "(?b OR 0x80) AND 0x7f = ?b"
    using high_bit_cases [of ?b] b by simp_all
  show ?case
  proof (cases "?sz' = 0")
    case True
    then have "unat sz div 128 = 0" using sz' by simp
    with b have "unat ?b = unat sz" by simp
    then show ?thesis
      using True hi by (intro exI [of _ "[?b]"]) (simp add: encode_size.simps [of sz] Let_def)
  next
    case False
    then have "unat sz div 128 \<noteq> 0" using sz' by (metis unat_eq_zero)
    then have "unat ?sz' < unat sz" unfolding sz' by simp
    from less [OF this] obtain e where
      e: "\<And>out. encode_size ?sz' out = out @ e" "\<And>rest. read_varint (e @ rest) = Some (unat ?sz', rest)"
      by blast
    have "unat ((?b OR 0x80) AND 0x7f) + 128 * unat ?sz' = unat sz"
      unfolding hi(3) b sz' by simp
    then show ?thesis
      using False e hi(2)
      by (intro exI [of _ "(?b OR 0x80) # e"]) (simp add: encode_size.simps [of sz] Let_def)
  qed
qed

section \<open>Instructions\<close>

text \<open>An instruction sequence that makes the decoder append \<open>bs\<close>, whatever follows.\<close>

definition emits :: "bytes \<Rightarrow> bytes \<Rightarrow> bytes \<Rightarrow> bool" where
  "emits base ins bs \<longleftrightarrow>
     (\<forall>rest out. apply_instrs base (ins @ rest) out = apply_instrs base rest (out @ bs))"

lemma emits_Nil [simp]: "emits base [] []"
  by (simp add: emits_def)

lemma emits_append: "emits base i1 b1 \<Longrightarrow> emits base i2 b2 \<Longrightarrow> emits base (i1 @ i2) (b1 @ b2)"
  by (simp add: emits_def)

lemma emits_apply: "emits base ins bs \<Longrightarrow> apply_instrs base ins [] = Some bs"
  unfolding emits_def by (metis append_Nil append_Nil2 apply_instrs.simps(1))

lemma emits_literal:
  assumes "bs \<noteq> []" and "length bs \<le> 127"
  shows "emits base ([word_of_nat (length bs)] @ bs) bs"
proof -
  let ?c = "word_of_nat (length bs) :: u8"
  have c: "unat ?c = length bs" using assms(2) by (simp add: unat_of_nat)
  then have "?c AND 0x80 = 0" "?c \<noteq> 0"
    using assms high_bit_cases(1) [of ?c] by auto
  with c show ?thesis by (simp add: emits_def)
qed

lemma append_insert_chunks:
  assumes "\<forall>c\<in>set cs. c \<noteq> [] \<and> length c \<le> 127"
  shows "\<exists>ins. foldl append_insert_chunk out cs = out @ ins \<and> emits base ins (concat cs)"
  using assms
proof (induction cs arbitrary: out)
  case Nil
  then show ?case by simp
next
  case (Cons c cs)
  let ?i = "[word_of_nat (length c)] @ c"
  from Cons.prems have c: "c \<noteq> []" "length c \<le> 127" by auto
  from Cons.IH [of "out @ ?i"] Cons.prems obtain ins where
    ins: "foldl append_insert_chunk (out @ ?i) cs = (out @ ?i) @ ins" "emits base ins (concat cs)"
    by auto
  have "emits base (?i @ ins) (c @ concat cs)"
    by (rule emits_append [OF emits_literal [OF c] ins(2)])
  moreover have "append_insert_chunk out c = out @ ?i"
    using c by (simp add: append_insert_chunk_def)
  ultimately show ?case
    using ins(1) by (intro exI [of _ "?i @ ins"]) simp
qed

lemma append_insert_emits:
  "\<exists>ins. append_insert out bs = out @ ins \<and> emits base ins bs"
  using append_insert_chunks [of "chunks 127 bs" out base] chunks_bounds [of _ 127 bs]
  by (auto simp: append_insert_def concat_chunks)

section \<open>Copy commands\<close>

lemma byte_of_nat [simp]: "unat (word_of_nat (n mod 256) :: u8) = n mod 256"
  by (simp add: unat_of_nat)

lemma byte_of_nat_eq_0: "(word_of_nat (n mod 256) :: u8) = 0 \<longleftrightarrow> n mod 256 = 0"
  by (metis byte_of_nat unat_eq_zero)

lemma nat_bytes4:
  "n mod 256 + (n div 256 mod 256 * 256 + (n div 65536 mod 256 * 65536 + n div 16777216 mod 256 * 16777216))
     = n mod (2 ^ 32 :: nat)"
proof -
  have "n mod (2 ^ 32) = n mod (256 * (256 * (256 * 256)))" by simp
  also have "\<dots> = n mod 256 + 256 * (n div 256 mod 256
      + 256 * (n div 256 div 256 mod 256 + 256 * (n div 256 div 256 div 256 mod 256)))"
    by (simp only: mod_mult2_eq) simp
  finally show ?thesis
    by (simp add: div_mult2_eq [symmetric] algebra_simps)
qed

text \<open>The seven presence bits of a command do not interfere.\<close>

definition command_bits :: "bool \<Rightarrow> bool \<Rightarrow> bool \<Rightarrow> bool \<Rightarrow> bool \<Rightarrow> bool \<Rightarrow> bool \<Rightarrow> u8" where
  "command_bits a b c d e f g =
     (let bits = (\<lambda>p m. if p then m else 0) in
      0x80 OR bits a 1 OR bits b 2 OR bits c 4 OR bits d 8 OR bits e 0x10 OR bits f 0x20 OR bits g 0x40)"

lemma command_bits_test:
  "command_bits a b c d e f g AND 0x80 \<noteq> 0"
  "command_bits a b c d e f g AND 1 = 0 \<longleftrightarrow> \<not> a"
  "command_bits a b c d e f g AND 2 = 0 \<longleftrightarrow> \<not> b"
  "command_bits a b c d e f g AND 4 = 0 \<longleftrightarrow> \<not> c"
  "command_bits a b c d e f g AND 8 = 0 \<longleftrightarrow> \<not> d"
  "command_bits a b c d e f g AND 0x10 = 0 \<longleftrightarrow> \<not> e"
  "command_bits a b c d e f g AND 0x20 = 0 \<longleftrightarrow> \<not> f"
  "command_bits a b c d e f g AND 0x40 = 0 \<longleftrightarrow> \<not> g"
  by (cases a; cases b; cases c; cases d; cases e; cases f; cases g; simp add: command_bits_def)+

lemma copy_field_step:
  "copy_field v (c, p) (m, sh) =
     (let x = word_of_nat ((v div 2 ^ sh) mod 256) :: u8 in
      (c OR (if x \<noteq> 0 then m else 0), p @ (if x \<noteq> 0 then [x] else [])))"
  by (simp add: copy_field_def Let_def)

lemma read_field_step:
  assumes "cmd AND m = 0 \<longleftrightarrow> x = 0" and "read_field cmd fs r = Some (n, rest)"
  shows "read_field cmd ((m, sh) # fs) ((if x \<noteq> 0 then [x] else []) @ r) = Some (unat x * 2 ^ sh + n, rest)"
  using assms by simp

definition present :: "u8 \<Rightarrow> bytes" where
  "present x = (if x \<noteq> 0 then [x] else [])"

lemma copy_command_eq:
  fixes offset n :: nat
  defines "ob \<equiv> \<lambda>i. word_of_nat ((offset div 2 ^ i) mod 256) :: u8"
    and "sb \<equiv> \<lambda>i. if n \<noteq> 0x10000 then word_of_nat ((n div 2 ^ i) mod 256) else (0 :: u8)"
  shows "copy_command offset n =
      command_bits (ob 0 \<noteq> 0) (ob 8 \<noteq> 0) (ob 16 \<noteq> 0) (ob 24 \<noteq> 0) (sb 0 \<noteq> 0) (sb 8 \<noteq> 0) (sb 16 \<noteq> 0)
      # present (ob 0) @ present (ob 8) @ present (ob 16) @ present (ob 24)
        @ present (sb 0) @ present (sb 8) @ present (sb 16)"
proof (cases "n = 0x10000")
  case True
  then show ?thesis
    unfolding copy_command_def foldl_Cons foldl_Nil copy_field_step Let_def
    by (simp add: command_bits_def present_def ob_def sb_def or.assoc)
next
  case False
  then show ?thesis
    unfolding copy_command_def foldl_Cons foldl_Nil copy_field_step Let_def
    by (simp add: command_bits_def present_def ob_def sb_def or.assoc)
qed

lemma read_copy_offset:
  fixes a b c d :: u8
  assumes "cmd AND 1 = 0 \<longleftrightarrow> a = 0" "cmd AND 2 = 0 \<longleftrightarrow> b = 0" "cmd AND 4 = 0 \<longleftrightarrow> c = 0"
    "cmd AND 8 = 0 \<longleftrightarrow> d = 0"
  shows "read_field cmd [(0x01, 0), (0x02, 8), (0x04, 16), (0x08, 24)]
      (present a @ present b @ present c @ present d @ r)
     = Some (unat a * 2 ^ 0 + (unat b * 2 ^ 8 + (unat c * 2 ^ 16 + (unat d * 2 ^ 24 + 0))), r)"
  unfolding present_def by (intro read_field_step assms) (rule read_field.simps)

lemma read_copy_size:
  fixes a b c :: u8
  assumes "cmd AND 0x10 = 0 \<longleftrightarrow> a = 0" "cmd AND 0x20 = 0 \<longleftrightarrow> b = 0" "cmd AND 0x40 = 0 \<longleftrightarrow> c = 0"
  shows "read_field cmd [(0x10, 0), (0x20, 8), (0x40, 16)] (present a @ present b @ present c @ r)
     = Some (unat a * 2 ^ 0 + (unat b * 2 ^ 8 + (unat c * 2 ^ 16 + 0)), r)"
  unfolding present_def by (intro read_field_step assms) (rule read_field.simps)

lemma copy_command_emits:
  assumes "offset + n \<le> length base" and "length base < 2 ^ 32" and "0 < n" and "n \<le> 0x10000"
  shows "emits base (copy_command offset n) (slice base offset (offset + n))"
proof -
  define ob where "ob \<equiv> \<lambda>i. word_of_nat ((offset div 2 ^ i) mod 256) :: u8"
  define sb where "sb \<equiv> \<lambda>i. if n \<noteq> 0x10000 then word_of_nat ((n div 2 ^ i) mod 256) else (0 :: u8)"
  let ?cmd = "command_bits (ob 0 \<noteq> 0) (ob 8 \<noteq> 0) (ob 16 \<noteq> 0) (ob 24 \<noteq> 0) (sb 0 \<noteq> 0) (sb 8 \<noteq> 0) (sb 16 \<noteq> 0)"
  let ?bytes = "present (ob 0) @ present (ob 8) @ present (ob 16) @ present (ob 24)
      @ present (sb 0) @ present (sb 8) @ present (sb 16)"
  have cc: "copy_command offset n = ?cmd # ?bytes"
    unfolding ob_def sb_def by (rule copy_command_eq)
  have ou: "unat (ob i) = offset div 2 ^ i mod 256" for i
    by (simp only: ob_def byte_of_nat)
  have su: "unat (sb i) = (if n \<noteq> 0x10000 then n div 2 ^ i mod 256 else 0)" for i
    unfolding sb_def by (auto simp only: byte_of_nat unsigned_0 split: if_split)
  have off: "unat (ob 0) * 2 ^ 0 + (unat (ob 8) * 2 ^ 8 + (unat (ob 16) * 2 ^ 16 + (unat (ob 24) * 2 ^ 24 + 0))) = offset"
    using nat_bytes4 [of offset] assms(1,2) by (simp add: ou)
  have sz: "unat (sb 0) * 2 ^ 0 + (unat (sb 8) * 2 ^ 8 + (unat (sb 16) * 2 ^ 16 + 0))
      = (if n = 0x10000 then 0 else n)"
    using nat_bytes4 [of n] assms(3,4) by (simp add: su)
  have "apply_instrs base ((?cmd # ?bytes) @ rest) out
      = apply_instrs base rest (out @ slice base offset (offset + n))" for rest out
  proof -
    have o: "read_field ?cmd [(0x01, 0), (0x02, 8), (0x04, 16), (0x08, 24)] (?bytes @ rest)
        = Some (offset, present (sb 0) @ present (sb 8) @ present (sb 16) @ rest)"
      unfolding append_assoc
      by (subst read_copy_offset) (simp_all only: command_bits_test off not_not)
    have z: "read_field ?cmd [(0x10, 0), (0x20, 8), (0x40, 16)]
        (present (sb 0) @ present (sb 8) @ present (sb 16) @ rest) = Some (if n = 0x10000 then 0 else n, rest)"
      by (subst read_copy_size) (simp_all only: command_bits_test sz not_not)
    show ?thesis
      using assms by (simp add: o [unfolded append_assoc] z command_bits_test Let_def del: read_field.simps)
  qed
  then show ?thesis unfolding cc emits_def by blast
qed

lemma append_copy_emits:
  assumes "offset + len \<le> length base" and "length base < 2 ^ 32"
  shows "\<exists>ins. append_copy out offset len = out @ ins \<and> emits base ins (slice base offset (offset + len))"
  using assms
proof (induction out offset len rule: append_copy.induct)
  case (1 out offset len)
  show ?case
  proof (cases "len = 0")
    case True
    then show ?thesis
      by (intro exI [of _ "[]"]) (simp add: append_copy.simps [of out offset 0] slice_def)
  next
    case False
    let ?c = "min len 0x10000"
    let ?i = "copy_command offset ?c"
    from 1(1) [OF False refl] 1(2,3) obtain ins where
      ins: "append_copy (out @ ?i) (offset + ?c) (len - ?c) = (out @ ?i) @ ins"
        "emits base ins (slice base (offset + ?c) (offset + ?c + (len - ?c)))"
      by auto
    have "emits base ?i (slice base offset (offset + ?c))"
      using 1(2,3) False by (intro copy_command_emits) auto
    from emits_append [OF this ins(2)]
    have "emits base (?i @ ins) (slice base offset (offset + len))"
      by (simp add: slice_join)
    moreover have "append_copy out offset len = out @ ?i @ ins"
      using False ins(1) by (simp add: append_copy.simps [of out offset len] Let_def)
    ultimately show ?thesis by blast
  qed
qed

section \<open>The word-at-a-time prefix comparison\<close>

text \<open>\<open>n\<close> is where \<open>a\<close> and \<open>b\<close> first differ, or the length of the shorter one.\<close>

definition is_lcp :: "bytes \<Rightarrow> bytes \<Rightarrow> nat \<Rightarrow> bool" where
  "is_lcp a b n \<longleftrightarrow> n \<le> min (length a) (length b) \<and> take n a = take n b \<and>
     (n < min (length a) (length b) \<longrightarrow> a ! n \<noteq> b ! n)"

lemma is_lcp_length: "is_lcp a b n \<Longrightarrow> n = length (longest_common_prefix a b)"
proof (induction a b arbitrary: n rule: longest_common_prefix.induct)
  case (1 x xs y ys)
  show ?case
  proof (cases n)
    case 0
    with "1.prems" show ?thesis by (auto simp: is_lcp_def)
  next
    case (Suc m)
    with "1.prems" have "x = y" and "is_lcp xs ys m" by (auto simp: is_lcp_def)
    with "1.IH" Suc show ?thesis by simp
  qed
qed (auto simp: is_lcp_def)

lemma common_prefix_bytes_lcp:
  assumes "limit = min (length a) (length b)" and "len \<le> limit" and "take len a = take len b"
  shows "is_lcp a b (common_prefix_bytes a b limit len)"
  using assms
proof (induction a b limit len rule: common_prefix_bytes.induct)
  case (1 a b limit len)
  show ?case
  proof (cases "len < limit \<and> a ! len = b ! len")
    case True
    then have "take (len + 1) a = take (len + 1) b"
      using 1 by (simp add: take_Suc_conv_app_nth)
    with 1 True have "is_lcp a b (common_prefix_bytes a b limit (len + 1))" by simp
    with True show ?thesis by (subst common_prefix_bytes.simps) simp
  next
    case False
    with 1 show ?thesis by (subst common_prefix_bytes.simps) (auto simp: is_lcp_def)
  qed
qed

lemma from_le_bytes_Cons:
  "from_le_bytes (b # bs) = (push_bit 8 (from_le_bytes bs) OR ucast b :: 'a::len word)"
  by (simp add: from_le_bytes_def from_be_bytes_snoc)

lemma bit_from_le_bytes:
  "bit (from_le_bytes bs :: 'a::len word) i \<longleftrightarrow>
     i < LENGTH('a) \<and> i div 8 < length bs \<and> bit (bs ! (i div 8)) (i mod 8)"
proof (induction bs arbitrary: i)
  case Nil
  then show ?case by (simp add: from_le_bytes_def from_be_bytes_def)
next
  case (Cons b bs)
  show ?case
  proof (cases "i < 8")
    case True
    then show ?thesis by (auto simp: from_le_bytes_Cons bit_simps)
  next
    case False
    then obtain j where "i = j + 8" by (metis add.commute le_add_diff_inverse not_less)
    then have "i div 8 = Suc ((i - 8) div 8)" and "(i - 8) mod 8 = i mod 8"
      by simp_all
    moreover from False have "\<not> bit b i" by (auto dest: bit_imp_le_length)
    ultimately show ?thesis using False Cons.IH [of "i - 8"]
      by (auto simp: from_le_bytes_Cons bit_simps)
  qed
qed

lemma trailing_zeros_first:
  assumes "w \<noteq> (0 :: 'a::len word)"
  shows "trailing_zeros w < LENGTH('a) \<and> bit w (trailing_zeros w) \<and> (\<forall>i < trailing_zeros w. \<not> bit w i)"
proof -
  let ?xs = "[0..<LENGTH('a)]" and ?P = "\<lambda>i. \<not> bit w i"
  from assms obtain k where "bit w k" "k < LENGTH('a)"
    by (metis bit_word_eqI bit_0_eq bit_imp_le_length bot_apply bot_bool_def)
  then have "length (takeWhile ?P ?xs) < length ?xs"
    by (metis (no_types, lifting) atLeastLessThan_iff diff_zero length_takeWhile_le length_upt
        less_le set_upt takeWhile_eq_all_conv takeWhile_eq_take take_all zero_le)
  moreover from this have "\<not> ?P (?xs ! length (takeWhile ?P ?xs))"
    by (rule nth_length_takeWhile)
  moreover have "?P i" if "i < length (takeWhile ?P ?xs)" for i
    using that nth_mem [OF that] takeWhile_nth [OF that]
    by (metis add_0 calculation(1) diff_zero length_upt less_trans nth_upt set_takeWhileD)
  ultimately show ?thesis
    unfolding trailing_zeros_def by auto
qed

lemma byte_eq_iff: "(a :: u8) = b \<longleftrightarrow> (\<forall>i < 8. bit a i = bit b i)"
  by (auto intro: bit_word_eqI)

text \<open>Two different 8-byte words first differ in the byte that holds their lowest differing bit.\<close>

lemma first_differing_byte:
  assumes "length p = 8" "length q = 8"
    and ne: "(from_le_bytes p :: u64) \<noteq> from_le_bytes q"
  defines "k \<equiv> trailing_zeros (from_le_bytes p XOR from_le_bytes q :: u64) div 8"
  shows "k < 8 \<and> take k p = take k q \<and> p ! k \<noteq> q ! k"
proof -
  let ?x = "from_le_bytes p XOR from_le_bytes q :: u64"
  let ?t = "trailing_zeros ?x"
  have "?x \<noteq> 0"
  proof
    assume "?x = 0"
    then have "bit ?x i = bit (0 :: u64) i" for i by simp
    then have "bit (from_le_bytes p :: u64) i = bit (from_le_bytes q :: u64) i" for i
      by (simp add: bit_xor_iff)
    with ne show False by (auto intro: bit_word_eqI)
  qed
  from trailing_zeros_first [OF this]
  have t: "?t < 64" "bit ?x ?t" and lo: "\<And>i. i < ?t \<Longrightarrow> \<not> bit ?x i" by simp_all
  have bits: "bit ?x i \<longleftrightarrow> bit (p ! (i div 8)) (i mod 8) \<noteq> bit (q ! (i div 8)) (i mod 8)" if "i < 64" for i
    using that assms(1,2) by (auto simp: bit_xor_iff bit_from_le_bytes)
  have k: "k < 8" using t(1) by (simp add: k_def)
  have "p ! k \<noteq> q ! k"
    using bits [OF t(1)] t(2) by (auto simp: k_def)
  moreover have "p ! j = q ! j" if "j < k" for j
    unfolding byte_eq_iff
  proof (intro allI impI)
    fix i :: nat assume "i < 8"
    have "Suc j \<le> ?t div 8" using that by (simp add: k_def)
    then have "Suc j * 8 \<le> ?t"
      by (metis div_times_less_eq_dividend le_trans mult_le_mono1)
    with \<open>i < 8\<close> have "8 * j + i < ?t" by simp
    then have "\<not> bit ?x (8 * j + i)" and "8 * j + i < 64" using lo t(1) by auto
    moreover have "(8 * j + i) div 8 = j" "(8 * j + i) mod 8 = i" using \<open>i < 8\<close> by simp_all
    ultimately show "bit (p ! j) i = bit (q ! j) i" using bits [of "8 * j + i"] by simp
  qed
  ultimately show ?thesis
    using k assms(1,2) by (simp add: list_eq_iff_nth_eq)
qed

lemma from_le_bytes_u64_inject:
  assumes "length p = 8" "length q = 8" "(from_le_bytes p :: u64) = from_le_bytes q"
  shows "p = q"
proof -
  have "be_bytes 8 (from_le_bytes xs :: u64) = rev xs" if "length xs = 8" for xs
    using that be_bytes_from_be_bytes [of "rev xs", where 'a = 64] by (simp add: from_le_bytes_def)
  with assms show ?thesis by (metis rev_is_rev_conv)
qed

lemma common_prefix_words_lcp:
  assumes "limit = min (length a) (length b)" and "len \<le> limit" and "take len a = take len b"
  shows "is_lcp a b (common_prefix_words a b limit len)"
  using assms
proof (induction a b limit len rule: common_prefix_words.induct)
  case (1 a b limit len)
  let ?p = "slice a len (len + 8)" and ?q = "slice b len (len + 8)"
  let ?x = "from_le_bytes ?p :: u64" and ?y = "from_le_bytes ?q :: u64"
  show ?case
  proof (cases "len + 8 \<le> limit")
    case False
    then show ?thesis
      using common_prefix_bytes_lcp [OF 1(2-4)] by (subst common_prefix_words.simps) simp
  next
    case True
    with 1(2) have lens: "length ?p = 8" "length ?q = 8" by auto
    have a: "take len a @ ?p = take (len + 8) a" and b: "take len b @ ?q = take (len + 8) b"
      by (simp_all add: take_append_slice)
    show ?thesis
    proof (cases "?x = ?y")
      case True
      then have "?p = ?q"
        by (rule from_le_bytes_u64_inject [OF lens])
      then have "take (len + 8) a = take (len + 8) b"
        using a b 1(4) by metis
      with 1 \<open>len + 8 \<le> limit\<close> True
      have "is_lcp a b (common_prefix_words a b limit (len + 8))" by simp
      with True \<open>len + 8 \<le> limit\<close> show ?thesis
        by (subst common_prefix_words.simps) (simp add: Let_def)
    next
      case False
      let ?k = "trailing_zeros (?x XOR ?y) div 8"
      from first_differing_byte [OF lens False]
      have k: "?k < 8" "take ?k ?p = take ?k ?q" "?p ! ?k \<noteq> ?q ! ?k" by simp_all
      have "take (len + ?k) a = take (len + ?k) b"
        using 1(4) k(1,2) by (simp add: take_add slice_def)
      moreover have "a ! (len + ?k) \<noteq> b ! (len + ?k)"
        using k(1,3) \<open>len + 8 \<le> limit\<close> 1(2) by (simp add: slice_def)
      ultimately have "is_lcp a b (len + ?k)"
        using k(1) \<open>len + 8 \<le> limit\<close> 1(2) by (auto simp: is_lcp_def)
      with False \<open>len + 8 \<le> limit\<close> show ?thesis
        by (subst common_prefix_words.simps) (simp add: Let_def)
    qed
  qed
qed

lemma common_prefix_lcp: "is_lcp a b (common_prefix a b)"
  unfolding common_prefix_def by (rule common_prefix_words_lcp) simp_all

section \<open>Deltas decode to their target\<close>

lemma find_best_match:
  assumes "find_best base target index cursor hash = Some (offset, len)"
  shows "offset + len \<le> length base" and "cursor + len \<le> length target"
    and "slice base offset (offset + len) = slice target cursor (cursor + len)"
proof -
  from find_best_verified [OF assms]
  have "0 < len" and lcp: "is_lcp (drop offset base) (drop cursor target) len"
    using common_prefix_lcp by (auto simp: MIN_COPY_def)
  then show "offset + len \<le> length base" "cursor + len \<le> length target"
    "slice base offset (offset + len) = slice target cursor (cursor + len)"
    by (auto simp: is_lcp_def slice_def)
qed

text \<open>The four ways one round of the scan can go.\<close>

lemma make_delta_loop_cases:
  fixes base target index max_size out cursor insert_start hash primed
  defines "loop \<equiv> make_delta_loop base target index max_size"
    and "h \<equiv> if \<not> primed then block_hash (slice target cursor (cursor + MIN_COPY)) else hash"
  shows make_delta_loop_end: "\<not> cursor + MIN_COPY \<le> length target \<Longrightarrow>
      loop out cursor insert_start hash primed =
        (let out = append_insert out (drop insert_start target) in
         if length out \<le> max_size then Some out else None)"
    and make_delta_loop_lost: "cursor + MIN_COPY \<le> length target \<Longrightarrow>
      length out + (cursor - insert_start) > max_size \<Longrightarrow> loop out cursor insert_start hash primed = None"
    and make_delta_loop_hit: "cursor + MIN_COPY \<le> length target \<Longrightarrow>
      \<not> length out + (cursor - insert_start) > max_size \<Longrightarrow>
      find_best base target index cursor h = Some (offset, len) \<Longrightarrow>
      loop out cursor insert_start hash primed =
        loop (append_copy (append_insert out (slice target insert_start cursor)) offset len)
          (cursor + len) (cursor + len) h False"
    and make_delta_loop_miss: "cursor + MIN_COPY \<le> length target \<Longrightarrow>
      \<not> length out + (cursor - insert_start) > max_size \<Longrightarrow>
      find_best base target index cursor h = None \<Longrightarrow>
      loop out cursor insert_start hash primed =
        loop out (cursor + 1) insert_start
          (if cursor + MIN_COPY < length target
           then roll_hash h (target ! cursor) (target ! (cursor + MIN_COPY)) else h) True"
  unfolding loop_def h_def by (subst make_delta_loop.simps, simp add: Let_def)+

lemma make_delta_loop_emits:
  assumes "make_delta_loop base target index max_size out cursor insert_start hash primed = Some delta"
    and "out = hdr @ ins" and "emits base ins (take insert_start target)"
    and "insert_start \<le> cursor" and "cursor \<le> length target" and "length base < 2 ^ 32"
  shows "\<exists>ins. delta = hdr @ ins \<and> emits base ins target \<and> length delta \<le> max_size"
  using assms
proof (induction base target index max_size out cursor insert_start hash primed arbitrary: ins
    rule: make_delta_loop.induct)
  case (1 base target index max_size out cursor insert_start hash primed)
  let ?hash = "if \<not> primed then block_hash (slice target cursor (cursor + MIN_COPY)) else hash"
  show ?case
  proof (cases "cursor + MIN_COPY \<le> length target")
    case False
    obtain i where i: "append_insert out (drop insert_start target) = out @ i"
      "emits base i (drop insert_start target)" using append_insert_emits by blast
    have "emits base (ins @ i) target"
      using emits_append [OF 1(5) i(2)] by simp
    moreover have eq: "append_insert out (drop insert_start target) = hdr @ ins @ i"
      using i(1) 1(4) by simp
    moreover have "delta = hdr @ ins @ i" "length delta \<le> max_size"
      using 1(3) unfolding make_delta_loop_end [OF False] Let_def eq
      by (auto split: if_splits)
    ultimately show ?thesis by blast
  next
    case True
    with 1(3) have budget: "\<not> length out + (cursor - insert_start) > max_size"
      by (auto simp: make_delta_loop_lost)
    show ?thesis
    proof (cases "find_best base target index cursor ?hash")
      case None
      from 1(3) [unfolded make_delta_loop_miss [OF True budget None]]
      show ?thesis
        by (rule 1(1) [OF True budget refl None refl refl _ 1(4,5)])
          (use True 1(6-8) in \<open>simp_all add: MIN_COPY_def\<close>)
    next
      case (Some r)
      then obtain offset len where r: "find_best base target index cursor ?hash = Some (offset, len)"
        by (cases r) auto
      note m = find_best_match [OF r]
      obtain i where i: "append_insert out (slice target insert_start cursor) = out @ i"
        "emits base i (slice target insert_start cursor)" using append_insert_emits by blast
      obtain j where j: "append_copy (out @ i) offset len = (out @ i) @ j"
        "emits base j (slice base offset (offset + len))"
        using append_copy_emits [OF m(1) 1(8)] by blast
      have "emits base (ins @ i @ j)
          (take insert_start target @ slice target insert_start cursor @ slice target cursor (cursor + len))"
        using emits_append [OF 1(5) emits_append [OF i(2) j(2)]] m(3) by simp
      also have "take insert_start target @ slice target insert_start cursor @ slice target cursor (cursor + len)
          = take (cursor + len) target"
        using 1(6) by (simp add: take_append_slice flip: append_assoc)
      finally have e: "emits base (ins @ i @ j) (take (cursor + len) target)" .
      have "make_delta_loop base target index max_size
          (append_copy (append_insert out (slice target insert_start cursor)) offset len)
          (cursor + len) (cursor + len) ?hash False = Some delta"
        using 1(3) unfolding make_delta_loop_hit [OF True budget r] .
      moreover have "append_copy (append_insert out (slice target insert_start cursor)) offset len
          = hdr @ ins @ i @ j" using i(1) j(1) 1(4) by simp
      ultimately show ?thesis
        using 1(2) [OF True budget refl r refl, where ins = "ins @ i @ j"] e m(2) 1(8) by simp
    qed
  qed
qed

lemma make_delta_decodes:
  assumes "make_delta base target index max_size = Some delta"
    and "length base < 2 ^ 32" and "length target < 2 ^ 64"
  shows "apply_delta base delta = Some target \<and> length delta \<le> max_size"
proof -
  obtain e1 where e1: "\<And>out. encode_size (word_of_nat (length base)) out = out @ e1"
    "\<And>rest. read_varint (e1 @ rest) = Some (unat (word_of_nat (length base) :: u64), rest)"
    using encode_size_varint by blast
  obtain e2 where e2: "\<And>out. encode_size (word_of_nat (length target)) out = out @ e2"
    "\<And>rest. read_varint (e2 @ rest) = Some (unat (word_of_nat (length target) :: u64), rest)"
    using encode_size_varint by blast
  have lens: "unat (word_of_nat (length base) :: u64) = length base"
    "unat (word_of_nat (length target) :: u64) = length target"
    using assms(2,3) by (simp_all add: unat_of_nat)
  have "make_delta_loop base target index max_size (e1 @ e2) 0 0 0 False = Some delta"
    using assms(1) by (simp add: make_delta_def Let_def e1 e2)
  from make_delta_loop_emits [OF this, of "e1 @ e2" "[]"] assms(2)
  obtain ins where "delta = e1 @ e2 @ ins" "emits base ins target" "length delta \<le> max_size"
    by auto
  then show ?thesis
    by (simp add: apply_delta_def e1 e2 lens emits_apply)
qed

section \<open>The rolling fingerprint\<close>

lemma wrapping_pow_loop_eq: "wrapping_pow_loop b k acc = acc * b ^ k"
  by (induction b k acc rule: wrapping_pow_loop.induct) (simp_all add: algebra_simps)

lemma HASH_TOP_eq: "HASH_TOP = HASH_BASE ^ 15"
  by (simp add: HASH_TOP_def wrapping_pow_def wrapping_pow_loop_eq MIN_COPY_def)

lemma block_hash_acc:
  "foldl (\<lambda>hash byte. hash * HASH_BASE + ucast byte) h w = h * HASH_BASE ^ length w + block_hash w"
proof (induction w rule: rev_induct)
  case Nil
  then show ?case by (simp add: block_hash_def)
next
  case (snoc b w)
  then show ?case by (simp add: block_hash_def algebra_simps)
qed

lemma block_hash_Cons: "block_hash (b # w) = ucast b * HASH_BASE ^ length w + block_hash w"
  using block_hash_acc [of "ucast b" w] by (simp add: block_hash_def)

lemma block_hash_snoc: "block_hash (w @ [b]) = block_hash w * HASH_BASE + ucast b"
  by (simp add: block_hash_def)

lemma roll_hash_block_hash:
  assumes "length w + 1 = MIN_COPY"
  shows "roll_hash (block_hash (x # w)) x y = block_hash (w @ [y])"
  using assms by (simp add: roll_hash_def block_hash_Cons block_hash_snoc HASH_TOP_eq MIN_COPY_def)

section \<open>The block index stays in bounds\<close>

lemma next_pow2_from_pow:
  assumes "j \<le> m" and "n \<le> 2 ^ m"
  shows "\<exists>k\<le>m. next_pow2_from (2 ^ j) n = 2 ^ k \<and> n \<le> 2 ^ k"
  using assms
proof (induction "m - j" arbitrary: j)
  case 0
  then have "j = m" by simp
  with 0 show ?case by (intro exI [of _ m]) (simp add: next_pow2_from.simps)
next
  case (Suc d)
  show ?case
  proof (cases "n \<le> 2 ^ j")
    case True
    with Suc.prems show ?thesis by (intro exI [of _ j]) (simp add: next_pow2_from.simps)
  next
    case False
    have "d = m - Suc j" "Suc j \<le> m" using Suc.hyps(2) by auto
    from Suc.hyps(1) [OF this Suc.prems(2)] False show ?thesis
      by (subst next_pow2_from.simps) simp
  qed
qed

lemma block_homes_pow:
  assumes "length base < 2 ^ 32"
  shows "\<exists>K. 3 \<le> K \<and> K < 64 \<and> max (next_power_of_two (length base div MIN_COPY * 4)) PROBE_WINDOW = 2 ^ K"
proof -
  have "length base div MIN_COPY * 4 \<le> 2 ^ 40"
    using assms by (simp add: MIN_COPY_def)
  from next_pow2_from_pow [of 0 40, OF _ this] obtain k where
    "k \<le> 40" "next_power_of_two (length base div MIN_COPY * 4) = 2 ^ k"
    by (auto simp: next_power_of_two_def)
  moreover have "max (2 ^ k) PROBE_WINDOW = (2 ^ max k 3 :: nat)"
    by (cases "k \<le> 3") (auto simp: PROBE_WINDOW_def max_def power_increasing [of 3 k "2 :: nat", simplified]
        power_increasing [of k 3 "2 :: nat", simplified] dest: antisym)
  ultimately show ?thesis
    by (intro exI [of _ "max k 3"]) auto
qed

lemma trailing_zeros_pow2:
  assumes "K < 64" shows "trailing_zeros (word_of_nat (2 ^ K) :: u64) = K"
proof -
  have bits: "bit (word_of_nat (2 ^ K) :: u64) i \<longleftrightarrow> i = K" for i
    using assms by (auto simp: bit_simps)
  then have "(word_of_nat (2 ^ K) :: u64) \<noteq> 0" by (metis bit_0_eq bot_apply bot_bool_def)
  from trailing_zeros_first [OF this] show ?thesis
    unfolding bits by simp
qed

definition entry_ok :: "bytes \<Rightarrow> u64 \<Rightarrow> bool" where
  "entry_ok base e \<longleftrightarrow> e = 0 \<or>
     ((ucast e :: u32) \<noteq> 0 \<and> unat (ucast e - 1 :: u32) + MIN_COPY \<le> length base)"

definition index_ok :: "bytes \<Rightarrow> nat \<Rightarrow> BlockIndex \<Rightarrow> bool" where
  "index_ok base K index \<longleftrightarrow> shift index = 64 - K \<and> length (slots index) = 2 ^ K + PROBE_WINDOW \<and>
     (\<forall>e\<in>set (slots index). entry_ok base e)"

lemma entry_ok_new:
  assumes "offset + MIN_COPY \<le> length base" and "length base < 2 ^ 32"
  shows "entry_ok base (push_bit 32 tag OR (word_of_nat offset + 1))"
proof -
  have o: "offset + 1 < 2 ^ 32" using assms by (simp add: MIN_COPY_def)
  have low: "ucast (push_bit 32 tag OR x :: u64) = (ucast x :: u32)" for x
    by (rule bit_word_eqI) (auto simp: bit_simps)
  have "(ucast (word_of_nat (offset + 1) :: u64) :: u32) = word_of_nat (offset + 1)"
    using o by (simp add: word_unat_eq_iff unsigned_ucast_eq unat_of_nat take_bit_eq_mod del: of_nat_add of_nat_Suc)
  then have e: "ucast (push_bit 32 tag OR (word_of_nat offset + 1) :: u64) = (word_of_nat (offset + 1) :: u32)"
    unfolding low by (simp add: add.commute)
  have "unat (word_of_nat (offset + 1) :: u32) = offset + 1"
    using o by (simp add: unat_of_nat del: of_nat_add of_nat_Suc)
  then have "(word_of_nat (offset + 1) :: u32) \<noteq> 0" by (metis add_is_0 unat_eq_zero zero_neq_one)
  moreover have "(word_of_nat (offset + 1) :: u32) - 1 = word_of_nat offset" by simp
  moreover have "unat (word_of_nat offset :: u32) = offset" using o by (simp add: unat_of_nat)
  ultimately show ?thesis
    unfolding entry_ok_def e using assms(1) by simp
qed

lemma insert_probe_ok:
  assumes "\<forall>e\<in>set sl. entry_ok base e"
    and "offset + MIN_COPY \<le> length base" and "length base < 2 ^ 32"
  shows "length (insert_probe sl tag offset dups probe) = length sl \<and>
    (\<forall>e\<in>set (insert_probe sl tag offset dups probe). entry_ok base e)"
  using assms
proof (induction sl tag offset dups probe rule: insert_probe.induct)
  case (2 sl tag offset dups slot rest)
  show ?case
  proof (cases "sl ! slot = 0")
    case True
    then show ?thesis
      using "2.prems" entry_ok_new [OF "2.prems"(2,3), of tag] set_update_subset_insert [of sl slot]
      by (auto simp: Let_def)
  next
    case False
    with 2 show ?thesis by (auto simp: Let_def)
  qed
qed simp

lemma index_insert_ok:
  assumes "index_ok base K index" "offset + MIN_COPY \<le> length base" "length base < 2 ^ 32"
  shows "index_ok base K (index_insert index fp offset)"
  using assms insert_probe_ok by (auto simp: index_ok_def index_insert_def Let_def)

lemma block_index_ok:
  assumes "length base < 2 ^ 32"
  shows "\<exists>K. 3 \<le> K \<and> K < 64 \<and> index_ok base K (block_index base)"
proof -
  let ?homes = "max (next_power_of_two (length base div MIN_COPY * 4)) PROBE_WINDOW"
  let ?i0 = "\<lparr>slots = replicate (?homes + PROBE_WINDOW) 0,
    shift = 64 - trailing_zeros (word_of_nat ?homes :: u64)\<rparr>"
  from block_homes_pow [OF assms] obtain K where K: "3 \<le> K" "K < 64" "?homes = 2 ^ K" by blast
  have i0: "index_ok base K ?i0"
    unfolding K(3) using trailing_zeros_pow2 [OF K(2)] by (simp add: index_ok_def entry_ok_def)
  have "index_ok base K (foldl (\<lambda>index offset. index_insert index
      (block_hash (slice base offset (offset + MIN_COPY))) offset) index offs)"
    if "index_ok base K index" "\<forall>j\<in>set offs. j + MIN_COPY \<le> length base" for index offs
    using that by (induction offs arbitrary: index) (auto intro!: index_insert_ok [OF _ _ assms])
  moreover have "\<forall>j\<in>set (block_offsets base). j + MIN_COPY \<le> length base"
  proof
    fix o' assume "o' \<in> set (block_offsets base)"
    then obtain i where i: "o' = i * MIN_COPY" "Suc i \<le> length base div MIN_COPY"
      unfolding block_offsets_def set_map by (metis Suc_leI atLeastLessThan_iff imageE set_upt)
    then have "Suc i * MIN_COPY \<le> length base"
      by (metis div_times_less_eq_dividend le_trans mult_le_mono1)
    with i show "o' + MIN_COPY \<le> length base" by simp
  qed
  ultimately have "index_ok base K (block_index base)"
    using i0 unfolding block_index_def Let_def by presburger
  with K show ?thesis by blast
qed

lemma home_of_bound:
  assumes "index_ok base K index" and "K < 64"
  shows "home_of index fp + PROBE_WINDOW \<le> length (slots index)"
proof -
  let ?w = "fp * HASH_BASE"
  have "unat (drop_bit (64 - K) ?w) = unat ?w div 2 ^ (64 - K)"
    by (subst unat_drop_bit_eq) (simp add: drop_bit_eq_div)
  moreover have "unat ?w < 2 ^ (64 - K) * 2 ^ K"
    using unsigned_less [of ?w, where 'a = nat] assms(2) by (simp flip: power_add)
  ultimately have "unat (drop_bit (64 - K) ?w) < 2 ^ K"
    by (simp add: div_less_iff_less_mult mult.commute)
  then show ?thesis using assms(1) by (simp add: home_of_def index_ok_def)
qed

section \<open>Properties\<close>

text \<open>C24: A delta the encoder returns, whatever the block index it was guided by, is within the
  size budget, and git's delta decoder applied to it and its base gives the target back.\<close>

theorem delta_roundtrip:
  assumes "make_delta base target index max_size = Some delta"
    and "length base < 2 ^ 32" and "length target < 2 ^ 64"
  shows "apply_delta base delta = Some target \<and> length delta \<le> max_size"
  using assms by (rule make_delta_decodes)

theorem delta_roundtrip_witness:
  "apply_delta [5] [1, 3, 3, 1, 2, 3] = Some [1, 2, 3] \<and> length [1, 3, 3, 1, 2, 3 :: u8] \<le> 6"
proof (rule delta_roundtrip)
  show "make_delta [5] [1, 2, 3] (block_index [5]) 6 = Some [1, 3, 3, 1, 2, 3]" by code_simp
qed simp_all

text \<open>C39: The word-at-a-time prefix comparison computes the length of the longest common prefix.\<close>

theorem common_prefix_correct: "common_prefix a b = length (longest_common_prefix a b)"
  by (rule is_lcp_length [OF common_prefix_lcp])

text \<open>Rolling the fingerprint forward one byte gives the fingerprint of the shifted window.\<close>

theorem roll_hash_correct:
  assumes "length w + 1 = MIN_COPY"
  shows "roll_hash (block_hash (x # w)) x y = block_hash (w @ [y])"
  using assms by (rule roll_hash_block_hash)

theorem roll_hash_correct_witness:
  "roll_hash (block_hash (7 # replicate 15 1)) 7 9 = block_hash (replicate 15 1 @ [9])"
  by (rule roll_hash_correct) (simp add: MIN_COPY_def)

text \<open>C38: The block index of a base under 4 GiB never reads or writes outside its slots, whatever
  fingerprint is looked up, and every entry it holds names a full window inside the base.\<close>

theorem block_index_in_bounds:
  assumes "length base < 2 ^ 32"
  shows "home_of (block_index base) fp + PROBE_WINDOW \<le> length (slots (block_index base)) \<and>
    list_all (entry_ok base) (slots (block_index base))"
proof -
  from block_index_ok [OF assms] obtain K where "K < 64" and ok: "index_ok base K (block_index base)"
    by blast
  with home_of_bound [OF ok] show ?thesis by (simp add: index_ok_def list_all_iff)
qed

theorem block_index_in_bounds_witness:
  "home_of (block_index [1, 2]) 99 + PROBE_WINDOW \<le> length (slots (block_index [1, 2])) \<and>
    list_all (entry_ok [1, 2]) (slots (block_index [1, 2]))"
  by (rule block_index_in_bounds) simp

end
