(* ===== verification/PackOut.thy ===== *)
theory PackOut
  imports Zlib Values Delta_Correct
begin

text \<open>
  Pack serialization of \<^verbatim>\<open>src/git/pack_out.rs\<close>: the bounded cache of delta bases, the
  choice between a full and an offset-delta entry, and the loop that writes a pack. The
  byte-level pack writer (\<^verbatim>\<open>gix_pack\<close>'s \<^verbatim>\<open>FromEntriesIter\<close>) and zlib are parameters. The
  lemmas bound the cache, and show that every delta entry of a pack refers to an earlier
  full blob and decodes against it to the object's own content.
\<close>

section \<open>Definitions\<close>

record PackEntry =
  entry_id :: ObjectId
  entry_kind :: Kind
  decompressed_size :: u64
  entry_zlib :: bytes
  delta_group :: "u32 option"

record PackOptions =
  ofs_deltas :: bool

text \<open>The counters of \<^verbatim>\<open>DeltaStats\<close>; its four durations are wall-clock telemetry.\<close>

record DeltaStats =
  eligible :: nat
  comparisons :: nat
  emitted :: nat
  inserted :: nat
  bytes_saved :: nat

definition delta_stats_default :: DeltaStats where
  "delta_stats_default = \<lparr>eligible = 0, comparisons = 0, emitted = 0, inserted = 0, bytes_saved = 0\<rparr>"

text \<open>An output error: a hung-up reader, or anything else (the hasher's included).\<close>

datatype IoError = BrokenPipe | OtherIo

datatype 'e PackOutError =
    PInput 'e
  | PWrite IoError
  | PCorruptZlib ObjectId
  | PTruncated nat nat

text \<open>\<^verbatim>\<open>gix_pack::data::output::Entry\<close>: a base object or a delta to an earlier entry, by index.\<close>

datatype OutKind = Base Kind | DeltaRef nat

record OutEntry =
  out_id :: ObjectId
  out_kind :: OutKind
  out_size :: nat
  compressed_data :: bytes

definition full_entry :: "PackEntry \<Rightarrow> OutEntry" where
  "full_entry obj =
     \<lparr>out_id = entry_id obj, out_kind = Base (entry_kind obj),
      out_size = unat (decompressed_size obj), compressed_data = entry_zlib obj\<rparr>"

record DeltaCandidate =
  cand_index :: nat
  cand_group :: u32
  cand_body :: bytes

record DeltaCandidates =
  cand_entries :: "DeltaCandidate list"
  cand_bytes :: nat

definition candidates_default :: DeltaCandidates where
  "candidates_default = \<lparr>cand_entries = [], cand_bytes = 0\<rparr>"

definition matching :: "DeltaCandidates \<Rightarrow> u32 \<Rightarrow> DeltaCandidate list" where
  "matching cs grp = filter (\<lambda>c. cand_group c = grp) (cand_entries cs)"

text \<open>The eviction loop: drop the oldest base while the new body does not fit.\<close>

fun evict_candidates :: "DeltaCandidate list \<Rightarrow> nat \<Rightarrow> nat \<Rightarrow> DeltaCandidate list \<times> nat" where
  "evict_candidates entries held new =
     (if held + new > MAX_DELTA_CACHE_BYTES \<or> length entries \<ge> DELTA_WINDOW then
        (case entries of
           [] \<Rightarrow> (entries, held)
         | evicted # rest \<Rightarrow> evict_candidates rest (held - length (cand_body evicted)) new)
      else (entries, held))"

declare evict_candidates.simps [simp del]

definition candidates_insert ::
    "DeltaCandidates \<Rightarrow> nat \<Rightarrow> u32 \<Rightarrow> bytes \<Rightarrow> bool \<times> DeltaCandidates" where
  "candidates_insert cs entry_index grp body =
     (if length body > MAX_DELTA_CACHE_BYTES then (False, cs)
      else
        let (entries, held) = evict_candidates (cand_entries cs) (cand_bytes cs) (length body) in
        (True, \<lparr>cand_entries = entries @ [\<lparr>cand_index = entry_index, cand_group = grp, cand_body = body\<rparr>],
                cand_bytes = held + length body\<rparr>))"

text \<open>The loop over the candidates of a group: each accepted delta tightens the budget.\<close>

fun scan_candidates ::
    "bytes \<Rightarrow> DeltaCandidate list \<Rightarrow> nat \<Rightarrow> (nat \<times> bytes) option \<Rightarrow> DeltaStats
      \<Rightarrow> (nat \<times> bytes) option \<times> DeltaStats" where
  "scan_candidates body [] budget best stats = (best, stats)"
| "scan_candidates body (c # cs) budget best stats =
     (let stats = stats\<lparr>comparisons := comparisons stats + 1\<rparr>;
          index = block_index (cand_body c) in
      case make_delta (cand_body c) body index budget of
        Some delta \<Rightarrow> scan_candidates body cs (length delta - 1) (Some (cand_index c, delta)) stats
      | None \<Rightarrow> scan_candidates body cs budget best stats)"

text \<open>The tail of \<^verbatim>\<open>delta_or_full\<close>: remember the body as a future base, emit the full entry.\<close>

definition keep_full ::
    "PackEntry \<Rightarrow> nat \<Rightarrow> u32 \<Rightarrow> bytes \<Rightarrow> DeltaCandidates \<Rightarrow> DeltaStats
      \<Rightarrow> OutEntry \<times> DeltaCandidates \<times> DeltaStats" where
  "keep_full obj entry_index grp body candidates stats =
     (let (ok, candidates) = candidates_insert candidates entry_index grp body;
          stats = (if ok then stats\<lparr>inserted := inserted stats + 1\<rparr> else stats) in
      (full_entry obj, candidates, stats))"

definition delta_or_full ::
    "zlib_rs \<Rightarrow> PackEntry \<Rightarrow> nat \<Rightarrow> DeltaCandidates \<Rightarrow> DeltaStats
      \<Rightarrow> ('e PackOutError + OutEntry) \<times> DeltaCandidates \<times> DeltaStats" where
  "delta_or_full Z obj entry_index candidates stats =
     (case delta_group obj of
        None \<Rightarrow> (Inr (full_entry obj), candidates, stats)
      | Some grp \<Rightarrow>
          if entry_kind obj \<noteq> KBlob
            \<or> \<not> (MIN_DELTA_BLOB_SIZE \<le> decompressed_size obj \<and> decompressed_size obj \<le> MAX_DELTA_BLOB_SIZE)
          then (Inr (full_entry obj), candidates, stats)
          else
            let stats = stats\<lparr>eligible := eligible stats + 1\<rparr> in
            case inflate Z (entry_zlib obj) (decompressed_size obj) of
              None \<Rightarrow> (Inl (PCorruptZlib (entry_id obj)), candidates, stats)
            | Some body \<Rightarrow>
                let (best, stats) = scan_candidates body (matching candidates grp) (length body div 2) None stats in
                case best of
                  Some (base_index, delta) \<Rightarrow>
                    (let compressed = deflate Z delta 6 in
                     if length compressed + MIN_DELTA_SAVINGS < length (entry_zlib obj) then
                       (Inr \<lparr>out_id = entry_id obj, out_kind = DeltaRef base_index,
                             out_size = length delta, compressed_data = compressed\<rparr>,
                        candidates,
                        stats\<lparr>emitted := emitted stats + 1,
                              bytes_saved := bytes_saved stats + (length (entry_zlib obj) - length compressed)\<rparr>)
                     else
                       let (e, candidates, stats) = keep_full obj entry_index grp body candidates stats in
                       (Inr e, candidates, stats))
                | None \<Rightarrow>
                    (let (e, candidates, stats) = keep_full obj entry_index grp body candidates stats in
                     (Inr e, candidates, stats)))"

text \<open>The closure over the input: the next output entry for one object.\<close>

definition next_entry ::
    "zlib_rs \<Rightarrow> PackOptions \<Rightarrow> PackEntry \<Rightarrow> nat \<Rightarrow> DeltaCandidates \<Rightarrow> DeltaStats
      \<Rightarrow> ('e PackOutError + OutEntry) \<times> DeltaCandidates \<times> DeltaStats" where
  "next_entry Z options obj written candidates stats =
     (if ofs_deltas options then delta_or_full Z obj written candidates stats
      else (Inr (full_entry obj), candidates, stats))"

text \<open>
  The byte-level writer, \<^verbatim>\<open>gix_pack\<close>'s \<^verbatim>\<open>FromEntriesIter\<close>, over an output it borrows: it
  writes the header, pulls and writes one entry at a time and, when the input ends, the
  trailing checksum, whose digest it then reports. Its state includes the output, which the
  caller still has when a write fails.
\<close>

record 'w pack_writer =
  pw_header :: "nat \<Rightarrow> HashKind \<Rightarrow> ('w, IoError, unit) eff"
  pw_entry :: "OutEntry \<Rightarrow> ('w, IoError, unit) eff"
  pw_trailer :: "('w, IoError, ObjectId option) eff"

fun write_loop ::
    "'w pack_writer \<Rightarrow> zlib_rs \<Rightarrow> PackOptions \<Rightarrow> ('e + PackEntry) list \<Rightarrow> nat
      \<Rightarrow> DeltaCandidates \<Rightarrow> DeltaStats \<Rightarrow> 'w
      \<Rightarrow> (('e PackOutError + ObjectId option \<times> nat) \<times> DeltaStats) \<times> 'w" where
  "write_loop W Z options [] written candidates stats w =
     (case pw_trailer W w of
        (Inl err, w) \<Rightarrow> ((Inl (PWrite err), stats), w)
      | (Inr digest, w) \<Rightarrow> ((Inr (digest, written), stats), w))"
| "write_loop W Z options (Inl err # items) written candidates stats w = ((Inl (PInput err), stats), w)"
| "write_loop W Z options (Inr obj # items) written candidates stats w =
     (case next_entry Z options obj written candidates stats of
        (Inl err, candidates, stats) \<Rightarrow> ((Inl err, stats), w)
      | (Inr entry, candidates, stats) \<Rightarrow>
          (case pw_entry W entry w of
             (Inl err, w) \<Rightarrow> ((Inl (PWrite err), stats), w)
           | (Inr _, w) \<Rightarrow> write_loop W Z options items (written + 1) candidates stats w))"

definition write_pack_with_options ::
    "'w pack_writer \<Rightarrow> zlib_rs \<Rightarrow> ('e + PackEntry) list \<Rightarrow> nat \<Rightarrow> HashKind \<Rightarrow> PackOptions
      \<Rightarrow> DeltaStats \<Rightarrow> 'w \<Rightarrow> (('e PackOutError + ObjectId) \<times> DeltaStats) \<times> 'w" where
  "write_pack_with_options W Z objects num_objects object_hash options stats out =
     (case pw_header W num_objects object_hash out of
        (Inl err, out) \<Rightarrow> ((Inl (PWrite err), stats), out)
      | (Inr _, out) \<Rightarrow>
          (case write_loop W Z options objects 0 candidates_default stats out of
             ((Inl err, stats), out) \<Rightarrow> ((Inl err, stats), out)
           | ((Inr (digest, written), stats), out) \<Rightarrow>
               if written \<noteq> num_objects then ((Inl (PTruncated written num_objects), stats), out)
               else
                 (case digest of
                    None \<Rightarrow> ((Inl (PTruncated written num_objects), stats), out)
                  | Some d \<Rightarrow> ((Inr d, stats), out))))"

definition write_pack ::
    "'w pack_writer \<Rightarrow> zlib_rs \<Rightarrow> ('e + PackEntry) list \<Rightarrow> nat \<Rightarrow> HashKind \<Rightarrow> 'w
      \<Rightarrow> ('e PackOutError + ObjectId) \<times> 'w" where
  "write_pack W Z objects num_objects object_hash out =
     (case write_pack_with_options W Z objects num_objects object_hash \<lparr>ofs_deltas = False\<rparr> delta_stats_default out of
        ((r, stats), out) \<Rightarrow> (r, out))"

section \<open>The candidate cache is bounded\<close>

definition candidates_inv :: "DeltaCandidates \<Rightarrow> bool" where
  "candidates_inv cs \<longleftrightarrow>
     cand_bytes cs = sum_list (map (length \<circ> cand_body) (cand_entries cs)) \<and>
     cand_bytes cs \<le> MAX_DELTA_CACHE_BYTES \<and> length (cand_entries cs) \<le> DELTA_WINDOW"

lemma candidates_inv_default: "candidates_inv candidates_default"
  by (simp add: candidates_inv_def candidates_default_def)

lemma evict_candidates_inv:
  assumes "evict_candidates entries held new = (es, t)"
    and "held = sum_list (map (length \<circ> cand_body) entries)" and "new \<le> MAX_DELTA_CACHE_BYTES"
  shows "t = sum_list (map (length \<circ> cand_body) es) \<and> t + new \<le> MAX_DELTA_CACHE_BYTES \<and>
    length es < DELTA_WINDOW \<and> suffix es entries"
  using assms
proof (induction entries held new arbitrary: es t rule: evict_candidates.induct)
  case (1 entries held new)
  show ?case
  proof (cases "held + new > MAX_DELTA_CACHE_BYTES \<or> length entries \<ge> DELTA_WINDOW")
    case False
    with 1(2) have "es = entries" "t = held"
      by (simp_all add: evict_candidates.simps [of entries held new])
    with False 1(3) show ?thesis by auto
  next
    case True
    with 1(4) have "entries \<noteq> []" using 1(3) by (auto simp: DELTA_WINDOW_def)
    then obtain e rest where e: "entries = e # rest" by (cases entries) auto
    from 1(2) True have "evict_candidates rest (held - length (cand_body e)) new = (es, t)"
      by (simp add: evict_candidates.simps [of "e # rest" held new] e)
    from 1(1) [OF True e this] 1(3,4) show ?thesis by (auto simp: e suffix_Cons)
  qed
qed

lemma evict_candidates_set: "evict_candidates entries held new = (es, t) \<Longrightarrow> set es \<subseteq> set entries"
proof (induction entries held new arbitrary: es t rule: evict_candidates.induct)
  case (1 entries held new)
  then show ?case
    by (subst (asm) evict_candidates.simps) (auto split: if_splits list.splits)
qed

lemma candidates_insert_set:
  assumes "candidates_insert cs i g body = (ok, cs')"
  shows "set (cand_entries cs') \<subseteq>
    insert \<lparr>cand_index = i, cand_group = g, cand_body = body\<rparr> (set (cand_entries cs))"
  using assms evict_candidates_set
  by (fastforce simp: candidates_insert_def Let_def split: if_splits prod.splits)

lemma candidates_insert_inv:
  assumes "candidates_inv cs" and "candidates_insert cs i g body = (ok, cs')"
  shows "candidates_inv cs' \<and> (ok \<longleftrightarrow> length body \<le> MAX_DELTA_CACHE_BYTES)"
proof (cases "length body > MAX_DELTA_CACHE_BYTES")
  case True
  with assms show ?thesis by (auto simp: candidates_insert_def)
next
  case False
  obtain es t where ev: "evict_candidates (cand_entries cs) (cand_bytes cs) (length body) = (es, t)"
    by force
  from evict_candidates_inv [OF ev] assms(1) False
  have "t = sum_list (map (length \<circ> cand_body) es)" "t + length body \<le> MAX_DELTA_CACHE_BYTES"
    "length es < DELTA_WINDOW"
    by (auto simp: candidates_inv_def)
  with assms(2) False ev show ?thesis
    by (auto simp: candidates_insert_def candidates_inv_def)
qed

section \<open>Packs decode\<close>

text \<open>
  The reference reader: the entries of a pack, resolved left to right. A base entry is its
  inflated stream; a delta entry applies its inflated instructions to an earlier body.
\<close>

definition entry_body :: "zlib_rs \<Rightarrow> bytes option list \<Rightarrow> OutEntry \<Rightarrow> bytes option" where
  "entry_body Z bodies e =
     (case inflate Z (compressed_data e) (word_of_nat (out_size e)) of
        None \<Rightarrow> None
      | Some content \<Rightarrow>
          (case out_kind e of
             Base k \<Rightarrow> Some content
           | DeltaRef i \<Rightarrow>
               (if i < length bodies
                then (case bodies ! i of None \<Rightarrow> None | Some base \<Rightarrow> apply_delta base content)
                else None)))"

definition unpack :: "zlib_rs \<Rightarrow> bytes option list \<Rightarrow> OutEntry list \<Rightarrow> bytes option list" where
  "unpack Z = foldl (\<lambda>bodies e. bodies @ [entry_body Z bodies e])"

definition stored_body :: "zlib_rs \<Rightarrow> PackEntry \<Rightarrow> bytes option" where
  "stored_body Z obj = inflate Z (entry_zlib obj) (decompressed_size obj)"

text \<open>
  Every cached base is an already written, full, eligible blob: \<open>entries\<close> are the entries
  so far and \<open>bodies\<close> what they decode to.
\<close>

definition candidates_sound :: "OutEntry list \<Rightarrow> bytes option list \<Rightarrow> DeltaCandidates \<Rightarrow> bool" where
  "candidates_sound entries bodies cs \<longleftrightarrow>
     length bodies = length entries \<and>
     (\<forall>c\<in>set (cand_entries cs). cand_index c < length entries \<and>
        out_kind (entries ! cand_index c) = Base KBlob \<and>
        bodies ! cand_index c = Some (cand_body c) \<and> length (cand_body c) \<le> 2 * 1024 * 1024)"

lemma candidates_sound_snoc:
  "candidates_sound es bs cs \<Longrightarrow> candidates_sound (es @ [e]) (bs @ [b]) cs"
  by (auto simp: candidates_sound_def nth_append)

lemma scan_candidates_best:
  assumes "scan_candidates body cs budget best stats = (Some (i, delta), stats')"
    and "length body < 2 ^ 64" and "\<forall>c\<in>set cs. length (cand_body c) < 2 ^ 32"
  shows "best = Some (i, delta) \<or>
    (\<exists>c\<in>set cs. cand_index c = i \<and> apply_delta (cand_body c) delta = Some body \<and> length delta \<le> budget)"
  using assms
proof (induction body cs budget best stats rule: scan_candidates.induct)
  case (2 body c cs budget best stats)
  show ?case
  proof (cases "make_delta (cand_body c) body (block_index (cand_body c)) budget")
    case None
    from "2.IH"(1) [OF refl refl None] "2.prems" None show ?thesis by (auto simp: Let_def)
  next
    case (Some d)
    have "apply_delta (cand_body c) d = Some body \<and> length d \<le> budget"
      using make_delta_decodes [OF Some] "2.prems"(2,3) by simp
    with "2.IH"(2) [OF refl refl Some] "2.prems" Some show ?thesis
      by (fastforce simp: Let_def)
  qed
qed simp

text \<open>What one round adds: an entry that decodes to the object, and sound candidates.\<close>

definition entry_sound :: "zlib_rs \<Rightarrow> OutEntry list \<Rightarrow> bytes option list \<Rightarrow> PackEntry \<Rightarrow> OutEntry \<Rightarrow> bool" where
  "entry_sound Z entries bodies obj e \<longleftrightarrow>
     out_id e = entry_id obj \<and> entry_body Z bodies e = stored_body Z obj \<and>
     (case out_kind e of
        Base k \<Rightarrow> e = full_entry obj
      | DeltaRef i \<Rightarrow> i < length entries \<and> out_kind (entries ! i) = Base KBlob \<and> entry_kind obj = KBlob \<and>
          length (compressed_data e) + MIN_DELTA_SAVINGS < length (entry_zlib obj))"

lemma full_entry_sound: "entry_sound Z entries bodies obj (full_entry obj)"
  by (simp add: entry_sound_def full_entry_def entry_body_def stored_body_def split: option.split)

lemma keep_full_sound:
  assumes "candidates_sound entries bodies cs" and "stored_body Z obj = Some body"
    and "length body \<le> 2 * 1024 * 1024" and "entry_kind obj = KBlob"
    and "keep_full obj (length entries) grp body cs stats = (e, cs', stats')"
  shows "e = full_entry obj \<and> candidates_sound (entries @ [e]) (bodies @ [stored_body Z obj]) cs'"
proof -
  obtain ok where ins: "candidates_insert cs (length entries) grp body = (ok, cs')"
    using assms(5) by (auto simp: keep_full_def split: prod.splits)
  have e: "e = full_entry obj" using assms(5) by (auto simp: keep_full_def split: prod.splits)
  have "set (cand_entries cs') \<subseteq>
      insert \<lparr>cand_index = length entries, cand_group = grp, cand_body = body\<rparr> (set (cand_entries cs))"
    using ins candidates_insert_set by blast
  with assms(1-4) show ?thesis
    unfolding candidates_sound_def e by (auto simp: nth_append full_entry_def)
qed

lemma delta_or_full_sound:
  assumes "zlib_ok Z" and cs: "candidates_sound entries bodies cs"
    and run: "delta_or_full Z obj (length entries) cs stats = (Inr e, cs', stats')"
  shows "entry_sound Z entries bodies obj e \<and>
    candidates_sound (entries @ [e]) (bodies @ [stored_body Z obj]) cs'"
proof (cases "delta_group obj = None \<or> entry_kind obj \<noteq> KBlob \<or>
    \<not> (MIN_DELTA_BLOB_SIZE \<le> decompressed_size obj \<and> decompressed_size obj \<le> MAX_DELTA_BLOB_SIZE)")
  case True
  with run have "e = full_entry obj" "cs' = cs"
    by (auto simp: delta_or_full_def split: option.splits)
  with cs show ?thesis by (simp add: full_entry_sound candidates_sound_snoc)
next
  case False
  then obtain grp where grp: "delta_group obj = Some grp" by (cases "delta_group obj") auto
  have blob: "entry_kind obj = KBlob" using False by simp
  from run False grp obtain body where body: "stored_body Z obj = Some body"
    by (auto simp: delta_or_full_def stored_body_def Let_def split: option.splits)
  have "unat (decompressed_size obj) \<le> unat MAX_DELTA_BLOB_SIZE"
    using False by (simp add: word_le_nat_alt)
  with inflate_length [OF assms(1) body [unfolded stored_body_def]]
  have len: "length body \<le> 2 * 1024 * 1024" by (simp add: MAX_DELTA_BLOB_SIZE_def)
  define stats1 where "stats1 = stats\<lparr>eligible := eligible stats + 1\<rparr>"
  obtain best stats2 where scan: "scan_candidates body (matching cs grp) (length body div 2) None stats1 = (best, stats2)"
    by force
  have full: "entry_sound Z entries bodies obj e \<and>
      candidates_sound (entries @ [e]) (bodies @ [stored_body Z obj]) cs'"
    if "keep_full obj (length entries) grp body cs s = (e, cs', s')" for s s'
    using keep_full_sound [OF cs body len blob that] by (auto simp: full_entry_sound)
  have run: "(case best of
        Some (i, delta) \<Rightarrow>
          if length (deflate Z delta 6) + MIN_DELTA_SAVINGS < length (entry_zlib obj)
          then e = \<lparr>out_id = entry_id obj, out_kind = DeltaRef i, out_size = length delta,
                    compressed_data = deflate Z delta 6\<rparr> \<and> cs' = cs
          else \<exists>s s'. keep_full obj (length entries) grp body cs s = (e, cs', s')
      | None \<Rightarrow> \<exists>s s'. keep_full obj (length entries) grp body cs s = (e, cs', s'))"
    using run False scan body
    by (auto simp: delta_or_full_def grp blob stats1_def stored_body_def Let_def
        split: option.splits prod.splits if_splits)
  show ?thesis
  proof (cases "\<exists>i delta. best = Some (i, delta) \<and>
      length (deflate Z delta 6) + MIN_DELTA_SAVINGS < length (entry_zlib obj)")
    case False': False
    with run obtain s s' where "keep_full obj (length entries) grp body cs s = (e, cs', s')"
      by (auto split: option.splits)
    then show ?thesis by (rule full)
  next
    case True
    then obtain i delta where best: "best = Some (i, delta)"
      and save: "length (deflate Z delta 6) + MIN_DELTA_SAVINGS < length (entry_zlib obj)" by blast
    have e: "e = \<lparr>out_id = entry_id obj, out_kind = DeltaRef i, out_size = length delta,
        compressed_data = deflate Z delta 6\<rparr>" and cs': "cs' = cs"
      using run save by (simp_all add: best)
    obtain c where c: "c \<in> set (cand_entries cs)" "cand_index c = i"
      "apply_delta (cand_body c) delta = Some body" "length delta \<le> length body div 2"
      using scan_candidates_best [OF scan [unfolded best]] cs len
      by (fastforce simp: matching_def candidates_sound_def)
    have "inflate Z (deflate Z delta 6) (word_of_nat (length delta)) = Some delta"
      by (rule inflate_deflate [OF assms(1)]) (use c(4) len in simp_all)
    then have "entry_sound Z entries bodies obj e"
      using cs c save blob body
      by (auto simp: entry_sound_def e entry_body_def candidates_sound_def)
    with cs show ?thesis by (simp add: cs' candidates_sound_snoc)
  qed
qed

text \<open>The entries the writer is handed, one after the other.\<close>

fun feed :: "'w pack_writer \<Rightarrow> OutEntry list \<Rightarrow> ('w, IoError, unit) eff" where
  "feed W [] = eff_return ()"
| "feed W (e # es) = eff_bind (pw_entry W e) (\<lambda>_. feed W es)"

text \<open>A list of entries that carries a list of objects: one entry each, in order, sound.\<close>

fun pack_sound :: "zlib_rs \<Rightarrow> OutEntry list \<Rightarrow> bytes option list \<Rightarrow> PackEntry list \<Rightarrow> OutEntry list \<Rightarrow> bool" where
  "pack_sound Z entries bodies [] es = (es = [])"
| "pack_sound Z entries bodies (obj # objs) es =
     (case es of
        [] \<Rightarrow> False
      | e # es \<Rightarrow> entry_sound Z entries bodies obj e \<and>
          pack_sound Z (entries @ [e]) (bodies @ [stored_body Z obj]) objs es)"

lemma next_entry_sound:
  assumes "zlib_ok Z" and "candidates_sound entries bodies cs"
    and "next_entry Z options obj (length entries) cs stats = (Inr e, cs', stats')"
  shows "entry_sound Z entries bodies obj e \<and>
    candidates_sound (entries @ [e]) (bodies @ [stored_body Z obj]) cs'"
proof (cases "ofs_deltas options")
  case True
  with assms delta_or_full_sound show ?thesis by (simp add: next_entry_def)
next
  case False
  with assms show ?thesis by (auto simp: next_entry_def full_entry_sound candidates_sound_snoc)
qed

lemma write_loop_sound:
  fixes items :: "('e + PackEntry) list"
  assumes "zlib_ok Z" and "candidates_sound entries bodies cs"
    and "write_loop W Z options items (length entries) cs stats w = ((Inr (digest, written), stats'), out)"
  shows "\<exists>objs es w'. items = map Inr objs \<and> pack_sound Z entries bodies objs es \<and>
    feed W es w = (Inr (), w') \<and> pw_trailer W w' = (Inr digest, out) \<and> written = length entries + length es"
  using assms
proof (induction items arbitrary: w entries bodies cs stats)
  case Nil
  then show ?case by (intro exI [of _ "[]"] exI [of _ w]) (auto simp: eff_return_def split: prod.splits sum.splits)
next
  case (Cons item items)
  from Cons.prems(3) obtain obj where obj: "item = Inr obj" by (cases item) auto
  from Cons.prems(3) obtain e cs1 stats1 w1
    where nx: "next_entry Z options obj (length entries) cs stats = (Inr e :: 'e PackOutError + OutEntry, cs1, stats1)"
      and w1: "pw_entry W e w = (Inr (), w1)"
      and loop: "write_loop W Z options items (length (entries @ [e])) cs1 stats1 w1 = ((Inr (digest, written), stats'), out)"
    by (auto simp: obj split: prod.splits sum.splits)
  note sound = next_entry_sound [OF Cons.prems(1,2) nx]
  from Cons.IH [OF Cons.prems(1) _ loop] sound obtain objs es w'
    where "items = map Inr objs" "pack_sound Z (entries @ [e]) (bodies @ [stored_body Z obj]) objs es"
      "feed W es w1 = (Inr (), w')" "pw_trailer W w' = (Inr digest, out)"
      "written = length (entries @ [e]) + length es" by blast
  with sound w1 show ?case
    by (intro exI [of _ "obj # objs"] exI [of _ "e # es"] exI [of _ w']) (simp add: obj eff_bind_ok)
qed

lemma pack_sound_unpack:
  "pack_sound Z entries bodies objs es \<Longrightarrow> unpack Z bodies es = bodies @ map (stored_body Z) objs"
proof (induction Z entries bodies objs es rule: pack_sound.induct)
  case (2 Z entries bodies obj objs es)
  then show ?case by (auto simp: unpack_def entry_sound_def split: list.splits)
qed (simp add: unpack_def)

lemma pack_sound_ids:
  "pack_sound Z entries bodies objs es \<Longrightarrow> map out_id es = map entry_id objs"
proof (induction Z entries bodies objs es rule: pack_sound.induct)
  case (2 Z entries bodies obj objs es)
  then show ?case by (auto simp: entry_sound_def split: list.splits)
qed simp

lemma pack_sound_bases:
  assumes "pack_sound Z entries bodies objs es" and "i < length es" and "out_kind (es ! i) = DeltaRef j"
  shows "j < length entries + i \<and> out_kind ((entries @ es) ! j) = Base KBlob"
  using assms
proof (induction Z entries bodies objs es arbitrary: i rule: pack_sound.induct)
  case (2 Z entries bodies obj objs es)
  from "2.prems"(1) obtain e es' where es: "es = e # es'" "entry_sound Z entries bodies obj e"
    "pack_sound Z (entries @ [e]) (bodies @ [stored_body Z obj]) objs es'"
    by (auto split: list.splits)
  show ?case
  proof (cases i)
    case 0
    with es "2.prems"(3) show ?thesis by (auto simp: entry_sound_def nth_append)
  next
    case (Suc k)
    from "2.IH" [OF es(1) es(3), of k] "2.prems"(2,3) show ?thesis by (simp add: es(1) Suc)
  qed
qed simp

text \<open>Every delta of a pack is against an earlier full blob: chains have depth one.\<close>

definition depth_one :: "OutEntry list \<Rightarrow> bool" where
  "depth_one es = list_all (\<lambda>i. case out_kind (es ! i) of
       Base k \<Rightarrow> True
     | DeltaRef j \<Rightarrow> j < i \<and> out_kind (es ! j) = Base KBlob) [0..<length es]"

lemma pack_sound_depth_one: "pack_sound Z [] [] objs es \<Longrightarrow> depth_one es"
  using pack_sound_bases [of Z "[]" "[]" objs es]
  by (auto simp: depth_one_def list_all_iff split: OutKind.split)

text \<open>The loop, from the header to the trailer.\<close>

lemma write_pack_sound:
  fixes objects :: "('e + PackEntry) list"
  assumes "zlib_ok Z"
    and "write_pack_with_options W Z objects num_objects object_hash options stats w0 = ((Inr digest, stats'), out)"
  shows "\<exists>objs es w w'. objects = map Inr objs \<and> length es = num_objects \<and>
    pw_header W num_objects object_hash w0 = (Inr (), w) \<and> feed W es w = (Inr (), w') \<and>
    pw_trailer W w' = (Inr (Some digest), out) \<and>
    map out_id es = map entry_id objs \<and> unpack Z [] es = map (stored_body Z) objs \<and> depth_one es"
proof -
  from assms(2) obtain w where w: "pw_header W num_objects object_hash w0 = (Inr (), w)"
    and loop: "write_loop W Z options objects (length ([] :: OutEntry list)) candidates_default stats w
      = ((Inr (Some digest, num_objects), stats'), out)"
    by (auto simp: write_pack_with_options_def split: option.splits prod.splits sum.splits if_splits)
  have "candidates_sound [] [] candidates_default"
    by (simp add: candidates_sound_def candidates_default_def)
  from write_loop_sound [OF assms(1) this loop] obtain objs es w'
    where *: "objects = map Inr objs" "pack_sound Z [] [] objs es" "feed W es w = (Inr (), w')"
      "pw_trailer W w' = (Inr (Some digest), out)" "num_objects = length es" by auto
  from pack_sound_unpack [OF *(2)] pack_sound_ids [OF *(2)] pack_sound_depth_one [OF *(2)] * w
  show ?thesis by (intro exI [of _ objs] exI [of _ es] exI [of _ w] exI [of _ w']) auto
qed

section \<open>Properties\<close>

text \<open>The cache of delta bases stays within its window of entries and its byte budget, and its
  byte counter is the total of the bodies it holds, over every insertion.\<close>

theorem candidates_bounded:
  assumes "candidates_inv cs" and "candidates_insert cs i g body = (ok, cs')"
  shows "candidates_inv cs' \<and> (ok \<longleftrightarrow> length body \<le> MAX_DELTA_CACHE_BYTES)"
  using assms by (rule candidates_insert_inv)

theorem candidates_bounded_witness:
  "candidates_inv \<lparr>cand_entries = [\<lparr>cand_index = 4, cand_group = 1, cand_body = [7]\<rparr>], cand_bytes = 1\<rparr> \<and>
   (True \<longleftrightarrow> length [7 :: u8] \<le> MAX_DELTA_CACHE_BYTES)"
  by (rule candidates_bounded [OF candidates_inv_default, of 4 1 "[7]"])
    (simp add: candidates_insert_def candidates_default_def evict_candidates.simps
      MAX_DELTA_CACHE_BYTES_def DELTA_WINDOW_def)

text \<open>C23: A pack that is written completely holds one entry per input object, in order and under
  its id; every delta entry points at an earlier full blob entry (so chains have depth one), and
  resolving the entries yields each object's own stored content.\<close>

theorem written_pack_decodes:
  fixes objects :: "('e + PackEntry) list"
  assumes "zlib_ok Z"
    and "write_pack_with_options W Z objects num_objects object_hash options stats w0 = ((Inr digest, stats'), out)"
  shows "\<exists>objs es w w'. objects = map Inr objs \<and> length es = num_objects \<and>
    pw_header W num_objects object_hash w0 = (Inr (), w) \<and> feed W es w = (Inr (), w') \<and>
    pw_trailer W w' = (Inr (Some digest), out) \<and>
    map out_id es = map entry_id objs \<and> unpack Z [] es = map (stored_body Z) objs \<and> depth_one es"
  by (rule write_pack_sound [OF assms])

text \<open>A writer that collects the entries and reports a fixed digest.\<close>

definition list_writer :: "OutEntry list pack_writer" where
  "list_writer = \<lparr>pw_header = (\<lambda>n k w. (Inr (), [])), pw_entry = (\<lambda>e w. (Inr (), w @ [e])),
     pw_trailer = (\<lambda>w. (Inr (Some (replicate 20 0)), w))\<rparr>"

definition sample_entry :: PackEntry where
  "sample_entry = \<lparr>entry_id = replicate 20 1, entry_kind = KBlob, decompressed_size = 2,
     entry_zlib = [8, 9], delta_group = Some 3\<rparr>"

theorem written_pack_decodes_witness:
  "\<exists>objs es w w'. [Inr sample_entry :: unit + PackEntry] = map Inr objs \<and> length es = 1 \<and>
    pw_header list_writer 1 Sha1 [] = (Inr (), w) \<and> feed list_writer es w = (Inr (), w') \<and>
    pw_trailer list_writer w' = (Inr (Some (replicate 20 0)), [full_entry sample_entry]) \<and>
    map out_id es = map entry_id objs \<and> unpack stored_zlib [] es = map (stored_body stored_zlib) objs \<and> depth_one es"
  by (rule written_pack_decodes [OF stored_zlib_ok, where options = "\<lparr>ofs_deltas = True\<rparr>"
        and stats = delta_stats_default and stats' = delta_stats_default])
    (simp add: write_pack_with_options_def list_writer_def sample_entry_def next_entry_def
      delta_or_full_def MIN_DELTA_BLOB_SIZE_def)

end
