(* ===== verification/Keys.thy ===== *)
theory Keys
  imports Prelude
begin

text \<open>
  The key codec of \<^verbatim>\<open>src/storage/keys.rs\<close>: every key of every segment is the fixed
  preamble \<^verbatim>\<open>segment | version | repo_id\<close> followed by a segment-specific suffix. The
  lemmas show that the four builders and their decoders are inverse to each other, that
  keys of different repositories or segments never collide, and that a prefix scan sees
  exactly the refs whose name starts with the prefix.
\<close>

section \<open>Definitions\<close>

definition KEY_VERSION :: u8 where
  "KEY_VERSION = 1"

definition PREAMBLE_LEN :: nat where
  "PREAMBLE_LEN = 1 + 1 + 8"

datatype RepoId = RepoId (repo_u64: u64)

definition GLOBAL :: RepoId where
  "GLOBAL = RepoId 0"

datatype Segment = Meta | Object | Ref | CommitGraph

fun as_u8 :: "Segment \<Rightarrow> u8" where
  "as_u8 Meta = 0x00"
| "as_u8 Object = 0x01"
| "as_u8 Ref = 0x02"
| "as_u8 CommitGraph = 0x03"

datatype KeyError =
    TooShort nat nat
  | UnsupportedVersion u8
  | UnknownSegment u8
  | WrongSegment Segment Segment
  | KeyInvalidUtf8
  | InvalidObjectIdLen nat nat

definition segment_try_from :: "u8 \<Rightarrow> KeyError + Segment" where
  "segment_try_from value =
     (if value = 0x00 then Inr Meta
      else if value = 0x01 then Inr Object
      else if value = 0x02 then Inr Ref
      else if value = 0x03 then Inr CommitGraph
      else Inl (UnknownSegment value))"

definition encode_preamble :: "bytes \<Rightarrow> RepoId \<Rightarrow> Segment \<Rightarrow> bytes" where
  "encode_preamble buf repo segment =
     buf @ [as_u8 segment] @ [KEY_VERSION] @ u64_to_be_bytes (repo_u64 repo)"

definition decode_preamble :: "bytes \<Rightarrow> KeyError + (RepoId \<times> Segment \<times> bytes)" where
  "decode_preamble bs =
     (if length bs < PREAMBLE_LEN then Inl (TooShort PREAMBLE_LEN (length bs))
      else
        let version = bs ! 1 in
        if version \<noteq> KEY_VERSION then Inl (UnsupportedVersion version)
        else
          and_then (segment_try_from (bs ! 0)) (\<lambda>segment.
          let repo_id = from_be_bytes
                [bs ! 2, bs ! 3, bs ! 4, bs ! 5, bs ! 6, bs ! 7, bs ! 8, bs ! 9] in
          Inr (RepoId repo_id, segment, drop PREAMBLE_LEN bs)))"

definition expect_segment :: "Segment \<Rightarrow> Segment \<Rightarrow> KeyError + unit" where
  "expect_segment actual expected =
     (if actual = expected then Inr () else Inl (WrongSegment expected actual))"

definition decode_oid :: "bytes \<Rightarrow> HashKind \<Rightarrow> KeyError + ObjectId" where
  "decode_oid bs hash_kind =
     (let expected = len_in_bytes hash_kind in
      if length bs \<noteq> expected then Inl (InvalidObjectIdLen expected (length bs))
      else ok_or (InvalidObjectIdLen expected (length bs)) (oid_try_from bs))"

definition meta_key :: "RepoId \<Rightarrow> str \<Rightarrow> bytes" where
  "meta_key repo name = encode_preamble [] repo Meta @ name"

definition decode_meta_key :: "bytes \<Rightarrow> KeyError + (RepoId \<times> str)" where
  "decode_meta_key bs =
     and_then (decode_preamble bs) (\<lambda>(repo, segment, rest).
     and_then (expect_segment segment Meta) (\<lambda>_.
     and_then (ok_or KeyInvalidUtf8 (from_utf8 rest)) (\<lambda>name.
     Inr (repo, name))))"

definition object_key :: "RepoId \<Rightarrow> ObjectId \<Rightarrow> bytes" where
  "object_key repo i = encode_preamble [] repo Object @ i"

definition decode_object_key :: "bytes \<Rightarrow> HashKind \<Rightarrow> KeyError + (RepoId \<times> ObjectId)" where
  "decode_object_key bs hash_kind =
     and_then (decode_preamble bs) (\<lambda>(repo, segment, rest).
     and_then (expect_segment segment Object) (\<lambda>_.
     and_then (decode_oid rest hash_kind) (\<lambda>i.
     Inr (repo, i))))"

definition ref_key :: "RepoId \<Rightarrow> str \<Rightarrow> bytes" where
  "ref_key repo name = encode_preamble [] repo Ref @ name"

definition decode_ref_key :: "bytes \<Rightarrow> KeyError + (RepoId \<times> str)" where
  "decode_ref_key bs =
     and_then (decode_preamble bs) (\<lambda>(repo, segment, rest).
     and_then (expect_segment segment Ref) (\<lambda>_.
     and_then (ok_or KeyInvalidUtf8 (from_utf8 rest)) (\<lambda>name.
     Inr (repo, name))))"

definition commit_key :: "RepoId \<Rightarrow> ObjectId \<Rightarrow> bytes" where
  "commit_key repo i = encode_preamble [] repo CommitGraph @ i"

definition decode_commit_key :: "bytes \<Rightarrow> HashKind \<Rightarrow> KeyError + (RepoId \<times> ObjectId)" where
  "decode_commit_key bs hash_kind =
     and_then (decode_preamble bs) (\<lambda>(repo, segment, rest).
     and_then (expect_segment segment CommitGraph) (\<lambda>_.
     and_then (decode_oid rest hash_kind) (\<lambda>i.
     Inr (repo, i))))"

definition segment_prefix :: "RepoId \<Rightarrow> Segment \<Rightarrow> bytes" where
  "segment_prefix repo segment = encode_preamble [] repo segment"

definition ref_prefix :: "RepoId \<Rightarrow> str \<Rightarrow> bytes" where
  "ref_prefix repo utf8_prefix = segment_prefix repo Ref @ utf8_prefix"

section \<open>The preamble\<close>

lemmas key_defs [codec_simps] =
  meta_key_def object_key_def ref_key_def commit_key_def segment_prefix_def ref_prefix_def

lemma as_u8_inject [simp]: "as_u8 s = as_u8 t \<longleftrightarrow> s = t"
  by (cases s; cases t) simp_all

lemma segment_try_from_as_u8 [simp]: "segment_try_from (as_u8 s) = Inr s"
  by (cases s) (simp_all add: segment_try_from_def)

lemma segment_try_from_eq_Inr: "segment_try_from b = Inr s \<longleftrightarrow> b = as_u8 s"
proof
  assume "segment_try_from b = Inr s"
  then show "b = as_u8 s"
    by (auto simp: segment_try_from_def split: if_splits)
qed simp

lemma length_encode_preamble [simp]:
  "length (encode_preamble buf repo s) = length buf + PREAMBLE_LEN"
  by (simp add: encode_preamble_def PREAMBLE_LEN_def)

lemma encode_preamble_inject:
  "encode_preamble [] r s @ x = encode_preamble [] r' s' @ y \<longleftrightarrow> r = r' \<and> s = s' \<and> x = y"
  by (auto simp: encode_preamble_def append_eq_append_conv RepoId.expand)

lemma prefix_encode_preamble:
  "prefix (encode_preamble [] r s @ x) (encode_preamble [] r' s' @ y) \<longleftrightarrow> r = r' \<and> s = s' \<and> prefix x y"
  unfolding prefix_def append_assoc encode_preamble_inject by auto

lemma from_be_nth8:
  assumes "length bs = 8"
  shows "[bs ! 0, bs ! 1, bs ! 2, bs ! 3, bs ! 4, bs ! 5, bs ! 6, bs ! 7] = bs"
  using assms by (auto simp: length_Suc_conv numeral_eq_Suc)

lemma decode_preamble_encode:
  "decode_preamble (encode_preamble [] r s @ rest) = Inr (r, s, rest)"
proof -
  let ?w = "u64_to_be_bytes (repo_u64 r)"
  have "[?w ! 0, ?w ! 1, ?w ! 2, ?w ! 3, ?w ! 4, ?w ! 5, ?w ! 6, ?w ! 7] = ?w"
    by (rule from_be_nth8) simp
  then have "from_be_bytes [?w ! 0, ?w ! 1, ?w ! 2, ?w ! 3, ?w ! 4, ?w ! 5, ?w ! 6, ?w ! 7] = repo_u64 r"
    by simp
  then show ?thesis
    by (simp add: decode_preamble_def encode_preamble_def PREAMBLE_LEN_def nth_append Let_def)
qed

lemma decode_preamble_eq_Inr:
  assumes "decode_preamble bs = Inr (r, s, rest)"
  shows "bs = encode_preamble [] r s @ rest"
proof -
  from assms have len: "PREAMBLE_LEN \<le> length bs" and ver: "bs ! 1 = KEY_VERSION"
    and seg: "bs ! 0 = as_u8 s"
    and r: "r = RepoId (from_be_bytes
              [bs ! 2, bs ! 3, bs ! 4, bs ! 5, bs ! 6, bs ! 7, bs ! 8, bs ! 9])"
    and rest: "rest = drop PREAMBLE_LEN bs"
    by (auto simp: decode_preamble_def Let_def and_then_eq_Inr segment_try_from_eq_Inr split: if_splits)
  have "u64_to_be_bytes (repo_u64 r) = [bs ! 2, bs ! 3, bs ! 4, bs ! 5, bs ! 6, bs ! 7, bs ! 8, bs ! 9]"
    by (simp add: r u64_to_from_be_bytes)
  moreover have "take PREAMBLE_LEN bs =
      [bs ! 0, bs ! 1, bs ! 2, bs ! 3, bs ! 4, bs ! 5, bs ! 6, bs ! 7, bs ! 8, bs ! 9]"
    using len by (auto intro!: nth_equalityI simp: PREAMBLE_LEN_def nth_Cons numeral_eq_Suc split: nat.splits)
  ultimately have "take PREAMBLE_LEN bs = encode_preamble [] r s"
    using ver seg by (simp add: encode_preamble_def)
  then show ?thesis
    unfolding rest by (metis append_take_drop_id)
qed

lemma expect_segment_eq_Inr [simp]: "expect_segment s t = Inr u \<longleftrightarrow> s = t"
  by (auto simp: expect_segment_def)

lemma decode_oid_eq_Inr: "decode_oid bs k = Inr i \<longleftrightarrow> length bs = len_in_bytes k \<and> i = bs"
  by (auto simp: decode_oid_def Let_def oid_ok_len_in_bytes)

section \<open>The key codecs\<close>

interpretation meta_keys: codec "\<lambda>(r, n). meta_key r n" decode_meta_key "\<lambda>(r, n). valid_utf8 n"
proof
  fix v :: "RepoId \<times> str"
  assume "case v of (r, n) \<Rightarrow> valid_utf8 n"
  then show "decode_meta_key (case v of (r, n) \<Rightarrow> meta_key r n) = Inr v"
    by (auto simp: decode_meta_key_def meta_key_def decode_preamble_encode expect_segment_def from_utf8_def)
next
  fix bs v assume "decode_meta_key bs = Inr v"
  then show "(case v of (r, n) \<Rightarrow> valid_utf8 n) \<and> (case v of (r, n) \<Rightarrow> meta_key r n) = bs"
    by (auto simp: decode_meta_key_def meta_key_def and_then_eq_Inr dest!: decode_preamble_eq_Inr)
qed

interpretation ref_keys: codec "\<lambda>(r, n). ref_key r n" decode_ref_key "\<lambda>(r, n). valid_utf8 n"
proof
  fix v :: "RepoId \<times> str"
  assume "case v of (r, n) \<Rightarrow> valid_utf8 n"
  then show "decode_ref_key (case v of (r, n) \<Rightarrow> ref_key r n) = Inr v"
    by (auto simp: decode_ref_key_def ref_key_def decode_preamble_encode expect_segment_def from_utf8_def)
next
  fix bs v assume "decode_ref_key bs = Inr v"
  then show "(case v of (r, n) \<Rightarrow> valid_utf8 n) \<and> (case v of (r, n) \<Rightarrow> ref_key r n) = bs"
    by (auto simp: decode_ref_key_def ref_key_def and_then_eq_Inr dest!: decode_preamble_eq_Inr)
qed

interpretation object_keys: codec "\<lambda>(r, i). object_key r i" "\<lambda>bs. decode_object_key bs k"
    "\<lambda>(r, i). length i = len_in_bytes k" for k
proof
  fix v :: "RepoId \<times> ObjectId"
  assume "case v of (r, i) \<Rightarrow> length i = len_in_bytes k"
  then show "decode_object_key (case v of (r, i) \<Rightarrow> object_key r i) k = Inr v"
    by (auto simp: decode_object_key_def object_key_def decode_preamble_encode expect_segment_def
        and_then_eq_Inr decode_oid_eq_Inr)
next
  fix bs v assume "decode_object_key bs k = Inr v"
  then show "(case v of (r, i) \<Rightarrow> length i = len_in_bytes k) \<and> (case v of (r, i) \<Rightarrow> object_key r i) = bs"
    by (auto simp: decode_object_key_def object_key_def and_then_eq_Inr decode_oid_eq_Inr
        dest!: decode_preamble_eq_Inr)
qed

interpretation commit_keys: codec "\<lambda>(r, i). commit_key r i" "\<lambda>bs. decode_commit_key bs k"
    "\<lambda>(r, i). length i = len_in_bytes k" for k
proof
  fix v :: "RepoId \<times> ObjectId"
  assume "case v of (r, i) \<Rightarrow> length i = len_in_bytes k"
  then show "decode_commit_key (case v of (r, i) \<Rightarrow> commit_key r i) k = Inr v"
    by (auto simp: decode_commit_key_def commit_key_def decode_preamble_encode expect_segment_def
        and_then_eq_Inr decode_oid_eq_Inr)
next
  fix bs v assume "decode_commit_key bs k = Inr v"
  then show "(case v of (r, i) \<Rightarrow> length i = len_in_bytes k) \<and> (case v of (r, i) \<Rightarrow> commit_key r i) = bs"
    by (auto simp: decode_commit_key_def commit_key_def and_then_eq_Inr decode_oid_eq_Inr
        dest!: decode_preamble_eq_Inr)
qed

section \<open>Separation and scans\<close>

lemma key_inject [simp]:
  "meta_key r n = meta_key r' n' \<longleftrightarrow> r = r' \<and> n = n'"
  "object_key r i = object_key r' i' \<longleftrightarrow> r = r' \<and> i = i'"
  "ref_key r n = ref_key r' n' \<longleftrightarrow> r = r' \<and> n = n'"
  "commit_key r i = commit_key r' i' \<longleftrightarrow> r = r' \<and> i = i'"
  by (auto simp: codec_simps encode_preamble_inject)

lemma key_segments_distinct [simp]:
  "meta_key r n \<noteq> object_key r' i" "object_key r' i \<noteq> meta_key r n"
  "meta_key r n \<noteq> ref_key r' m" "ref_key r' m \<noteq> meta_key r n"
  "meta_key r n \<noteq> commit_key r' i" "commit_key r' i \<noteq> meta_key r n"
  "object_key r i \<noteq> ref_key r' m" "ref_key r' m \<noteq> object_key r i"
  "object_key r i \<noteq> commit_key r' j" "commit_key r' j \<noteq> object_key r i"
  "ref_key r m \<noteq> commit_key r' i" "commit_key r' i \<noteq> ref_key r m"
  by (auto simp: codec_simps encode_preamble_inject)

lemma ref_prefix_scan:
  "prefix (ref_prefix r p) (ref_key r' n) \<longleftrightarrow> r = r' \<and> prefix p n"
  "\<not> prefix (ref_prefix r p) (meta_key r' n)"
  "\<not> prefix (ref_prefix r p) (object_key r' i)"
  "\<not> prefix (ref_prefix r p) (commit_key r' i)"
  by (auto simp: codec_simps prefix_encode_preamble)

section \<open>Properties\<close>

text \<open>C27: A byte string decodes as a key of a segment exactly when it is the key encoder's output
  for a name that is UTF-8, or for an id of the repository's hash width; so every key written
  by the store reads back as the repository and name it was written for, and nothing else does.\<close>

theorem keys_decode_exactly:
  "(decode_meta_key bs = Inr (r, n) \<longleftrightarrow> valid_utf8 n \<and> bs = meta_key r n) \<and>
   (decode_ref_key bs = Inr (r, n) \<longleftrightarrow> valid_utf8 n \<and> bs = ref_key r n) \<and>
   (decode_object_key bs k = Inr (r, i) \<longleftrightarrow> length i = len_in_bytes k \<and> bs = object_key r i) \<and>
   (decode_commit_key bs k = Inr (r, i) \<longleftrightarrow> length i = len_in_bytes k \<and> bs = commit_key r i)"
  using meta_keys.decode_iff [of bs "(r, n)"] ref_keys.decode_iff [of bs "(r, n)"]
    object_keys.decode_iff [of bs k "(r, i)"] commit_keys.decode_iff [of bs k "(r, i)"]
  by simp

text \<open>C28: A scan of a repository's reference prefix matches exactly the reference keys of that
  repository whose name has the prefix: no key of another repository and no key of another
  segment.\<close>

theorem ref_scan_exact:
  "prefix (ref_prefix r p) (ref_key r' n) = (r = r' \<and> prefix p n) \<and>
   prefix (ref_prefix r p) (meta_key r' n) = False \<and>
   prefix (ref_prefix r p) (object_key r' i) = False \<and>
   prefix (ref_prefix r p) (commit_key r' i) = False"
  using ref_prefix_scan by simp

end
