(* ===== verification/Slate.thy ===== *)
theory Slate
  imports Prelude "HOL-Library.List_Lexorder"
begin

text \<open>
  The key-value engine under the store. \<^verbatim>\<open>slatedb\<close> is an external crate, so its calls are
  a parameter: a record of operations over a world. What the store relies on is the locale
  \<open>slatedb_laws\<close>: point reads and writes are linearizable, a prefix scan returns the matching
  entries in key order, and a \<^verbatim>\<open>SerializableSnapshot\<close> transaction reads one snapshot and
  commits only when nothing it read has changed. Other clients of the database may act
  before every call; \<open>env\<close> is what they may do. A sequential in-memory engine is proved to
  satisfy the laws.
\<close>

section \<open>The calls\<close>

text \<open>\<^verbatim>\<open>slatedb::Error\<close> by the one \<^verbatim>\<open>kind()\<close> the sources test for.\<close>

datatype SlateError = TransactionError | OtherError

type_synonym kvmap = "bytes \<rightharpoonup> bytes"

record ('s, 't) slatedb =
  db_get :: "bytes \<Rightarrow> ('s, SlateError, bytes option) eff"
  db_put :: "bytes \<Rightarrow> bytes \<Rightarrow> bool \<Rightarrow> ('s, SlateError, unit) eff"
  db_delete :: "bytes \<Rightarrow> ('s, SlateError, unit) eff"
  db_scan_prefix :: "bytes \<Rightarrow> ('s, SlateError, (bytes \<times> bytes) list) eff"
  db_flush :: "('s, SlateError, unit) eff"
  db_begin :: "('s, SlateError, 't) eff"
  txn_get :: "'t \<Rightarrow> bytes \<Rightarrow> ('s, SlateError, bytes option \<times> 't) eff"
  txn_put :: "'t \<Rightarrow> bytes \<Rightarrow> bytes \<Rightarrow> SlateError + 't"
  txn_delete :: "'t \<Rightarrow> bytes \<Rightarrow> SlateError + 't"
  txn_commit :: "'t \<Rightarrow> ('s, SlateError, unit) eff"

section \<open>The contract\<close>

text \<open>A transaction's buffered writes: a key is overwritten, deleted (\<^verbatim>\<open>None\<close>) or untouched.\<close>

definition apply_writes :: "(bytes \<rightharpoonup> bytes option) \<Rightarrow> kvmap \<Rightarrow> kvmap" where
  "apply_writes w m = (\<lambda>k. case w k of None \<Rightarrow> m k | Some v \<Rightarrow> v)"

lemma apply_writes_empty [simp]: "apply_writes Map.empty m = m"
  by (simp add: apply_writes_def)

lemma apply_writes_upd [simp]: "apply_writes (w(k \<mapsto> v)) m = (apply_writes w m)(k := v)"
  by (auto simp: apply_writes_def)

definition scan_result :: "kvmap \<Rightarrow> bytes \<Rightarrow> (bytes \<times> bytes) list \<Rightarrow> bool" where
  "scan_result m p kvs \<longleftrightarrow> sorted (map fst kvs) \<and> distinct (map fst kvs) \<and>
     map_of kvs = m |` {k. prefix p k}"

text \<open>
  \<open>kv\<close> reads the database's contents off the world and \<open>rest\<close> everything the database does
  not touch; \<open>env\<close> relates two worlds when other clients can lead from one to the other. A
  failed write may or may not have been applied.
\<close>

locale slatedb_laws =
  fixes db :: "('s, 't) slatedb"
    and kv :: "'s \<Rightarrow> kvmap"
    and rest :: "'s \<Rightarrow> 'o"
    and env :: "'s \<Rightarrow> 's \<Rightarrow> bool"
    and snap :: "'t \<Rightarrow> kvmap"
    and reads :: "'t \<Rightarrow> bytes set"
    and writes :: "'t \<Rightarrow> (bytes \<rightharpoonup> bytes option)"
  assumes env_refl: "env s s"
    and env_trans: "env s1 s2 \<Longrightarrow> env s2 s3 \<Longrightarrow> env s1 s3"
    and get_law: "db_get db k s = (r1, s') \<Longrightarrow> env s s' \<and> (\<forall>v. r1 = Inr v \<longrightarrow> v = kv s' k)"
    and put_law: "db_put db k v d s = (r2, s') \<Longrightarrow>
      (\<exists>u. env s u \<and> rest s' = rest u \<and> kv s' = (kv u)(k \<mapsto> v)) \<or> r2 \<noteq> Inr () \<and> env s s'"
    and delete_law: "db_delete db k s = (r3, s') \<Longrightarrow>
      (\<exists>u. env s u \<and> rest s' = rest u \<and> kv s' = (kv u)(k := None)) \<or> r3 \<noteq> Inr () \<and> env s s'"
    and scan_law: "db_scan_prefix db p s = (r4, s') \<Longrightarrow>
      env s s' \<and> (\<forall>kvs. r4 = Inr kvs \<longrightarrow> scan_result (kv s') p kvs)"
    and flush_law: "db_flush db s = (r5, s') \<Longrightarrow> env s s'"
    and begin_law: "db_begin db s = (r6, s') \<Longrightarrow> env s s' \<and>
      (\<forall>t. r6 = Inr t \<longrightarrow> snap t = kv s' \<and> reads t = {} \<and> writes t = Map.empty)"
    and txn_get_law: "txn_get db t k s = (r7, s') \<Longrightarrow> env s s' \<and>
      (\<forall>v t'. r7 = Inr (v, t') \<longrightarrow> v = apply_writes (writes t) (snap t) k \<and>
         snap t' = snap t \<and> insert k (reads t) \<subseteq> reads t' \<and> writes t' = writes t)"
    and txn_put_law: "txn_put db t k v = Inr t' \<Longrightarrow>
      snap t' = snap t \<and> reads t \<subseteq> reads t' \<and> writes t' = (writes t)(k \<mapsto> Some v)"
    and txn_delete_law: "txn_delete db t k = Inr t' \<Longrightarrow>
      snap t' = snap t \<and> reads t \<subseteq> reads t' \<and> writes t' = (writes t)(k \<mapsto> None)"
    and commit_law: "txn_commit db t s = (r8, s') \<Longrightarrow>
      (\<exists>u. env s u \<and> rest s' = rest u \<and> (\<forall>k\<in>reads t. kv u k = snap t k) \<and>
         kv s' = apply_writes (writes t) (kv u) \<and> r8 \<noteq> Inl TransactionError)
      \<or> r8 \<noteq> Inr () \<and> env s s'"

section \<open>A sequential in-memory engine\<close>

type_synonym table = "(bytes \<times> bytes) list"

definition table_put :: "bytes \<Rightarrow> bytes \<Rightarrow> table \<Rightarrow> table" where
  "table_put k v s = (k, v) # s"

definition table_del :: "bytes \<Rightarrow> table \<Rightarrow> table" where
  "table_del k s = filter (\<lambda>p. fst p \<noteq> k) s"

definition table_scan :: "bytes \<Rightarrow> table \<Rightarrow> (bytes \<times> bytes) list" where
  "table_scan p s = map (\<lambda>k. (k, the (map_of s k))) (sort (remdups (filter (prefix p) (map fst s))))"

lemma map_of_table_del: "map_of (table_del k s) = (map_of s)(k := None)"
proof
  fix x show "map_of (table_del k s) x = ((map_of s)(k := None)) x"
    by (induction s) (auto simp: table_del_def)
qed

lemma map_of_graph: "map_of (map (\<lambda>k. (k, f k)) ks) = (\<lambda>k. if k \<in> set ks then Some (f k) else None)"
  by (induction ks) auto

lemma table_scan_result: "scan_result (map_of s) p (table_scan p s)"
proof -
  have "map_of s k = Some (the (map_of s k))" if "k \<in> fst ` set s" for k
    using that by (metis map_of_eq_None_iff option.exhaust_sel)
  moreover have "map_of s k = None" if "k \<notin> fst ` set s" for k
    using that by (simp add: map_of_eq_None_iff)
  ultimately show ?thesis
    by (auto simp: scan_result_def table_scan_def comp_def map_of_graph restrict_map_def fun_eq_iff)
qed

record mem_txn =
  t_snap :: table
  t_reads :: "bytes list"
  t_writes :: "(bytes \<times> bytes option) list"

definition table_write :: "bytes \<times> bytes option \<Rightarrow> table \<Rightarrow> table" where
  "table_write w s = (case w of (k, None) \<Rightarrow> table_del k s | (k, Some v) \<Rightarrow> table_put k v s)"

text \<open>The world: the database's table and, beside it, the object store's.\<close>

type_synonym mem_world = "table \<times> table"

definition mem_kv :: "mem_world \<Rightarrow> kvmap" where
  "mem_kv s = map_of (fst s)"

definition mem_rest :: "mem_world \<Rightarrow> kvmap" where
  "mem_rest s = map_of (snd s)"

definition mem_db :: "(mem_world, mem_txn) slatedb" where
  "mem_db = \<lparr>
     db_get = (\<lambda>k s. (Inr (map_of (fst s) k), s)),
     db_put = (\<lambda>k v d s. (Inr (), (table_put k v (fst s), snd s))),
     db_delete = (\<lambda>k s. (Inr (), (table_del k (fst s), snd s))),
     db_scan_prefix = (\<lambda>p s. (Inr (table_scan p (fst s)), s)),
     db_flush = (\<lambda>s. (Inr (), s)),
     db_begin = (\<lambda>s. (Inr \<lparr>t_snap = fst s, t_reads = [], t_writes = []\<rparr>, s)),
     txn_get = (\<lambda>t k s. (Inr (case map_of (t_writes t) k of
         Some v \<Rightarrow> v | None \<Rightarrow> map_of (t_snap t) k, t\<lparr>t_reads := k # t_reads t\<rparr>), s)),
     txn_put = (\<lambda>t k v. Inr (t\<lparr>t_writes := (k, Some v) # t_writes t\<rparr>)),
     txn_delete = (\<lambda>t k. Inr (t\<lparr>t_writes := (k, None) # t_writes t\<rparr>)),
     txn_commit = (\<lambda>t s.
         if list_all (\<lambda>k. map_of (fst s) k = map_of (t_snap t) k) (t_reads t)
         then (Inr (), (foldr table_write (t_writes t) (fst s), snd s))
         else (Inl TransactionError, s))\<rparr>"

lemma map_of_writes:
  "map_of (foldr table_write ws s) = apply_writes (map_of ws) (map_of s)"
proof (induction ws)
  case (Cons w ws)
  obtain k v where "w = (k, v)" by force
  with Cons show ?case by (cases v) (auto simp: table_write_def table_put_def map_of_table_del apply_writes_def fun_eq_iff)
qed simp

interpretation mem_db: slatedb_laws mem_db mem_kv mem_rest "(=)" "\<lambda>t. map_of (t_snap t)"
    "\<lambda>t. set (t_reads t)" "\<lambda>t. map_of (t_writes t)"
  by unfold_locales
    (auto simp: mem_db_def mem_kv_def mem_rest_def table_scan_result table_put_def map_of_table_del
      apply_writes_def map_of_writes list_all_iff split: option.splits if_splits)

end
