(* ===== verification/Store.thy ===== *)
theory Store
  imports Keys Values Slate
begin

text \<open>
  \<^verbatim>\<open>src/storage/store.rs\<close>: typed access to the four segments, the repository registry and
  the compare-and-swap ref updates, over an arbitrary key-value engine. Opening the engine,
  cache warming and shutdown are calls into SlateDB and the object store with no logic of
  their own and are not modelled.
\<close>

section \<open>Definitions\<close>

definition META_REPO_PREFIX :: str where
  "META_REPO_PREFIX = lit ''repo:''"

definition META_NEXT_REPO_ID :: str where
  "META_NEXT_REPO_ID = lit ''next-repo-id''"

definition META_OBJECT_FORMAT :: str where
  "META_OBJECT_FORMAT = lit ''object-format''"

definition META_DEFAULT_BRANCH :: str where
  "META_DEFAULT_BRANCH = lit ''default-branch''"

definition META_SCHEMA_VERSION :: str where
  "META_SCHEMA_VERSION = lit ''schema-version''"

definition OBJECT_FORMAT_SHA1 :: str where
  "OBJECT_FORMAT_SHA1 = lit ''sha1''"

definition DEFAULT_BRANCH :: str where
  "DEFAULT_BRANCH = lit ''refs/heads/main''"

definition HEAD_REF :: str where
  "HEAD_REF = lit ''HEAD''"

definition SCHEMA_VERSION :: u32 where
  "SCHEMA_VERSION = 2"

definition FIRST_REPO_ID :: u64 where
  "FIRST_REPO_ID = 1"

definition CREATE_ATTEMPTS :: nat where
  "CREATE_ATTEMPTS = 32"

definition UPDATE_REFS_ATTEMPTS :: nat where
  "UPDATE_REFS_ATTEMPTS = 2"

definition REASON_NON_FAST_FORWARD :: str where
  "REASON_NON_FAST_FORWARD = lit ''non-fast-forward''"

definition REASON_SYMBOLIC :: str where
  "REASON_SYMBOLIC = lit ''cannot update symbolic ref''"

definition REASON_CONFLICT :: str where
  "REASON_CONFLICT = lit ''transaction conflict''"

datatype StoreError =
    SUrl
  | SIo
  | SObjectStore
  | SDb SlateError
  | SPartCache
  | SKey KeyError
  | SValue ValueError
  | UnexpectedMeta RepoId str
  | MissingMeta RepoId str
  | UnsupportedObjectFormat str
  | CreateContention

record RepoMeta =
  repo_id :: RepoId
  object_format :: HashKind
  default_branch :: str

record RefUpdate =
  upd_name :: str
  expected_old :: "ObjectId option"
  upd_new :: "ObjectId option"

datatype RefOutcome = Updated | Rejected str

record RefUpdateResult =
  res_name :: str
  outcome :: RefOutcome

datatype Durability = Durable | Relaxed

definition await_durable :: "Durability \<Rightarrow> bool" where
  "await_durable d \<longleftrightarrow> d = Durable"

text \<open>\<^verbatim>\<open>SegmentExtractor::prefix_len\<close>; point and prefix targets are treated alike.\<close>

definition prefix_len :: "bytes \<Rightarrow> nat option" where
  "prefix_len bs = (if bs \<noteq> [] then Some 1 else None)"

definition is_conflict :: "SlateError \<Rightarrow> bool" where
  "is_conflict e \<longleftrightarrow> e = TransactionError"

definition raw_u64 :: "MetaValue \<Rightarrow> u64 option" where
  "raw_u64 v = (case v of MRaw bs \<Rightarrow> if length bs = 8 then Some (from_be_bytes bs) else None | _ \<Rightarrow> None)"

definition decode_repo_id :: "str \<Rightarrow> MetaValue \<Rightarrow> StoreError + RepoId" where
  "decode_repo_id repo_key v = ok_or (UnexpectedMeta GLOBAL repo_key) (map_option RepoId (raw_u64 v))"

definition decode_counter :: "MetaValue \<Rightarrow> StoreError + u64" where
  "decode_counter v = ok_or (UnexpectedMeta GLOBAL META_NEXT_REPO_ID) (raw_u64 v)"

definition parse_object_format :: "str \<Rightarrow> StoreError + HashKind" where
  "parse_object_format v =
     (if v = lit ''sha1'' then Inr Sha1
      else if v = lit ''sha256'' then Inr Sha256
      else Inl (UnsupportedObjectFormat v))"

text \<open>The \<^verbatim>\<open>Some(bytes) => Ok(Some(decode(bytes)?)), None => Ok(None)\<close> match of the typed reads.\<close>

definition decode_opt :: "(bytes \<Rightarrow> ValueError + 'v) \<Rightarrow> bytes option \<Rightarrow> StoreError + 'v option" where
  "decode_opt dec v =
     (case v of
        None \<Rightarrow> Inr None
      | Some bs \<Rightarrow> and_then (map_err SValue (dec bs)) (\<lambda>x. Inr (Some x)))"

subsection \<open>Typed segment operations\<close>

definition get_object :: "('s, 't) slatedb \<Rightarrow> RepoId \<Rightarrow> ObjectId \<Rightarrow> ('s, StoreError, ObjectRecord option) eff" where
  "get_object db repo i =
     eff_bind (eff_map_err SDb (db_get db (object_key repo i))) (\<lambda>v. eff_lift (decode_opt record_decode v))"

definition put_object ::
    "('s, 't) slatedb \<Rightarrow> RepoId \<Rightarrow> ObjectId \<Rightarrow> ObjectRecord \<Rightarrow> Durability \<Rightarrow> ('s, StoreError, unit) eff" where
  "put_object db repo i rec durability =
     eff_map_err SDb (db_put db (object_key repo i) (record_encode rec) (await_durable durability))"

definition object_exists :: "('s, 't) slatedb \<Rightarrow> RepoId \<Rightarrow> ObjectId \<Rightarrow> ('s, StoreError, bool) eff" where
  "object_exists db repo i =
     eff_bind (eff_map_err SDb (db_get db (object_key repo i))) (\<lambda>v. eff_return (v \<noteq> None))"

definition get_ref :: "('s, 't) slatedb \<Rightarrow> RepoId \<Rightarrow> str \<Rightarrow> ('s, StoreError, RefTarget option) eff" where
  "get_ref db repo name =
     eff_bind (eff_map_err SDb (db_get db (ref_key repo name))) (\<lambda>v. eff_lift (decode_opt target_decode v))"

text \<open>\<^verbatim>\<open>Db::put\<close> uses the default write options, which await durability.\<close>

definition put_ref :: "('s, 't) slatedb \<Rightarrow> RepoId \<Rightarrow> str \<Rightarrow> RefTarget \<Rightarrow> ('s, StoreError, unit) eff" where
  "put_ref db repo name tgt = eff_map_err SDb (db_put db (ref_key repo name) (target_encode tgt) True)"

definition delete_ref :: "('s, 't) slatedb \<Rightarrow> RepoId \<Rightarrow> str \<Rightarrow> ('s, StoreError, unit) eff" where
  "delete_ref db repo name = eff_map_err SDb (db_delete db (ref_key repo name))"

fun decode_ref_entries :: "(bytes \<times> bytes) list \<Rightarrow> StoreError + (str \<times> RefTarget) list" where
  "decode_ref_entries [] = Inr []"
| "decode_ref_entries ((key, v) # kvs) =
     and_then (map_err SKey (decode_ref_key key)) (\<lambda>(r, name).
     and_then (map_err SValue (target_decode v)) (\<lambda>tgt.
     and_then (decode_ref_entries kvs) (\<lambda>refs. Inr ((name, tgt) # refs))))"

definition list_refs ::
    "('s, 't) slatedb \<Rightarrow> RepoId \<Rightarrow> str option \<Rightarrow> ('s, StoreError, (str \<times> RefTarget) list) eff" where
  "list_refs db repo pre =
     (let scan_prefix = (case pre of Some p \<Rightarrow> ref_prefix repo p | None \<Rightarrow> segment_prefix repo Ref) in
      eff_bind (eff_map_err SDb (db_scan_prefix db scan_prefix)) (\<lambda>kvs. eff_lift (decode_ref_entries kvs)))"

definition get_commit_graph ::
    "('s, 't) slatedb \<Rightarrow> RepoId \<Rightarrow> ObjectId \<Rightarrow> ('s, StoreError, CommitGraphRecord option) eff" where
  "get_commit_graph db repo i =
     eff_bind (eff_map_err SDb (db_get db (commit_key repo i)))
       (\<lambda>v. eff_lift (decode_opt (\<lambda>bs. graph_decode bs (oid_kind i)) v))"

definition put_commit_graph ::
    "('s, 't) slatedb \<Rightarrow> RepoId \<Rightarrow> ObjectId \<Rightarrow> CommitGraphRecord \<Rightarrow> Durability \<Rightarrow> ('s, StoreError, unit) eff" where
  "put_commit_graph db repo i rec durability =
     eff_map_err SDb (db_put db (commit_key repo i) (graph_encode rec) (await_durable durability))"

definition get_meta :: "('s, 't) slatedb \<Rightarrow> RepoId \<Rightarrow> str \<Rightarrow> ('s, StoreError, MetaValue option) eff" where
  "get_meta db repo name =
     eff_bind (eff_map_err SDb (db_get db (meta_key repo name))) (\<lambda>v. eff_lift (decode_opt meta_decode v))"

definition put_meta :: "('s, 't) slatedb \<Rightarrow> RepoId \<Rightarrow> str \<Rightarrow> MetaValue \<Rightarrow> ('s, StoreError, unit) eff" where
  "put_meta db repo name v = eff_map_err SDb (db_put db (meta_key repo name) (meta_encode v) True)"

definition flush :: "('s, 't) slatedb \<Rightarrow> ('s, StoreError, unit) eff" where
  "flush db = eff_map_err SDb (db_flush db)"

fun delete_keys :: "('s, 't) slatedb \<Rightarrow> bytes list \<Rightarrow> ('s, StoreError, unit) eff" where
  "delete_keys db [] = eff_return ()"
| "delete_keys db (k # ks) = eff_bind (eff_map_err SDb (db_delete db k)) (\<lambda>_. delete_keys db ks)"

definition wipe_commit_graph_for_test :: "('s, 't) slatedb \<Rightarrow> RepoId \<Rightarrow> ('s, StoreError, unit) eff" where
  "wipe_commit_graph_for_test db repo =
     eff_bind (eff_map_err SDb (db_scan_prefix db (segment_prefix repo CommitGraph)))
       (\<lambda>kvs. delete_keys db (map fst kvs))"

subsection \<open>The repository registry\<close>

definition read_repo_id :: "('s, 't) slatedb \<Rightarrow> str \<Rightarrow> ('s, StoreError, RepoId option) eff" where
  "read_repo_id db name =
     (let repo_key = META_REPO_PREFIX @ name in
      eff_bind (eff_map_err SDb (db_get db (meta_key GLOBAL repo_key))) (\<lambda>v. eff_lift
        (case v of
           None \<Rightarrow> Inr None
         | Some bs \<Rightarrow>
             and_then (map_err SValue (meta_decode bs)) (\<lambda>mv.
             and_then (decode_repo_id repo_key mv) (\<lambda>i. Inr (Some i))))))"

definition read_repo_meta :: "('s, 't) slatedb \<Rightarrow> RepoId \<Rightarrow> ('s, StoreError, RepoMeta) eff" where
  "read_repo_meta db i =
     eff_bind (get_meta db i META_OBJECT_FORMAT) (\<lambda>f.
     eff_bind (eff_lift
       (case f of
          Some (MUtf8 s) \<Rightarrow> parse_object_format s
        | Some _ \<Rightarrow> Inl (UnexpectedMeta i META_OBJECT_FORMAT)
        | None \<Rightarrow> Inl (MissingMeta i META_OBJECT_FORMAT))) (\<lambda>format.
     eff_bind (get_meta db i META_DEFAULT_BRANCH) (\<lambda>b.
     eff_bind (eff_lift
       (case b of
          Some (MUtf8 s) \<Rightarrow> Inr s
        | Some _ \<Rightarrow> Inl (UnexpectedMeta i META_DEFAULT_BRANCH)
        | None \<Rightarrow> Inr DEFAULT_BRANCH)) (\<lambda>branch.
     eff_return \<lparr>repo_id = i, object_format = format, default_branch = branch\<rparr>))))"

definition lookup_repo :: "('s, 't) slatedb \<Rightarrow> str \<Rightarrow> ('s, StoreError, RepoMeta option) eff" where
  "lookup_repo db name =
     eff_bind (read_repo_id db name) (\<lambda>r.
       case r of
         Some i \<Rightarrow> eff_bind (read_repo_meta db i) (\<lambda>meta. eff_return (Some meta))
       | None \<Rightarrow> eff_return None)"

text \<open>The six writes that create a repository, buffered in a transaction in order.\<close>

definition create_entries :: "str \<Rightarrow> u64 \<Rightarrow> (bytes \<times> bytes) list" where
  "create_entries name next_id =
     (let i = RepoId next_id in
      [(meta_key GLOBAL META_NEXT_REPO_ID, meta_encode (MRaw (u64_to_be_bytes (saturating_add next_id 1)))),
       (meta_key GLOBAL (META_REPO_PREFIX @ name), meta_encode (MRaw (u64_to_be_bytes next_id))),
       (meta_key i META_OBJECT_FORMAT, meta_encode (MUtf8 OBJECT_FORMAT_SHA1)),
       (meta_key i META_DEFAULT_BRANCH, meta_encode (MUtf8 DEFAULT_BRANCH)),
       (meta_key i META_SCHEMA_VERSION, meta_encode (MU32 SCHEMA_VERSION)),
       (ref_key i HEAD_REF, target_encode (Reference DEFAULT_BRANCH))])"

fun txn_puts :: "('s, 't) slatedb \<Rightarrow> 't \<Rightarrow> (bytes \<times> bytes) list \<Rightarrow> SlateError + 't" where
  "txn_puts db t [] = Inr t"
| "txn_puts db t ((k, v) # es) = and_then (txn_put db t k v) (\<lambda>t. txn_puts db t es)"

text \<open>The rest of an attempt once the name is known to be free.\<close>

definition create_alloc :: "('s, 't) slatedb \<Rightarrow> str \<Rightarrow> 't \<Rightarrow> ('s, StoreError, SlateError + RepoMeta) eff" where
  "create_alloc db name t =
     eff_bind (eff_map_err SDb (txn_get db t (meta_key GLOBAL META_NEXT_REPO_ID))) (\<lambda>(c, t).
     eff_bind (eff_lift
       (case c of
          Some bs \<Rightarrow> and_then (map_err SValue (meta_decode bs)) decode_counter
        | None \<Rightarrow> Inr FIRST_REPO_ID)) (\<lambda>next_id.
     eff_bind (eff_lift (map_err SDb (txn_puts db t (create_entries name next_id)))) (\<lambda>t.
     eff_bind (eff_attempt (txn_commit db t)) (\<lambda>r. eff_return
       (case r of
          Inr _ \<Rightarrow> Inr \<lparr>repo_id = RepoId next_id, object_format = Sha1, default_branch = DEFAULT_BRANCH\<rparr>
        | Inl e \<Rightarrow> Inl e)))))"

fun create_attempts :: "('s, 't) slatedb \<Rightarrow> str \<Rightarrow> nat \<Rightarrow> ('s, StoreError, RepoMeta) eff" where
  "create_attempts db name 0 = eff_fail CreateContention"
| "create_attempts db name (Suc n) =
     (let repo_key = META_REPO_PREFIX @ name in
      eff_bind (eff_map_err SDb (db_begin db)) (\<lambda>t.
      eff_bind (eff_map_err SDb (txn_get db t (meta_key GLOBAL repo_key))) (\<lambda>(v, t).
        case v of
          Some bs \<Rightarrow>
            eff_bind (eff_lift (and_then (map_err SValue (meta_decode bs)) (decode_repo_id repo_key)))
              (\<lambda>i. read_repo_meta db i)
        | None \<Rightarrow>
            eff_bind (create_alloc db name t) (\<lambda>r.
              case r of
                Inr meta \<Rightarrow> eff_return meta
              | Inl e \<Rightarrow> if is_conflict e then create_attempts db name n else eff_fail (SDb e)))))"

definition create_repo :: "('s, 't) slatedb \<Rightarrow> str \<Rightarrow> ('s, StoreError, RepoMeta) eff" where
  "create_repo db name = create_attempts db name CREATE_ATTEMPTS"

definition get_or_create_repo :: "('s, 't) slatedb \<Rightarrow> str \<Rightarrow> ('s, StoreError, RepoMeta) eff" where
  "get_or_create_repo db name =
     eff_bind (lookup_repo db name) (\<lambda>r.
       case r of Some meta \<Rightarrow> eff_return meta | None \<Rightarrow> create_repo db name)"

subsection \<open>Compare-and-swap ref updates\<close>

text \<open>The body of the loop over the commands, after the read of the ref.\<close>

definition apply_update ::
    "('s, 't) slatedb \<Rightarrow> RepoId \<Rightarrow> RefUpdate \<Rightarrow> RefTarget option \<Rightarrow> 't \<Rightarrow> StoreError + RefUpdateResult \<times> 't" where
  "apply_update db repo u cur t =
     (let key = ref_key repo (upd_name u);
          rejected = (\<lambda>reason. Inr (\<lparr>res_name = upd_name u, outcome = Rejected reason\<rparr>, t));
          proceed = (\<lambda>current.
            if current \<noteq> expected_old u then rejected REASON_NON_FAST_FORWARD
            else
              and_then (map_err SDb
                (case upd_new u of
                   Some new_oid \<Rightarrow> txn_put db t key (target_encode (Direct new_oid))
                 | None \<Rightarrow> txn_delete db t key))
                (\<lambda>t. Inr (\<lparr>res_name = upd_name u, outcome = Updated\<rparr>, t))) in
      case cur of
        None \<Rightarrow> proceed None
      | Some (Direct i) \<Rightarrow> proceed (Some i)
      | Some (Reference _) \<Rightarrow> rejected REASON_SYMBOLIC)"

definition update_one ::
    "('s, 't) slatedb \<Rightarrow> RepoId \<Rightarrow> RefUpdate \<Rightarrow> 't \<Rightarrow> ('s, StoreError, RefUpdateResult \<times> 't) eff" where
  "update_one db repo u t =
     eff_bind (eff_map_err SDb (txn_get db t (ref_key repo (upd_name u)))) (\<lambda>(v, t).
       eff_lift (and_then (decode_opt target_decode v) (\<lambda>cur. apply_update db repo u cur t)))"

fun update_each ::
    "('s, 't) slatedb \<Rightarrow> RepoId \<Rightarrow> RefUpdate list \<Rightarrow> 't \<Rightarrow> ('s, StoreError, RefUpdateResult list \<times> 't) eff" where
  "update_each db repo [] t = eff_return ([], t)"
| "update_each db repo (u # us) t =
     eff_bind (update_one db repo u t) (\<lambda>(r, t).
     eff_bind (update_each db repo us t) (\<lambda>(rs, t). eff_return (r # rs, t)))"

definition reject_all :: "RefUpdate list \<Rightarrow> RefUpdateResult list" where
  "reject_all us = map (\<lambda>u. \<lparr>res_name = upd_name u, outcome = Rejected REASON_CONFLICT\<rparr>) us"

text \<open>The retry loop, by the attempts left.\<close>

fun update_refs_loop ::
    "('s, 't) slatedb \<Rightarrow> RepoId \<Rightarrow> RefUpdate list \<Rightarrow> nat \<Rightarrow> ('s, StoreError, RefUpdateResult list) eff" where
  "update_refs_loop db repo us 0 = eff_return (reject_all us)"
| "update_refs_loop db repo us (Suc n) =
     eff_bind (eff_map_err SDb (db_begin db)) (\<lambda>t.
     eff_bind (update_each db repo us t) (\<lambda>(results, t).
     eff_bind (eff_attempt (txn_commit db t)) (\<lambda>r.
       case r of
         Inr _ \<Rightarrow> eff_return results
       | Inl e \<Rightarrow> if is_conflict e then update_refs_loop db repo us n else eff_fail (SDb e))))"

definition update_refs ::
    "('s, 't) slatedb \<Rightarrow> RepoId \<Rightarrow> RefUpdate list \<Rightarrow> ('s, StoreError, RefUpdateResult list) eff" where
  "update_refs db repo us = update_refs_loop db repo us UPDATE_REFS_ATTEMPTS"

end
