(* ===== verification/Store_Correct.thy ===== *)
theory Store_Correct
  imports Store
begin

text \<open>
  What \<^verbatim>\<open>src/storage/store.rs\<close> promises over any engine that satisfies \<open>slatedb_laws\<close>, with
  other clients acting between its calls: ref updates are one atomic compare-and-swap of
  the ref table, listings are the ref table in name order, and the registry hands out fresh
  ids whose metadata reads back.
\<close>

section \<open>The ref table\<close>

text \<open>The abstract state: a repository's refs as a map from names to targets.\<close>

definition ref_view :: "kvmap \<Rightarrow> RepoId \<Rightarrow> str \<Rightarrow> RefTarget option" where
  "ref_view m repo name =
     (case m (ref_key repo name) of
        None \<Rightarrow> None
      | Some bs \<Rightarrow> (case target_decode bs of Inl e \<Rightarrow> None | Inr tgt \<Rightarrow> Some tgt))"

text \<open>The specification of one command and of a batch, on the abstract table.\<close>

definition cas_one :: "(str \<rightharpoonup> RefTarget) \<Rightarrow> RefUpdate \<Rightarrow> RefOutcome \<times> (str \<rightharpoonup> RefTarget)" where
  "cas_one refs u =
     (case refs (upd_name u) of
        Some (Reference _) \<Rightarrow> (Rejected REASON_SYMBOLIC, refs)
      | cur \<Rightarrow>
          if cur = map_option Direct (expected_old u)
          then (Updated, refs(upd_name u := map_option Direct (upd_new u)))
          else (Rejected REASON_NON_FAST_FORWARD, refs))"

fun cas_all :: "(str \<rightharpoonup> RefTarget) \<Rightarrow> RefUpdate list \<Rightarrow> RefUpdateResult list \<times> (str \<rightharpoonup> RefTarget)" where
  "cas_all refs [] = ([], refs)"
| "cas_all refs (u # us) =
     (let (r, refs) = cas_one refs u; (rs, refs) = cas_all refs us in
      (\<lparr>res_name = upd_name u, outcome = r\<rparr> # rs, refs))"

definition unchanged_outside :: "bytes list \<Rightarrow> kvmap \<Rightarrow> kvmap \<Rightarrow> bool" where
  "unchanged_outside ks m m' \<longleftrightarrow> (\<forall>k. k \<notin> set ks \<longrightarrow> m' k = m k)"

text \<open>What the type \<^verbatim>\<open>ObjectId\<close> guarantees of a batch.\<close>

definition updates_wf :: "RefUpdate list \<Rightarrow> bool" where
  "updates_wf us \<longleftrightarrow> list_all (\<lambda>u. case upd_new u of None \<Rightarrow> True | Some i \<Rightarrow> oid_ok i) us"

lemma ref_view_put [simp]:
  "oid_ok i \<Longrightarrow> ref_view (m(ref_key repo n \<mapsto> target_encode (Direct i))) repo = (ref_view m repo)(n \<mapsto> Direct i)"
  using ref_targets.roundtrip [of "Direct i"] by (auto simp: ref_view_def fun_eq_iff)

lemma ref_view_delete [simp]:
  "ref_view (m(ref_key repo n := None)) repo = (ref_view m repo)(n := None)"
  by (auto simp: ref_view_def fun_eq_iff)

lemma decode_opt_Inr:
  "decode_opt dec v = Inr x \<longleftrightarrow>
    (case v of None \<Rightarrow> x = None | Some bs \<Rightarrow> (\<exists>y. dec bs = Inr y \<and> x = Some y))"
  by (auto simp: decode_opt_def and_then_eq_Inr split: option.splits)

lemma ref_view_decode: "decode_opt target_decode (m (ref_key repo n)) = Inr cur \<Longrightarrow> ref_view m repo n = cur"
  by (auto simp: ref_view_def decode_opt_Inr split: option.splits)

section \<open>Listings\<close>

lemma append_le_append [simp]: "p @ x \<le> p @ (y :: 'a :: linorder list) \<longleftrightarrow> x \<le> y"
  by (induction p) simp_all

lemma sorted_ref_keys: "sorted (map (ref_key repo) ns) \<longleftrightarrow> sorted ns"
  by (induction ns) (auto simp: ref_key_def)

lemma segment_prefix_Ref: "segment_prefix repo Ref = ref_prefix repo []"
  by (simp add: segment_prefix_def ref_prefix_def)

lemma decode_ref_entries_Inr:
  assumes "decode_ref_entries kvs = Inr refs" and "\<forall>k\<in>fst ` set kvs. prefix (ref_prefix repo p) k"
  shows "kvs = map (\<lambda>(n, t). (ref_key repo n, target_encode t)) refs \<and>
    (\<forall>(n, t)\<in>set refs. target_decode (target_encode t) = Inr t)"
  using assms
proof (induction kvs arbitrary: refs rule: decode_ref_entries.induct)
  case (2 key v kvs)
  from "2.prems"(1) obtain r n tgt refs' where k: "decode_ref_key key = Inr (r, n)"
    and t: "target_decode v = Inr tgt" and rest: "decode_ref_entries kvs = Inr refs'"
    and refs: "refs = (n, tgt) # refs'"
    by (auto simp: and_then_eq_Inr)
  from k have "key = ref_key r n" using ref_keys.decode_iff [of key "(r, n)"] by simp
  moreover have "prefix (ref_prefix repo p) key" using "2.prems"(2) by simp
  ultimately have "key = ref_key repo n" by (simp add: ref_prefix_scan)
  moreover have "v = target_encode tgt" using t ref_targets.canonical by blast
  ultimately show ?case
    using "2.IH" [OF rest] "2.prems"(2) t
    by (auto simp: refs)
qed simp

lemma map_of_ref_entries:
  "map_of (map (\<lambda>(n, t). (ref_key repo n, target_encode t)) refs) (ref_key repo n)
    = map_option target_encode (map_of refs n)"
  by (induction refs) auto

context slatedb_laws
begin

section \<open>Ref updates are atomic\<close>

text \<open>One command on a transaction: it reads its key, writes at most that key, and its outcome
  and effect are those of the specification on any state that agrees with the reads.\<close>

lemma apply_update_cas:
  assumes run: "apply_update db repo u cur t = Inr (r, t')" and "updates_wf [u]"
    and view: "ref_view (apply_writes (writes t) m) repo (upd_name u) = cur"
  shows "res_name r = upd_name u \<and> snap t' = snap t \<and> reads t \<subseteq> reads t' \<and>
    (\<forall>k. k \<noteq> ref_key repo (upd_name u) \<longrightarrow> writes t' k = writes t k) \<and>
    cas_one (ref_view (apply_writes (writes t) m) repo) u
      = (outcome r, ref_view (apply_writes (writes t') m) repo)"
proof (cases "case cur of Some (Reference x) \<Rightarrow> False | _ \<Rightarrow> cur = map_option Direct (expected_old u)")
  case False
  with run view show ?thesis
    by (auto simp: apply_update_def cas_one_def Let_def split: option.splits RefTarget.splits if_splits)
next
  case True
  then have cur: "cur = map_option Direct (expected_old u)" by (auto split: option.splits RefTarget.splits)
  with run have r: "r = \<lparr>res_name = upd_name u, outcome = Updated\<rparr>"
    and t': "(case upd_new u of
       Some i \<Rightarrow> txn_put db t (ref_key repo (upd_name u)) (target_encode (Direct i))
     | None \<Rightarrow> txn_delete db t (ref_key repo (upd_name u))) = Inr t'"
    by (auto simp: apply_update_def Let_def and_then_eq_Inr split: option.splits)
  have w: "snap t' = snap t" "reads t \<subseteq> reads t'"
    "writes t' = (writes t)(ref_key repo (upd_name u) \<mapsto> map_option (target_encode \<circ> Direct) (upd_new u))"
    using t' txn_put_law [of t _ _ t'] txn_delete_law [of t _ t'] by (auto split: option.splits)
  have "cas_one (ref_view (apply_writes (writes t) m) repo) u
      = (Updated, (ref_view (apply_writes (writes t) m) repo)(upd_name u := map_option Direct (upd_new u)))"
    using view cur by (auto simp: cas_one_def split: option.splits)
  with w r assms(2) show ?thesis
    by (auto simp: updates_wf_def simp del: target_encode.simps split: option.splits)
qed

lemma update_one_cas:
  assumes run: "update_one db repo u t s = (Inr (r, t'), s')" and "updates_wf [u]"
  shows "env s s' \<and> res_name r = upd_name u \<and> snap t' = snap t \<and>
    insert (ref_key repo (upd_name u)) (reads t) \<subseteq> reads t' \<and>
    (\<forall>k. k \<noteq> ref_key repo (upd_name u) \<longrightarrow> writes t' k = writes t k) \<and>
    (\<forall>m. (\<forall>k\<in>reads t'. m k = snap t k) \<longrightarrow>
      cas_one (ref_view (apply_writes (writes t) m) repo) u
        = (outcome r, ref_view (apply_writes (writes t') m) repo))"
proof -
  let ?k = "ref_key repo (upd_name u)"
  from run obtain v t1 cur where get: "txn_get db t ?k s = (Inr (v, t1), s')"
    and cur: "decode_opt target_decode v = Inr cur" and upd: "apply_update db repo u cur t1 = Inr (r, t')"
    by (auto simp: update_one_def effect_simps and_then_eq_Inr)
  from txn_get_law [OF get] have e: "env s s'" and v: "v = apply_writes (writes t) (snap t) ?k"
    and t1: "snap t1 = snap t" "insert ?k (reads t) \<subseteq> reads t1" "writes t1 = writes t" by blast+
  have view: "ref_view (apply_writes (writes t1) m) repo (upd_name u) = cur" if "m ?k = snap t ?k" for m
    by (rule ref_view_decode) (use cur v that t1 in \<open>auto simp: apply_writes_def split: option.splits\<close>)
  from apply_update_cas [OF upd assms(2) view, of "snap t"] t1
  have "res_name r = upd_name u" "snap t' = snap t" "insert ?k (reads t) \<subseteq> reads t'"
    "\<forall>k. k \<noteq> ?k \<longrightarrow> writes t' k = writes t k" by auto
  moreover from this apply_update_cas [OF upd assms(2) view] t1
  have "\<forall>m. (\<forall>k\<in>reads t'. m k = snap t k) \<longrightarrow>
      cas_one (ref_view (apply_writes (writes t) m) repo) u
        = (outcome r, ref_view (apply_writes (writes t') m) repo)" by auto
  ultimately show ?thesis using e by blast
qed

lemma update_each_cas:
  assumes "update_each db repo us t s = (Inr (rs, t'), s')" and "updates_wf us"
  shows "env s s' \<and> snap t' = snap t \<and> reads t \<subseteq> reads t' \<and>
    (\<forall>k. k \<notin> (ref_key repo \<circ> upd_name) ` set us \<longrightarrow> writes t' k = writes t k) \<and>
    (\<forall>m. (\<forall>k\<in>reads t'. m k = snap t k) \<longrightarrow>
      cas_all (ref_view (apply_writes (writes t) m) repo) us
        = (rs, ref_view (apply_writes (writes t') m) repo))"
  using assms
proof (induction us arbitrary: t s rs)
  case Nil
  then show ?case by (auto simp: effect_simps env_refl)
next
  case (Cons u us)
  from Cons.prems(1) obtain r t1 s1 rs1 where one: "update_one db repo u t s = (Inr (r, t1), s1)"
    and rest: "update_each db repo us t1 s1 = (Inr (rs1, t'), s')" and rs: "rs = r # rs1"
    by (auto simp: effect_simps)
  from Cons.prems(2) have wf: "updates_wf [u]" "updates_wf us" by (auto simp: updates_wf_def)
  note A = update_one_cas [OF one wf(1)] and B = Cons.IH [OF rest wf(2)]
  have r: "\<lparr>res_name = upd_name u, outcome = outcome r\<rparr> = r" using A by simp
  have "env s s'" using A B env_trans [of s s1 s'] by simp
  moreover have "snap t' = snap t" "reads t \<subseteq> reads t'" "reads t1 \<subseteq> reads t'" using A B by auto
  moreover have "writes t' k = writes t k" if "k \<notin> (ref_key repo \<circ> upd_name) ` set (u # us)" for k
    using A B that by simp
  moreover have "cas_all (ref_view (apply_writes (writes t) m) repo) (u # us)
      = (rs, ref_view (apply_writes (writes t') m) repo)" if "\<forall>k\<in>reads t'. m k = snap t k" for m
  proof -
    have "cas_one (ref_view (apply_writes (writes t) m) repo) u
        = (outcome r, ref_view (apply_writes (writes t1) m) repo)"
      using A B that by (simp add: subset_iff)
    moreover have "cas_all (ref_view (apply_writes (writes t1) m) repo) us
        = (rs1, ref_view (apply_writes (writes t') m) repo)"
      using A B that by simp
    ultimately show ?thesis by (simp add: rs r)
  qed
  ultimately show ?case by simp
qed

lemma update_refs_loop_run:
  assumes "update_refs_loop db repo us n s = (Inr rs, s')" and "updates_wf us"
  shows "(\<exists>u. env s u \<and> cas_all (ref_view (kv u) repo) us = (rs, ref_view (kv s') repo) \<and>
      rest s' = rest u \<and> unchanged_outside (map (ref_key repo \<circ> upd_name) us) (kv u) (kv s')) \<or>
    env s s' \<and> rs = reject_all us"
  using assms(1)
proof (induction n arbitrary: s)
  case 0
  then show ?case by (simp add: effect_simps env_refl)
next
  case (Suc n)
  from Suc.prems obtain t s1 results t' s2 r s3
    where begin': "db_begin db s = (Inr t, s1)" and each: "update_each db repo us t s1 = (Inr (results, t'), s2)"
      and commit: "txn_commit db t' s2 = (r, s3)"
      and k: "(case r of Inr _ \<Rightarrow> eff_return results
        | Inl e \<Rightarrow> if is_conflict e then update_refs_loop db repo us n else eff_fail (SDb e)) s3 = (Inr rs, s')"
    by (auto simp: effect_simps)
  note B = begin_law [OF begin'] and E = update_each_cas [OF each assms(2)]
  have e: "env s s2" using B E env_trans [of s s1 s2] by simp
  show ?case
  proof (cases r)
    case (Inr x)
    with commit_law [OF commit] obtain u where u: "env s2 u" "rest s3 = rest u" "\<forall>k\<in>reads t'. kv u k = snap t' k"
      "kv s3 = apply_writes (writes t') (kv u)" by auto
    with k Inr have "rs = results" "s' = s3" by (auto simp: effect_simps)
    with u B E env_trans [OF e u(1)] show ?thesis
      by (intro disjI1 exI [of _ u]) (auto simp: apply_writes_def unchanged_outside_def)
  next
    case (Inl x)
    with k have x: "r = Inl TransactionError" and again: "update_refs_loop db repo us n s3 = (Inr rs, s')"
      by (auto simp: is_conflict_def effect_simps split: if_splits)
    from commit_law [OF commit] x env_trans [OF e] have "env s s3" by auto
    with Suc.IH [OF again] env_trans [of s s3] show ?thesis by metis
  qed
qed

lemma list_refs_run:
  assumes "list_refs db repo pre s = (Inr refs, s')"
  shows "env s s' \<and> sorted (map fst refs) \<and> distinct (map fst refs) \<and>
    map_of refs n = (if prefix (case pre of Some p \<Rightarrow> p | None \<Rightarrow> []) n then ref_view (kv s') repo n else None)"
proof -
  let ?p = "case pre of Some p \<Rightarrow> p | None \<Rightarrow> []"
  from assms obtain kvs where scan: "db_scan_prefix db (ref_prefix repo ?p) s = (Inr kvs, s')"
    and dec: "decode_ref_entries kvs = Inr refs"
    by (auto simp: list_refs_def Let_def effect_simps segment_prefix_Ref split: option.splits)
  from scan_law [OF scan] have e: "env s s'" and res: "scan_result (kv s') (ref_prefix repo ?p) kvs"
    by auto
  from res have lk: "map_of kvs = kv s' |` {k. prefix (ref_prefix repo ?p) k}"
    by (simp add: scan_result_def)
  then have "dom (map_of kvs) \<subseteq> {k. prefix (ref_prefix repo ?p) k}" by auto
  then have "\<forall>k\<in>fst ` set kvs. prefix (ref_prefix repo ?p) k" by (auto simp: dom_map_of_conv_image_fst)
  from decode_ref_entries_Inr [OF dec this]
  have kvs: "kvs = map (\<lambda>(n, t). (ref_key repo n, target_encode t)) refs"
    and bk: "\<forall>(n, t)\<in>set refs. target_decode (target_encode t) = Inr t" by blast+
  have ks: "map fst kvs = map (ref_key repo) (map fst refs)" by (simp add: kvs case_prod_unfold comp_def)
  have "sorted (map fst refs)" using res ks by (simp only: scan_result_def sorted_ref_keys)
  moreover have "distinct (map fst refs)" using res ks by (simp only: scan_result_def distinct_map)
  moreover have "map_of refs n = (if prefix ?p n then ref_view (kv s') repo n else None)"
  proof -
    have at: "(if prefix ?p n then kv s' (ref_key repo n) else None) = map_option target_encode (map_of refs n)"
      using fun_cong [OF lk, of "ref_key repo n"]
      unfolding kvs map_of_ref_entries restrict_map_def by (simp add: ref_prefix_scan)
    show ?thesis
    proof (cases "map_of refs n")
      case None
      with at show ?thesis by (auto simp: ref_view_def split: if_splits)
    next
      case (Some a)
      then have "target_decode (target_encode a) = Inr a" using bk by (auto dest!: map_of_SomeD)
      with at Some show ?thesis by (auto simp: ref_view_def split: if_splits)
    qed
  qed
  ultimately show ?thesis using e by blast
qed

end

section \<open>Properties\<close>

text \<open>C12: A batch of ref updates that returns results took effect atomically: either there is one
  instant, after whatever other clients did before it, at which the batch's compare-and-swap
  specification on the repository's ref table yields exactly these results and the table left
  behind, with nothing outside the named refs written; or every command was rejected and
  nothing was written.\<close>

theorem update_refs_atomic:
  assumes "slatedb_laws db kv rest env snap reads writes"
    and "update_refs db repo us s = (Inr rs, s')" and "updates_wf us"
  shows "(\<exists>u. env s u \<and> cas_all (ref_view (kv u) repo) us = (rs, ref_view (kv s') repo) \<and>
      rest s' = rest u \<and> unchanged_outside (map (ref_key repo \<circ> upd_name) us) (kv u) (kv s')) \<or>
    env s s' \<and> rs = reject_all us"
  by (rule slatedb_laws.update_refs_loop_run [OF assms(1) assms(2) [unfolded update_refs_def] assms(3)])

text \<open>C22: A ref listing is the ref table restricted to the prefix, once each and in name order.\<close>

theorem list_refs_exact:
  assumes "slatedb_laws db kv rest env snap reads writes"
    and "list_refs db repo pre s = (Inr refs, s')"
  shows "env s s' \<and> sorted (map fst refs) \<and> distinct (map fst refs) \<and>
    map_of refs n = (if prefix (case pre of Some p \<Rightarrow> p | None \<Rightarrow> []) n then ref_view (kv s') repo n else None)"
  by (rule slatedb_laws.list_refs_run [OF assms])

definition sample_update :: RefUpdate where
  "sample_update = \<lparr>upd_name = lit ''r'', expected_old = None, upd_new = Some (replicate 20 7)\<rparr>"

definition sample_refs :: mem_world where
  "sample_refs = ([(ref_key (RepoId 3) (lit ''r''), target_encode (Direct (replicate 20 7)))], [])"

lemma sample_update_run:
  "update_refs mem_db (RepoId 3) [sample_update] ([], [])
    = (Inr [\<lparr>res_name = lit ''r'', outcome = Updated\<rparr>], sample_refs)"
  by code_simp

theorem update_refs_atomic_witness:
  "(\<exists>u. ([], []) = u \<and> cas_all (ref_view (mem_kv u) (RepoId 3)) [sample_update]
        = ([\<lparr>res_name = lit ''r'', outcome = Updated\<rparr>], ref_view (mem_kv sample_refs) (RepoId 3)) \<and>
      mem_rest sample_refs = mem_rest u \<and>
      unchanged_outside (map (ref_key (RepoId 3) \<circ> upd_name) [sample_update]) (mem_kv u) (mem_kv sample_refs)) \<or>
    ([], []) = sample_refs \<and> [\<lparr>res_name = lit ''r'', outcome = Updated\<rparr>] = reject_all [sample_update]"
  by (rule update_refs_atomic [OF mem_db.slatedb_laws_axioms sample_update_run])
    (simp add: updates_wf_def sample_update_def oid_ok_def)

theorem list_refs_exact_witness:
  "sample_refs = sample_refs \<and> sorted (map fst [(lit ''r'', Direct (replicate 20 7))]) \<and>
   distinct (map fst [(lit ''r'', Direct (replicate 20 7))]) \<and>
   map_of [(lit ''r'', Direct (replicate 20 7))] (lit ''r'') =
     (if prefix (case None of Some p \<Rightarrow> p | None \<Rightarrow> []) (lit ''r'')
      then ref_view (mem_kv sample_refs) (RepoId 3) (lit ''r'') else None)"
  by (rule list_refs_exact [OF mem_db.slatedb_laws_axioms]) code_simp

end
