(* ===== verification/Registry.thy ===== *)
theory Registry
  imports Store_Correct
begin

text \<open>
  The repository registry of \<^verbatim>\<open>src/storage/store.rs\<close> under concurrent creation. The registry
  invariant says that names are bound to distinct ids below the allocation counter;
  \<open>registry_rely\<close> is the guarantee every client keeps: bindings and the metadata of bound
  repositories never change. Creation keeps the guarantee, so any number of concurrent
  creators compose.
\<close>

section \<open>The abstract registry\<close>

definition registered :: "kvmap \<Rightarrow> str \<Rightarrow> RepoId option" where
  "registered m name =
     (case m (meta_key GLOBAL (META_REPO_PREFIX @ name)) of
        None \<Rightarrow> None
      | Some bs \<Rightarrow> (case meta_decode bs of Inl e \<Rightarrow> None | Inr v \<Rightarrow> map_option RepoId (raw_u64 v)))"

definition next_repo_id :: "kvmap \<Rightarrow> u64 option" where
  "next_repo_id m =
     (case m (meta_key GLOBAL META_NEXT_REPO_ID) of
        None \<Rightarrow> Some FIRST_REPO_ID
      | Some bs \<Rightarrow> (case meta_decode bs of Inl e \<Rightarrow> None | Inr v \<Rightarrow> raw_u64 v))"

definition registry_ok :: "kvmap \<Rightarrow> bool" where
  "registry_ok m \<longleftrightarrow>
     (\<exists>n. next_repo_id m = Some n \<and> 0 < n \<and>
       (\<forall>name i. registered m name = Some i \<longrightarrow> 0 < repo_u64 i \<and> repo_u64 i < n)) \<and>
     (\<forall>a b i. registered m a = Some i \<and> registered m b = Some i \<longrightarrow> a = b)"

definition registry_stable :: "kvmap \<Rightarrow> kvmap \<Rightarrow> bool" where
  "registry_stable m m' \<longleftrightarrow> (\<forall>name i. registered m name = Some i \<longrightarrow>
     registered m' name = Some i \<and>
     m' (meta_key i META_OBJECT_FORMAT) = m (meta_key i META_OBJECT_FORMAT) \<and>
     m' (meta_key i META_DEFAULT_BRANCH) = m (meta_key i META_DEFAULT_BRANCH))"

definition registry_rely :: "kvmap \<Rightarrow> kvmap \<Rightarrow> bool" where
  "registry_rely m m' \<longleftrightarrow> (registry_ok m \<longrightarrow> registry_ok m' \<and> registry_stable m m')"

lemma registry_stable_trans: "registry_stable a b \<Longrightarrow> registry_stable b c \<Longrightarrow> registry_stable a c"
  unfolding registry_stable_def by metis

lemma registry_rely_trans: "registry_rely a b \<Longrightarrow> registry_rely b c \<Longrightarrow> registry_rely a c"
  unfolding registry_rely_def using registry_stable_trans by blast

text \<open>The effect of a creation's commit.\<close>

definition put_entries :: "(bytes \<times> bytes) list \<Rightarrow> kvmap \<Rightarrow> kvmap" where
  "put_entries es m = foldl (\<lambda>m (k, v). m(k \<mapsto> v)) m es"

lemma meta_names_distinct [simp]:
  "META_NEXT_REPO_ID \<noteq> META_REPO_PREFIX @ name" "META_REPO_PREFIX @ name \<noteq> META_NEXT_REPO_ID"
  "META_OBJECT_FORMAT \<noteq> META_REPO_PREFIX @ name" "META_REPO_PREFIX @ name \<noteq> META_OBJECT_FORMAT"
  "META_DEFAULT_BRANCH \<noteq> META_REPO_PREFIX @ name" "META_REPO_PREFIX @ name \<noteq> META_DEFAULT_BRANCH"
  "META_SCHEMA_VERSION \<noteq> META_REPO_PREFIX @ name" "META_REPO_PREFIX @ name \<noteq> META_SCHEMA_VERSION"
  "META_OBJECT_FORMAT \<noteq> META_DEFAULT_BRANCH" "META_DEFAULT_BRANCH \<noteq> META_OBJECT_FORMAT"
  "META_OBJECT_FORMAT \<noteq> META_SCHEMA_VERSION" "META_SCHEMA_VERSION \<noteq> META_OBJECT_FORMAT"
  "META_DEFAULT_BRANCH \<noteq> META_SCHEMA_VERSION" "META_SCHEMA_VERSION \<noteq> META_DEFAULT_BRANCH"
  "META_NEXT_REPO_ID \<noteq> META_OBJECT_FORMAT" "META_NEXT_REPO_ID \<noteq> META_DEFAULT_BRANCH"
  "META_NEXT_REPO_ID \<noteq> META_SCHEMA_VERSION"
  by (simp_all add: META_NEXT_REPO_ID_def META_REPO_PREFIX_def META_OBJECT_FORMAT_def
      META_DEFAULT_BRANCH_def META_SCHEMA_VERSION_def lit_def)

lemma raw_u64_roundtrip [simp]: "raw_u64 (MRaw (u64_to_be_bytes w)) = Some w"
  by (simp add: raw_u64_def)

lemma meta_raw_roundtrip [simp]: "meta_decode (meta_encode (MRaw bs)) = Inr (MRaw bs)"
  by (rule meta_values.roundtrip) simp

declare meta_encode.simps [simp del]

lemma put_create_entries:
  assumes "repo_u64 GLOBAL \<noteq> n"
  shows "registered (put_entries (create_entries name n) m) name' = (if name' = name then Some (RepoId n) else registered m name')"
    and "next_repo_id (put_entries (create_entries name n) m) = Some (saturating_add n 1)"
    and "i \<noteq> RepoId n \<Longrightarrow> i \<noteq> GLOBAL \<Longrightarrow>
      put_entries (create_entries name n) m (meta_key i k) = m (meta_key i k)"
  using assms by (auto simp: put_entries_def create_entries_def Let_def registered_def next_repo_id_def)

lemma saturating_succ:
  assumes "(n :: u64) \<noteq> -1"
  shows "saturating_add n 1 = n + 1" and "n < n + 1"
proof -
  from assms have "n + 1 \<noteq> 0" by (metis add.commute add_eq_0_iff)
  then have "unat (n + 1) \<noteq> 0" by (metis unat_eq_zero)
  moreover have "unat n < 2 ^ 64" using unsigned_less [of n, where 'a = nat] by simp
  moreover have "unat (n + 1) = (unat n + 1) mod 2 ^ 64" by (simp add: unat_word_ariths)
  ultimately have "unat (n + 1) = unat n + 1" by (cases "unat n + 1 = 2 ^ 64") auto
  then show "n < n + 1" by (simp add: word_less_nat_alt)
  then have "\<not> n + 1 < n" by (meson order.asym)
  then show "saturating_add n 1 = n + 1" by (simp add: saturating_add_def)
qed

text \<open>A creation keeps the invariant, binds its name and leaves every other binding alone.\<close>

lemma create_keeps_registry:
  assumes "registry_ok m" and "registered m name = None" and "next_repo_id m = Some n" and "n \<noteq> -1"
  defines "m' \<equiv> put_entries (create_entries name n) m"
  shows "registry_ok m' \<and> registry_stable m m' \<and> registered m' name = Some (RepoId n)"
proof -
  from assms have n: "0 < n" "\<And>name i. registered m name = Some i \<Longrightarrow> 0 < repo_u64 i \<and> repo_u64 i < n"
    and inj: "\<And>a b i. registered m a = Some i \<Longrightarrow> registered m b = Some i \<Longrightarrow> a = b"
    by (auto simp: registry_ok_def)
  have g: "repo_u64 GLOBAL \<noteq> n" using n(1) by (simp add: GLOBAL_def)
  note eff = put_create_entries [OF g, where name = name and m = m, folded m'_def]
  have fresh: "i \<noteq> RepoId n" "i \<noteq> GLOBAL" if "registered m a = Some i" for a i
    using n(2) [OF that] by (auto simp: GLOBAL_def)
  have unbound: "registered m a \<noteq> Some (RepoId n)" for a using fresh(1) by blast
  have lt: "i < n + 1" if "i < n" for i :: u64
    using that saturating_succ [OF assms(4)] by simp
  have "registry_ok m'"
    unfolding registry_ok_def eff using saturating_succ [OF assms(4)] n inj fresh lt unbound
    by (auto split: if_splits dest: order.strict_trans)
  moreover have "registry_stable m m'"
    unfolding registry_stable_def using eff(1,3) fresh assms(2) by auto
  ultimately show ?thesis using eff(1) by simp
qed

text \<open>The metadata a repository id stands for, from the two entries it is read from.\<close>

definition meta_from :: "RepoId \<Rightarrow> bytes option \<Rightarrow> bytes option \<Rightarrow> StoreError + RepoMeta" where
  "meta_from i f b =
     and_then (decode_opt meta_decode f) (\<lambda>f.
     and_then (case f of
          Some (MUtf8 s) \<Rightarrow> parse_object_format s
        | Some _ \<Rightarrow> Inl (UnexpectedMeta i META_OBJECT_FORMAT)
        | None \<Rightarrow> Inl (MissingMeta i META_OBJECT_FORMAT)) (\<lambda>format.
     and_then (decode_opt meta_decode b) (\<lambda>b.
     and_then (case b of
          Some (MUtf8 s) \<Rightarrow> Inr s
        | Some _ \<Rightarrow> Inl (UnexpectedMeta i META_DEFAULT_BRANCH)
        | None \<Rightarrow> Inr DEFAULT_BRANCH) (\<lambda>branch.
     Inr \<lparr>repo_id = i, object_format = format, default_branch = branch\<rparr>))))"

lemma meta_from_id: "meta_from i f b = Inr meta \<Longrightarrow> repo_id meta = i"
  by (auto simp: meta_from_def and_then_eq_Inr)

lemma meta_from_create:
  fixes name m
  assumes "repo_u64 GLOBAL \<noteq> n"
  defines "m' \<equiv> put_entries (create_entries name n) m"
  shows "meta_from (RepoId n) (m' (meta_key (RepoId n) META_OBJECT_FORMAT)) (m' (meta_key (RepoId n) META_DEFAULT_BRANCH))
    = Inr \<lparr>repo_id = RepoId n, object_format = Sha1, default_branch = DEFAULT_BRANCH\<rparr>"
proof -
  have "valid_utf8 OBJECT_FORMAT_SHA1" "valid_utf8 DEFAULT_BRANCH"
    by (simp_all add: OBJECT_FORMAT_SHA1_def DEFAULT_BRANCH_def lit_def)
  then have "meta_decode (meta_encode (MUtf8 OBJECT_FORMAT_SHA1)) = Inr (MUtf8 OBJECT_FORMAT_SHA1)"
    "meta_decode (meta_encode (MUtf8 DEFAULT_BRANCH)) = Inr (MUtf8 DEFAULT_BRANCH)"
    by (simp_all add: meta_values.roundtrip)
  then show ?thesis
    by (simp add: meta_from_def m'_def put_entries_def create_entries_def Let_def decode_opt_def
        parse_object_format_def OBJECT_FORMAT_SHA1_def)
qed

text \<open>The state in which a repository is bound and its metadata readable.\<close>

definition bound_to :: "kvmap \<Rightarrow> str \<Rightarrow> RepoMeta \<Rightarrow> bool" where
  "bound_to m name meta \<longleftrightarrow> registered m name = Some (repo_id meta) \<and>
     meta_from (repo_id meta) (m (meta_key (repo_id meta) META_OBJECT_FORMAT))
       (m (meta_key (repo_id meta) META_DEFAULT_BRANCH)) = Inr meta"

lemma bound_to_stable: "bound_to m name meta \<Longrightarrow> registry_stable m m' \<Longrightarrow> bound_to m' name meta"
  by (auto simp: bound_to_def registry_stable_def)

context slatedb_laws
begin

lemma read_repo_meta_run:
  assumes "read_repo_meta db i s = (Inr meta, s')"
  shows "\<exists>u. env s u \<and> env u s' \<and>
    meta_from i (kv u (meta_key i META_OBJECT_FORMAT)) (kv s' (meta_key i META_DEFAULT_BRANCH)) = Inr meta"
proof -
  from assms obtain f s1 b format branch where
    f: "db_get db (meta_key i META_OBJECT_FORMAT) s = (Inr f, s1)" and
    b: "db_get db (meta_key i META_DEFAULT_BRANCH) s1 = (Inr b, s')" and
    "meta_from i f b = Inr meta"
    by (auto simp: read_repo_meta_def get_meta_def effect_simps meta_from_def)
  with get_law [OF f] get_law [OF b] show ?thesis by blast
qed

lemma read_repo_id_run:
  assumes "read_repo_id db name s = (Inr r, s')"
  shows "env s s' \<and> registered (kv s') name = r \<and>
    (r = None \<longleftrightarrow> kv s' (meta_key GLOBAL (META_REPO_PREFIX @ name)) = None)"
proof -
  from assms obtain v where v: "db_get db (meta_key GLOBAL (META_REPO_PREFIX @ name)) s = (Inr v, s')"
    and r: "(case v of None \<Rightarrow> Inr None
       | Some bs \<Rightarrow> and_then (map_err SValue (meta_decode bs)) (\<lambda>mv.
           and_then (decode_repo_id (META_REPO_PREFIX @ name) mv) (\<lambda>i. Inr (Some i)))) = Inr r"
    by (auto simp: read_repo_id_def Let_def effect_simps)
  with get_law [OF v] show ?thesis
    by (auto simp: registered_def decode_repo_id_def and_then_eq_Inr split: option.splits)
qed

text \<open>Under the registry's rely, a bound repository's metadata reads back the same ever after.\<close>

lemma read_repo_meta_stable:
  assumes rely: "\<And>s s'. env s s' \<Longrightarrow> registry_rely (kv s) (kv s')"
    and "registry_ok (kv s)" and bound: "registered (kv s) name = Some i"
    and "read_repo_meta db i s = (Inr meta, s')"
  shows "registry_stable (kv s) (kv s') \<and> registry_ok (kv s') \<and>
    meta_from i (kv s' (meta_key i META_OBJECT_FORMAT)) (kv s' (meta_key i META_DEFAULT_BRANCH)) = Inr meta"
proof -
  from read_repo_meta_run [OF assms(4)] obtain u where "env s u" "env u s'"
    and meta: "meta_from i (kv u (meta_key i META_OBJECT_FORMAT)) (kv s' (meta_key i META_DEFAULT_BRANCH)) = Inr meta"
    by blast
  with rely assms(2) have st: "registry_stable (kv s) (kv u)" "registry_ok (kv s')" "registry_stable (kv u) (kv s')"
    by (auto simp: registry_rely_def)
  from st(1) bound have "registered (kv u) name = Some i" unfolding registry_stable_def by blast
  with st(3) have "kv s' (meta_key i META_OBJECT_FORMAT) = kv u (meta_key i META_OBJECT_FORMAT)"
    unfolding registry_stable_def by blast
  with meta st registry_stable_trans [OF st(1,3)] show ?thesis by simp
qed

lemma txn_puts_law:
  assumes "txn_puts db t es = Inr t'"
  shows "snap t' = snap t \<and> reads t \<subseteq> reads t' \<and>
    apply_writes (writes t') m = put_entries es (apply_writes (writes t) m)"
  using assms
proof (induction es arbitrary: t)
  case (Cons e es)
  obtain k v where e: "e = (k, v)" by force
  with Cons.prems obtain t1 where t1: "txn_put db t k v = Inr t1" "txn_puts db t1 es = Inr t'"
    by (auto simp: and_then_eq_Inr)
  note put = txn_put_law [OF t1(1)]
  then have "apply_writes (writes t1) m = (apply_writes (writes t) m)(k \<mapsto> v)"
    by (metis apply_writes_upd)
  with put Cons.IH [OF t1(2)] show ?case by (auto simp: put_entries_def e simp del: fun_upd_apply)
qed (simp add: put_entries_def)

lemma create_alloc_run:
  assumes run: "create_alloc db name t s = (Inr r, s')" and "writes t = Map.empty"
  shows "case r of
       Inl e \<Rightarrow> e = TransactionError \<longrightarrow> env s s'
     | Inr meta \<Rightarrow> \<exists>u n. env s u \<and> rest s' = rest u \<and> (\<forall>k\<in>reads t. kv u k = snap t k) \<and>
         next_repo_id (kv u) = Some n \<and>
         meta = \<lparr>repo_id = RepoId n, object_format = Sha1, default_branch = DEFAULT_BRANCH\<rparr> \<and>
         kv s' = put_entries (create_entries name n) (kv u)"
proof -
  let ?k = "meta_key GLOBAL META_NEXT_REPO_ID"
  from run obtain c t1 s1 n t2 r' where get: "txn_get db t ?k s = (Inr (c, t1), s1)"
    and n: "(case c of Some bs \<Rightarrow> and_then (map_err SValue (meta_decode bs)) decode_counter
        | None \<Rightarrow> Inr FIRST_REPO_ID) = Inr n"
    and puts: "txn_puts db t1 (create_entries name n) = Inr t2"
    and commit: "txn_commit db t2 s1 = (r', s')"
    and r: "r = (case r' of Inr _ \<Rightarrow> Inr \<lparr>repo_id = RepoId n, object_format = Sha1, default_branch = DEFAULT_BRANCH\<rparr>
        | Inl e \<Rightarrow> Inl e)"
    by (auto simp: create_alloc_def effect_simps)
  from txn_get_law [OF get] assms(2) have e: "env s s1" and c: "c = snap t ?k"
    and t1: "snap t1 = snap t" "insert ?k (reads t) \<subseteq> reads t1" "writes t1 = Map.empty" by auto
  from txn_puts_law [OF puts] t1 have t2: "snap t2 = snap t" "insert ?k (reads t) \<subseteq> reads t2"
    "\<And>m. apply_writes (writes t2) m = put_entries (create_entries name n) m" by auto
  have next_id: "next_repo_id m = Some n" if "m ?k = snap t ?k" for m
    using n c that by (auto simp: next_repo_id_def decode_counter_def and_then_eq_Inr split: option.splits)
  show ?thesis
  proof (cases r')
    case (Inl x)
    with commit_law [OF commit] env_trans [OF e] show ?thesis by (auto simp: r)
  next
    case (Inr x)
    with commit_law [OF commit] obtain u where "env s1 u" "rest s' = rest u" "\<forall>k\<in>reads t2. kv u k = snap t2 k"
      "kv s' = apply_writes (writes t2) (kv u)" by auto
    with env_trans [OF e] t2 next_id [of "kv u"] show ?thesis
      by (simp add: r Inr) (intro exI [of _ u], auto)
  qed
qed

lemma create_attempts_run:
  assumes "create_attempts db name k s = (Inr meta, s')"
  shows "(\<exists>u n. env s u \<and> rest s' = rest u \<and> kv u (meta_key GLOBAL (META_REPO_PREFIX @ name)) = None \<and>
      next_repo_id (kv u) = Some n \<and>
      meta = \<lparr>repo_id = RepoId n, object_format = Sha1, default_branch = DEFAULT_BRANCH\<rparr> \<and>
      kv s' = put_entries (create_entries name n) (kv u)) \<or>
    (\<exists>s1 s2 i. env s s1 \<and> registered (kv s1) name = Some i \<and> env s1 s2 \<and>
      read_repo_meta db i s2 = (Inr meta, s'))"
  using assms
proof (induction k arbitrary: s)
  case 0
  then show ?case by (simp add: effect_simps)
next
  case (Suc k)
  let ?k = "meta_key GLOBAL (META_REPO_PREFIX @ name)"
  from Suc.prems obtain t s1 v t1 s2 where b: "db_begin db s = (Inr t, s1)"
    and get: "txn_get db t ?k s1 = (Inr (v, t1), s2)"
    and cont: "(case v of
          Some bs \<Rightarrow> eff_bind (eff_lift (and_then (map_err SValue (meta_decode bs)) (decode_repo_id (META_REPO_PREFIX @ name))))
              (\<lambda>i. read_repo_meta db i)
        | None \<Rightarrow> eff_bind (create_alloc db name t1) (\<lambda>r.
              case r of
                Inr meta \<Rightarrow> eff_return meta
              | Inl e \<Rightarrow> if is_conflict e then create_attempts db name k else eff_fail (SDb e))) s2 = (Inr meta, s')"
    by (auto simp: effect_simps Let_def)
  from begin_law [OF b] have e1: "env s s1" and t: "snap t = kv s1" "writes t = Map.empty" by auto
  from txn_get_law [OF get] t have e2: "env s1 s2" and v: "v = kv s1 ?k"
    and t1: "snap t1 = kv s1" "?k \<in> reads t1" "writes t1 = Map.empty" by auto
  have e12: "env s s2" by (rule env_trans [OF e1 e2])
  show ?case
  proof (cases v)
    case (Some bs)
    then have "kv s1 ?k = Some bs" using v by simp
    with cont [unfolded Some] obtain i where "registered (kv s1) name = Some i" "read_repo_meta db i s2 = (Inr meta, s')"
      by (auto simp: effect_simps registered_def decode_repo_id_def and_then_eq_Inr)
    with e1 e2 show ?thesis by blast
  next
    case None
    with cont obtain r s3 where alloc: "create_alloc db name t1 s2 = (Inr r, s3)"
      and k: "(case r of Inr meta \<Rightarrow> eff_return meta
         | Inl e \<Rightarrow> if is_conflict e then create_attempts db name k else eff_fail (SDb e)) s3 = (Inr meta, s')"
      by (auto simp: effect_simps)
    note A = create_alloc_run [OF alloc t1(3)]
    show ?thesis
    proof (cases r)
      case (Inr meta')
      with k have "meta' = meta" "s3 = s'" by (auto simp: effect_simps)
      with A Inr obtain u n where "env s2 u" "rest s' = rest u" "\<forall>k\<in>reads t1. kv u k = snap t1 k"
        "next_repo_id (kv u) = Some n" "kv s' = put_entries (create_entries name n) (kv u)"
        "meta = \<lparr>repo_id = RepoId n, object_format = Sha1, default_branch = DEFAULT_BRANCH\<rparr>" by auto
      with env_trans [OF e12] t1 v None show ?thesis by (intro disjI1 exI [of _ u] exI [of _ n]) auto
    next
      case (Inl e)
      with k A have "env s2 s3" and again: "create_attempts db name k s3 = (Inr meta, s')"
        by (auto simp: is_conflict_def effect_simps split: if_splits)
      with Suc.IH [OF again] env_trans [OF env_trans [OF e12]] show ?thesis by metis
    qed
  qed
qed

lemma create_binds:
  assumes rely: "\<And>s s'. env s s' \<Longrightarrow> registry_rely (kv s) (kv s')" and ok: "registry_ok (kv s)"
    and run: "create_attempts db name k s = (Inr meta, s')" and room: "repo_id meta \<noteq> RepoId (-1)"
  shows "registry_ok (kv s') \<and> registry_stable (kv s) (kv s') \<and> bound_to (kv s') name meta"
  using create_attempts_run [OF run]
proof (elim disjE exE conjE)
  fix u n
  assume m: "env s u" "kv u (meta_key GLOBAL (META_REPO_PREFIX @ name)) = None" "next_repo_id (kv u) = Some n"
    and meta: "meta = \<lparr>repo_id = RepoId n, object_format = Sha1, default_branch = DEFAULT_BRANCH\<rparr>"
    and s': "kv s' = put_entries (create_entries name n) (kv u)"
  from rely [OF m(1)] ok have ok': "registry_ok (kv u)" "registry_stable (kv s) (kv u)"
    by (auto simp: registry_rely_def)
  have "registered (kv u) name = None" using m(2) by (simp add: registered_def)
  moreover have "n \<noteq> -1" using room meta by simp
  ultimately have new: "registry_ok (kv s')" "registry_stable (kv u) (kv s')" "registered (kv s') name = Some (RepoId n)"
    using create_keeps_registry [OF ok'(1) _ m(3)] s' by auto
  have "repo_u64 GLOBAL \<noteq> n" using ok'(1) m(3) by (auto simp: registry_ok_def GLOBAL_def)
  from meta_from_create [OF this, of name "kv u"] new registry_stable_trans [OF ok'(2) new(2)] show ?thesis
    by (simp add: bound_to_def meta s')
next
  fix s1 s2 i
  assume e: "env s s1" "env s1 s2" and i: "registered (kv s1) name = Some i"
    and read: "read_repo_meta db i s2 = (Inr meta, s')"
  from rely [OF e(1)] rely [OF e(2)] ok have st: "registry_ok (kv s2)" "registry_stable (kv s) (kv s1)"
    "registry_stable (kv s1) (kv s2)" by (auto simp: registry_rely_def)
  from st(3) i have i2: "registered (kv s2) name = Some i" by (simp add: registry_stable_def)
  from read_repo_meta_stable [OF rely st(1) i2 read]
  have r: "registry_stable (kv s2) (kv s')" "registry_ok (kv s')"
    "meta_from i (kv s' (meta_key i META_OBJECT_FORMAT)) (kv s' (meta_key i META_DEFAULT_BRANCH)) = Inr meta"
    by blast+
  from r(1) i2 have "registered (kv s') name = Some i" by (simp add: registry_stable_def)
  moreover have "registry_stable (kv s) (kv s')"
    using st r(1) registry_stable_trans by blast
  ultimately show ?thesis using r meta_from_id [OF r(3)] by (simp add: bound_to_def)
qed

lemma lookup_binds:
  assumes rely: "\<And>s s'. env s s' \<Longrightarrow> registry_rely (kv s) (kv s')" and ok: "registry_ok (kv s)"
    and run: "lookup_repo db name s = (Inr r, s')"
  shows "registry_ok (kv s') \<and> registry_stable (kv s) (kv s') \<and>
    (\<forall>meta. r = Some meta \<longrightarrow> bound_to (kv s') name meta) \<and>
    (r = None \<longrightarrow> registered (kv s) name = None)"
proof -
  from run obtain i s1 where id: "read_repo_id db name s = (Inr i, s1)"
    and cont: "(case i of Some i \<Rightarrow> eff_bind (read_repo_meta db i) (\<lambda>meta. eff_return (Some meta))
       | None \<Rightarrow> eff_return None) s1 = (Inr r, s')"
    by (auto simp: lookup_repo_def effect_simps)
  from read_repo_id_run [OF id] rely ok have st: "registered (kv s1) name = i" "registry_ok (kv s1)"
    "registry_stable (kv s) (kv s1)" by (auto simp: registry_rely_def)
  show ?thesis
  proof (cases i)
    case None
    with cont st show ?thesis
      by (cases "registered (kv s) name") (auto simp: effect_simps registry_stable_def)
  next
    case (Some j)
    with cont obtain meta where meta: "r = Some meta" "read_repo_meta db j s1 = (Inr meta, s')"
      by (auto simp: effect_simps)
    from read_repo_meta_stable [OF rely st(2) st(1) [unfolded Some] meta(2)]
    have R: "registry_stable (kv s1) (kv s')" "registry_ok (kv s')"
      "meta_from j (kv s' (meta_key j META_OBJECT_FORMAT)) (kv s' (meta_key j META_DEFAULT_BRANCH)) = Inr meta"
      by blast+
    moreover have "registered (kv s') name = Some j"
      using R(1) st(1) Some by (simp add: registry_stable_def)
    ultimately show ?thesis using registry_stable_trans [OF st(3) R(1)] meta(1) meta_from_id [OF R(3)]
      by (simp add: bound_to_def)
  qed
qed

lemma get_or_create_binds:
  assumes rely: "\<And>s s'. env s s' \<Longrightarrow> registry_rely (kv s) (kv s')" and ok: "registry_ok (kv s)"
    and run: "get_or_create_repo db name s = (Inr meta, s')" and room: "repo_id meta \<noteq> RepoId (-1)"
  shows "registry_ok (kv s') \<and> registry_stable (kv s) (kv s') \<and> bound_to (kv s') name meta"
proof -
  from run obtain r s1 where look: "lookup_repo db name s = (Inr r, s1)"
    and cont: "(case r of Some meta \<Rightarrow> eff_return meta | None \<Rightarrow> create_repo db name) s1 = (Inr meta, s')"
    by (auto simp: get_or_create_repo_def effect_simps)
  note L = lookup_binds [OF rely ok look]
  show ?thesis
  proof (cases r)
    case None
    with cont have c: "create_attempts db name CREATE_ATTEMPTS s1 = (Inr meta, s')" by (simp add: create_repo_def)
    from create_binds [OF rely _ c room] L registry_stable_trans show ?thesis by blast
  next
    case (Some m)
    with cont L show ?thesis by (auto simp: effect_simps)
  qed
qed

end

section \<open>Properties\<close>

text \<open>C14: Whatever other clients do, as long as they keep existing bindings (as every creation
  does), a repository returned by get-or-create stays bound: the registry invariant holds after it,
  no earlier binding or metadata changed, and a later lookup of the name returns the same
  metadata. (The id space is taken not to be exhausted: the last id is 2^64 - 1.)\<close>

theorem created_repo_found:
  assumes "slatedb_laws db kv rest env snap reads writes" and "\<And>s s'. env s s' \<Longrightarrow> registry_rely (kv s) (kv s')"
    and "registry_ok (kv s)"
    and "get_or_create_repo db name s = (Inr meta, s')" and "repo_id meta \<noteq> RepoId (-1)"
    and "lookup_repo db name s' = (Inr found, s'')"
  shows "registry_ok (kv s') \<and> registry_stable (kv s) (kv s') \<and> found = Some meta"
proof -
  note rely = assms(2)
  from slatedb_laws.get_or_create_binds [OF assms(1) rely assms(3-5)]
  have B: "registry_ok (kv s')" "registry_stable (kv s) (kv s')" "bound_to (kv s') name meta" by blast+
  from slatedb_laws.lookup_binds [OF assms(1) rely B(1) assms(6)] bound_to_stable [OF B(3)] B(3)
  have "found = Some meta" by (cases found) (auto simp: bound_to_def)
  with B show ?thesis by simp
qed

text \<open>C15: Two names never share a repository: once both have been resolved or created, under
  any interference that keeps existing bindings, their ids are equal only if the names are. (The id space is taken not to be exhausted: two names
  can both get its last id, 2^64 - 1.)\<close>

theorem repo_ids_unique:
  assumes "slatedb_laws db kv rest env snap reads writes" and "\<And>s s'. env s s' \<Longrightarrow> registry_rely (kv s) (kv s')"
    and "registry_ok (kv s)"
    and "get_or_create_repo db a s = (Inr meta_a, s1)" and "repo_id meta_a \<noteq> RepoId (-1)"
    and "get_or_create_repo db b s1 = (Inr meta_b, s2)" and "repo_id meta_b \<noteq> RepoId (-1)"
  shows "repo_id meta_a = repo_id meta_b \<longleftrightarrow> a = b"
proof -
  note rely = assms(2)
  from slatedb_laws.get_or_create_binds [OF assms(1) rely assms(3-5)]
  have A: "registry_ok (kv s1)" "bound_to (kv s1) a meta_a" by blast+
  from slatedb_laws.get_or_create_binds [OF assms(1) rely A(1) assms(6,7)]
  have B: "registry_ok (kv s2)" "registry_stable (kv s1) (kv s2)" "bound_to (kv s2) b meta_b" by blast+
  have "registered (kv s2) a = Some (repo_id meta_a)" "registered (kv s2) b = Some (repo_id meta_b)"
    using bound_to_stable [OF A(2) B(2)] B(3) by (simp_all add: bound_to_def)
  moreover have "a = b" if "registered (kv s2) a = Some i" "registered (kv s2) b = Some i" for i
    using B(1) that unfolding registry_ok_def by blast
  ultimately show ?thesis by auto
qed

lemma registry_ok_empty: "registry_ok (mem_kv ([], []))"
  by (simp add: mem_kv_def registry_ok_def next_repo_id_def registered_def FIRST_REPO_ID_def)

lemma registry_rely_eq: "s = s' \<Longrightarrow> registry_rely (mem_kv s) (mem_kv s')"
  by (simp add: registry_rely_def registry_stable_def)

definition sample_meta :: "u64 \<Rightarrow> RepoMeta" where
  "sample_meta n = \<lparr>repo_id = RepoId n, object_format = Sha1, default_branch = DEFAULT_BRANCH\<rparr>"

lemma create_32: "CREATE_ATTEMPTS = Suc 31"
  by (simp add: CREATE_ATTEMPTS_def)

lemmas eff_run = eff_bind_def eff_lift_def eff_map_err_def eff_return_def eff_attempt_def

definition sample_one :: table where
  "sample_one = rev (create_entries (lit ''a'') 1)"

lemma sample_create: "get_or_create_repo mem_db (lit ''a'') ([], []) = (Inr (sample_meta 1), (sample_one, []))"
  unfolding get_or_create_repo_def create_repo_def create_32 create_attempts.simps
  by (simp add: lookup_repo_def read_repo_id_def mem_db_def create_alloc_def Let_def eff_run sample_one_def
      FIRST_REPO_ID_def create_entries_def table_write_def table_put_def sample_meta_def)

lemma sample_lookup: "lookup_repo mem_db (lit ''a'') (sample_one, []) = (Inr (Some (sample_meta 1)), (sample_one, []))"
  by code_simp

theorem created_repo_found_witness:
  "registry_ok (mem_kv (sample_one, [])) \<and>
   registry_stable (mem_kv ([], [])) (mem_kv (sample_one, [])) \<and>
   Some (sample_meta 1) = Some (sample_meta 1)"
  by (rule created_repo_found [OF mem_db.slatedb_laws_axioms registry_rely_eq registry_ok_empty
        sample_create _ sample_lookup]) (simp_all add: sample_meta_def)

lemma sample_read2: "lookup_repo mem_db (lit ''b'') (sample_one, []) = (Inr None, (sample_one, []))"
  by code_simp

lemma sample_free2: "map_of sample_one (meta_key GLOBAL (META_REPO_PREFIX @ lit ''b'')) = None"
  by code_simp

lemma sample_next2: "map_of sample_one (meta_key GLOBAL META_NEXT_REPO_ID)
    = Some (meta_encode (MRaw (u64_to_be_bytes 2)))"
  by code_simp

lemma sample_create2: "get_or_create_repo mem_db (lit ''b'') (sample_one, [])
    = (Inr (sample_meta 2), (rev (create_entries (lit ''b'') 2) @ sample_one, []))"
  unfolding get_or_create_repo_def create_repo_def create_32 create_attempts.simps eff_bind_def [of "lookup_repo _ _"]
    sample_read2
  by (simp add: mem_db_def create_alloc_def Let_def eff_run sample_free2 sample_next2 decode_counter_def
      create_entries_def table_write_def table_put_def sample_meta_def)

theorem repo_ids_unique_witness:
  "repo_id (sample_meta 1) = repo_id (sample_meta 2) \<longleftrightarrow> lit ''a'' = lit ''b''"
  by (rule repo_ids_unique [OF mem_db.slatedb_laws_axioms registry_rely_eq registry_ok_empty
        sample_create _ sample_create2]) (simp_all add: sample_meta_def)

end
