(* ===== verification/ObjectDb_Correct.thy ===== *)
theory ObjectDb_Correct
  imports ObjectDb
begin

text \<open>
  The object database under concurrent writers. \<open>H\<close> is the content an object id names (git's
  hash is taken to be collision free by stating that every writer stores under an id only the
  content it names). The invariant \<open>odb_ok\<close> says that every record decodes to that content, an
  offloaded blob being present before any record points at it; every put keeps it, whatever
  its outcome, and every read under it returns the content or nothing.
\<close>

section \<open>The contract of the storage stack\<close>

locale storage_laws = slatedb_laws db kv rest env snap reads writes
  for db :: "('s, 't) slatedb" and kv :: "'s \<Rightarrow> kvmap" and rest :: "'s \<Rightarrow> (str \<rightharpoonup> bytes)"
    and env :: "'s \<Rightarrow> 's \<Rightarrow> bool" and snap :: "'t \<Rightarrow> kvmap" and reads :: "'t \<Rightarrow> bytes set"
    and writes :: "'t \<Rightarrow> (bytes \<rightharpoonup> bytes option)" +
  fixes os :: "'s object_store"
  assumes os_put_law: "os_put os p z s = (r1, s') \<Longrightarrow>
      (\<exists>u. env s u \<and> kv s' = kv u \<and> rest s' = (rest u)(p \<mapsto> z)) \<or> r1 \<noteq> Inr () \<and> env s s'"
    and os_get_law: "os_get os p s = (r2, s') \<Longrightarrow> env s s' \<and>
      (\<forall>z. r2 = Inr z \<longrightarrow> rest s' p = Some z) \<and> (r2 = Inl NotFound \<longrightarrow> rest s' p = None)"
    and os_head_law: "os_head os p s = (r3, s') \<Longrightarrow> env s s' \<and>
      (r3 = Inr () \<longrightarrow> rest s' p \<noteq> None) \<and> (r3 = Inl NotFound \<longrightarrow> rest s' p = None)"

definition mem_os :: "mem_world object_store" where
  "mem_os = \<lparr>
     os_put = (\<lambda>p z s. (Inr (), (fst s, table_put p z (snd s)))),
     os_get = (\<lambda>p s. (ok_or NotFound (map_of (snd s) p), s)),
     os_head = (\<lambda>p s. (case map_of (snd s) p of None \<Rightarrow> Inl NotFound | Some z \<Rightarrow> Inr (), s))\<rparr>"

interpretation mem_storage: storage_laws mem_db mem_kv mem_rest "(=)" "\<lambda>t. map_of (t_snap t)"
    "\<lambda>t. set (t_reads t)" "\<lambda>t. map_of (t_writes t)" mem_os
  by unfold_locales
    (auto simp: mem_os_def mem_kv_def mem_rest_def table_put_def ok_or_def split: option.splits)

section \<open>The invariant\<close>

definition record_holds :: "zlib_rs \<Rightarrow> (str \<rightharpoonup> bytes) \<Rightarrow> ObjectId \<Rightarrow> bytes \<Rightarrow> Kind \<Rightarrow> bytes \<Rightarrow> bool" where
  "record_holds Z blobs i v kind body \<longleftrightarrow>
     length body < 2 ^ 64 \<and>
     (\<exists>rec. record_decode v = Inr rec \<and> record_kind rec = kind \<and> record_size rec = word_of_nat (length body) \<and>
       (case rec of
          BlobPointer n \<Rightarrow> blobs (blob_path i) \<noteq> None
        | BlobInline n z \<Rightarrow> inflate Z z n = Some body
        | TreeRecord n z \<Rightarrow> inflate Z z n = Some body
        | CommitRecord n z \<Rightarrow> inflate Z z n = Some body
        | TagRecord n z \<Rightarrow> inflate Z z n = Some body))"

definition odb_ok :: "zlib_rs \<Rightarrow> (ObjectId \<rightharpoonup> Kind \<times> bytes) \<Rightarrow> kvmap \<Rightarrow> (str \<rightharpoonup> bytes) \<Rightarrow> bool" where
  "odb_ok Z H m blobs \<longleftrightarrow>
     (\<forall>repo i v. oid_ok i \<and> m (object_key repo i) = Some v \<longrightarrow>
        (\<exists>kind body. H i = Some (kind, body) \<and> record_holds Z blobs i v kind body)) \<and>
     (\<forall>i z. oid_ok i \<and> blobs (blob_path i) = Some z \<longrightarrow>
        (\<exists>body. H i = Some (KBlob, body) \<and> inflate Z z (word_of_nat (length body)) = Some body))"

definition odb_grows :: "kvmap \<Rightarrow> (str \<rightharpoonup> bytes) \<Rightarrow> kvmap \<Rightarrow> (str \<rightharpoonup> bytes) \<Rightarrow> bool" where
  "odb_grows m blobs m' blobs' \<longleftrightarrow>
     (\<forall>repo i. m (object_key repo i) \<noteq> None \<longrightarrow> m' (object_key repo i) \<noteq> None) \<and>
     dom blobs \<subseteq> dom blobs'"

definition odb_rely :: "zlib_rs \<Rightarrow> (ObjectId \<rightharpoonup> Kind \<times> bytes) \<Rightarrow> kvmap \<Rightarrow> (str \<rightharpoonup> bytes) \<Rightarrow> kvmap \<Rightarrow> (str \<rightharpoonup> bytes) \<Rightarrow> bool" where
  "odb_rely Z H m blobs m' blobs' \<longleftrightarrow>
     (odb_ok Z H m blobs \<longrightarrow> odb_ok Z H m' blobs' \<and> odb_grows m blobs m' blobs')"

lemma odb_grows_trans: "odb_grows a b c d \<Longrightarrow> odb_grows c d e f \<Longrightarrow> odb_grows a b e f"
  unfolding odb_grows_def by (simp add: subset_trans [of "dom b" "dom d"])

lemma odb_rely_refl [simp]: "odb_rely Z H m b m b"
  by (simp add: odb_rely_def odb_grows_def)

lemma odb_rely_trans: "odb_rely Z H a b c d \<Longrightarrow> odb_rely Z H c d e f \<Longrightarrow> odb_rely Z H a b e f"
  unfolding odb_rely_def using odb_grows_trans by blast

lemma odb_okI [intro?]:
  assumes "\<And>repo i v. oid_ok i \<Longrightarrow> m (object_key repo i) = Some v \<Longrightarrow>
      \<exists>kind body. H i = Some (kind, body) \<and> record_holds Z blobs i v kind body"
    and "\<And>i z. oid_ok i \<Longrightarrow> blobs (blob_path i) = Some z \<Longrightarrow>
      \<exists>body. H i = Some (KBlob, body) \<and> inflate Z z (word_of_nat (length body)) = Some body"
  shows "odb_ok Z H m blobs"
  unfolding odb_ok_def by (intro conjI allI impI; elim conjE; rule assms; assumption)

lemma odb_ok_recordD:
  assumes "odb_ok Z H m blobs" and "oid_ok i" and "m (object_key repo i) = Some v"
  obtains kind body where "H i = Some (kind, body)" "record_holds Z blobs i v kind body"
  using assms unfolding odb_ok_def by blast

lemma odb_ok_blobD:
  assumes "odb_ok Z H m blobs" and "oid_ok i" and "blobs (blob_path i) = Some z"
  obtains body where "H i = Some (KBlob, body)" "inflate Z z (word_of_nat (length body)) = Some body"
  using assms unfolding odb_ok_def by blast

lemma oid_ok_nonempty: "oid_ok i \<Longrightarrow> i \<noteq> []"
  by (auto simp: oid_ok_def)

lemma odb_ok_blob:
  assumes "odb_ok Z H m blobs" and "zlib_ok Z" and "oid_ok i" and "H i = Some (KBlob, body)"
    and "length body < 2 ^ 64" and "level \<le> 9"
  shows "odb_ok Z H m (blobs(blob_path i \<mapsto> deflate Z body level))"
proof -
  let ?b = "blobs(blob_path i \<mapsto> deflate Z body level)"
  have new: "inflate Z (deflate Z body level) (word_of_nat (length body)) = Some body"
    using inflate_deflate assms by blast
  have holds: "record_holds Z ?b j v kind b" if "record_holds Z blobs j v kind b" for j v kind b
    using that unfolding record_holds_def by (elim conjE exE, intro conjI exI) (auto split: ObjectRecord.splits)
  show ?thesis
  proof
    fix repo j v assume "oid_ok j" "m (object_key repo j) = Some v"
    then obtain kind b where "H j = Some (kind, b)" "record_holds Z blobs j v kind b"
      by (rule odb_ok_recordD [OF assms(1)])
    with holds show "\<exists>kind b. H j = Some (kind, b) \<and> record_holds Z ?b j v kind b" by blast
  next
    fix j z assume j: "oid_ok j" "?b (blob_path j) = Some z"
    show "\<exists>b. H j = Some (KBlob, b) \<and> inflate Z z (word_of_nat (length b)) = Some b"
    proof (cases "j = i")
      case True
      with j(2) new assms(4) show ?thesis by auto
    next
      case False
      then have "blob_path j \<noteq> blob_path i"
        using blob_path_inject [OF oid_ok_nonempty [OF j(1)] oid_ok_nonempty [OF assms(3)]] by simp
      with j show ?thesis by (auto elim: odb_ok_blobD [OF assms(1) j(1)])
    qed
  qed
qed

lemma odb_ok_record:
  assumes "odb_ok Z H m blobs" and "H i = Some (kind, body)"
    and "oid_ok i \<Longrightarrow> record_holds Z blobs i v kind body"
  shows "odb_ok Z H (m(object_key repo i \<mapsto> v)) blobs"
proof
  fix repo' j w assume "oid_ok j" "(m(object_key repo i \<mapsto> v)) (object_key repo' j) = Some w"
  with assms show "\<exists>kind b. H j = Some (kind, b) \<and> record_holds Z blobs j w kind b"
    by (cases "repo' = repo \<and> j = i") (auto elim: odb_ok_recordD [OF assms(1)])
qed (auto elim: odb_ok_blobD [OF assms(1)])

text \<open>The record a put builds, and what its stream is when the content is stored inline.\<close>

definition record_for :: "zlib_rs \<Rightarrow> ObjectDbConfig \<Rightarrow> Kind \<Rightarrow> bytes \<Rightarrow> ObjectRecord" where
  "record_for Z cfg kind body =
     (let n = word_of_nat (length body); z = odb_compress Z cfg body in
      case kind of
        KBlob \<Rightarrow> if length body > inline_threshold cfg then BlobPointer n else BlobInline n z
      | KTree \<Rightarrow> TreeRecord n z
      | KCommit \<Rightarrow> CommitRecord n z
      | KTag \<Rightarrow> TagRecord n z)"

definition offloaded :: "ObjectDbConfig \<Rightarrow> Kind \<Rightarrow> bytes \<Rightarrow> bool" where
  "offloaded cfg kind body \<longleftrightarrow> kind = KBlob \<and> length body > inline_threshold cfg"

lemma record_for_holds:
  assumes "zlib_ok Z" and "length body < 2 ^ 64" and "compression_level cfg \<le> 9" and "offloaded cfg kind body \<Longrightarrow> blobs (blob_path i) \<noteq> None"
  shows "record_holds Z blobs i (record_encode (record_for Z cfg kind body)) kind body"
  using assms inflate_deflate [OF assms(1,2,3)] object_records.roundtrip
  by (auto simp: record_holds_def record_for_def Let_def offloaded_def odb_compress_def split: Kind.splits)

lemma odb_put_eq:
  "odb_put db os Z cfg repo i kind body d =
     eff_bind (eff_map_err OStore (object_exists db repo i)) (\<lambda>known.
       if known then eff_return ()
       else eff_bind (if offloaded cfg kind body
                      then eff_map_err OBlob (blobs_put os i (odb_compress Z cfg body)) else eff_return ())
         (\<lambda>_. eff_map_err OStore (put_object db repo i (record_for Z cfg kind body) d)))"
  by (cases kind) (simp_all add: odb_put_def record_for_def offloaded_def Let_def eff_bind_assoc cong: if_cong)

text \<open>An error that only the engine or the object store can raise; not corruption, not a missing blob.\<close>

fun engine_error :: "ObjectDbError \<Rightarrow> bool" where
  "engine_error (OStore (SDb e)) = True"
| "engine_error (OBlob OsOther) = True"
| "engine_error _ = False"

definition read_ok :: "(ObjectDbError + 'a option) \<Rightarrow> ('a \<Rightarrow> bool) \<Rightarrow> bool \<Rightarrow> bool" where
  "read_ok r good known \<longleftrightarrow>
     (case r of Inl e \<Rightarrow> engine_error e | Inr None \<Rightarrow> \<not> known | Inr (Some x) \<Rightarrow> good x)"

context storage_laws
begin

lemma object_exists_run:
  assumes "object_exists db repo i s = (r, s')"
  shows "env s s' \<and> (\<forall>b. r = Inr b \<longrightarrow> b = (kv s' (object_key repo i) \<noteq> None))"
proof (cases r)
  case (Inl e)
  with assms get_law [of "object_key repo i" s] show ?thesis
    by (auto simp: object_exists_def effect_simps eff_bind_Inl)
next
  case (Inr b)
  with assms obtain v where v: "db_get db (object_key repo i) s = (Inr v, s')" "b = (v \<noteq> None)"
    by (auto simp: object_exists_def effect_simps)
  from get_law [OF v(1)] v(2) Inr show ?thesis by simp
qed

lemma odb_put_run:
  assumes rely: "\<And>s s'. env s s' \<Longrightarrow> odb_rely Z H (kv s) (rest s) (kv s') (rest s')"
    and Z: "zlib_ok Z" and ok: "odb_ok Z H (kv s) (rest s)"
    and i: "oid_ok i" "H i = Some (kind, body)" "length body < 2 ^ 64" and level: "compression_level cfg \<le> 9"
    and run: "odb_put db os Z cfg repo i kind body d s = (r, s')"
  shows "odb_ok Z H (kv s') (rest s') \<and> odb_grows (kv s) (rest s) (kv s') (rest s') \<and>
    (r = Inr () \<longrightarrow> kv s' (object_key repo i) \<noteq> None)"
proof -
  have step: "odb_ok Z H (kv u) (rest u) \<and> odb_grows (kv t) (rest t) (kv u) (rest u)"
    if "env t u" "odb_ok Z H (kv t) (rest t)" for t u
    using rely [OF that(1)] that(2) by (simp add: odb_rely_def)
  obtain r1 s1 where ex: "object_exists db repo i s = (r1, s1)" by force
  note E = object_exists_run [OF ex] and S1 = step [OF conjunct1 [OF object_exists_run [OF ex]] ok]
  show ?thesis
  proof (cases "r1 = Inr False")
    case False
    with run ex E S1 show ?thesis
      by (cases r1) (auto simp: odb_put_eq eff_bind_def eff_map_err_def eff_return_def)
  next
    case True
    define off where "off = offloaded cfg kind body"
    obtain r2 s2 where blob: "(if off then eff_map_err OBlob (blobs_put os i (odb_compress Z cfg body))
        else eff_return ()) s1 = (r2, s2)" by force
    have S2: "odb_ok Z H (kv s2) (rest s2) \<and> odb_grows (kv s1) (rest s1) (kv s2) (rest s2) \<and>
        (r2 = Inr () \<longrightarrow> off \<longrightarrow> rest s2 (blob_path i) \<noteq> None)"
    proof (cases off)
      case False
      with blob S1 show ?thesis by (simp add: effect_simps odb_grows_def)
    next
      case off: True
      then obtain r2' where put: "os_put os (blob_path i) (odb_compress Z cfg body) s1 = (r2', s2)"
        and r2: "r2 = map_err OBlob r2'"
        using blob by (auto simp: blobs_put_def eff_map_err_def split: prod.splits)
      have H: "H i = Some (KBlob, body)" using off i(2) by (simp add: off_def offloaded_def)
      from os_put_law [OF put] show ?thesis
      proof
        assume "\<exists>u. env s1 u \<and> kv s2 = kv u \<and> rest s2 = (rest u)(blob_path i \<mapsto> odb_compress Z cfg body)"
        then obtain u where u: "env s1 u" "kv s2 = kv u" "rest s2 = (rest u)(blob_path i \<mapsto> odb_compress Z cfg body)"
          by blast
        from step [OF u(1)] S1 have U: "odb_ok Z H (kv u) (rest u)" "odb_grows (kv s1) (rest s1) (kv u) (rest u)"
          by blast+
        from odb_ok_blob [OF U(1) Z i(1) H i(3) level] U(2) u(2,3) show ?thesis
          by (auto simp: odb_compress_def odb_grows_def)
      next
        assume "r2' \<noteq> Inr () \<and> env s1 s2"
        with step [of s1 s2] S1 r2 show ?thesis by (cases r2') auto
      qed
    qed
    have goal: ?thesis if "odb_ok Z H (kv s') (rest s') \<and> odb_grows (kv s2) (rest s2) (kv s') (rest s') \<and>
        (r = Inr () \<longrightarrow> kv s' (object_key repo i) \<noteq> None)"
      using that S1 S2 odb_grows_trans by blast
    show ?thesis
    proof (cases r2)
      case (Inl e)
      with run ex True blob have "r = Inl e" "s' = s2"
        by (auto simp: odb_put_eq off_def eff_bind_def eff_map_err_def)
      with S2 show ?thesis by (intro goal) (auto simp: odb_grows_def)
    next
      case (Inr x)
      define v where "v = record_encode (record_for Z cfg kind body)"
      from run ex True blob Inr obtain r3 where
        put: "db_put db (object_key repo i) v (await_durable d) s2 = (r3, s')"
        and r: "r = map_err OStore (map_err SDb r3)"
        by (auto simp: odb_put_eq off_def v_def put_object_def eff_bind_def eff_map_err_def split: prod.splits)
      from put_law [OF put] show ?thesis
      proof
        assume "\<exists>u. env s2 u \<and> rest s' = rest u \<and> kv s' = (kv u)(object_key repo i \<mapsto> v)"
        then obtain u where u: "env s2 u" "rest s' = rest u" "kv s' = (kv u)(object_key repo i \<mapsto> v)" by blast
        from step [OF u(1)] S2 have U: "odb_ok Z H (kv u) (rest u)" "odb_grows (kv s2) (rest s2) (kv u) (rest u)"
          by blast+
        have "record_holds Z (rest u) i v kind body" unfolding v_def
          by (rule record_for_holds [OF Z i(3) level]) (use S2 Inr U(2) in \<open>auto simp: off_def odb_grows_def\<close>)
        from odb_ok_record [OF U(1) i(2) this] U(2) u(2,3) show ?thesis
          by (intro goal) (auto simp: odb_grows_def)
      next
        assume "r3 \<noteq> Inr () \<and> env s2 s'"
        with step [of s2 s'] S2 r show ?thesis by (intro goal) (cases r3; auto)
      qed
    qed
  qed
qed

lemma get_object_run:
  assumes rely: "\<And>s s'. env s s' \<Longrightarrow> odb_rely Z H (kv s) (rest s) (kv s') (rest s')"
    and ok: "odb_ok Z H (kv s) (rest s)" and i: "oid_ok i"
    and run: "get_object db repo i s = (r, s')"
  shows "odb_ok Z H (kv s') (rest s') \<and> odb_grows (kv s) (rest s) (kv s') (rest s') \<and>
    (case r of
       Inl e \<Rightarrow> \<exists>d. e = SDb d
     | Inr None \<Rightarrow> kv s (object_key repo i) = None
     | Inr (Some rec) \<Rightarrow> \<exists>v kind body. record_decode v = Inr rec \<and> H i = Some (kind, body) \<and>
         record_holds Z (rest s') i v kind body)"
proof -
  obtain g where g: "db_get db (object_key repo i) s = (g, s')"
    and r: "r = and_then (map_err SDb g) (decode_opt record_decode)"
    using run by (auto simp: get_object_def eff_bind_def eff_map_err_def eff_lift_def
        split: prod.splits sum.splits)
  from get_law [OF g] have e: "env s s'" and v: "\<And>v. g = Inr v \<Longrightarrow> v = kv s' (object_key repo i)" by auto
  from rely [OF e] ok have S: "odb_ok Z H (kv s') (rest s')" "odb_grows (kv s) (rest s) (kv s') (rest s')"
    by (auto simp: odb_rely_def)
  show ?thesis
  proof (cases g)
    case (Inl e)
    with S r show ?thesis by simp
  next
    case (Inr w)
    show ?thesis
    proof (cases w)
      case None
      with Inr v [of w] have "kv s' (object_key repo i) = None" by simp
      then have "kv s (object_key repo i) = None" using S(2) unfolding odb_grows_def by metis
      with S r Inr None show ?thesis by (simp add: decode_opt_def)
    next
      case (Some x)
      with Inr v [of w] have "kv s' (object_key repo i) = Some x" by simp
      from odb_ok_recordD [OF S(1) i this] obtain kind body where
        h: "H i = Some (kind, body)" "record_holds Z (rest s') i x kind body" by blast
      from h(2) obtain rec where "record_decode x = Inr rec" by (auto simp: record_holds_def)
      with S r Inr Some h show ?thesis by (auto simp: decode_opt_def)
    qed
  qed
qed

lemma record_stream_run:
  assumes rely: "\<And>s s'. env s s' \<Longrightarrow> odb_rely Z H (kv s) (rest s) (kv s') (rest s')"
    and ok: "odb_ok Z H (kv s) (rest s)" and i: "oid_ok i"
    and rec: "record_decode v = Inr rec" "H i = Some (kind, body)" "record_holds Z (rest s) i v kind body"
    and run: "record_stream os i rec s = (r, s')"
  shows "odb_ok Z H (kv s') (rest s') \<and> odb_grows (kv s) (rest s) (kv s') (rest s') \<and>
    (case r of
       Inl e \<Rightarrow> engine_error e
     | Inr (n, z) \<Rightarrow> inflate Z z n = Some body \<and> n = word_of_nat (length body)) \<and> record_kind rec = kind"
proof (cases "\<exists>n. rec = BlobPointer n")
  case False
  with rec run ok show ?thesis
    by (cases rec) (auto simp: record_stream_def effect_simps record_holds_def odb_grows_def)
next
  case True
  then obtain n where n: "rec = BlobPointer n" by blast
  obtain g where g: "os_get os (blob_path i) s = (g, s')"
    and r: "r = and_then (map_err OBlob g) (\<lambda>z. Inr (n, z))"
    using run by (auto simp: n record_stream_def blobs_get_def eff_bind_def eff_map_err_def eff_return_def
        split: prod.splits sum.splits)
  from os_get_law [OF g] have e: "env s s'" and z: "\<And>z. g = Inr z \<Longrightarrow> rest s' (blob_path i) = Some z"
    and miss: "g = Inl NotFound \<Longrightarrow> rest s' (blob_path i) = None" by auto
  from rely [OF e] ok have S: "odb_ok Z H (kv s') (rest s')" "odb_grows (kv s) (rest s) (kv s') (rest s')"
    by (auto simp: odb_rely_def)
  have h: "kind = KBlob" "n = word_of_nat (length body)" "rest s (blob_path i) \<noteq> None"
    using rec n by (auto simp: record_holds_def)
  then have "rest s' (blob_path i) \<noteq> None" using S(2) by (auto simp: odb_grows_def)
  with miss have nf: "g \<noteq> Inl NotFound" by blast
  have "inflate Z z n = Some body" if "g = Inr z" for z
    using odb_ok_blobD [OF S(1) i z [OF that]] rec(2) h(2) by auto
  moreover have "e = OsOther" if "g = Inl e" for e using nf that by (cases e) auto
  ultimately show ?thesis using S r h by (cases g) (auto simp: n)
qed

lemma odb_get_run:
  assumes rely: "\<And>s s'. env s s' \<Longrightarrow> odb_rely Z H (kv s) (rest s) (kv s') (rest s')"
    and ok: "odb_ok Z H (kv s) (rest s)" and i: "oid_ok i"
    and run: "odb_get db os Z repo i s = (r, s')"
  shows "odb_ok Z H (kv s') (rest s') \<and> odb_grows (kv s) (rest s) (kv s') (rest s') \<and>
    read_ok r (\<lambda>c. H i = Some c) (kv s (object_key repo i) \<noteq> None)"
proof -
  obtain r1 s1 where g: "get_object db repo i s = (r1, s1)" by force
  note G = get_object_run [OF rely ok i g]
  show ?thesis
  proof (cases "\<exists>rec. r1 = Inr (Some rec)")
    case False
    with run g G show ?thesis
      by (cases r1) (auto simp: odb_get_def eff_bind_def eff_map_err_def eff_return_def read_ok_def)
  next
    case True
    then obtain rec where r1: "r1 = Inr (Some rec)" by blast
    obtain r2 s2 where st: "record_stream os i rec s1 = (r2, s2)" by force
    from G r1 obtain v kind body where v: "record_decode v = Inr rec" "H i = Some (kind, body)"
      "record_holds Z (rest s1) i v kind body" by auto
    from G have ok1: "odb_ok Z H (kv s1) (rest s1)" and gr: "odb_grows (kv s) (rest s) (kv s1) (rest s1)" by blast+
    note R = record_stream_run [OF rely ok1 i v st]
    have "odb_grows (kv s) (rest s) (kv s2) (rest s2)" using gr R odb_grows_trans by blast
    moreover have "s' = s2 \<and> read_ok r (\<lambda>c. H i = Some c) known" for known
      using run g r1 st R v(2)
      by (cases r2) (auto simp: odb_get_def eff_bind_def eff_map_err_def eff_return_def eff_lift_def read_ok_def)
    ultimately show ?thesis using R by blast
  qed
qed

lemma read_compressed_run:
  assumes rely: "\<And>s s'. env s s' \<Longrightarrow> odb_rely Z H (kv s) (rest s) (kv s') (rest s')"
    and ok: "odb_ok Z H (kv s) (rest s)" and i: "oid_ok i"
    and run: "read_compressed db os repo i s = (r, s')"
  shows "read_ok r (\<lambda>(kind, n, z). \<exists>body. H i = Some (kind, body) \<and> n = word_of_nat (length body) \<and>
      inflate Z z n = Some body) (kv s (object_key repo i) \<noteq> None)"
proof -
  obtain r1 s1 where g: "get_object db repo i s = (r1, s1)" by force
  note G = get_object_run [OF rely ok i g]
  show ?thesis
  proof (cases "\<exists>rec. r1 = Inr (Some rec)")
    case False
    with run g G show ?thesis
      by (cases r1) (auto simp: read_compressed_def eff_bind_def eff_map_err_def eff_return_def read_ok_def)
  next
    case True
    then obtain rec where r1: "r1 = Inr (Some rec)" by blast
    obtain r2 s2 where st: "record_stream os i rec s1 = (r2, s2)" by force
    from G r1 obtain v kind body where v: "record_decode v = Inr rec" "H i = Some (kind, body)"
      "record_holds Z (rest s1) i v kind body" by auto
    from G have ok1: "odb_ok Z H (kv s1) (rest s1)" by blast
    note R = record_stream_run [OF rely ok1 i v st]
    show ?thesis
      using run g r1 st R v(2)
      by (cases r2) (auto simp: read_compressed_def eff_bind_def eff_map_err_def eff_return_def read_ok_def)
  qed
qed

lemma odb_size_run:
  assumes rely: "\<And>s s'. env s s' \<Longrightarrow> odb_rely Z H (kv s) (rest s) (kv s') (rest s')"
    and ok: "odb_ok Z H (kv s) (rest s)" and i: "oid_ok i"
    and run: "odb_size db repo i s = (r, s')"
  shows "read_ok r (\<lambda>(kind, n). \<exists>body. H i = Some (kind, body) \<and> n = word_of_nat (length body))
    (kv s (object_key repo i) \<noteq> None)"
proof -
  obtain r1 s1 where g: "get_object db repo i s = (r1, s1)" by force
  note G = get_object_run [OF rely ok i g]
  with run g show ?thesis
    by (auto simp: odb_size_def eff_bind_def eff_map_err_def eff_return_def read_ok_def record_holds_def
        split: sum.splits option.splits)
qed

end

section \<open>Properties\<close>

text \<open>C13: Whatever its outcome, a put keeps the database invariant (every record decodes to the
  content its id names, and no record points at a missing blob) and loses no object; when it
  succeeds, every later read returns exactly the stored kind and content, or fails with an
  engine error: never a corrupt stream, never a missing blob, never "not found". This holds
  with other writers active throughout, at the compression levels 0 to 9 that the server starts with.\<close>

theorem put_then_get:
  assumes "storage_laws db kv rest env snap reads writes os"
    and "\<And>s s'. env s s' \<Longrightarrow> odb_rely Z H (kv s) (rest s) (kv s') (rest s')"
    and "zlib_ok Z" and "odb_ok Z H (kv s) (rest s)"
    and "oid_ok i" and "H i = Some (kind, body)" and "length body < 2 ^ 64" and "compression_level cfg \<le> 9"
    and "odb_put db os Z cfg repo i kind body d s = (r, s')"
    and "odb_get db os Z repo i s' = (r', s'')"
  shows "odb_ok Z H (kv s') (rest s') \<and> odb_grows (kv s) (rest s) (kv s') (rest s') \<and>
    read_ok r' (\<lambda>c. c = (kind, body)) (r = Inr ())"
proof -
  note P = storage_laws.odb_put_run [OF assms(1-9)]
  then have ok: "odb_ok Z H (kv s') (rest s')" by blast
  note G = storage_laws.odb_get_run [OF assms(1,2) ok assms(5,10)]
  then have "read_ok r' (\<lambda>c. c = (kind, body)) (r = Inr ())"
    using P assms(6) by (auto simp: read_ok_def split: sum.splits option.splits)
  with P show ?thesis by blast
qed

text \<open>C16: The stream handed to the pack writer for a known object is a zlib stream of exactly the
  content its id names, of the size reported with it.\<close>

theorem read_compressed_stream:
  assumes "storage_laws db kv rest env snap reads writes os"
    and "\<And>s s'. env s s' \<Longrightarrow> odb_rely Z H (kv s) (rest s) (kv s') (rest s')"
    and "odb_ok Z H (kv s) (rest s)" and "oid_ok i"
    and "read_compressed db os repo i s = (r, s')"
  shows "read_ok r (\<lambda>(kind, n, z). \<exists>body. H i = Some (kind, body) \<and> n = word_of_nat (length body) \<and>
      inflate Z z n = Some body) (kv s (object_key repo i) \<noteq> None)"
  by (rule storage_laws.read_compressed_run [OF assms])

definition sample_oid :: ObjectId where
  "sample_oid = replicate 20 1"

definition sample_hash :: "ObjectId \<rightharpoonup> Kind \<times> bytes" where
  "sample_hash = [sample_oid \<mapsto> (KBlob, [1, 2, 3])]"

definition sample_cfg :: ObjectDbConfig where
  "sample_cfg = \<lparr>inline_threshold = 1, compression_level = 6\<rparr>"

definition sample_world :: mem_world where
  "sample_world = ([(object_key (RepoId 3) sample_oid, record_encode (BlobPointer 3))], [(blob_path sample_oid, [1, 2, 3])])"

lemma sample_put:
  "odb_put mem_db mem_os stored_zlib sample_cfg (RepoId 3) sample_oid KBlob [1, 2, 3] Relaxed ([], [])
    = (Inr (), sample_world)"
  by code_simp

lemma sample_get:
  "odb_get mem_db mem_os stored_zlib (RepoId 3) sample_oid sample_world = (Inr (Some (KBlob, [1, 2, 3])), sample_world)"
  by code_simp

lemma odb_ok_empty: "odb_ok Z H (mem_kv ([], [])) (mem_rest ([], []))"
  by (simp add: odb_ok_def mem_kv_def mem_rest_def)

lemma odb_rely_eq: "s = s' \<Longrightarrow> odb_rely Z H (mem_kv s) (mem_rest s) (mem_kv s') (mem_rest s')"
  by simp

lemma sample_world_ok: "odb_ok stored_zlib sample_hash (mem_kv sample_world) (mem_rest sample_world)"
  using mem_storage.odb_put_run [OF odb_rely_eq stored_zlib_ok odb_ok_empty _ _ _ _ sample_put, of sample_hash]
  by (simp add: oid_ok_def sample_oid_def sample_hash_def sample_cfg_def)

lemma sample_read:
  "read_compressed mem_db mem_os (RepoId 3) sample_oid sample_world = (Inr (Some (KBlob, 3, [1, 2, 3])), sample_world)"
  by code_simp

theorem put_then_get_witness:
  "odb_ok stored_zlib sample_hash (mem_kv sample_world) (mem_rest sample_world) \<and>
   odb_grows (mem_kv ([], [])) (mem_rest ([], [])) (mem_kv sample_world) (mem_rest sample_world) \<and>
   read_ok (Inr (Some (KBlob, [1, 2, 3 :: u8]))) (\<lambda>c. c = (KBlob, [1, 2, 3])) (Inr () = (Inr () :: ObjectDbError + unit))"
  by (rule put_then_get [OF mem_storage.storage_laws_axioms odb_rely_eq stored_zlib_ok odb_ok_empty _ _ _ _
        sample_put sample_get]) (simp_all add: oid_ok_def sample_oid_def sample_hash_def sample_cfg_def)

theorem read_compressed_stream_witness:
  "read_ok (Inr (Some (KBlob, 3, [1, 2, 3])))
     (\<lambda>(kind, n, z). \<exists>body. sample_hash sample_oid = Some (kind, body) \<and>
      n = word_of_nat (length body) \<and> inflate stored_zlib z n = Some body)
     (mem_kv sample_world (object_key (RepoId 3) sample_oid) \<noteq> None)"
  by (rule read_compressed_stream [OF mem_storage.storage_laws_axioms odb_rely_eq sample_world_ok _ sample_read])
    (simp_all add: oid_ok_def sample_oid_def)

end
