(* ===== verification/Walk.thy ===== *)
theory Walk
  imports ObjectDb
begin

text \<open>
  \<^verbatim>\<open>src/git/walk.rs\<close>: fetch object discovery. Phase I chooses the commits to send from the
  client's wants and haves; Phase II expands them to trees and blobs under a partial-clone
  filter. Commit metadata comes from the commit-graph segment, filled in lazily from the commit
  objects. A batch of concurrent lookups is a sequence of lookups in input order, which is the
  order its results are consumed in. The parsers of \<^verbatim>\<open>gix_object\<close> are a parameter. The loops
  whose termination depends on the stored data (a cyclic tag or commit chain would never end)
  run on the fuel \<open>w_fuel\<close> of the walker; running out of it, and an index panic, are error
  values of their own.
\<close>

section \<open>Filters\<close>

datatype FilterSpec = NoFilter | BlobNone | BlobLimit u64

text \<open>\<^verbatim>\<open>str::parse::<u64>\<close>: an optional plus sign and decimal digits that fit.\<close>

definition is_digit :: "u8 \<Rightarrow> bool" where
  "is_digit b \<longleftrightarrow> 48 \<le> b \<and> b \<le> 57"

definition digits_value :: "bytes \<Rightarrow> nat" where
  "digits_value ds = foldl (\<lambda>acc b. acc * 10 + (unat b - 48)) 0 ds"

definition parse_u64 :: "str \<Rightarrow> u64 option" where
  "parse_u64 s =
     (let ds = (case s of c # cs \<Rightarrow> if c = 43 then cs else s | [] \<Rightarrow> s) in
      if ds \<noteq> [] \<and> list_all is_digit ds \<and> digits_value ds < 2 ^ 64
      then Some (word_of_nat (digits_value ds)) else None)"

definition checked_mul :: "u64 \<Rightarrow> u64 \<Rightarrow> u64 option" where
  "checked_mul x y = (if unat x * unat y < 2 ^ 64 then Some (x * y) else None)"

definition parse_unit_size :: "str \<Rightarrow> u64 option" where
  "parse_unit_size s =
     (if s = [] then None
      else
        let (digits, multiplier) =
              (if last s \<in> {107, 75} then (butlast s, 1024)
               else if last s \<in> {109, 77} then (butlast s, 1024 * 1024)
               else if last s \<in> {103, 71} then (butlast s, 1024 * 1024 * 1024)
               else (s, 1)) in
        case parse_u64 digits of None \<Rightarrow> None | Some n \<Rightarrow> checked_mul n multiplier)"

definition strip_prefix :: "str \<Rightarrow> str \<Rightarrow> str option" where
  "strip_prefix p s = (if prefix p s then Some (drop (length p) s) else None)"

definition filter_parse :: "str \<Rightarrow> FilterSpec option" where
  "filter_parse spec =
     (if spec = lit ''blob:none'' then Some BlobNone
      else
        case strip_prefix (lit ''blob:limit='') spec of
          None \<Rightarrow> None
        | Some limit \<Rightarrow> map_option BlobLimit (parse_unit_size limit))"

section \<open>Types\<close>

datatype WalkError =
    WStore StoreError
  | WObjects ObjectDbError
  | UnknownWant ObjectId
  | UnsupportedWant ObjectId Kind
  | MissingObject ObjectId
  | UnexpectedKind ObjectId Kind Kind
  | WDecode ObjectId
  | DiscoveryStalled "ObjectId set"
  | WalkPanic
  | WalkDiverges

record Selection =
  to_send :: "ObjectId list"
  common :: "ObjectId list"
  bounded_by_haves :: bool

record WantPartition =
  history :: "ObjectId list"
  direct :: "ObjectId list"

datatype Flag = Want | Have

datatype QueueEntry = QueueEntry (qe_generation: u32) (qe_oid: ObjectId)

text \<open>\<^verbatim>\<open>impl Ord for QueueEntry\<close>: by generation, \<^verbatim>\<open>then_with\<close> by id.\<close>

datatype Ordering = OrdLess | OrdEqual | OrdGreater

definition ord_cmp :: "'a::linorder \<Rightarrow> 'a \<Rightarrow> Ordering" where
  "ord_cmp x y = (if x < y then OrdLess else if x = y then OrdEqual else OrdGreater)"

definition queue_entry_cmp :: "QueueEntry \<Rightarrow> QueueEntry \<Rightarrow> Ordering" where
  "queue_entry_cmp a b =
     (case ord_cmp (qe_generation a) (qe_generation b) of
        OrdEqual \<Rightarrow> ord_cmp (qe_oid a) (qe_oid b)
      | ord \<Rightarrow> ord)"

lemma queue_entry_cmp_less: "queue_entry_cmp a b = OrdLess \<longleftrightarrow>
    qe_generation a < qe_generation b \<or> qe_generation a = qe_generation b \<and> qe_oid a < qe_oid b"
  by (auto simp: queue_entry_cmp_def ord_cmp_def)

lemma queue_entry_cmp_greater: "queue_entry_cmp a b = OrdGreater \<longleftrightarrow>
    qe_generation b < qe_generation a \<or> qe_generation a = qe_generation b \<and> qe_oid b < qe_oid a"
  by (auto simp: queue_entry_cmp_def ord_cmp_def)

instantiation QueueEntry :: linorder
begin

definition less_eq_QueueEntry :: "QueueEntry \<Rightarrow> QueueEntry \<Rightarrow> bool" where
  "less_eq_QueueEntry a b \<longleftrightarrow> queue_entry_cmp a b \<noteq> OrdGreater"

definition less_QueueEntry :: "QueueEntry \<Rightarrow> QueueEntry \<Rightarrow> bool" where
  "less_QueueEntry a b \<longleftrightarrow> queue_entry_cmp a b = OrdLess"

instance
  by intro_classes
    (auto simp: less_eq_QueueEntry_def less_QueueEntry_def queue_entry_cmp_less queue_entry_cmp_greater QueueEntry.expand)

end

lemma queue_entry_le:
  "a \<le> b \<longleftrightarrow> qe_generation a < qe_generation b \<or> qe_generation a = qe_generation b \<and> qe_oid a \<le> qe_oid (b :: QueueEntry)"
  by (auto simp: less_eq_QueueEntry_def queue_entry_cmp_greater)

text \<open>A \<^verbatim>\<open>BinaryHeap\<close> as the descending list of its entries: \<^verbatim>\<open>peek\<close> is the head.\<close>

fun heap_push :: "'a::linorder \<Rightarrow> 'a list \<Rightarrow> 'a list" where
  "heap_push x [] = [x]"
| "heap_push x (y # ys) = (if y \<le> x then x # y # ys else y # heap_push x ys)"

record Discovery =
  frontier :: "QueueEntry list"
  marks :: "ObjectId \<rightharpoonup> Flag"
  pending :: "ObjectId set"

definition discovery_default :: Discovery where
  "discovery_default = \<lparr>frontier = [], marks = Map.empty, pending = {}\<rparr>"

definition mark :: "Discovery \<Rightarrow> ObjectId \<Rightarrow> Flag \<Rightarrow> u32 \<Rightarrow> Discovery" where
  "mark d i flag gen =
     (let settle = (\<lambda>d resolved.
            d\<lparr>marks := (marks d)(i \<mapsto> resolved), frontier := heap_push (QueueEntry gen i) (frontier d)\<rparr>) in
      case (marks d i, flag) of
        (Some Have, _) \<Rightarrow> d
      | (Some Want, Want) \<Rightarrow> d
      | (Some Want, Have) \<Rightarrow> settle (d\<lparr>pending := pending d - {i}\<rparr>) Have
      | (None, Have) \<Rightarrow> settle d Have
      | (None, Want) \<Rightarrow> settle (d\<lparr>pending := insert i (pending d)\<rparr>) Want)"

datatype TreeEntry = Subtree ObjectId "bytes option" | Leaf ObjectId "bytes option"

record CollectedObjects =
  objects :: "ObjectId list"
  blob_paths :: "ObjectId \<rightharpoonup> bytes"

definition join_path :: "bytes \<Rightarrow> bytes \<Rightarrow> bytes" where
  "join_path parent name = (if parent = [] then name else parent @ [47] @ name)"

text \<open>\<^verbatim>\<open>OrderedOidSet\<close>: its vector, whose elements are the backing set.\<close>

definition oset_insert :: "ObjectId list \<Rightarrow> ObjectId \<Rightarrow> ObjectId list" where
  "oset_insert xs i = (if i \<in> set xs then xs else xs @ [i])"

section \<open>The walker\<close>

text \<open>
  The parsers: \<^verbatim>\<open>CommitRef::from_bytes\<close> (its tree and parents), \<^verbatim>\<open>TagRef::from_bytes\<close> (its
  target) and the entries \<^verbatim>\<open>TreeRefIter\<close> yields (the last may be a decode error).
\<close>

datatype TreeMode = ModeTree | ModeCommit | ModeOther

record gix_object =
  commit_from_bytes :: "bytes \<Rightarrow> HashKind \<Rightarrow> (ObjectId \<times> ObjectId list) option"
  tag_from_bytes :: "bytes \<Rightarrow> HashKind \<Rightarrow> ObjectId option"
  tree_entries :: "bytes \<Rightarrow> HashKind \<Rightarrow> (unit + TreeMode \<times> bytes \<times> ObjectId) list"

record ('s, 't) walker =
  w_db :: "('s, 't) slatedb"
  w_os :: "'s object_store"
  w_zlib :: zlib_rs
  w_gix :: gix_object
  w_repo :: RepoId
  w_fuel :: nat

definition w_get :: "('s, 't) walker \<Rightarrow> ObjectId \<Rightarrow> ('s, WalkError, (Kind \<times> bytes) option) eff" where
  "w_get w i = eff_map_err WObjects (odb_get (w_db w) (w_os w) (w_zlib w) (w_repo w) i)"

subsection \<open>Commit metadata\<close>

definition parse_commit :: "('s, 't) walker \<Rightarrow> ObjectId \<Rightarrow> ('s, WalkError, ObjectId \<times> ObjectId list) eff" where
  "parse_commit w i =
     eff_bind (w_get w i) (\<lambda>r.
       case r of
         None \<Rightarrow> eff_fail (MissingObject i)
       | Some (kind, body) \<Rightarrow>
           if kind \<noteq> KCommit then eff_fail (UnexpectedKind i KCommit kind)
           else eff_lift (ok_or (WDecode i) (commit_from_bytes (w_gix w) body (oid_kind i))))"

text \<open>\<^verbatim>\<open>1 + max(parent generations)\<close>, over the parents with a known generation.\<close>

definition next_generation :: "(ObjectId \<rightharpoonup> u32) \<Rightarrow> ObjectId list \<Rightarrow> u32" where
  "next_generation gens ps = 1 + foldl max 0 (List.map_filter gens ps)"

definition parse_once ::
    "('s, 't) walker \<Rightarrow> (ObjectId \<rightharpoonup> ObjectId \<times> ObjectId list) \<Rightarrow> ObjectId
      \<Rightarrow> ('s, WalkError, (ObjectId \<rightharpoonup> ObjectId \<times> ObjectId list) \<times> ObjectId \<times> ObjectId list) eff" where
  "parse_once w parsed i =
     (case parsed i of
        Some e \<Rightarrow> eff_return (parsed, e)
      | None \<Rightarrow> eff_bind (parse_commit w i) (\<lambda>e. eff_return (parsed(i \<mapsto> e), e)))"

fun backfill_loop ::
    "('s, 't) walker \<Rightarrow> ObjectId \<Rightarrow> nat \<Rightarrow> (ObjectId \<rightharpoonup> ObjectId \<times> ObjectId list) \<Rightarrow> (ObjectId \<rightharpoonup> u32)
      \<Rightarrow> CommitGraphRecord option \<Rightarrow> ObjectId list \<Rightarrow> ('s, WalkError, CommitGraphRecord option) eff" where
  "backfill_loop w tgt 0 parsed gens res stack = eff_fail WalkDiverges"
| "backfill_loop w tgt (Suc n) parsed gens res [] = eff_return res"
| "backfill_loop w tgt (Suc n) parsed gens res (cur # stack) =
     (if gens cur \<noteq> None then backfill_loop w tgt n parsed gens res stack
      else
        eff_bind (eff_map_err WStore (get_commit_graph (w_db w) (w_repo w) cur)) (\<lambda>r.
          case r of
            Some rec \<Rightarrow> backfill_loop w tgt n parsed (gens(cur \<mapsto> generation rec)) res stack
          | None \<Rightarrow>
              eff_bind (parse_once w parsed cur) (\<lambda>(parsed, root, ps).
                let missing = filter (\<lambda>p. gens p = None) ps in
                if missing = [] then
                  let rec = \<lparr>generation = next_generation gens ps, root_tree = root, parents = ps\<rparr> in
                  eff_bind (eff_map_err WStore (put_commit_graph (w_db w) (w_repo w) cur rec Relaxed)) (\<lambda>_.
                    backfill_loop w tgt n parsed (gens(cur \<mapsto> generation rec))
                      (if cur = tgt then Some rec else res) stack)
                else backfill_loop w tgt n parsed gens res (rev missing @ cur # stack))))"

definition backfill_commit_info :: "('s, 't) walker \<Rightarrow> ObjectId \<Rightarrow> ('s, WalkError, CommitGraphRecord) eff" where
  "backfill_commit_info w i =
     eff_bind (backfill_loop w i (w_fuel w) Map.empty Map.empty None [i]) (\<lambda>res.
       eff_lift (ok_or (MissingObject i) res))"

definition get_commit_info :: "('s, 't) walker \<Rightarrow> ObjectId \<Rightarrow> ('s, WalkError, CommitGraphRecord) eff" where
  "get_commit_info w i =
     eff_bind (eff_map_err WStore (get_commit_graph (w_db w) (w_repo w) i)) (\<lambda>r.
       case r of Some rec \<Rightarrow> eff_return rec | None \<Rightarrow> backfill_commit_info w i)"

subsection \<open>Batched lookups\<close>

type_synonym record_cache = "ObjectId \<rightharpoonup> CommitGraphRecord"

fun cache_misses :: "record_cache \<Rightarrow> ObjectId set \<Rightarrow> ObjectId list \<Rightarrow> ObjectId list" where
  "cache_misses cache seen [] = []"
| "cache_misses cache seen (i # ids) =
     (if cache i = None \<and> i \<notin> seen then i # cache_misses cache (insert i seen) ids
      else cache_misses cache seen ids)"

definition cache_fetched :: "record_cache \<Rightarrow> (ObjectId \<times> (WalkError + CommitGraphRecord)) list \<Rightarrow> record_cache" where
  "cache_fetched = foldl (\<lambda>cache (i, r). case r of Inr rec \<Rightarrow> cache(i \<mapsto> rec) | Inl e \<Rightarrow> cache)"

definition prefetch_records ::
    "('s, 't) walker \<Rightarrow> record_cache \<Rightarrow> ObjectId list
      \<Rightarrow> ('s, WalkError, (ObjectId \<times> (WalkError + CommitGraphRecord)) list \<times> record_cache) eff" where
  "prefetch_records w cache ids =
     eff_bind (eff_map (\<lambda>i. eff_bind (eff_attempt (get_commit_info w i)) (\<lambda>r. eff_return (i, r)))
         (cache_misses cache {} ids))
       (\<lambda>fetched. eff_return (fetched, cache_fetched cache fetched))"

definition object_sizes ::
    "('s, 't) walker \<Rightarrow> ObjectId list \<Rightarrow> ('s, WalkError, (ObjectId \<times> (ObjectDbError + (Kind \<times> u64) option)) list) eff" where
  "object_sizes w ids =
     eff_map (\<lambda>i. eff_bind (eff_attempt (odb_size (w_db w) (w_repo w) i)) (\<lambda>r. eff_return (i, r))) ids"

text \<open>The \<^verbatim>\<open>size?.ok_or(missing)?\<close> of the consumers of \<^verbatim>\<open>object_sizes\<close>.\<close>

definition known_size :: "WalkError \<Rightarrow> ObjectDbError + (Kind \<times> u64) option \<Rightarrow> WalkError + Kind \<times> u64" where
  "known_size missing r = and_then (map_err WObjects r) (ok_or missing)"

fun partition_sizes ::
    "ObjectId list \<Rightarrow> ObjectId list \<Rightarrow> (ObjectId \<times> (ObjectDbError + (Kind \<times> u64) option)) list
      \<Rightarrow> WalkError + WantPartition" where
  "partition_sizes hist dir [] = Inr \<lparr>history = hist, direct = dir\<rparr>"
| "partition_sizes hist dir ((want, sz) # rest) =
     and_then (known_size (UnknownWant want) sz) (\<lambda>(kind, n).
       if kind = KCommit \<or> kind = KTag then partition_sizes (hist @ [want]) dir rest
       else partition_sizes hist (oset_insert dir want) rest)"

definition partition_wants :: "('s, 't) walker \<Rightarrow> ObjectId list \<Rightarrow> ('s, WalkError, WantPartition) eff" where
  "partition_wants w wants = eff_bind (object_sizes w wants) (\<lambda>sizes. eff_lift (partition_sizes [] [] sizes))"

fun info_sizes ::
    "(ObjectId \<times> (ObjectDbError + (Kind \<times> u64) option)) list \<Rightarrow> WalkError + (ObjectId \<times> Kind \<times> u64) list" where
  "info_sizes [] = Inr []"
| "info_sizes ((i, sz) # rest) =
     and_then (known_size (MissingObject i) sz) (\<lambda>(kind, n).
     and_then (info_sizes rest) (\<lambda>info. Inr ((i, kind, n) # info)))"

definition object_info :: "('s, 't) walker \<Rightarrow> ObjectId list \<Rightarrow> ('s, WalkError, (ObjectId \<times> Kind \<times> u64) list) eff" where
  "object_info w ids = eff_bind (object_sizes w ids) (\<lambda>sizes. eff_lift (info_sizes sizes))"

subsection \<open>Rebuilding the commit graph\<close>

definition MAX_REBUILD_SYMREF_DEPTH :: nat where
  "MAX_REBUILD_SYMREF_DEPTH = 5"

definition MAX_REBUILD_TAG_PEEL_DEPTH :: nat where
  "MAX_REBUILD_TAG_PEEL_DEPTH = 5"

fun resolve_symref :: "('s, 't) walker \<Rightarrow> nat \<Rightarrow> RefTarget \<Rightarrow> ('s, WalkError, ObjectId option) eff" where
  "resolve_symref w 0 cur = eff_return None"
| "resolve_symref w (Suc n) cur =
     (case cur of
        Direct i \<Rightarrow> eff_return (Some i)
      | Reference name \<Rightarrow>
          eff_bind (eff_map_err WStore (get_ref (w_db w) (w_repo w) name)) (\<lambda>r.
            case r of
              Some nxt \<Rightarrow> resolve_symref w n nxt
            | None \<Rightarrow> eff_return None))"

fun peel_tip :: "('s, 't) walker \<Rightarrow> nat \<Rightarrow> ObjectId \<Rightarrow> ('s, WalkError, ObjectId option) eff" where
  "peel_tip w 0 cursor = eff_return None"
| "peel_tip w (Suc n) cursor =
     eff_bind (w_get w cursor) (\<lambda>r.
       case r of
         None \<Rightarrow> eff_return None
       | Some (kind, body) \<Rightarrow>
           (case kind of
              KCommit \<Rightarrow> eff_return (Some cursor)
            | KTag \<Rightarrow>
                eff_bind (eff_lift (ok_or (WDecode cursor) (tag_from_bytes (w_gix w) body (oid_kind cursor))))
                  (\<lambda>target. peel_tip w n target)
            | _ \<Rightarrow> eff_return None))"

definition resolve_commit_tip :: "('s, 't) walker \<Rightarrow> RefTarget \<Rightarrow> ('s, WalkError, ObjectId option) eff" where
  "resolve_commit_tip w tgt =
     eff_bind (resolve_symref w MAX_REBUILD_SYMREF_DEPTH tgt) (\<lambda>r.
       case r of
         None \<Rightarrow> eff_return None
       | Some cursor \<Rightarrow> peel_tip w MAX_REBUILD_TAG_PEEL_DEPTH cursor)"

text \<open>
  The map of generations is an association list: a key is inserted only when absent, so its
  length is the map's.
\<close>

fun rebuild_loop ::
    "('s, 't) walker \<Rightarrow> nat \<Rightarrow> (ObjectId \<rightharpoonup> ObjectId \<times> ObjectId list) \<Rightarrow> (ObjectId \<times> u32) list
      \<Rightarrow> ObjectId list \<Rightarrow> ('s, WalkError, (ObjectId \<rightharpoonup> ObjectId \<times> ObjectId list) \<times> (ObjectId \<times> u32) list) eff" where
  "rebuild_loop w 0 parsed gens stack = eff_fail WalkDiverges"
| "rebuild_loop w (Suc n) parsed gens [] = eff_return (parsed, gens)"
| "rebuild_loop w (Suc n) parsed gens (cur # stack) =
     (if map_of gens cur \<noteq> None then rebuild_loop w n parsed gens stack
      else
        eff_bind (parse_once w parsed cur) (\<lambda>(parsed, root, ps).
          let missing = filter (\<lambda>p. map_of gens p = None) ps in
          if missing = [] then
            let rec = \<lparr>generation = next_generation (map_of gens) ps, root_tree = root, parents = ps\<rparr> in
            eff_bind (eff_map_err WStore (put_commit_graph (w_db w) (w_repo w) cur rec Relaxed)) (\<lambda>_.
              rebuild_loop w n parsed ((cur, generation rec) # gens) stack)
          else rebuild_loop w n parsed gens (rev missing @ cur # stack)))"

fun rebuild_roots ::
    "('s, 't) walker \<Rightarrow> (ObjectId \<rightharpoonup> ObjectId \<times> ObjectId list) \<Rightarrow> (ObjectId \<times> u32) list \<Rightarrow> ObjectId list
      \<Rightarrow> ('s, WalkError, (ObjectId \<times> u32) list) eff" where
  "rebuild_roots w parsed gens [] = eff_return gens"
| "rebuild_roots w parsed gens (root # roots) =
     (if map_of gens root \<noteq> None then rebuild_roots w parsed gens roots
      else
        eff_bind (rebuild_loop w (w_fuel w) parsed gens [root]) (\<lambda>(parsed, gens).
          rebuild_roots w parsed gens roots))"

definition rebuild_commit_graph :: "('s, 't) walker \<Rightarrow> ('s, WalkError, nat) eff" where
  "rebuild_commit_graph w =
     eff_bind (eff_map_err WStore (list_refs (w_db w) (w_repo w) None)) (\<lambda>refs.
     eff_bind (eff_map (\<lambda>(name, tgt). resolve_commit_tip w tgt) refs) (\<lambda>tips.
     eff_bind (rebuild_roots w Map.empty [] (List.map_filter id tips)) (\<lambda>gens.
     eff_bind (eff_map_err WStore (flush (w_db w))) (\<lambda>_. eff_return (length gens)))))"

subsection \<open>Phase I\<close>

fun peel_want_loop ::
    "('s, 't) walker \<Rightarrow> ObjectId \<Rightarrow> nat \<Rightarrow> ObjectId \<Rightarrow> ObjectId list
      \<Rightarrow> ('s, WalkError, ObjectId \<times> ObjectId list) eff" where
  "peel_want_loop w want 0 cursor tags = eff_fail WalkDiverges"
| "peel_want_loop w want (Suc n) cursor tags =
     eff_bind (w_get w cursor) (\<lambda>r.
       case r of
         None \<Rightarrow> eff_fail (if cursor = want then UnknownWant want else MissingObject cursor)
       | Some (kind, body) \<Rightarrow>
           (case kind of
              KCommit \<Rightarrow> eff_return (cursor, tags)
            | KTag \<Rightarrow>
                eff_bind (eff_lift (ok_or (WDecode cursor) (tag_from_bytes (w_gix w) body (oid_kind cursor))))
                  (\<lambda>target. peel_want_loop w want n target (tags @ [cursor]))
            | kind \<Rightarrow> eff_fail (UnsupportedWant cursor kind)))"

definition peel_want :: "('s, 't) walker \<Rightarrow> ObjectId \<Rightarrow> ('s, WalkError, ObjectId \<times> ObjectId list) eff" where
  "peel_want w want = peel_want_loop w want (w_fuel w) want []"

fun merge_chains ::
    "ObjectId list \<Rightarrow> ObjectId list \<Rightarrow> (WalkError + ObjectId \<times> ObjectId list) list
      \<Rightarrow> WalkError + ObjectId list \<times> ObjectId list" where
  "merge_chains commits tags [] = Inr (commits, tags)"
| "merge_chains commits tags (peel # peeled) =
     and_then peel (\<lambda>(commit, chain_tags).
       merge_chains (commits @ [commit]) (foldl oset_insert tags chain_tags) peeled)"

definition peel_wants :: "('s, 't) walker \<Rightarrow> ObjectId list \<Rightarrow> ('s, WalkError, ObjectId list \<times> ObjectId list) eff" where
  "peel_wants w wants =
     eff_bind (eff_map (\<lambda>want. eff_attempt (peel_want w want)) wants) (\<lambda>peeled.
       eff_lift (merge_chains [] [] peeled))"

text \<open>The two loops that mark the fetched haves and wants.\<close>

fun mark_haves ::
    "Discovery \<Rightarrow> ObjectId list \<Rightarrow> (ObjectId \<times> (WalkError + CommitGraphRecord)) list
      \<Rightarrow> WalkError + Discovery \<times> ObjectId list" where
  "mark_haves d com [] = Inr (d, com)"
| "mark_haves d com ((have', r) # rest) =
     (case r of
        Inr info \<Rightarrow> mark_haves (mark d have' Have (generation info)) (com @ [have']) rest
      | Inl (MissingObject missing) \<Rightarrow>
          if missing = have' then mark_haves d com rest else Inl (MissingObject missing)
      | Inl (UnexpectedKind i expected actual) \<Rightarrow>
          if i = have' then mark_haves d com rest else Inl (UnexpectedKind i expected actual)
      | Inl err \<Rightarrow> Inl err)"

fun mark_wants ::
    "Discovery \<Rightarrow> (ObjectId \<times> (WalkError + CommitGraphRecord)) list \<Rightarrow> WalkError + Discovery" where
  "mark_wants d [] = Inr d"
| "mark_wants d ((want, r) # rest) =
     and_then r (\<lambda>info. mark_wants (mark d want Want (generation info)) rest)"

text \<open>Draining the entries at the current generation into one level.\<close>

fun drain_level :: "u32 \<Rightarrow> ObjectId set \<Rightarrow> ObjectId list \<Rightarrow> QueueEntry list \<Rightarrow> ObjectId list \<times> QueueEntry list" where
  "drain_level gen done_ids level [] = (level, [])"
| "drain_level gen done_ids level (e # f) =
     (if qe_generation e \<noteq> gen then (level, e # f)
      else drain_level gen done_ids
        (if qe_oid e \<notin> done_ids \<and> qe_oid e \<notin> set level then level @ [qe_oid e] else level) f)"

text \<open>\<^verbatim>\<open>records[&parent]\<close> panics on a parent without a record.\<close>

fun mark_parents :: "record_cache \<Rightarrow> Flag \<Rightarrow> Discovery \<Rightarrow> ObjectId list \<Rightarrow> WalkError + Discovery" where
  "mark_parents records flag d [] = Inr d"
| "mark_parents records flag d (p # ps) =
     (case records p of
        None \<Rightarrow> Inl WalkPanic
      | Some rec \<Rightarrow> mark_parents records flag (mark d p flag (generation rec)) ps)"

record walk_state =
  ws_disc :: Discovery
  ws_done :: "ObjectId set"
  ws_send :: "ObjectId list"

definition visit :: "record_cache \<Rightarrow> walk_state \<Rightarrow> ObjectId \<Rightarrow> WalkError + walk_state" where
  "visit records st i =
     (if i \<in> ws_done st then Inr st
      else
        let st = st\<lparr>ws_done := insert i (ws_done st)\<rparr> in
        case marks (ws_disc st) i of
          None \<Rightarrow> Inr st
        | Some flag \<Rightarrow>
            let st = (if flag = Want
                      then st\<lparr>ws_send := ws_send st @ [i],
                             ws_disc := (ws_disc st)\<lparr>pending := pending (ws_disc st) - {i}\<rparr>\<rparr>
                      else st);
                ps = (case records i of Some info \<Rightarrow> parents info | None \<Rightarrow> []) in
            and_then (mark_parents records flag (ws_disc st) ps) (\<lambda>d. Inr (st\<lparr>ws_disc := d\<rparr>)))"

fun visit_level :: "record_cache \<Rightarrow> walk_state \<Rightarrow> ObjectId list \<Rightarrow> WalkError + walk_state" where
  "visit_level records st [] = Inr st"
| "visit_level records st (i # level) = and_then (visit records st i) (\<lambda>st. visit_level records st level)"

fun all_fetched :: "(ObjectId \<times> (WalkError + CommitGraphRecord)) list \<Rightarrow> WalkError + unit" where
  "all_fetched [] = Inr ()"
| "all_fetched ((i, r) # rest) = and_then r (\<lambda>_. all_fetched rest)"

definition level_parents :: "record_cache \<Rightarrow> ObjectId list \<Rightarrow> ObjectId list" where
  "level_parents records level = concat (map parents (List.map_filter records level))"

fun select_loop :: "('s, 't) walker \<Rightarrow> nat \<Rightarrow> record_cache \<Rightarrow> walk_state \<Rightarrow> ('s, WalkError, walk_state) eff" where
  "select_loop w 0 records st = eff_fail WalkDiverges"
| "select_loop w (Suc n) records st =
     (if pending (ws_disc st) = {} then eff_return st
      else
        case frontier (ws_disc st) of
          [] \<Rightarrow> eff_fail (DiscoveryStalled (pending (ws_disc st)))
        | e # _ \<Rightarrow>
            let (level, rest) = drain_level (qe_generation e) (ws_done st) [] (frontier (ws_disc st));
                st = st\<lparr>ws_disc := (ws_disc st)\<lparr>frontier := rest\<rparr>\<rparr> in
            eff_bind (prefetch_records w records (level_parents records level)) (\<lambda>(fetched, records).
            eff_bind (eff_lift (all_fetched fetched)) (\<lambda>_.
            eff_bind (eff_lift (visit_level records st level)) (\<lambda>st. select_loop w n records st))))"

definition select_commits ::
    "('s, 't) walker \<Rightarrow> ObjectId list \<Rightarrow> ObjectId list \<Rightarrow> ('s, WalkError, Selection) eff" where
  "select_commits w wants haves =
     eff_bind (prefetch_records w Map.empty haves) (\<lambda>(fetched, records).
     eff_bind (eff_lift (mark_haves discovery_default [] fetched)) (\<lambda>(d, com).
     eff_bind (peel_wants w wants) (\<lambda>(commit_wants, tags).
     eff_bind (prefetch_records w records commit_wants) (\<lambda>(fetched, records).
     eff_bind (eff_lift (mark_wants d fetched)) (\<lambda>d.
     eff_bind (select_loop w (w_fuel w) records \<lparr>ws_disc = d, ws_done = {}, ws_send = []\<rparr>) (\<lambda>st.
     eff_return \<lparr>to_send = ws_send st @ tags, common = com,
                 bounded_by_haves = (frontier (ws_disc st) \<noteq> [])\<rparr>))))))"

end
