(* ===== verification/Discovery_Correct.thy ===== *)
theory Discovery_Correct
  imports Walk
begin

text \<open>
  The marking discipline of Phase I as invariants of its state, for arbitrary commit-graph
  generations: haves dominate wants, what is pending is exactly what is wanted and not yet
  emitted, and every marked commit is emitted, visited or still on the frontier. The
  consequences: discovery never stalls, and when it stops every ancestor of a want has been
  emitted or is an ancestor of a have. With generations that decrease along parents nothing
  the client has is emitted.
\<close>

section \<open>The commit graph\<close>

type_synonym graph = "ObjectId \<rightharpoonup> ObjectId \<times> ObjectId list"

definition parent_rel :: "graph \<Rightarrow> (ObjectId \<times> ObjectId) set" where
  "parent_rel G = {(c, p). \<exists>t ps. G c = Some (t, ps) \<and> p \<in> set ps}"

definition reach :: "graph \<Rightarrow> ObjectId set \<Rightarrow> ObjectId set" where
  "reach G S = (parent_rel G)\<^sup>* `` S"

lemma reach_base: "S \<subseteq> reach G S"
  by (auto simp: reach_def)

lemma reach_step: "c \<in> reach G S \<Longrightarrow> (c, p) \<in> parent_rel G \<Longrightarrow> p \<in> reach G S"
  by (auto simp: reach_def intro: rtrancl_into_rtrancl)

lemma reach_induct [consumes 1, case_names base step]:
  assumes "c \<in> reach G S" and "\<And>c. c \<in> S \<Longrightarrow> P c"
    and "\<And>c p. c \<in> reach G S \<Longrightarrow> (c, p) \<in> parent_rel G \<Longrightarrow> P c \<Longrightarrow> P p"
  shows "P c"
proof -
  from assms(1) obtain s where "s \<in> S" "(s, c) \<in> (parent_rel G)\<^sup>*" by (auto simp: reach_def)
  from this(2,1) show ?thesis
  proof (induction rule: rtrancl_induct)
    case base
    then show ?case by (rule assms(2))
  next
    case (step c p)
    then show ?case using assms(3) [of c p] by (auto simp: reach_def)
  qed
qed

section \<open>The heap\<close>

lemma set_heap_push [simp]: "set (heap_push x ys) = insert x (set ys)"
  by (induction x ys rule: heap_push.induct) auto

lemma sorted_heap_push: "sorted_wrt (\<ge>) ys \<Longrightarrow> sorted_wrt (\<ge>) (heap_push x ys)"
  by (induction x ys rule: heap_push.induct) auto

section \<open>Marking\<close>

definition absorbed :: "Discovery \<Rightarrow> ObjectId \<Rightarrow> Flag \<Rightarrow> bool" where
  "absorbed d i flag \<longleftrightarrow> marks d i = Some Have \<or> marks d i = Some Want \<and> flag = Want"

lemma mark_absorbed: "absorbed d i flag \<Longrightarrow> mark d i flag gen = d"
  by (cases flag) (auto simp: mark_def absorbed_def Let_def)

lemma mark_settles:
  assumes "\<not> absorbed d i flag"
  shows "marks (mark d i flag gen) = (marks d)(i \<mapsto> flag)"
    and "frontier (mark d i flag gen) = heap_push (QueueEntry gen i) (frontier d)"
    and "pending (mark d i flag gen) =
      (if flag = Want then insert i (pending d)
       else if marks d i = Some Want then pending d - {i} else pending d)"
  using assms by (auto simp: mark_def absorbed_def Let_def split: option.splits Flag.splits)

text \<open>
  The state of the walk between two steps: \<open>todo\<close> are the commits drained from the frontier
  and not yet visited, \<open>W\<close> and \<open>C\<close> the wanted commits and the recognized haves.
\<close>

definition frontier_oids :: "Discovery \<Rightarrow> ObjectId set" where
  "frontier_oids d = qe_oid ` set (frontier d)"

definition disc_inv :: "graph \<Rightarrow> ObjectId set \<Rightarrow> ObjectId set \<Rightarrow> record_cache \<Rightarrow> Discovery \<Rightarrow> bool" where
  "disc_inv G W C records d \<longleftrightarrow>
     (\<forall>i. marks d i = Some Have \<longrightarrow> i \<in> reach G C) \<and>
     (\<forall>i. marks d i = Some Want \<longrightarrow> i \<in> reach G W) \<and>
     (\<forall>i. marks d i \<noteq> None \<longrightarrow> records i \<noteq> None) \<and>
     frontier_oids d \<subseteq> dom (marks d)"

definition walk_inv :: "graph \<Rightarrow> ObjectId set \<Rightarrow> ObjectId set \<Rightarrow> record_cache \<Rightarrow> walk_state \<Rightarrow> ObjectId set \<Rightarrow> bool" where
  "walk_inv G W C records st todo \<longleftrightarrow>
     disc_inv G W C records (ws_disc st) \<and>
     pending (ws_disc st) = {i. marks (ws_disc st) i = Some Want} - set (ws_send st) \<and>
     (\<forall>i. marks (ws_disc st) i \<noteq> None \<longrightarrow> i \<in> ws_done st \<or> i \<in> todo \<or> i \<in> frontier_oids (ws_disc st)) \<and>
     (\<forall>i\<in>ws_done st. marks (ws_disc st) i = Some Have \<or> i \<in> set (ws_send st)) \<and>
     set (ws_send st) \<subseteq> ws_done st \<inter> dom (marks (ws_disc st)) \<inter> reach G W \<and> distinct (ws_send st)"

text \<open>Every parent of an emitted commit is marked.\<close>

definition send_closed :: "graph \<Rightarrow> walk_state \<Rightarrow> bool" where
  "send_closed G st \<longleftrightarrow> (\<forall>c\<in>set (ws_send st). \<forall>p. (c, p) \<in> parent_rel G \<longrightarrow> marks (ws_disc st) p \<noteq> None)"

lemma walk_invI:
  assumes "disc_inv G W C records (ws_disc st)"
    and "pending (ws_disc st) = {i. marks (ws_disc st) i = Some Want} - set (ws_send st)"
    and "\<And>i. marks (ws_disc st) i \<noteq> None \<Longrightarrow> i \<in> ws_done st \<or> i \<in> todo \<or> i \<in> frontier_oids (ws_disc st)"
    and "\<And>i. i \<in> ws_done st \<Longrightarrow> marks (ws_disc st) i = Some Have \<or> i \<in> set (ws_send st)"
    and "set (ws_send st) \<subseteq> ws_done st \<inter> dom (marks (ws_disc st)) \<inter> reach G W" and "distinct (ws_send st)"
  shows "walk_inv G W C records st todo"
  unfolding walk_inv_def using assms by simp

lemma walk_invD:
  assumes "walk_inv G W C records st todo"
  shows "disc_inv G W C records (ws_disc st)"
    and "pending (ws_disc st) = {i. marks (ws_disc st) i = Some Want} - set (ws_send st)"
    and "marks (ws_disc st) i \<noteq> None \<Longrightarrow> i \<in> ws_done st \<or> i \<in> todo \<or> i \<in> frontier_oids (ws_disc st)"
    and "i \<in> ws_done st \<Longrightarrow> marks (ws_disc st) i = Some Have \<or> i \<in> set (ws_send st)"
    and "set (ws_send st) \<subseteq> ws_done st \<inter> dom (marks (ws_disc st)) \<inter> reach G W" and "distinct (ws_send st)"
  using assms unfolding walk_inv_def by simp_all

definition cache_ok :: "graph \<Rightarrow> record_cache \<Rightarrow> bool" where
  "cache_ok G records \<longleftrightarrow> (\<forall>i rec. records i = Some rec \<longrightarrow> G i = Some (root_tree rec, parents rec))"

lemma marks_mark_mono: "marks d j \<noteq> None \<Longrightarrow> marks (mark d i flag gen) j \<noteq> None"
  by (cases "absorbed d i flag") (auto simp: mark_absorbed mark_settles)

lemma marks_mark_self: "marks (mark d i flag gen) i \<noteq> None"
  by (cases "absorbed d i flag") (auto simp: mark_absorbed mark_settles absorbed_def)

lemma marks_mark_Have: "marks d j = Some Have \<Longrightarrow> marks (mark d i flag gen) j = Some Have"
  by (cases "absorbed d i flag") (auto simp: mark_absorbed mark_settles absorbed_def)

lemma disc_inv_mark:
  assumes "disc_inv G W C records d" and "records i \<noteq> None"
    and "flag = Have \<Longrightarrow> i \<in> reach G C" and "flag = Want \<Longrightarrow> i \<in> reach G W"
  shows "disc_inv G W C records (mark d i flag gen)"
proof (cases "absorbed d i flag")
  case True
  with assms show ?thesis by (simp add: mark_absorbed)
next
  case False
  have "frontier_oids (mark d i flag gen) \<subseteq> insert i (frontier_oids d)"
    by (auto simp: frontier_oids_def mark_settles [OF False])
  with assms show ?thesis
    unfolding disc_inv_def mark_settles(1) [OF False] by (auto split: if_splits)
qed

text \<open>What marking changes in the walk as a whole: one commit may join the frontier.\<close>

lemma walk_inv_mark:
  assumes inv: "walk_inv G W C records st todo" and "records i \<noteq> None"
    and "flag = Have \<Longrightarrow> i \<in> reach G C" and "flag = Want \<Longrightarrow> i \<in> reach G W"
  shows "walk_inv G W C records (st\<lparr>ws_disc := mark (ws_disc st) i flag gen\<rparr>) todo"
proof (cases "absorbed (ws_disc st) i flag")
  case True
  with inv show ?thesis by (simp add: mark_absorbed)
next
  case False
  define d d' where "d = ws_disc st" and "d' = mark d i flag gen"
  note settle = mark_settles [OF False [folded d_def], of gen, folded d'_def]
  note I = walk_invD [OF inv, folded d_def]
  have nw: "flag = Want \<Longrightarrow> marks d i = None"
    using False by (cases "marks d i") (auto simp: d_def absorbed_def intro: Flag.exhaust)
  have "disc_inv G W C records d'"
    unfolding d'_def by (rule disc_inv_mark [OF I(1) assms(2-4)])
  moreover have "pending d' = {j. marks d' j = Some Want} - set (ws_send st)"
    unfolding settle I(2) using nw I(5) by (auto split: if_splits)
  moreover have "frontier_oids d' = insert i (frontier_oids d)"
    by (simp add: frontier_oids_def settle)
  moreover have "marks d j \<noteq> None \<Longrightarrow> marks d' j \<noteq> None" "marks d j = Some Have \<Longrightarrow> marks d' j = Some Have" for j
    unfolding d'_def using marks_mark_mono marks_mark_Have by blast+
  moreover have "marks d' j \<noteq> None \<Longrightarrow> j = i \<or> marks d j \<noteq> None" for j
    unfolding settle by (auto split: if_splits)
  moreover have "set (ws_send st) \<subseteq> ws_done st \<inter> dom (marks d') \<inter> reach G W"
    using I(5) calculation(4) by blast
  ultimately have *: "disc_inv G W C records d'" "pending d' = {j. marks d' j = Some Want} - set (ws_send st)"
    "frontier_oids d' = insert i (frontier_oids d)" "\<And>j. marks d j = Some Have \<Longrightarrow> marks d' j = Some Have"
    "\<And>j. marks d' j \<noteq> None \<Longrightarrow> j = i \<or> marks d j \<noteq> None"
    "set (ws_send st) \<subseteq> ws_done st \<inter> dom (marks d') \<inter> reach G W" by blast+
  have "walk_inv G W C records (st\<lparr>ws_disc := d'\<rparr>) todo"
  proof (rule walk_invI; simp)
    show "j \<in> ws_done st \<or> j \<in> todo \<or> j \<in> frontier_oids d'" if "\<exists>y. marks d' j = Some y" for j
      using *(3) *(5) [of j] that I(3) [of j] by auto
    show "marks d' j = Some Have \<or> j \<in> set (ws_send st)" if "j \<in> ws_done st" for j
      using I(4) [OF that] *(4) [of j] by auto
  qed (use * I(6) in auto)
  then show ?thesis by (simp add: d'_def d_def)
qed

section \<open>Visiting a level\<close>

lemma mark_parents_inv:
  assumes "walk_inv G W C records st todo" and "mark_parents records flag (ws_disc st) ps = Inr d"
    and "\<And>p. p \<in> set ps \<Longrightarrow> flag = Have \<Longrightarrow> p \<in> reach G C"
    and "\<And>p. p \<in> set ps \<Longrightarrow> flag = Want \<Longrightarrow> p \<in> reach G W"
  shows "walk_inv G W C records (st\<lparr>ws_disc := d\<rparr>) todo \<and> (\<forall>p\<in>set ps. marks d p \<noteq> None) \<and>
    (\<forall>j. marks (ws_disc st) j \<noteq> None \<longrightarrow> marks d j \<noteq> None) \<and>
    (\<forall>j. marks (ws_disc st) j = Some Have \<longrightarrow> marks d j = Some Have)"
  using assms
proof (induction ps arbitrary: st)
  case Nil
  then show ?case by auto
next
  case (Cons p ps)
  from Cons.prems(2) obtain rec where rec: "records p = Some rec"
    and run: "mark_parents records flag (mark (ws_disc st) p flag (generation rec)) ps = Inr d"
    by (auto split: option.splits)
  let ?st = "st\<lparr>ws_disc := mark (ws_disc st) p flag (generation rec)\<rparr>"
  have inv: "walk_inv G W C records ?st todo"
    by (rule walk_inv_mark [OF Cons.prems(1)]) (use rec Cons.prems(3,4) in auto)
  from Cons.IH [OF inv] run Cons.prems(3,4)
  have IH: "walk_inv G W C records (st\<lparr>ws_disc := d\<rparr>) todo" "\<forall>p\<in>set ps. marks d p \<noteq> None"
    "\<And>j. marks (mark (ws_disc st) p flag (generation rec)) j \<noteq> None \<Longrightarrow> marks d j \<noteq> None"
    "\<And>j. marks (mark (ws_disc st) p flag (generation rec)) j = Some Have \<Longrightarrow> marks d j = Some Have"
    by auto
  with marks_mark_self marks_mark_mono marks_mark_Have show ?case by auto
qed

text \<open>The first half of a visit: the commit is done and, if wanted, emitted.\<close>

definition enter :: "walk_state \<Rightarrow> ObjectId \<Rightarrow> Flag \<Rightarrow> walk_state" where
  "enter st i flag =
     (let st = st\<lparr>ws_done := insert i (ws_done st)\<rparr> in
      if flag = Want
      then st\<lparr>ws_send := ws_send st @ [i], ws_disc := (ws_disc st)\<lparr>pending := pending (ws_disc st) - {i}\<rparr>\<rparr>
      else st)"

lemma enter_simps [simp]:
  "marks (ws_disc (enter st i flag)) = marks (ws_disc st)"
  "frontier (ws_disc (enter st i flag)) = frontier (ws_disc st)"
  "ws_done (enter st i flag) = insert i (ws_done st)"
  "ws_send (enter st i flag) = (if flag = Want then ws_send st @ [i] else ws_send st)"
  "pending (ws_disc (enter st i flag)) = (if flag = Want then pending (ws_disc st) - {i} else pending (ws_disc st))"
  by (simp_all add: enter_def Let_def)

lemma visit_enters:
  assumes "visit records st i = Inr st'" and "i \<notin> ws_done st" and "marks (ws_disc st) i = Some flag"
    and "records i = Some rec"
  obtains d where "mark_parents records flag (ws_disc (enter st i flag)) (parents rec) = Inr d"
    and "st' = (enter st i flag)\<lparr>ws_disc := d\<rparr>"
  using assms by (auto simp: visit_def enter_def Let_def and_then_eq_Inr)

lemma visit_inv:
  assumes G: "cache_ok G records" and inv: "walk_inv G W C records st (insert i todo)"
    and run: "visit records st i = Inr st'" and marked: "marks (ws_disc st) i \<noteq> None"
  shows "walk_inv G W C records st' todo \<and> (send_closed G st \<longrightarrow> send_closed G st') \<and>
    (\<forall>j. marks (ws_disc st) j \<noteq> None \<longrightarrow> marks (ws_disc st') j \<noteq> None)"
proof (cases "i \<in> ws_done st")
  case True
  with run inv show ?thesis by (auto simp: visit_def walk_inv_def)
next
  case False
  from marked obtain flag where flag: "marks (ws_disc st) i = Some flag" by blast
  define st1 where "st1 = enter st i flag"
  have "records i \<noteq> None" using inv flag by (auto simp: walk_inv_def disc_inv_def)
  then obtain rec where rec: "records i = Some rec" by blast
  from visit_enters [OF run False flag rec, folded st1_def]
  obtain d where d: "mark_parents records flag (ws_disc st1) (parents rec) = Inr d"
    and st': "st' = st1\<lparr>ws_disc := d\<rparr>" .
  have par: "(i, p) \<in> parent_rel G \<longleftrightarrow> p \<in> set (parents rec)" for p
    using G rec by (auto simp: cache_ok_def parent_rel_def)
  have i: "flag = Have \<Longrightarrow> i \<in> reach G C" "flag = Want \<Longrightarrow> i \<in> reach G W"
    using inv flag by (auto simp: walk_inv_def disc_inv_def)
  note I = walk_invD [OF inv]
  have st1: "marks (ws_disc st1) = marks (ws_disc st)" "frontier (ws_disc st1) = frontier (ws_disc st)"
    "ws_done st1 = insert i (ws_done st)"
    "ws_send st1 = (if flag = Want then ws_send st @ [i] else ws_send st)"
    "pending (ws_disc st1) = (if flag = Want then pending (ws_disc st) - {i} else pending (ws_disc st))"
    by (simp_all add: st1_def)
  have front: "frontier_oids (ws_disc st1) = frontier_oids (ws_disc st)" by (simp add: frontier_oids_def st1)
  have inv1: "walk_inv G W C records st1 todo"
  proof (rule walk_invI)
    show "disc_inv G W C records (ws_disc st1)" using I(1) by (simp add: disc_inv_def st1 front)
    show "pending (ws_disc st1) = {i. marks (ws_disc st1) i = Some Want} - set (ws_send st1)"
      using I(2) by (auto simp: st1)
    show "j \<in> ws_done st1 \<or> j \<in> todo \<or> j \<in> frontier_oids (ws_disc st1)" if "marks (ws_disc st1) j \<noteq> None" for j
      using I(3) [of j] that by (auto simp: st1 front)
    show "marks (ws_disc st1) j = Some Have \<or> j \<in> set (ws_send st1)" if "j \<in> ws_done st1" for j
      using I(4) [of j] that flag by (cases flag) (auto simp: st1)
    show "set (ws_send st1) \<subseteq> ws_done st1 \<inter> dom (marks (ws_disc st1)) \<inter> reach G W"
      using I(5) flag i(2) by (auto simp: st1)
    show "distinct (ws_send st1)" using I(5,6) False by (auto simp: st1)
  qed
  have up: "\<And>p. p \<in> set (parents rec) \<Longrightarrow> flag = Have \<Longrightarrow> p \<in> reach G C"
    "\<And>p. p \<in> set (parents rec) \<Longrightarrow> flag = Want \<Longrightarrow> p \<in> reach G W"
    using i par reach_step by metis+
  from mark_parents_inv [OF inv1 d up] have M: "walk_inv G W C records st' todo" "\<forall>p\<in>set (parents rec). marks d p \<noteq> None"
    "\<And>j. marks (ws_disc st) j \<noteq> None \<Longrightarrow> marks d j \<noteq> None"
    by (auto simp: st' st1)
  moreover have "send_closed G st'" if "send_closed G st"
    using that M(2,3) par by (auto simp: send_closed_def st' st1 split: if_splits)
  ultimately show ?thesis by (simp add: st')
qed

lemma visit_level_inv:
  assumes G: "cache_ok G records" and "walk_inv G W C records st (set level)"
    and "visit_level records st level = Inr st'" and "\<forall>i\<in>set level. marks (ws_disc st) i \<noteq> None"
    and "send_closed G st"
  shows "walk_inv G W C records st' {} \<and> send_closed G st'"
  using assms(2-)
proof (induction level arbitrary: st)
  case (Cons i level)
  from Cons.prems(2) obtain st1 where v: "visit records st i = Inr st1" "visit_level records st1 level = Inr st'"
    by (auto simp: and_then_eq_Inr)
  have "walk_inv G W C records st (insert i (set level))" using Cons.prems(1) by simp
  from visit_inv [OF G this v(1)] Cons.prems(3,4)
  show ?case by (intro Cons.IH [OF _ v(2)]) auto
qed simp

section \<open>Draining a level\<close>

definition keep_new :: "ObjectId set \<Rightarrow> ObjectId list \<Rightarrow> QueueEntry \<Rightarrow> ObjectId list" where
  "keep_new done_ids level e =
     (if qe_oid e \<notin> done_ids \<and> qe_oid e \<notin> set level then level @ [qe_oid e] else level)"

lemma drain_level_eq:
  "drain_level gen done_ids level f =
     (foldl (keep_new done_ids) level (takeWhile (\<lambda>e. qe_generation e = gen) f),
      dropWhile (\<lambda>e. qe_generation e = gen) f)"
  by (induction gen done_ids level f rule: drain_level.induct) (simp_all add: keep_new_def)

lemma keep_new_foldl:
  "set (foldl (keep_new done_ids) level es) = set level \<union> (qe_oid ` set es - done_ids)"
  "distinct level \<Longrightarrow> distinct (foldl (keep_new done_ids) level es)"
  by (induction es arbitrary: level) (auto simp: keep_new_def)

lemma drain_level_set:
  assumes "drain_level gen done_ids [] f = (level, rest)"
  shows "set level = qe_oid ` set (takeWhile (\<lambda>e. qe_generation e = gen) f) - done_ids"
    and "rest = dropWhile (\<lambda>e. qe_generation e = gen) f" and "distinct level"
    and "qe_oid ` set f - done_ids \<subseteq> set level \<union> qe_oid ` set rest"
proof -
  from assms have e: "level = foldl (keep_new done_ids) [] (takeWhile (\<lambda>e. qe_generation e = gen) f)"
    "rest = dropWhile (\<lambda>e. qe_generation e = gen) f" by (simp_all add: drain_level_eq)
  show l: "set level = qe_oid ` set (takeWhile (\<lambda>e. qe_generation e = gen) f) - done_ids"
    and "rest = dropWhile (\<lambda>e. qe_generation e = gen) f" and "distinct level"
    using e keep_new_foldl [where level = "[]" and done_ids = done_ids] by simp_all
  have "set f = set (takeWhile (\<lambda>e. qe_generation e = gen) f) \<union> set rest"
    unfolding e(2) by (metis set_append takeWhile_dropWhile_id)
  then show "qe_oid ` set f - done_ids \<subseteq> set level \<union> qe_oid ` set rest" unfolding l by blast
qed

lemma walk_inv_drain:
  assumes inv: "walk_inv G W C records st {}"
    and drain: "drain_level gen (ws_done st) [] (frontier (ws_disc st)) = (level, rest)"
  defines "st1 \<equiv> st\<lparr>ws_disc := (ws_disc st)\<lparr>frontier := rest\<rparr>\<rparr>"
  shows "walk_inv G W C records st1 (set level) \<and> (\<forall>i\<in>set level. marks (ws_disc st1) i \<noteq> None) \<and>
    (send_closed G st \<longrightarrow> send_closed G st1)"
proof -
  note I = walk_invD [OF inv] and D = drain_level_set [OF drain]
  have sub: "set rest \<subseteq> set (frontier (ws_disc st))" "set level \<subseteq> frontier_oids (ws_disc st)"
    using D(1,2) by (auto simp: frontier_oids_def dest: set_dropWhileD set_takeWhileD)
  have fo: "frontier_oids (ws_disc st1) = qe_oid ` set rest" by (simp add: frontier_oids_def st1_def)
  have "walk_inv G W C records st1 (set level)"
  proof (rule walk_invI)
    show "disc_inv G W C records (ws_disc st1)"
      using I(1) image_mono [OF sub(1), of qe_oid] unfolding disc_inv_def fo
      by (simp add: st1_def frontier_oids_def) (meson subset_trans)
    show "i \<in> ws_done st1 \<or> i \<in> set level \<or> i \<in> frontier_oids (ws_disc st1)" if "marks (ws_disc st1) i \<noteq> None" for i
      using I(3) [of i] that D(4) fo by (auto simp: st1_def frontier_oids_def)
  qed (use I(2,4,5,6) in \<open>simp_all add: st1_def\<close>)
  moreover have "\<forall>i\<in>set level. marks (ws_disc st1) i \<noteq> None"
    using I(1) sub(2) by (auto simp: disc_inv_def st1_def)
  ultimately show ?thesis by (auto simp: send_closed_def st1_def)
qed

section \<open>The end of discovery\<close>

text \<open>While something is pending the frontier is not empty.\<close>

lemma pending_frontier:
  assumes "walk_inv G W C records st {}" and "pending (ws_disc st) \<noteq> {}"
  shows "frontier (ws_disc st) \<noteq> []"
proof -
  note I = walk_invD [OF assms(1)]
  from assms(2) obtain i where i: "marks (ws_disc st) i = Some Want" "i \<notin> set (ws_send st)"
    unfolding I(2) by blast
  then have "i \<notin> ws_done st" using I(4) [of i] by auto
  with I(3) [of i] i(1) have "i \<in> frontier_oids (ws_disc st)" by simp
  then show ?thesis by (auto simp: frontier_oids_def)
qed

text \<open>When nothing is pending, every ancestor of a marked want is emitted or behind a have.\<close>

lemma discovery_complete:
  assumes inv: "walk_inv G W C records st {}" and closed: "send_closed G st"
    and empty: "pending (ws_disc st) = {}" and wants: "\<forall>i\<in>W. marks (ws_disc st) i \<noteq> None"
  shows "reach G W \<subseteq> set (ws_send st) \<union> reach G C"
proof
  note I = walk_invD [OF inv]
  have settled: "i \<in> set (ws_send st) \<union> reach G C" if "marks (ws_disc st) i \<noteq> None" for i
  proof (cases "marks (ws_disc st) i = Some Have")
    case True
    then show ?thesis using I(1) by (simp add: disc_inv_def)
  next
    case False
    with that have "marks (ws_disc st) i = Some Want" by (cases "marks (ws_disc st) i") (auto intro: Flag.exhaust)
    then show ?thesis using empty I(2) by auto
  qed
  fix c assume "c \<in> reach G W"
  then show "c \<in> set (ws_send st) \<union> reach G C"
  proof (induction rule: reach_induct)
    case (base c)
    then show ?case using wants settled by blast
  next
    case (step c p)
    from step.IH show ?case
    proof
      assume "c \<in> set (ws_send st)"
      then have "marks (ws_disc st) p \<noteq> None" using closed step.hyps(2) by (auto simp: send_closed_def)
      then show ?thesis by (rule settled)
    next
      assume "c \<in> reach G C"
      then show ?thesis using reach_step [OF _ step.hyps(2)] by blast
    qed
  qed
qed

section \<open>Precision under monotone generations\<close>

text \<open>A numbering that decreases along parents, and a cache whose records carry it.\<close>

definition topo :: "graph \<Rightarrow> (ObjectId \<Rightarrow> u32) \<Rightarrow> bool" where
  "topo G gen \<longleftrightarrow> (\<forall>c p. (c, p) \<in> parent_rel G \<longrightarrow> gen p < gen c)"

definition cache_gen :: "(ObjectId \<Rightarrow> u32) \<Rightarrow> record_cache \<Rightarrow> bool" where
  "cache_gen gen records \<longleftrightarrow> (\<forall>i rec. records i = Some rec \<longrightarrow> generation rec = gen i)"

lemma topo_trancl:
  assumes "topo G gen" and "(c, p) \<in> (parent_rel G)\<^sup>+"
  shows "gen p < gen c"
  using assms(2,1) by (induction rule: trancl_induct) (auto simp: topo_def intro: order.strict_trans)

definition frontier_gen :: "(ObjectId \<Rightarrow> u32) \<Rightarrow> Discovery \<Rightarrow> bool" where
  "frontier_gen gen d \<longleftrightarrow> sorted_wrt (\<ge>) (frontier d) \<and> (\<forall>e\<in>set (frontier d). qe_generation e = gen (qe_oid e))"

definition haves_closed :: "graph \<Rightarrow> walk_state \<Rightarrow> bool" where
  "haves_closed G st \<longleftrightarrow> (\<forall>i\<in>ws_done st. marks (ws_disc st) i = Some Have \<longrightarrow>
     (\<forall>p. (i, p) \<in> parent_rel G \<longrightarrow> marks (ws_disc st) p = Some Have))"

text \<open>The walk in the middle of the level of generation \<open>g\<close>.\<close>

definition level_inv :: "graph \<Rightarrow> (ObjectId \<Rightarrow> u32) \<Rightarrow> ObjectId set \<Rightarrow> u32 \<Rightarrow> walk_state \<Rightarrow> ObjectId set \<Rightarrow> bool" where
  "level_inv G gen C g st todo \<longleftrightarrow>
     frontier_gen gen (ws_disc st) \<and> (\<forall>e\<in>set (frontier (ws_disc st)). qe_generation e < g) \<and>
     (\<forall>i\<in>ws_done st. g \<le> gen i) \<and> (\<forall>i\<in>todo. gen i = g) \<and>
     haves_closed G st \<and> set (ws_send st) \<inter> reach G C = {} \<and>
     (\<forall>i\<in>C. marks (ws_disc st) i = Some Have)"

lemma behind_have:
  assumes "haves_closed G st" and "\<forall>i\<in>C. marks (ws_disc st) i = Some Have" and "c \<in> reach G C"
  shows "marks (ws_disc st) c = Some Have \<or>
    (\<exists>d. marks (ws_disc st) d = Some Have \<and> d \<notin> ws_done st \<and> (d, c) \<in> (parent_rel G)\<^sup>+)"
  using assms(3)
proof (induction rule: reach_induct)
  case (base c)
  then show ?case using assms(2) by blast
next
  case (step c p)
  from step.IH show ?case
  proof
    assume "marks (ws_disc st) c = Some Have"
    then show ?thesis using assms(1) step.hyps(2) by (cases "c \<in> ws_done st") (auto simp: haves_closed_def)
  qed (use step.hyps(2) in \<open>blast intro: trancl_into_trancl\<close>)
qed

lemma wanted_not_behind_have:
  assumes "topo G gen" and inv: "walk_inv G W C records st todo" and lev: "level_inv G gen C g st todo"
    and "i \<in> todo" and "marks (ws_disc st) i = Some Want"
  shows "i \<notin> reach G C"
proof
  assume "i \<in> reach G C"
  with behind_have [of G st C i] lev assms(5) obtain d where d: "marks (ws_disc st) d = Some Have"
    "d \<notin> ws_done st" "(d, i) \<in> (parent_rel G)\<^sup>+" by (auto simp: level_inv_def)
  from walk_invD(3) [OF inv, of d] d(1,2) have "d \<in> todo \<or> d \<in> frontier_oids (ws_disc st)" by auto
  then have "gen d \<le> g" using lev by (auto simp: level_inv_def frontier_oids_def frontier_gen_def)
  moreover have "gen i < gen d" by (rule topo_trancl [OF assms(1) d(3)])
  moreover have "gen i = g" using lev assms(4) by (auto simp: level_inv_def)
  ultimately show False by simp
qed

lemma level_inv_mark:
  assumes "level_inv G gen C g st todo" and "gen p < g"
  shows "level_inv G gen C g (st\<lparr>ws_disc := mark (ws_disc st) p flag (gen p)\<rparr>) todo"
proof (cases "absorbed (ws_disc st) p flag")
  case True
  with assms show ?thesis by (simp add: mark_absorbed)
next
  case False
  note settle = mark_settles [OF False, of "gen p"]
  have "p \<notin> ws_done st" using assms by (auto simp: level_inv_def)
  moreover have "marks (mark (ws_disc st) p flag (gen p)) j = Some Have" if "marks (ws_disc st) j = Some Have" for j
    using marks_mark_Have [OF that] .
  ultimately have "haves_closed G (st\<lparr>ws_disc := mark (ws_disc st) p flag (gen p)\<rparr>)"
    using assms(1) unfolding level_inv_def haves_closed_def by (auto simp: settle split: if_splits)
  moreover have "frontier_gen gen (mark (ws_disc st) p flag (gen p))"
    using assms(1) by (auto simp: level_inv_def frontier_gen_def settle sorted_heap_push)
  ultimately show ?thesis
    using assms marks_mark_Have [of "ws_disc st" _ p flag "gen p"] by (auto simp: level_inv_def settle(2))
qed

lemma mark_parents_level:
  assumes "cache_gen gen records" and "level_inv G gen C g st todo"
    and "mark_parents records flag (ws_disc st) ps = Inr d" and "\<forall>p\<in>set ps. gen p < g"
  shows "level_inv G gen C g (st\<lparr>ws_disc := d\<rparr>) todo \<and> (flag = Have \<longrightarrow> (\<forall>p\<in>set ps. marks d p = Some Have)) \<and>
    (\<forall>j. marks (ws_disc st) j = Some Have \<longrightarrow> marks d j = Some Have) \<and>
    (\<forall>j. j \<notin> set ps \<longrightarrow> marks d j = marks (ws_disc st) j)"
  using assms(2-)
proof (induction ps arbitrary: st)
  case (Cons p ps)
  from Cons.prems(2) obtain rec where rec: "records p = Some rec"
    and run: "mark_parents records flag (mark (ws_disc st) p flag (generation rec)) ps = Inr d"
    by (auto split: option.splits)
  have gen: "generation rec = gen p" using assms(1) rec by (simp add: cache_gen_def)
  let ?st = "st\<lparr>ws_disc := mark (ws_disc st) p flag (gen p)\<rparr>"
  have "level_inv G gen C g ?st todo" using level_inv_mark Cons.prems(1,3) by simp
  from Cons.IH [OF this] run gen Cons.prems(3)
  have IH: "level_inv G gen C g (st\<lparr>ws_disc := d\<rparr>) todo" "flag = Have \<longrightarrow> (\<forall>p\<in>set ps. marks d p = Some Have)"
    "\<And>j. marks (mark (ws_disc st) p flag (gen p)) j = Some Have \<Longrightarrow> marks d j = Some Have"
    "\<And>j. j \<notin> set ps \<Longrightarrow> marks d j = marks (mark (ws_disc st) p flag (gen p)) j" by auto
  moreover have "marks (mark (ws_disc st) p flag (gen p)) j = marks (ws_disc st) j" if "j \<noteq> p" for j
    using that by (cases "absorbed (ws_disc st) p flag") (auto simp: mark_absorbed mark_settles)
  moreover have "marks (mark (ws_disc st) p Have (gen p)) p = Some Have"
    by (cases "absorbed (ws_disc st) p Have") (auto simp: mark_absorbed mark_settles absorbed_def)
  ultimately show ?case using marks_mark_Have by auto
qed auto

lemma visit_prec:
  assumes G: "cache_ok G records" and gen: "topo G gen" "cache_gen gen records"
    and inv: "walk_inv G W C records st (insert i todo)" and lev: "level_inv G gen C g st (insert i todo)"
    and run: "visit records st i = Inr st'" and marked: "marks (ws_disc st) i \<noteq> None"
  shows "level_inv G gen C g st' todo"
proof (cases "i \<in> ws_done st")
  case True
  with run have "st' = st" by (simp add: visit_def)
  with lev show ?thesis by (simp add: level_inv_def)
next
  case False
  from marked obtain flag where flag: "marks (ws_disc st) i = Some flag" by blast
  have "records i \<noteq> None" using walk_invD(1) [OF inv] flag by (auto simp: disc_inv_def)
  then obtain rec where rec: "records i = Some rec" by blast
  from visit_enters [OF run False flag rec] obtain d
    where d: "mark_parents records flag (ws_disc (enter st i flag)) (parents rec) = Inr d"
      and st': "st' = (enter st i flag)\<lparr>ws_disc := d\<rparr>" .
  have par: "(i, p) \<in> parent_rel G \<longleftrightarrow> p \<in> set (parents rec)" for p
    using G rec by (auto simp: cache_ok_def parent_rel_def)
  have gi: "gen i = g" using lev by (simp add: level_inv_def)
  have lower: "\<forall>p\<in>set (parents rec). gen p < g" using gen(1) par gi by (auto simp: topo_def)
  let ?st0 = "st\<lparr>ws_disc := ws_disc (enter st i flag)\<rparr>"
  have "level_inv G gen C g ?st0 (insert i todo)"
    using lev unfolding level_inv_def frontier_gen_def haves_closed_def by (elim conjE, intro conjI) simp_all
  note L0 = mark_parents_level [OF gen(2) this _ lower, of flag d]
  then have L: "level_inv G gen C g (st\<lparr>ws_disc := d\<rparr>) (insert i todo)"
    "flag = Have \<Longrightarrow> \<forall>p\<in>set (parents rec). marks d p = Some Have"
    "marks d i = Some flag"
    using d lower gi flag by auto
  have new: "flag = Want \<Longrightarrow> i \<notin> reach G C"
    using wanted_not_behind_have [OF gen(1) inv lev] flag by simp
  have "haves_closed G st'"
    using L par unfolding haves_closed_def level_inv_def st' by auto
  then show ?thesis
    using L(1) new gi unfolding level_inv_def st' by auto
qed

lemma visit_level_prec:
  assumes G: "cache_ok G records" and gen: "topo G gen" "cache_gen gen records"
    and "walk_inv G W C records st (set level)" and "level_inv G gen C g st (set level)"
    and "visit_level records st level = Inr st'" and "\<forall>i\<in>set level. marks (ws_disc st) i \<noteq> None"
  shows "level_inv G gen C g st' {}"
  using assms(4-)
proof (induction level arbitrary: st)
  case (Cons i level)
  from Cons.prems(3) obtain st1 where v: "visit records st i = Inr st1" "visit_level records st1 level = Inr st'"
    by (auto simp: and_then_eq_Inr)
  have "walk_inv G W C records st (insert i (set level))" "level_inv G gen C g st (insert i (set level))"
    using Cons.prems(1,2) by simp_all
  from visit_prec [OF G gen this v(1)] visit_inv [OF G this(1) v(1)] Cons.prems(4)
  show ?case by (intro Cons.IH [OF _ _ v(2)]) auto
qed simp

text \<open>Between two levels: everything done is above everything on the frontier.\<close>

definition prec_inv :: "graph \<Rightarrow> (ObjectId \<Rightarrow> u32) \<Rightarrow> ObjectId set \<Rightarrow> walk_state \<Rightarrow> bool" where
  "prec_inv G gen C st \<longleftrightarrow>
     frontier_gen gen (ws_disc st) \<and>
     (\<forall>i\<in>ws_done st. \<forall>e\<in>set (frontier (ws_disc st)). qe_generation e < gen i) \<and>
     haves_closed G st \<and> set (ws_send st) \<inter> reach G C = {} \<and>
     (\<forall>i\<in>C. marks (ws_disc st) i = Some Have)"

lemma level_inv_end: "level_inv G gen C g st {} \<Longrightarrow> prec_inv G gen C st"
  by (auto simp: level_inv_def prec_inv_def intro: order.strict_trans2)

lemma sorted_dropWhile_lower:
  assumes "sorted_wrt (\<ge>) es" and "\<forall>e\<in>set es. qe_generation e \<le> g"
    and "e \<in> set (dropWhile (\<lambda>e. qe_generation e = g) es)"
  shows "qe_generation e < g"
  using assms
proof (induction es)
  case (Cons x es)
  show ?case
  proof (cases "qe_generation x = g")
    case True
    with Cons show ?thesis by simp
  next
    case False
    with Cons.prems(2) have "qe_generation x < g" by auto
    moreover from Cons.prems(1,3) False have "e = x \<or> e \<le> x" by auto
    ultimately show ?thesis by (auto simp: queue_entry_le)
  qed
qed simp

lemma prec_inv_drain:
  assumes inv: "prec_inv G gen C st" and f: "frontier (ws_disc st) = e # es"
    and drain: "drain_level (qe_generation e) (ws_done st) [] (frontier (ws_disc st)) = (level, rest)"
  shows "level_inv G gen C (qe_generation e) (st\<lparr>ws_disc := (ws_disc st)\<lparr>frontier := rest\<rparr>\<rparr>) (set level)"
proof -
  let ?g = "qe_generation e"
  note D = drain_level_set [OF drain]
  have sorted: "sorted_wrt (\<ge>) (frontier (ws_disc st))" using inv by (simp add: prec_inv_def frontier_gen_def)
  then have le: "\<forall>x\<in>set (frontier (ws_disc st)). qe_generation x \<le> ?g"
    by (auto simp: f queue_entry_le)
  have "\<forall>x\<in>set rest. qe_generation x < ?g"
    unfolding D(2) using sorted_dropWhile_lower [OF sorted le] by blast
  moreover have "sorted_wrt (\<ge>) rest" unfolding D(2) using sorted by (rule sorted_wrt_dropWhile)
  moreover have "set rest \<subseteq> set (frontier (ws_disc st))" unfolding D(2) by (auto dest: set_dropWhileD)
  moreover have "gen i = ?g" if "i \<in> set level" for i
    using that inv unfolding D(1) prec_inv_def frontier_gen_def by (auto dest!: set_takeWhileD)
  ultimately show ?thesis
    using inv unfolding prec_inv_def level_inv_def frontier_gen_def haves_closed_def
    by (auto simp: f intro: less_imp_le)
qed

section \<open>Termination\<close>

text \<open>
  Every commit is pushed at most twice, once unmarked and once when a have overtakes a want.
  The potential counts the entries on the frontier and the pushes still possible.
\<close>

definition potential :: "ObjectId set \<Rightarrow> Discovery \<Rightarrow> nat" where
  "potential V d = 2 * card {i \<in> V. marks d i = None} + card {i \<in> V. marks d i = Some Want} + length (frontier d)"

lemma length_heap_push [simp]: "length (heap_push x ys) = Suc (length ys)"
  by (induction x ys rule: heap_push.induct) auto

lemma potential_mark:
  assumes "finite V" and "i \<in> V"
  shows "potential V (mark d i flag gen) \<le> potential V d"
proof (cases "absorbed d i flag")
  case True
  then show ?thesis by (simp add: mark_absorbed)
next
  case False
  note settle = mark_settles [OF False, of gen]
  let ?N = "{j \<in> V. marks d j = None}" and ?W = "{j \<in> V. marks d j = Some Want}"
  have fin: "finite ?N" "finite ?W" using assms(1) by auto
  show ?thesis
  proof (cases "marks d i")
    case None
    then have "card ?N = Suc (card (?N - {i}))" using assms(2) fin(1) by (intro card.remove) auto
    moreover have "{j \<in> V. marks (mark d i flag gen) j = None} = ?N - {i}" by (auto simp: settle)
    moreover have "{j \<in> V. marks (mark d i flag gen) j = Some Want} \<subseteq> insert i ?W" by (auto simp: settle)
    then have "card {j \<in> V. marks (mark d i flag gen) j = Some Want} \<le> Suc (card ?W)"
      by (rule order.trans [OF card_mono [rotated]]) (use fin(2) in \<open>simp_all add: card_insert_if\<close>)
    ultimately show ?thesis by (simp add: potential_def settle(2))
  next
    case (Some f)
    with False have f: "f = Want" "flag = Have" by (cases f; cases flag; simp add: absorbed_def)+
    then have "card ?W = Suc (card (?W - {i}))" using assms(2) fin(2) Some by (intro card.remove) auto
    moreover have "{j \<in> V. marks (mark d i flag gen) j = None} = ?N" using Some by (auto simp: settle)
    moreover have "{j \<in> V. marks (mark d i flag gen) j = Some Want} = ?W - {i}"
      unfolding settle(1) using f by auto
    ultimately show ?thesis by (simp add: potential_def settle(2))
  qed
qed

lemma potential_mark_parents:
  assumes "finite V" and "set ps \<subseteq> V" and "mark_parents records flag d ps = Inr d'"
  shows "potential V d' \<le> potential V d"
  using assms(2,3)
proof (induction ps arbitrary: d)
  case (Cons p ps)
  then obtain rec where "records p = Some rec" "mark_parents records flag (mark d p flag (generation rec)) ps = Inr d'"
    by (auto split: option.splits)
  with Cons.IH Cons.prems(1) have "potential V d' \<le> potential V (mark d p flag (generation rec))" by auto
  also have "\<dots> \<le> potential V d" using Cons.prems(1) by (intro potential_mark [OF assms(1)]) simp
  finally show ?case .
qed simp

lemma potential_visit_level:
  assumes "finite V" and "visit_level records st level = Inr st'"
    and "\<And>i rec. records i = Some rec \<Longrightarrow> set (parents rec) \<subseteq> V"
  shows "potential V (ws_disc st') \<le> potential V (ws_disc st)"
  using assms(2)
proof (induction level arbitrary: st)
  case (Cons i level)
  then obtain st1 where v: "visit records st i = Inr st1" "visit_level records st1 level = Inr st'"
    by (auto simp: and_then_eq_Inr)
  have "potential V (ws_disc st1) \<le> potential V (ws_disc st)"
  proof (cases "i \<in> ws_done st \<or> marks (ws_disc st) i = None")
    case True
    with v(1) show ?thesis by (auto simp: visit_def Let_def split: if_splits)
  next
    case False
    then obtain flag where flag: "i \<notin> ws_done st" "marks (ws_disc st) i = Some flag" by blast
    with v(1) obtain d where d: "mark_parents records flag (ws_disc (enter st i flag))
        (case records i of Some info \<Rightarrow> parents info | None \<Rightarrow> []) = Inr d" "ws_disc st1 = d"
      by (auto simp: visit_def enter_def Let_def and_then_eq_Inr)
    have "set (case records i of Some info \<Rightarrow> parents info | None \<Rightarrow> []) \<subseteq> V"
      using assms(3) [of i] by (cases "records i") simp_all
    from potential_mark_parents [OF assms(1) this d(1)] d(2) show ?thesis by (simp add: potential_def)
  qed
  with Cons.IH [OF v(2)] show ?case by simp
qed simp

lemma potential_drain:
  assumes "frontier d = e # es" and "drain_level (qe_generation e) done_ids [] (frontier d) = (level, rest)"
  shows "potential V (d\<lparr>frontier := rest\<rparr>) < potential V d"
proof -
  have "rest = dropWhile (\<lambda>x. qe_generation x = qe_generation e) es"
    using drain_level_set(2) [OF assms(2)] by (simp add: assms(1))
  then have "length rest < length (frontier d)"
    by (simp add: assms(1) length_dropWhile_le le_imp_less_Suc)
  then show ?thesis by (simp add: potential_def)
qed

end
