(* ===== verification/Walk_Correct.thy ===== *)
theory Walk_Correct
  imports Discovery_Correct ObjectDb_Correct
begin

text \<open>
  Phase I over storage. \<open>object_source\<close> is what the walk relies on: reads return the content
  an id names and commit-graph records agree with the commit objects, under an invariant every
  call keeps. \<open>walk_source\<close> is what the walk makes of it, a commit lookup that never lies; the
  selection's completeness, precision and termination are proved over that. The storage stack
  provides the first (\<open>walker_env\<close>).
\<close>

section \<open>The interfaces\<close>

definition commit_graph_of :: "gix_object \<Rightarrow> (ObjectId \<rightharpoonup> Kind \<times> bytes) \<Rightarrow> graph" where
  "commit_graph_of gx H i =
     (case H i of Some (KCommit, body) \<Rightarrow> commit_from_bytes gx body (oid_kind i) | _ \<Rightarrow> None)"

text \<open>The documented width law of the parsers: ids in a body have the width of its hash kind.\<close>

definition gix_ok :: "gix_object \<Rightarrow> bool" where
  "gix_ok gx \<longleftrightarrow>
     (\<forall>body k t ps. commit_from_bytes gx body k = Some (t, ps) \<longrightarrow>
        length t = len_in_bytes k \<and> (\<forall>p\<in>set ps. length p = len_in_bytes k)) \<and>
     (\<forall>body k t. tag_from_bytes gx body k = Some t \<longrightarrow> length t = len_in_bytes k) \<and>
     (\<forall>body k mode name i. Inr (mode, name, i) \<in> set (tree_entries gx body k) \<longrightarrow> length i = len_in_bytes k)"

text \<open>The errors a lookup can end in: none of them the walk's own.\<close>

fun source_error :: "WalkError \<Rightarrow> bool" where
  "source_error (UnknownWant i) = False"
| "source_error (UnsupportedWant i k) = False"
| "source_error (DiscoveryStalled u) = False"
| "source_error WalkPanic = False"
| "source_error _ = True"

fun storage_error :: "WalkError \<Rightarrow> bool" where
  "storage_error (WStore e) = True"
| "storage_error (WObjects e) = True"
| "storage_error _ = False"

lemma storage_error_source [intro]: "storage_error e \<Longrightarrow> source_error e"
  by (cases e) simp_all

definition record_agrees :: "graph \<Rightarrow> (ObjectId \<Rightarrow> u32 \<Rightarrow> bool) \<Rightarrow> ObjectId \<Rightarrow> CommitGraphRecord \<Rightarrow> bool" where
  "record_agrees G good i rec \<longleftrightarrow> G i = Some (root_tree rec, parents rec) \<and> good i (generation rec)"

definition size_agrees :: "(ObjectId \<rightharpoonup> Kind \<times> bytes) \<Rightarrow> ObjectId \<Rightarrow> Kind \<times> u64 \<Rightarrow> bool" where
  "size_agrees H i = (\<lambda>(kind, n). \<exists>body. H i = Some (kind, body) \<and> n = word_of_nat (length body))"

locale walk_source =
  fixes w :: "('s, 't) walker" and I :: "'s \<Rightarrow> bool" and H :: "ObjectId \<rightharpoonup> Kind \<times> bytes"
    and good :: "ObjectId \<Rightarrow> u32 \<Rightarrow> bool" and E :: "WalkError \<Rightarrow> bool"
  assumes get_ok: "oid_ok i \<Longrightarrow> eff_spec I storage_error (\<lambda>c. c = None \<or> c = H i) (w_get w i)"
    and size_ok: "oid_ok i \<Longrightarrow> eff_spec I (\<lambda>e. True) (\<lambda>c. c = None \<or> (\<exists>x. c = Some x \<and> size_agrees H i x))
      (odb_size (w_db w) (w_repo w) i)"
    and info_ok: "oid_ok i \<Longrightarrow>
      eff_spec I E (record_agrees (commit_graph_of (w_gix w) H) good i) (get_commit_info w i)"
    and errors: "E e \<Longrightarrow> source_error e" "storage_error e \<Longrightarrow> E e"
    and gix_laws: "gix_ok (w_gix w)"

locale object_source =
  fixes w :: "('s, 't) walker" and I :: "'s \<Rightarrow> bool" and H :: "ObjectId \<rightharpoonup> Kind \<times> bytes"
    and good :: "ObjectId \<Rightarrow> u32 \<Rightarrow> bool"
  assumes get_ok: "oid_ok i \<Longrightarrow> eff_spec I storage_error (\<lambda>c. c = None \<or> c = H i) (w_get w i)"
    and size_ok: "oid_ok i \<Longrightarrow> eff_spec I (\<lambda>e. True) (\<lambda>c. c = None \<or> (\<exists>x. c = Some x \<and> size_agrees H i x))
      (odb_size (w_db w) (w_repo w) i)"
    and graph_get_ok: "oid_ok i \<Longrightarrow> eff_spec I (\<lambda>e. True)
      (\<lambda>c. c = None \<or> (\<exists>rec. c = Some rec \<and> record_agrees (commit_graph_of (w_gix w) H) good i rec))
      (get_commit_graph (w_db w) (w_repo w) i)"
    and graph_put_ok: "oid_ok i \<Longrightarrow> record_agrees (commit_graph_of (w_gix w) H) good i rec \<Longrightarrow>
      eff_spec I (\<lambda>e. True) (\<lambda>x. True) (put_commit_graph (w_db w) (w_repo w) i rec d)"
    and good_next: "commit_graph_of (w_gix w) H i = Some (t, ps) \<Longrightarrow>
      (\<And>p. p \<in> set ps \<Longrightarrow> \<exists>g. gens p = Some g \<and> good p g) \<Longrightarrow> good i (next_generation gens ps)"
    and gix_laws: "gix_ok (w_gix w)"

section \<open>Backfill\<close>

lemma graph_of_oids:
  assumes "gix_ok gx" and "commit_graph_of gx H i = Some (t, ps)"
  shows "oid_ok t \<and> (\<forall>p\<in>set ps. oid_ok p)"
  using assms oid_ok_len_in_bytes
  by (auto simp: commit_graph_of_def gix_ok_def split: option.splits prod.splits Kind.splits)

definition parsed_ok :: "graph \<Rightarrow> (ObjectId \<rightharpoonup> ObjectId \<times> ObjectId list) \<Rightarrow> bool" where
  "parsed_ok G parsed \<longleftrightarrow> parsed \<subseteq>\<^sub>m G"

text \<open>
  What is left to do for a stack of commits, once the commits of \<open>B\<close> are resolved: an entry whose
  parents are resolved, or will be by the time it is on top, costs one step, any other \<open>T\<close> steps.
\<close>

fun stack_cost :: "graph \<Rightarrow> (ObjectId \<Rightarrow> nat) \<Rightarrow> ObjectId set \<Rightarrow> ObjectId list \<Rightarrow> nat" where
  "stack_cost G T B [] = 0"
| "stack_cost G T B (c # cs) =
     (if parent_rel G `` {c} \<subseteq> B then 1 else T c) + stack_cost G T (insert c B) cs"

definition cost_bound :: "graph \<Rightarrow> (ObjectId \<Rightarrow> nat) \<Rightarrow> bool" where
  "cost_bound G T \<longleftrightarrow> (\<forall>i. 1 \<le> T i) \<and> (\<forall>i t ps. G i = Some (t, ps) \<longrightarrow> Suc (sum_list (map T ps)) < T i)"

lemma stack_cost_mono:
  assumes "cost_bound G T" and "B \<subseteq> B'"
  shows "stack_cost G T B' cs \<le> stack_cost G T B cs"
  using assms(2)
proof (induction cs arbitrary: B B')
  case (Cons c cs)
  have "stack_cost G T (insert c B') cs \<le> stack_cost G T (insert c B) cs"
    by (rule Cons.IH) (use Cons.prems in blast)
  moreover have "1 \<le> T c" using assms(1) by (simp add: cost_bound_def)
  ultimately show ?case using Cons.prems by auto
qed simp

lemma stack_cost_append:
  assumes "cost_bound G T"
  shows "stack_cost G T B (ps @ cs) \<le> sum_list (map T ps) + stack_cost G T (set ps \<union> B) cs"
proof (induction ps arbitrary: B)
  case (Cons p ps)
  have "1 \<le> T p" using assms by (simp add: cost_bound_def)
  then show ?case using Cons [of "insert p B"] by auto
qed simp

lemma stack_cost_expand:
  assumes "cost_bound G T" and "G c = Some (t, ps)" and "filter (\<lambda>p. p \<notin> B) ps \<noteq> []"
  shows "stack_cost G T B (rev (filter (\<lambda>p. p \<notin> B) ps) @ c # cs) < stack_cost G T B (c # cs)"
proof -
  let ?m = "filter (\<lambda>p. p \<notin> B) ps"
  have par: "parent_rel G `` {c} = set ps" using assms(2) by (auto simp: parent_rel_def)
  have "sum_list (map T (rev ?m)) \<le> sum_list (map T ps)"
    by (simp add: sum_list_filter_le_nat flip: rev_map)
  moreover have "Suc (sum_list (map T ps)) < T c" using assms(1,2) by (auto simp: cost_bound_def)
  moreover have "stack_cost G T (insert c (set (rev ?m) \<union> B)) cs \<le> stack_cost G T (insert c B) cs"
    by (rule stack_cost_mono [OF assms(1)]) auto
  moreover have "\<not> set ps \<subseteq> B" using assms(3) by (auto simp: filter_empty_conv)
  moreover have "set ps \<subseteq> set (rev ?m) \<union> B" by auto
  ultimately show ?thesis
    using stack_cost_append [OF assms(1), of B "rev ?m" "c # cs"] by (simp add: par)
qed

lemma stack_cost_pop:
  assumes "cost_bound G T" and "insert c B \<subseteq> B'"
  shows "stack_cost G T B' cs < stack_cost G T B (c # cs)"
proof -
  have "stack_cost G T B' cs \<le> stack_cost G T (insert c B) cs" by (rule stack_cost_mono [OF assms])
  moreover have "1 \<le> T c" using assms(1) by (simp add: cost_bound_def)
  ultimately show ?thesis by simp
qed

context object_source
begin

abbreviation G :: graph where
  "G \<equiv> commit_graph_of (w_gix w) H"

lemma parse_commit_spec:
  assumes "oid_ok i"
  shows "eff_spec I (\<lambda>e. source_error e \<and> e \<noteq> WalkDiverges) (\<lambda>e. G i = Some e) (parse_commit w i)"
  unfolding parse_commit_def
proof (rule eff_spec_bind)
  show "eff_spec I (\<lambda>e. source_error e \<and> e \<noteq> WalkDiverges) (\<lambda>c. c = None \<or> c = H i) (w_get w i)"
    by (rule eff_spec_weaken [OF get_ok [OF assms]]) auto
  fix r assume "r = None \<or> r = H i"
  then show "eff_spec I (\<lambda>e. source_error e \<and> e \<noteq> WalkDiverges) (\<lambda>e. G i = Some e)
    (case r of
       None \<Rightarrow> eff_fail (MissingObject i)
     | Some (kind, body) \<Rightarrow>
         if kind \<noteq> KCommit then eff_fail (UnexpectedKind i KCommit kind)
         else eff_lift (ok_or (WDecode i) (commit_from_bytes (w_gix w) body (oid_kind i))))"
    by (auto simp: commit_graph_of_def ok_or_def split: option.splits prod.splits intro!: eff_spec_lift eff_spec_fail)
qed

lemma parse_once_spec:
  assumes "oid_ok i" and "parsed_ok G parsed"
  shows "eff_spec I (\<lambda>e. source_error e \<and> e \<noteq> WalkDiverges)
    (\<lambda>(parsed', e). G i = Some e \<and> parsed_ok G parsed') (parse_once w parsed i)"
proof (cases "parsed i")
  case (Some e)
  with assms have "G i = Some e" by (auto simp: parsed_ok_def map_le_def dom_def)
  with Some assms show ?thesis by (auto simp: parse_once_def)
next
  case None
  have upd: "parsed_ok G (parsed(i \<mapsto> e))" if "G i = Some e" for e
    using assms(2) that by (auto simp: parsed_ok_def map_le_def)
  from None show ?thesis
    unfolding parse_once_def option.case
    by (auto intro!: eff_spec_bind [OF parse_commit_spec [OF assms(1)]] intro: upd simp del: split_paired_All)
qed

definition gens_ok :: "(ObjectId \<rightharpoonup> u32) \<Rightarrow> bool" where
  "gens_ok gens \<longleftrightarrow> (\<forall>j g. gens j = Some g \<longrightarrow> good j g)"

lemma next_good:
  assumes "G i = Some (t, ps)" and "filter (\<lambda>p. gens p = None) ps = []" and "gens_ok gens"
  shows "record_agrees G good i \<lparr>generation = next_generation gens ps, root_tree = t, parents = ps\<rparr>"
  using assms good_next [OF assms(1), of gens] by (force simp: record_agrees_def gens_ok_def filter_empty_conv)

text \<open>
  Resolving a commit: the records found and written agree with the graph, and the loop ends
  within the cost of its stack.
\<close>

lemma backfill_loop_spec:
  assumes "parsed_ok G parsed" and "gens_ok gens" and "\<And>rec. res = Some rec \<Longrightarrow> record_agrees G good tgt rec"
    and "\<forall>i\<in>set stack. oid_ok i"
  shows "eff_spec I (\<lambda>e. source_error e \<and> (e = WalkDiverges \<longrightarrow> cost_bound G T \<longrightarrow> n \<le> stack_cost G T (dom gens) stack))
    (\<lambda>r. \<forall>rec. r = Some rec \<longrightarrow> record_agrees G good tgt rec) (backfill_loop w tgt n parsed gens res stack)"
  using assms
proof (induction n arbitrary: parsed gens res stack)
  case (Suc n)
  let ?E = "\<lambda>e. source_error e \<and> (e = WalkDiverges \<longrightarrow> cost_bound G T \<longrightarrow> Suc n \<le> stack_cost G T (dom gens) stack)"
  let ?P = "\<lambda>r. \<forall>rec. r = Some rec \<longrightarrow> record_agrees G good tgt rec"
  show ?case
  proof (cases stack)
    case Nil
    with Suc.prems(3) show ?thesis by auto
  next
    case (Cons cur rest)
    have cur: "oid_ok cur" and rest: "\<forall>i\<in>set rest. oid_ok i" using Suc.prems(4) Cons by auto
    have go: "eff_spec I ?E ?P (backfill_loop w tgt n parsed' gens' res' stack')"
      if "parsed_ok G parsed'" "gens_ok gens'" "\<And>rec. res' = Some rec \<Longrightarrow> record_agrees G good tgt rec"
        "\<forall>i\<in>set stack'. oid_ok i"
        "cost_bound G T \<Longrightarrow> stack_cost G T (dom gens') stack' < stack_cost G T (dom gens) stack"
      for parsed' gens' res' stack'
      by (rule eff_spec_weaken [OF Suc.IH [OF that(1-4)]]) (use that(5) in auto)
    have pop: "eff_spec I ?E ?P (backfill_loop w tgt n parsed' gens' res' rest)"
      if "parsed_ok G parsed'" "gens_ok gens'" "\<And>rec. res' = Some rec \<Longrightarrow> record_agrees G good tgt rec"
        "insert cur (dom gens) \<subseteq> dom gens'" for parsed' gens' res'
    proof (rule go [OF that(1-3) rest])
      assume "cost_bound G T"
      from stack_cost_pop [OF this that(4)] show "stack_cost G T (dom gens') rest < stack_cost G T (dom gens) stack"
        unfolding Cons .
    qed
    show ?thesis
    proof (cases "gens cur")
      case (Some g)
      with Cons have "backfill_loop w tgt (Suc n) parsed gens res stack = backfill_loop w tgt n parsed gens res rest"
        by simp
      then show ?thesis using pop [OF Suc.prems(1,2,3)] Some by (auto simp: insert_absorb domI)
    next
      case None
      have upd: "gens_ok (gens(cur \<mapsto> generation rec))" if "record_agrees G good cur rec" for rec
        using Suc.prems(2) that by (auto simp: gens_ok_def record_agrees_def)
      have found: "eff_spec I ?E ?P (backfill_loop w tgt n parsed (gens(cur \<mapsto> generation rec)) res rest)"
        if "record_agrees G good cur rec" for rec
        by (rule pop [OF Suc.prems(1) upd [OF that] Suc.prems(3)]) auto
      have put: "eff_spec I ?E ?P
         (eff_bind (eff_map_err WStore (put_commit_graph (w_db w) (w_repo w) cur rec Relaxed)) (\<lambda>_.
            backfill_loop w tgt n parsed' (gens(cur \<mapsto> generation rec)) (if cur = tgt then Some rec else res) rest))"
        if "parsed_ok G parsed'" "record_agrees G good cur rec" for parsed' rec
        by (rule eff_spec_bind, rule eff_spec_map_err [OF graph_put_ok [OF cur that(2)]], simp,
            rule pop [OF that(1) upd [OF that(2)]])
          (use Suc.prems(3) that(2) in \<open>auto split: if_splits\<close>)
      have expand: "eff_spec I ?E ?P (backfill_loop w tgt n parsed' gens res
          (rev (filter (\<lambda>p. gens p = None) ps) @ cur # rest))"
        if "parsed_ok G parsed'" "G cur = Some (root, ps)" "filter (\<lambda>p. gens p = None) ps \<noteq> []" for parsed' root ps
      proof (rule go [OF that(1) Suc.prems(2,3)])
        show "\<forall>i\<in>set (rev (filter (\<lambda>p. gens p = None) ps) @ cur # rest). oid_ok i"
          using graph_of_oids [OF gix_laws that(2)] cur rest by auto
        assume "cost_bound G T"
        from stack_cost_expand [where G = G and c = cur, OF this that(2), of "dom gens" rest] that(3)
        show "stack_cost G T (dom gens) (rev (filter (\<lambda>p. gens p = None) ps) @ cur # rest)
            < stack_cost G T (dom gens) stack"
          unfolding Cons by (simp add: domIff del: stack_cost.simps)
      qed
      have miss: "eff_spec I ?E ?P (eff_bind (parse_once w parsed cur) (\<lambda>(parsed, root, ps).
            let missing = filter (\<lambda>p. gens p = None) ps in
            if missing = [] then
              let rec = \<lparr>generation = next_generation gens ps, root_tree = root, parents = ps\<rparr> in
              eff_bind (eff_map_err WStore (put_commit_graph (w_db w) (w_repo w) cur rec Relaxed)) (\<lambda>_.
                backfill_loop w tgt n parsed (gens(cur \<mapsto> generation rec)) (if cur = tgt then Some rec else res) rest)
            else backfill_loop w tgt n parsed gens res (rev missing @ cur # rest)))"
      proof (rule eff_spec_bind)
        show "eff_spec I ?E (\<lambda>(parsed', e). G cur = Some e \<and> parsed_ok G parsed') (parse_once w parsed cur)"
          by (rule eff_spec_weaken [OF parse_once_spec [OF cur Suc.prems(1)]]) auto
      next
        fix x assume "case x of (parsed', e) \<Rightarrow> G cur = Some e \<and> parsed_ok G parsed'"
        then obtain parsed' root ps where x: "x = (parsed', root, ps)" "G cur = Some (root, ps)" "parsed_ok G parsed'"
          by (cases x) auto
        show "eff_spec I ?E ?P (case x of (parsed, root, ps) \<Rightarrow>
            let missing = filter (\<lambda>p. gens p = None) ps in
            if missing = [] then
              let rec = \<lparr>generation = next_generation gens ps, root_tree = root, parents = ps\<rparr> in
              eff_bind (eff_map_err WStore (put_commit_graph (w_db w) (w_repo w) cur rec Relaxed)) (\<lambda>_.
                backfill_loop w tgt n parsed (gens(cur \<mapsto> generation rec)) (if cur = tgt then Some rec else res) rest)
            else backfill_loop w tgt n parsed gens res (rev missing @ cur # rest))"
          unfolding x(1) prod.case Let_def
          using put [OF x(3) next_good [OF x(2) _ Suc.prems(2)]] expand [OF x(3,2)] by (rule eff_spec_if)
      qed
      have get: "eff_spec I ?E (\<lambda>c. c = None \<or> (\<exists>rec. c = Some rec \<and> record_agrees G good cur rec))
          (eff_map_err WStore (get_commit_graph (w_db w) (w_repo w) cur))"
        by (rule eff_spec_map_err [OF graph_get_ok [OF cur]]) simp
      show ?thesis
        unfolding Cons backfill_loop.simps
        by (rule eff_spec_if, use None in simp, rule eff_spec_bind [OF get [unfolded Cons]], rule eff_spec_option)
          (use found miss in \<open>auto simp: Cons simp del: stack_cost.simps\<close>)
    qed
  qed
qed auto

lemma get_commit_info_spec:
  assumes "oid_ok i"
  shows "eff_spec I (\<lambda>e. source_error e \<and> (e = WalkDiverges \<longrightarrow> cost_bound G T \<longrightarrow> w_fuel w \<le> T i))
    (record_agrees G good i) (get_commit_info w i)"
  unfolding get_commit_info_def
proof (rule eff_spec_bind [OF eff_spec_map_err [OF graph_get_ok [OF assms]]])
  fix r assume r: "r = None \<or> (\<exists>rec. r = Some rec \<and> record_agrees G good i rec)"
  have cost: "cost_bound G T \<Longrightarrow> stack_cost G T {} [i] \<le> T i" by (auto simp: cost_bound_def)
  have "eff_spec I (\<lambda>e. source_error e \<and> (e = WalkDiverges \<longrightarrow> cost_bound G T \<longrightarrow> w_fuel w \<le> T i))
      (\<lambda>r. \<forall>rec. r = Some rec \<longrightarrow> record_agrees G good i rec)
      (backfill_loop w i (w_fuel w) Map.empty Map.empty None [i])"
    by (rule eff_spec_weaken [OF backfill_loop_spec [where T = T]])
      (use assms cost in \<open>auto simp: parsed_ok_def gens_ok_def intro: order.trans\<close>)
  then have "eff_spec I (\<lambda>e. source_error e \<and> (e = WalkDiverges \<longrightarrow> cost_bound G T \<longrightarrow> w_fuel w \<le> T i))
      (record_agrees G good i) (backfill_commit_info w i)"
    unfolding backfill_commit_info_def
    by (rule eff_spec_bind) (auto simp: ok_or_def split: option.splits intro!: eff_spec_lift)
  with r show "eff_spec I (\<lambda>e. source_error e \<and> (e = WalkDiverges \<longrightarrow> cost_bound G T \<longrightarrow> w_fuel w \<le> T i))
      (record_agrees G good i) (case r of None \<Rightarrow> backfill_commit_info w i | Some rec \<Rightarrow> eff_return rec)"
    by (auto intro!: eff_spec_option)
qed simp

end

sublocale object_source \<subseteq> source: walk_source w I H good source_error
proof
  show "eff_spec I source_error (record_agrees (commit_graph_of (w_gix w) H) good i) (get_commit_info w i)"
    if "oid_ok i" for i
    by (rule eff_spec_weaken [OF get_commit_info_spec [OF that]]) auto
qed (use get_ok size_ok gix_laws in auto)

text \<open>With enough fuel for the longest backfill no lookup runs out of it.\<close>

locale bounded_source = object_source +
  fixes T :: "ObjectId \<Rightarrow> nat"
  assumes costs: "cost_bound (commit_graph_of (w_gix w) H) T" and fuel: "T i < w_fuel w"

sublocale bounded_source \<subseteq> bounded: walk_source w I H good "\<lambda>e. source_error e \<and> e \<noteq> WalkDiverges"
proof
  show "eff_spec I (\<lambda>e. source_error e \<and> e \<noteq> WalkDiverges)
      (record_agrees (commit_graph_of (w_gix w) H) good i) (get_commit_info w i)" if "oid_ok i" for i
    by (rule eff_spec_weaken [OF get_commit_info_spec [OF that, of T]]) (use costs fuel [of i] in auto)
qed (use get_ok size_ok gix_laws in auto)

context bounded_source
begin

lemma bounded_walk_source: "walk_source w I H good (\<lambda>e. source_error e \<and> e \<noteq> WalkDiverges)"
  by (rule bounded.walk_source_axioms)

end

section \<open>Batched lookups\<close>

lemma cache_misses_set: "set (cache_misses cache seen ids) = {i \<in> set ids. cache i = None \<and> i \<notin> seen}"
  by (induction cache seen ids rule: cache_misses.induct) auto

lemma cache_misses_distinct: "distinct (cache_misses cache seen ids)"
  by (induction cache seen ids rule: cache_misses.induct) (auto simp: cache_misses_set)

lemma cache_fetched_simps [simp]:
  "cache_fetched cache [] = cache"
  "cache_fetched cache ((i, r) # fetched) =
     cache_fetched (case r of Inr rec \<Rightarrow> cache(i \<mapsto> rec) | Inl e \<Rightarrow> cache) fetched"
  by (simp_all add: cache_fetched_def)

lemma cache_fetched_dom:
  "dom (cache_fetched cache fetched) = dom cache \<union> {i. \<exists>rec. (i, Inr rec) \<in> set fetched}"
proof (induction fetched arbitrary: cache)
  case (Cons p fetched)
  then show ?case by (cases p; cases "snd p") (auto split: if_splits)
qed simp

lemma cache_fetched_all:
  assumes "\<And>i rec. cache i = Some rec \<Longrightarrow> Q i rec" and "\<And>i rec. (i, Inr rec) \<in> set fetched \<Longrightarrow> Q i rec"
    and "cache_fetched cache fetched i = Some rec"
  shows "Q i rec"
  using assms
proof (induction fetched arbitrary: cache)
  case (Cons p fetched)
  obtain j r where p: "p = (j, r)" by force
  show ?case
    by (rule Cons.IH [of "case r of Inr rec \<Rightarrow> cache(j \<mapsto> rec) | Inl e \<Rightarrow> cache"])
      (use Cons.prems p in \<open>auto split: sum.splits if_splits\<close>)
qed simp

lemma all_fetched_Inr: "all_fetched fetched = Inr () \<Longrightarrow> (i, r) \<in> set fetched \<Longrightarrow> \<exists>rec. r = Inr rec"
  by (induction fetched rule: all_fetched.induct) (auto simp: and_then_eq_Inr)

lemma all_fetched_Inl: "all_fetched fetched = Inl e \<Longrightarrow> \<exists>i. (i, Inl e) \<in> set fetched"
proof (induction fetched rule: all_fetched.induct)
  case (2 i r rest)
  then show ?case by (cases r) auto
qed simp

context walk_source
begin

abbreviation G :: graph where
  "G \<equiv> commit_graph_of (w_gix w) H"

abbreviation agrees :: "ObjectId \<Rightarrow> CommitGraphRecord \<Rightarrow> bool" where
  "agrees \<equiv> record_agrees G good"

definition cache_agrees :: "record_cache \<Rightarrow> bool" where
  "cache_agrees cache \<longleftrightarrow> (\<forall>i rec. cache i = Some rec \<longrightarrow> agrees i rec)"

definition fetched_agrees :: "(ObjectId \<times> (WalkError + CommitGraphRecord)) list \<Rightarrow> bool" where
  "fetched_agrees fetched \<longleftrightarrow>
     (\<forall>i e. (i, Inl e) \<in> set fetched \<longrightarrow> E e) \<and> (\<forall>i rec. (i, Inr rec) \<in> set fetched \<longrightarrow> agrees i rec)"

lemma prefetch_spec:
  assumes "\<forall>i\<in>set ids. oid_ok i" and "cache_agrees cache"
  shows "eff_spec I (\<lambda>e. False)
    (\<lambda>(fetched, cache'). fetched_agrees fetched \<and> cache_agrees cache' \<and> map fst fetched = cache_misses cache {} ids \<and>
       dom cache' = dom cache \<union> {i. \<exists>rec. (i, Inr rec) \<in> set fetched}) (prefetch_records w cache ids)"
  unfolding prefetch_records_def
proof (rule eff_spec_bind)
  show "eff_spec I (\<lambda>e. False)
      (list_all2 (\<lambda>i p. fst p = i \<and> (case snd p of Inl e \<Rightarrow> E e | Inr rec \<Rightarrow> agrees i rec)) (cache_misses cache {} ids))
      (eff_map (\<lambda>i. eff_bind (eff_attempt (get_commit_info w i)) (\<lambda>r. eff_return (i, r))) (cache_misses cache {} ids))"
    by (rule eff_spec_map, rule eff_spec_bind [OF eff_spec_attempt [OF info_ok]])
      (use assms(1) cache_misses_set [of cache "{}" ids] in \<open>auto intro!: eff_spec_return\<close>)
next
  fix fetched
  assume L: "list_all2 (\<lambda>i p. fst p = i \<and> (case snd p of Inl e \<Rightarrow> E e | Inr rec \<Rightarrow> agrees i rec))
      (cache_misses cache {} ids) fetched"
  then have "map fst fetched = cache_misses cache {} ids"
    by (induction rule: list_all2_induct) auto
  moreover have f: "fetched_agrees fetched"
  proof -
    have "case r of Inl e \<Rightarrow> E e | Inr rec \<Rightarrow> agrees i rec" if "(i, r) \<in> set fetched" for i r
      using list_all2_right [OF L that] by auto
    from this [of _ "Inl _"] this [of _ "Inr _"] show ?thesis by (simp add: fetched_agrees_def)
  qed
  moreover have "agrees i rec" if "cache_fetched cache fetched i = Some rec" for i rec
    by (rule cache_fetched_all [OF _ _ that]) (use assms(2) f in \<open>simp_all add: cache_agrees_def fetched_agrees_def\<close>)
  then have "cache_agrees (cache_fetched cache fetched)" by (simp add: cache_agrees_def)
  ultimately show "eff_spec I (\<lambda>e. False)
    (\<lambda>(fetched, cache'). fetched_agrees fetched \<and> cache_agrees cache' \<and> map fst fetched = cache_misses cache {} ids \<and>
       dom cache' = dom cache \<union> {i. \<exists>rec. (i, Inr rec) \<in> set fetched})
    (eff_return (fetched, cache_fetched cache fetched))"
    by (intro eff_spec_return) (simp add: cache_fetched_dom)
qed

end

section \<open>The selection loop\<close>

lemma walk_inv_cache:
  assumes "walk_inv G W C records st todo" and "dom records \<subseteq> dom records'"
  shows "walk_inv G W C records' st todo"
proof -
  have "disc_inv G W C records' (ws_disc st)"
    using walk_invD(1) [OF assms(1)] assms(2) unfolding disc_inv_def by (auto simp: subset_iff domIff)
  with assms(1) show ?thesis by (simp add: walk_inv_def)
qed

lemma mark_parents_total: "set ps \<subseteq> dom records \<Longrightarrow> \<exists>d'. mark_parents records flag d ps = Inr d'"
  by (induction ps arbitrary: d) auto

lemma visit_level_total:
  assumes "\<And>i rec. i \<in> set level \<Longrightarrow> records i = Some rec \<Longrightarrow> set (parents rec) \<subseteq> dom records"
  shows "\<exists>st'. visit_level records st level = Inr st'"
  using assms
proof (induction level arbitrary: st)
  case (Cons i level)
  have "set (case records i of Some info \<Rightarrow> parents info | None \<Rightarrow> []) \<subseteq> dom records"
    using Cons.prems [of i] by (cases "records i") simp_all
  then have "\<exists>st1. visit records st i = Inr st1"
    using mark_parents_total by (fastforce simp: visit_def Let_def and_then_eq_Inr split: option.splits)
  then obtain st1 where "visit records st i = Inr st1" by blast
  moreover have "\<exists>st'. visit_level records st1 level = Inr st'"
    by (rule Cons.IH) (use Cons.prems in auto)
  ultimately show ?case by simp
qed simp

lemma visit_level_marks:
  assumes "cache_ok G records" and "walk_inv G W C records st (set level)"
    and "visit_level records st level = Inr st'" and "\<forall>i\<in>set level. marks (ws_disc st) i \<noteq> None"
    and "marks (ws_disc st) j \<noteq> None"
  shows "marks (ws_disc st') j \<noteq> None"
  using assms(2-)
proof (induction level arbitrary: st)
  case (Cons i level)
  then obtain st1 where v: "visit records st i = Inr st1" "visit_level records st1 level = Inr st'"
    by (auto simp: and_then_eq_Inr)
  from visit_inv [OF assms(1) _ v(1), of W C "set level"] Cons.prems
  show ?case by (intro Cons.IH [OF _ v(2)]) auto
qed simp

definition loop_inv ::
    "graph \<Rightarrow> (ObjectId \<Rightarrow> u32) \<Rightarrow> bool \<Rightarrow> ObjectId set \<Rightarrow> ObjectId set \<Rightarrow> record_cache \<Rightarrow> walk_state \<Rightarrow> bool" where
  "loop_inv G gen prec W C records st \<longleftrightarrow>
     walk_inv G W C records st {} \<and> send_closed G st \<and> (prec \<longrightarrow> prec_inv G gen C st) \<and>
     dom records \<subseteq> reach G (W \<union> C) \<and> (\<forall>i\<in>W. marks (ws_disc st) i \<noteq> None)"

text \<open>One level, once its parents' records are cached.\<close>

lemma loop_inv_level:
  assumes inv: "loop_inv G gen prec W C records st" and f: "frontier (ws_disc st) = e # es"
    and drain: "drain_level (qe_generation e) (ws_done st) [] (frontier (ws_disc st)) = (level, rest)"
    and cache: "cache_ok G records'" "dom records \<subseteq> dom records'" "dom records' \<subseteq> reach G (W \<union> C)"
    and parents: "\<And>i rec. i \<in> set level \<Longrightarrow> records' i = Some rec \<Longrightarrow> set (parents rec) \<subseteq> dom records'"
    and prec: "prec \<Longrightarrow> topo G gen \<and> cache_gen gen records'"
  obtains st' where "visit_level records' (st\<lparr>ws_disc := (ws_disc st)\<lparr>frontier := rest\<rparr>\<rparr>) level = Inr st'"
    and "loop_inv G gen prec W C records' st'"
    and "finite (reach G (W \<union> C)) \<Longrightarrow>
      potential (reach G (W \<union> C)) (ws_disc st') < potential (reach G (W \<union> C)) (ws_disc st)"
proof -
  let ?V = "reach G (W \<union> C)" and ?st = "st\<lparr>ws_disc := (ws_disc st)\<lparr>frontier := rest\<rparr>\<rparr>"
  from inv have I: "walk_inv G W C records st {}" "send_closed G st" "prec \<Longrightarrow> prec_inv G gen C st"
    "\<And>i. i \<in> W \<Longrightarrow> marks (ws_disc st) i \<noteq> None" by (auto simp: loop_inv_def)
  from walk_inv_drain [OF I(1) drain] I(2) have D: "walk_inv G W C records' ?st (set level)"
    "\<forall>i\<in>set level. marks (ws_disc ?st) i \<noteq> None" "send_closed G ?st"
    using walk_inv_cache [OF _ cache(2)] by blast+
  obtain st' where run: "visit_level records' ?st level = Inr st'" 
    using visit_level_total [of level records' ?st] parents by blast
  from visit_level_inv [OF cache(1) D(1) run D(2,3)] have N: "walk_inv G W C records' st' {}" "send_closed G st'" by auto
  have "prec_inv G gen C st'" if prec
    using level_inv_end [OF visit_level_prec [OF cache(1) _ _ D(1) prec_inv_drain [OF I(3) f drain] run D(2)]]
      prec that by blast
  moreover have "marks (ws_disc st') i \<noteq> None" if "i \<in> W" for i
    by (rule visit_level_marks [OF cache(1) D(1) run D(2)]) (use I(4) [OF that] in simp)
  ultimately have "loop_inv G gen prec W C records' st'" using N cache(3) by (auto simp: loop_inv_def)
  moreover have "potential ?V (ws_disc st') < potential ?V (ws_disc st)" if "finite ?V"
  proof -
    have V: "\<And>i rec. records' i = Some rec \<Longrightarrow> set (Values.parents rec) \<subseteq> ?V"
      using cache(1,3) reach_step [of _ G "W \<union> C"] by (fastforce simp: cache_ok_def parent_rel_def)
    have "potential ?V (ws_disc st') \<le> potential ?V (ws_disc ?st)"
      by (rule potential_visit_level [OF that run]) (rule V)
    with potential_drain [OF f drain, of ?V] show ?thesis by simp
  qed
  ultimately show thesis using that run by blast
qed

context walk_source
begin

lemma cache_agrees_ok: "cache_agrees records \<Longrightarrow> cache_ok G records"
  by (auto simp: cache_agrees_def cache_ok_def record_agrees_def)

lemma level_parents_set:
  "set (level_parents records level) = {p. \<exists>i\<in>set level. \<exists>rec. records i = Some rec \<and> p \<in> set (parents rec)}"
  by (auto simp: level_parents_def map_filter_def) force

lemma select_loop_spec:
  assumes prec: "prec \<Longrightarrow> topo G gen" "\<And>i g. prec \<Longrightarrow> good i g \<Longrightarrow> g = gen i"
    and "cache_agrees records" and "loop_inv G gen prec W C records st"
  shows "eff_spec I (\<lambda>e. E e \<or> e = WalkDiverges \<and>
      (finite (reach G (W \<union> C)) \<longrightarrow> n \<le> potential (reach G (W \<union> C)) (ws_disc st)))
    (\<lambda>st'. (\<exists>records'. loop_inv G gen prec W C records' st') \<and> pending (ws_disc st') = {})
    (select_loop w n records st)"
  using assms(3,4)
proof (induction n arbitrary: records st)
  case (Suc n)
  let ?V = "reach G (W \<union> C)"
  let ?E = "\<lambda>e. E e \<or> e = WalkDiverges \<and> (finite ?V \<longrightarrow> Suc n \<le> potential ?V (ws_disc st))"
  show ?case
  proof (cases "pending (ws_disc st) = {}")
    case True
    with Suc.prems(2) show ?thesis by auto
  next
    case False
    then obtain e es where f: "frontier (ws_disc st) = e # es"
      using pending_frontier [of G W C records st] Suc.prems(2) by (auto simp: loop_inv_def neq_Nil_conv)
    obtain level rest where drain: "drain_level (qe_generation e) (ws_done st) [] (frontier (ws_disc st)) = (level, rest)"
      by force
    let ?st = "st\<lparr>ws_disc := (ws_disc st)\<lparr>frontier := rest\<rparr>\<rparr>"
    have sub: "dom records \<subseteq> ?V" using Suc.prems(2) by (simp add: loop_inv_def)
    have par: "oid_ok p \<and> p \<in> ?V" if "p \<in> set (level_parents records level)" for p
    proof -
      from that obtain i rec where i: "records i = Some rec" "p \<in> set (parents rec)"
        by (auto simp: level_parents_set)
      with Suc.prems(1) have g: "G i = Some (root_tree rec, parents rec)" by (auto simp: cache_agrees_def record_agrees_def)
      have "(i, p) \<in> parent_rel G" using g i(2) by (auto simp: parent_rel_def)
      with reach_step sub i(1) graph_of_oids [OF gix_laws g] i(2) show ?thesis by blast
    qed
    have pre: "eff_spec I ?E
      (\<lambda>(fetched, cache'). fetched_agrees fetched \<and> cache_agrees cache' \<and>
         map fst fetched = cache_misses records {} (level_parents records level) \<and>
         dom cache' = dom records \<union> {i. \<exists>rec. (i, Inr rec) \<in> set fetched})
      (prefetch_records w records (level_parents records level))"
      by (rule eff_spec_weaken [OF prefetch_spec [OF _ Suc.prems(1)]]) (use par in auto)
    have go: "eff_spec I ?E (\<lambda>st'. (\<exists>records'. loop_inv G gen prec W C records' st') \<and> pending (ws_disc st') = {})
        (eff_bind (eff_lift (visit_level records' ?st level)) (\<lambda>st. select_loop w n records' st))"
      if P: "fetched_agrees fetched" "cache_agrees records'"
        "map fst fetched = cache_misses records {} (level_parents records level)"
        "dom records' = dom records \<union> {i. \<exists>rec. (i, Inr rec) \<in> set fetched}"
        and all: "all_fetched fetched = Inr ()" for fetched records'
    proof -
      have fd: "{i. \<exists>rec. (i, Inr rec) \<in> set fetched} = fst ` set fetched"
        using all_fetched_Inr [OF all] by force
      have dom': "dom records' = dom records \<union> set (level_parents records level)"
        using P(4) unfolding fd set_map [symmetric] P(3) cache_misses_set by auto
      have sub': "dom records' \<subseteq> ?V" using dom' sub par by auto
      have parents: "set (parents rec) \<subseteq> dom records'" if i: "i \<in> set level" "records' i = Some rec" for i rec
      proof -
        have "i \<in> frontier_oids (ws_disc st)" using i(1) drain_level_set(1) [OF drain]
          by (auto simp: frontier_oids_def dest!: set_takeWhileD)
        moreover have "disc_inv G W C records (ws_disc st)" using Suc.prems(2) by (simp add: loop_inv_def walk_inv_def)
        ultimately obtain rec' where "records i = Some rec'" unfolding disc_inv_def by blast
        moreover have "parents rec' = parents rec"
          using calculation i(2) Suc.prems(1) P(2) by (fastforce simp: cache_agrees_def record_agrees_def)
        ultimately show ?thesis using i(1) unfolding dom' level_parents_set
          by (intro subsetI UnI2 CollectI bexI [of _ i] exI [of _ rec']) simp_all
      qed
      have "prec \<Longrightarrow> topo G gen \<and> cache_gen gen records'"
        using prec P(2) by (auto simp: cache_gen_def cache_agrees_def record_agrees_def)
      then obtain st' where st': "visit_level records' ?st level = Inr st'" "loop_inv G gen prec W C records' st'"
        "finite ?V \<Longrightarrow> potential ?V (ws_disc st') < potential ?V (ws_disc st)"
        using loop_inv_level [OF Suc.prems(2) f drain cache_agrees_ok [OF P(2)] _ sub'] dom' parents by blast
      have "eff_spec I ?E (\<lambda>st'. (\<exists>records'. loop_inv G gen prec W C records' st') \<and> pending (ws_disc st') = {})
          (select_loop w n records' st')"
        by (rule eff_spec_weaken [OF Suc.IH [OF P(2) st'(2)]]) (use st'(3) in auto)
      then show ?thesis unfolding st'(1) by (simp add: eff_bind_def eff_lift_def)
    qed
    have all: "eff_spec I ?E (\<lambda>_. all_fetched fetched = Inr ()) (eff_lift (all_fetched fetched))"
      if "fetched_agrees fetched" for fetched
      by (rule eff_spec_lift) (use that all_fetched_Inl in \<open>fastforce simp: fetched_agrees_def\<close>)+
    from False show ?thesis
      unfolding select_loop.simps f list.case Let_def drain [unfolded f] prod.case if_not_P [OF False]
      by - (rule eff_spec_bind [OF pre], clarify, rule eff_spec_bind [OF all], assumption, rule go)
  qed
qed auto

end

end
