(* ===== verification/Select_Correct.thy ===== *)
theory Select_Correct
  imports Walk_Correct
begin

text \<open>
  Commit selection as a whole: peeling the wants, marking the recognized haves and the wants,
  and the loop. The result is an abstract difference of histories.
\<close>

section \<open>Peeling wants\<close>

inductive peels :: "gix_object \<Rightarrow> (ObjectId \<rightharpoonup> Kind \<times> bytes) \<Rightarrow> ObjectId \<Rightarrow> ObjectId \<times> ObjectId list \<Rightarrow> bool"
  for gx H where
  commit: "H i = Some (KCommit, body) \<Longrightarrow> peels gx H i (i, [])"
| tag: "H i = Some (KTag, body) \<Longrightarrow> tag_from_bytes gx body (oid_kind i) = Some t \<Longrightarrow>
    peels gx H t (c, tags) \<Longrightarrow> peels gx H i (c, i # tags)"

text \<open>A chain of \<open>n\<close> tags from an id.\<close>

inductive tag_chain :: "gix_object \<Rightarrow> (ObjectId \<rightharpoonup> Kind \<times> bytes) \<Rightarrow> nat \<Rightarrow> ObjectId \<Rightarrow> bool"
  for gx H where
  none: "tag_chain gx H 0 i"
| more: "H i = Some (KTag, body) \<Longrightarrow> tag_from_bytes gx body (oid_kind i) = Some t \<Longrightarrow>
    tag_chain gx H n t \<Longrightarrow> tag_chain gx H (Suc n) i"

lemma tag_target_oid: "gix_ok gx \<Longrightarrow> tag_from_bytes gx body k = Some t \<Longrightarrow> oid_ok t"
  using oid_ok_len_in_bytes by (auto simp: gix_ok_def)

definition peel_error :: "ObjectId \<Rightarrow> WalkError \<Rightarrow> bool" where
  "peel_error want e \<longleftrightarrow>
     storage_error e \<or> e = UnknownWant want \<or> (\<exists>i. e = MissingObject i) \<or> (\<exists>i. e = WDecode i) \<or>
     (\<exists>i k. e = UnsupportedWant i k \<and> k \<noteq> KCommit \<and> k \<noteq> KTag)"

lemma foldl_oset_insert:
  "set (foldl oset_insert xs ys) = set xs \<union> set ys"
  "distinct xs \<Longrightarrow> distinct (foldl oset_insert xs ys)"
  by (induction ys arbitrary: xs) (auto simp: oset_insert_def)

lemma merge_chains_Inr:
  assumes "merge_chains commits tags peeled = Inr (commits', tags')"
  shows "\<exists>pcs. peeled = map Inr pcs \<and> commits' = commits @ map fst pcs \<and>
    set tags' = set tags \<union> (\<Union>c\<in>set pcs. set (snd c)) \<and> (distinct tags \<longrightarrow> distinct tags')"
  using assms
proof (induction peeled arbitrary: commits tags)
  case (Cons peel peeled)
  from Cons.prems obtain c where c: "peel = Inr c"
    "merge_chains (commits @ [fst c]) (foldl oset_insert tags (snd c)) peeled = Inr (commits', tags')"
    by (auto simp: and_then_eq_Inr split: prod.splits)
  from Cons.IH [OF c(2)] obtain pcs where "peeled = map Inr pcs"
    "commits' = (commits @ [fst c]) @ map fst pcs"
    "set tags' = set tags \<union> set (snd c) \<union> (\<Union>c\<in>set pcs. set (snd c))"
    "distinct (foldl oset_insert tags (snd c)) \<longrightarrow> distinct tags'"
    by (auto simp: foldl_oset_insert)
  then show ?case using c(1) foldl_oset_insert(2) [of tags "snd c"]
    by (intro exI [of _ "c # pcs"]) auto
qed auto

lemma merge_chains_Inl:
  assumes "merge_chains commits tags peeled = Inl e"
  shows "Inl e \<in> set peeled"
  using assms
proof (induction commits tags peeled rule: merge_chains.induct)
  case (2 commits tags peel peeled)
  then show ?case by (cases peel) auto
qed simp

context walk_source
begin

lemma peel_want_loop_spec:
  assumes "oid_ok cursor"
  shows "eff_spec I (\<lambda>e. peel_error want e \<or> e = WalkDiverges \<and> tag_chain (w_gix w) H n cursor)
    (\<lambda>(c, tags'). \<exists>ts. tags' = tags @ ts \<and> peels (w_gix w) H cursor (c, ts)) (peel_want_loop w want n cursor tags)"
  using assms
proof (induction n arbitrary: cursor tags)
  case 0
  then show ?case by (auto intro: tag_chain.none)
next
  case (Suc n)
  let ?E = "\<lambda>e. peel_error want e \<or> e = WalkDiverges \<and> tag_chain (w_gix w) H (Suc n) cursor"
  let ?P = "\<lambda>(c, tags'). \<exists>ts. tags' = tags @ ts \<and> peels (w_gix w) H cursor (c, ts)"
  have get: "eff_spec I ?E (\<lambda>c. c = None \<or> c = H cursor) (w_get w cursor)"
    by (rule eff_spec_weaken [OF get_ok [OF Suc.prems]]) (auto simp: peel_error_def)
  have chase: "eff_spec I ?E ?P (peel_want_loop w want n t (tags @ [cursor]))"
    if "H cursor = Some (KTag, body)" "tag_from_bytes (w_gix w) body (oid_kind cursor) = Some t" for body t
    by (rule eff_spec_weaken [OF Suc.IH [OF tag_target_oid [OF gix_laws that(2)]]])
      (use that in \<open>auto intro: tag_chain.more peels.tag\<close>)
  have tag: "eff_spec I ?E ?P
      (eff_bind (eff_lift (ok_or (WDecode cursor) (tag_from_bytes (w_gix w) body (oid_kind cursor))))
        (\<lambda>target. peel_want_loop w want n target (tags @ [cursor])))"
    if "H cursor = Some (KTag, body)" for body
    by (rule eff_spec_bind [where Q = "\<lambda>t. tag_from_bytes (w_gix w) body (oid_kind cursor) = Some t"])
      (use chase [OF that] in \<open>auto simp: ok_or_def peel_error_def split: option.splits intro!: eff_spec_lift\<close>)
  show ?case
    unfolding peel_want_loop.simps
  proof (rule eff_spec_bind [OF get])
    fix r assume r: "r = None \<or> r = H cursor"
    show "eff_spec I ?E ?P (case r of
         None \<Rightarrow> eff_fail (if cursor = want then UnknownWant want else MissingObject cursor)
       | Some (kind, body) \<Rightarrow>
           (case kind of
              KCommit \<Rightarrow> eff_return (cursor, tags)
            | KTag \<Rightarrow>
                eff_bind (eff_lift (ok_or (WDecode cursor) (tag_from_bytes (w_gix w) body (oid_kind cursor))))
                  (\<lambda>target. peel_want_loop w want n target (tags @ [cursor]))
            | kind \<Rightarrow> eff_fail (UnsupportedWant cursor kind)))"
    proof (rule eff_spec_option)
      fix x assume x: "r = Some x"
      with r have h: "H cursor = Some x" by auto
      show "eff_spec I ?E ?P (case x of (kind, body) \<Rightarrow> (case kind of
              KCommit \<Rightarrow> eff_return (cursor, tags)
            | KTag \<Rightarrow>
                eff_bind (eff_lift (ok_or (WDecode cursor) (tag_from_bytes (w_gix w) body (oid_kind cursor))))
                  (\<lambda>target. peel_want_loop w want n target (tags @ [cursor]))
            | kind \<Rightarrow> eff_fail (UnsupportedWant cursor kind)))"
        using h tag by (cases x; cases "fst x") (auto simp: peel_error_def intro: peels.commit intro!: eff_spec_return eff_spec_fail)
    qed (auto simp: peel_error_def)
  qed
qed

lemma peel_wants_spec:
  assumes "\<forall>i\<in>set wants. oid_ok i"
  shows "eff_spec I (\<lambda>e. \<exists>want\<in>set wants. peel_error want e \<or> e = WalkDiverges \<and> tag_chain (w_gix w) H (w_fuel w) want)
    (\<lambda>(commits, tags). \<exists>pcs. list_all2 (peels (w_gix w) H) wants pcs \<and> commits = map fst pcs \<and>
       set tags = (\<Union>c\<in>set pcs. set (snd c)) \<and> distinct tags) (peel_wants w wants)"
  unfolding peel_wants_def
proof (rule eff_spec_bind)
  let ?E = "\<lambda>want e. peel_error want e \<or> e = WalkDiverges \<and> tag_chain (w_gix w) H (w_fuel w) want"
  have one: "eff_spec I (?E want) (peels (w_gix w) H want) (peel_want w want)" if "want \<in> set wants" for want
    unfolding peel_want_def
    by (rule eff_spec_weaken [OF peel_want_loop_spec [of want want]]) (use assms that in auto)
  show "eff_spec I (\<lambda>e. \<exists>want\<in>set wants. ?E want e)
      (list_all2 (\<lambda>want r. case r of Inl e \<Rightarrow> ?E want e | Inr c \<Rightarrow> peels (w_gix w) H want c) wants)
      (eff_map (\<lambda>want. eff_attempt (peel_want w want)) wants)"
    by (rule eff_spec_map) (rule eff_spec_attempt [OF one])
  fix peeled
  assume L: "list_all2 (\<lambda>want r. case r of Inl e \<Rightarrow> ?E want e | Inr c \<Rightarrow> peels (w_gix w) H want c) wants peeled"
  show "eff_spec I (\<lambda>e. \<exists>want\<in>set wants. ?E want e)
    (\<lambda>(commits, tags). \<exists>pcs. list_all2 (peels (w_gix w) H) wants pcs \<and> commits = map fst pcs \<and>
       set tags = (\<Union>c\<in>set pcs. set (snd c)) \<and> distinct tags) (eff_lift (merge_chains [] [] peeled))"
  proof (rule eff_spec_lift)
    fix e assume "merge_chains [] [] peeled = Inl e"
    from list_all2_right [OF L merge_chains_Inl [OF this]] show "\<exists>want\<in>set wants. ?E want e" by auto
  next
    fix x assume "merge_chains [] [] peeled = Inr x"
    then obtain commits tags where x: "x = (commits, tags)" "merge_chains [] [] peeled = Inr (commits, tags)"
      by (cases x) auto
    from merge_chains_Inr [OF x(2)] obtain pcs where "peeled = map Inr pcs" "commits = map fst pcs"
      "set tags = (\<Union>c\<in>set pcs. set (snd c))" "distinct tags" by auto
    with L show "case x of (commits, tags) \<Rightarrow> \<exists>pcs. list_all2 (peels (w_gix w) H) wants pcs \<and>
        commits = map fst pcs \<and> set tags = (\<Union>c\<in>set pcs. set (snd c)) \<and> distinct tags"
      by (auto simp: x(1) list_all2_map2)
  qed
qed

end

section \<open>Marking the haves and the wants\<close>

definition recognized :: "(ObjectId \<times> (WalkError + CommitGraphRecord)) list \<Rightarrow> (ObjectId \<times> CommitGraphRecord) list" where
  "recognized = List.map_filter (\<lambda>(i, r). case r of Inl e \<Rightarrow> None | Inr rec \<Rightarrow> Some (i, rec))"

lemma recognized_simps [simp]:
  "recognized [] = []"
  "recognized ((i, Inl e) # fetched) = recognized fetched"
  "recognized ((i, Inr rec) # fetched) = (i, rec) # recognized fetched"
  by (simp_all add: recognized_def map_filter_simps)

lemma recognized_set: "(i, rec) \<in> set (recognized fetched) \<longleftrightarrow> (i, Inr rec) \<in> set fetched"
proof (induction fetched)
  case (Cons p fetched)
  then show ?case by (cases p; cases "snd p") auto
qed simp

lemma recognized_ids: "fst ` set (recognized fetched) = {i. \<exists>rec. (i, Inr rec) \<in> set fetched}"
proof (intro equalityI subsetI)
  fix i assume "i \<in> fst ` set (recognized fetched)"
  then obtain rec where "(i, rec) \<in> set (recognized fetched)" by auto
  then show "i \<in> {i. \<exists>rec. (i, Inr rec) \<in> set fetched}" by (auto simp: recognized_set)
next
  fix i assume "i \<in> {i. \<exists>rec. (i, Inr rec) \<in> set fetched}"
  then obtain rec where "(i, rec) \<in> set (recognized fetched)" by (auto simp: recognized_set)
  then show "i \<in> fst ` set (recognized fetched)" by (rule image_eqI [rotated]) simp
qed

lemma recognized_distinct: "distinct (map fst fetched) \<Longrightarrow> distinct (map fst (recognized fetched))"
proof (induction fetched)
  case (Cons p fetched)
  then show ?case by (cases p; cases "snd p") (force simp: recognized_set)+
qed simp

definition mark_all :: "Flag \<Rightarrow> Discovery \<Rightarrow> (ObjectId \<times> CommitGraphRecord) list \<Rightarrow> Discovery" where
  "mark_all flag = foldl (\<lambda>d (i, rec). mark d i flag (generation rec))"

lemma mark_all_simps [simp]:
  "mark_all flag d [] = d"
  "mark_all flag d ((i, rec) # xs) = mark_all flag (mark d i flag (generation rec)) xs"
  by (simp_all add: mark_all_def)

lemma mark_haves_Inr:
  assumes "mark_haves d com fetched = Inr (d', com')"
  shows "d' = mark_all Have d (recognized fetched) \<and> com' = com @ map fst (recognized fetched)"
  using assms
  by (induction d com fetched rule: mark_haves.induct) (auto split: sum.splits WalkError.splits if_splits)

lemma mark_haves_Inl:
  assumes "mark_haves d com fetched = Inl e"
  shows "\<exists>i. (i, Inl e) \<in> set fetched"
  using assms
  by (induction d com fetched rule: mark_haves.induct) (auto split: sum.splits WalkError.splits if_splits)

lemma mark_wants_Inr:
  assumes "mark_wants d fetched = Inr d'"
  shows "d' = mark_all Want d (recognized fetched) \<and> map fst (recognized fetched) = map fst fetched"
  using assms by (induction d fetched rule: mark_wants.induct) (auto simp: and_then_eq_Inr)

lemma mark_wants_Inl:
  assumes "mark_wants d fetched = Inl e"
  shows "\<exists>i. (i, Inl e) \<in> set fetched"
  using assms
proof (induction d fetched rule: mark_wants.induct)
  case (2 d want r rest)
  then show ?case by (cases r) auto
qed simp

abbreviation start :: "Discovery \<Rightarrow> walk_state" where
  "start d \<equiv> \<lparr>ws_disc = d, ws_done = {}, ws_send = []\<rparr>"

lemma mark_all_walk_inv:
  assumes "walk_inv G W C records (start d) {}"
    and "\<And>i rec. (i, rec) \<in> set xs \<Longrightarrow> records i \<noteq> None \<and> i \<in> reach G (if flag = Have then C else W)"
  shows "walk_inv G W C records (start (mark_all flag d xs)) {}"
  using assms
proof (induction xs arbitrary: d)
  case (Cons x xs)
  obtain i rec where x: "x = (i, rec)" by force
  have "walk_inv G W C records (start (mark d i flag (generation rec))) {}"
    using walk_inv_mark [OF Cons.prems(1), of i flag "generation rec"] Cons.prems(2) [of i rec]
    by (cases flag) (auto simp: x)
  with Cons.IH Cons.prems(2) show ?case by (auto simp: x)
qed simp

lemma marks_mark_Have_self: "marks (mark d i Have g) i = Some Have"
  by (cases "absorbed d i Have") (auto simp: mark_absorbed mark_settles absorbed_def)

lemma mark_all_mono:
  "marks d j \<noteq> None \<Longrightarrow> marks (mark_all flag d xs) j \<noteq> None"
  "marks d j = Some Have \<Longrightarrow> marks (mark_all flag d xs) j = Some Have"
proof (induction xs arbitrary: d)
  case (Cons x xs)
  {
    case 1
    then show ?case using Cons.IH(1) [OF marks_mark_mono] by (cases x) simp
  next
    case 2
    then show ?case using Cons.IH(2) [OF marks_mark_Have] by (cases x) simp
  }
qed simp_all

lemma mark_all_marks:
  assumes "j \<in> fst ` set xs"
  shows "marks (mark_all flag d xs) j \<noteq> None" and "marks (mark_all Have d xs) j = Some Have"
  using assms
proof (induction xs arbitrary: d)
  case (Cons x xs)
  obtain i rec where x: "x = (i, rec)" by force
  {
    case 1
    then show ?case using Cons.IH(1) mark_all_mono(1) [OF marks_mark_self] by (auto simp: x)
  next
    case 2
    then show ?case using Cons.IH(2) mark_all_mono(2) [OF marks_mark_Have_self] by (auto simp: x)
  }
qed simp_all

lemma mark_all_frontier_gen:
  assumes "frontier_gen gen d" and "\<And>i rec. (i, rec) \<in> set xs \<Longrightarrow> generation rec = gen i"
  shows "frontier_gen gen (mark_all flag d xs)"
  using assms
proof (induction xs arbitrary: d)
  case (Cons x xs)
  obtain i rec where x: "x = (i, rec)" by force
  have "frontier_gen gen (mark d i flag (gen i))"
    using Cons.prems(1)
    by (cases "absorbed d i flag") (auto simp: mark_absorbed mark_settles frontier_gen_def sorted_heap_push)
  then have "frontier_gen gen (mark_all flag (mark d i flag (gen i)) xs)"
    by (rule Cons.IH) (use Cons.prems(2) in simp)
  moreover have "generation rec = gen i" using Cons.prems(2) by (simp add: x)
  ultimately show ?case by (simp add: x)
qed simp

lemma mark_all_potential:
  assumes "finite V" and "fst ` set xs \<subseteq> V"
  shows "potential V (mark_all flag d xs) \<le> potential V d"
  using assms(2)
proof (induction xs arbitrary: d)
  case (Cons x xs)
  obtain i rec where x: "x = (i, rec)" by force
  have "potential V (mark_all flag (mark d i flag (generation rec)) xs) \<le> potential V (mark d i flag (generation rec))"
    using Cons by simp
  also have "\<dots> \<le> potential V d" using Cons.prems by (intro potential_mark [OF assms(1)]) (simp add: x)
  finally show ?case by (simp add: x)
qed simp

text \<open>The state the loop starts in.\<close>

lemma loop_inv_start:
  fixes haves wants :: "(ObjectId \<times> CommitGraphRecord) list"
  defines "d \<equiv> mark_all Want (mark_all Have discovery_default haves) wants"
  assumes records: "dom records = fst ` set haves \<union> fst ` set wants"
    and C: "C = fst ` set haves" and W: "fst ` set wants \<subseteq> W" "W \<subseteq> fst ` set wants \<union> C"
    and gen: "\<And>i rec. prec \<Longrightarrow> (i, rec) \<in> set haves \<union> set wants \<Longrightarrow> generation rec = gen i"
  shows "loop_inv G gen prec W C records (start d)"
    and "finite (reach G (W \<union> C)) \<Longrightarrow> potential (reach G (W \<union> C)) d \<le> 2 * card (reach G (W \<union> C))"
proof -
  have base: "walk_inv G W C records (start discovery_default) {}"
    by (simp add: walk_inv_def disc_inv_def discovery_default_def frontier_oids_def)
  have inC: "i \<in> reach G C" if "i \<in> C" for i using that reach_base by blast
  have inW: "i \<in> reach G W" if "i \<in> W" for i using that reach_base by blast
  have h: "walk_inv G W C records (start (mark_all Have discovery_default haves)) {}"
  proof (rule mark_all_walk_inv [OF base])
    fix i rec assume "(i, rec) \<in> set haves"
    then have "i \<in> fst ` set haves" by force
    then show "records i \<noteq> None \<and> i \<in> reach G (if Have = Have then C else W)"
      using records C inC by (auto simp flip: domIff)
  qed
  have inv: "walk_inv G W C records (start d) {}" unfolding d_def
  proof (rule mark_all_walk_inv [OF h])
    fix i rec assume "(i, rec) \<in> set wants"
    then have "i \<in> fst ` set wants" by force
    then show "records i \<noteq> None \<and> i \<in> reach G (if Want = Have then C else W)"
      using records W(1) inW by (auto simp flip: domIff)
  qed
  have marks: "marks d i \<noteq> None" if "i \<in> W" for i
  proof (cases "i \<in> fst ` set wants")
    case True
    then show ?thesis unfolding d_def by (rule mark_all_marks(1))
  next
    case False
    then have "i \<in> fst ` set haves" using that W(2) C by blast
    then show ?thesis unfolding d_def by (rule mark_all_mono(1) [OF mark_all_marks(1)])
  qed
  have "prec_inv G gen C (start d)" if prec
  proof -
    have "frontier_gen gen (mark_all Have discovery_default haves)"
      by (rule mark_all_frontier_gen) (use gen that in \<open>auto simp: frontier_gen_def discovery_default_def\<close>)
    then have "frontier_gen gen d" unfolding d_def by (rule mark_all_frontier_gen) (use gen that in auto)
    moreover have "marks d i = Some Have" if "i \<in> C" for i
      using that unfolding d_def C by (rule mark_all_mono(2) [OF mark_all_marks(2)])
    ultimately show ?thesis by (simp add: prec_inv_def haves_closed_def)
  qed
  moreover have "dom records \<subseteq> reach G (W \<union> C)"
    using records W(1) C reach_base [of "W \<union> C" G] by auto
  ultimately show "loop_inv G gen prec W C records (start d)"
    using inv marks by (simp add: loop_inv_def send_closed_def)
  show "potential (reach G (W \<union> C)) d \<le> 2 * card (reach G (W \<union> C))" if fin: "finite (reach G (W \<union> C))"
  proof -
    have "potential (reach G (W \<union> C)) d \<le> potential (reach G (W \<union> C)) discovery_default" unfolding d_def
      by (rule order.trans [OF mark_all_potential [OF fin] mark_all_potential [OF fin]])
        (use W(1) C reach_base [of "W \<union> C" G] in auto)
    then show ?thesis by (simp add: potential_def discovery_default_def)
  qed
qed

section \<open>The selection\<close>

text \<open>
  What a selection must be: the commits to send cover the history of the wants up to what is
  behind the recognized haves, and are part of it. With \<open>exact\<close> they are the difference.
\<close>

definition selection_ok ::
    "gix_object \<Rightarrow> (ObjectId \<rightharpoonup> Kind \<times> bytes) \<Rightarrow> bool \<Rightarrow> ObjectId list \<Rightarrow> ObjectId list \<Rightarrow> Selection \<Rightarrow> bool" where
  "selection_ok gx H exact wants haves sel \<longleftrightarrow>
     (\<exists>pcs commits tags.
        list_all2 (peels gx H) wants pcs \<and> to_send sel = commits @ tags \<and>
        distinct commits \<and> distinct tags \<and> set tags = (\<Union>c\<in>set pcs. set (snd c)) \<and>
        distinct (common sel) \<and> set (common sel) \<subseteq> set haves \<and>
        (let G = commit_graph_of gx H; W = fst ` set pcs; C = set (common sel) in
         reach G W \<subseteq> set commits \<union> reach G C \<and> set commits \<subseteq> reach G W \<and>
         (exact \<longrightarrow> set commits = reach G W - reach G C)))"

definition history_ids :: "graph \<Rightarrow> ObjectId set" where
  "history_ids G = dom G \<union> Range (parent_rel G)"

lemma reach_history:
  assumes "S \<subseteq> dom G"
  shows "reach G S \<subseteq> history_ids G"
proof
  fix c assume "c \<in> reach G S"
  then show "c \<in> history_ids G" by (induction rule: reach_induct) (use assms in \<open>auto simp: history_ids_def\<close>)
qed

text \<open>The errors of a selection: those of its lookups, those of a bad want, and running out of fuel.\<close>

definition select_error ::
    "gix_object \<Rightarrow> (ObjectId \<rightharpoonup> Kind \<times> bytes) \<Rightarrow> nat \<Rightarrow> (WalkError \<Rightarrow> bool) \<Rightarrow> ObjectId list \<Rightarrow> WalkError \<Rightarrow> bool" where
  "select_error gx H fuel E wants e \<longleftrightarrow>
     E e \<or> (\<exists>want\<in>set wants. peel_error want e) \<or>
     e = WalkDiverges \<and>
       ((\<exists>want\<in>set wants. tag_chain gx H fuel want) \<or>
        (finite (history_ids (commit_graph_of gx H)) \<longrightarrow> fuel \<le> 2 * card (history_ids (commit_graph_of gx H))))"

lemma loop_end_selection:
  assumes inv: "loop_inv (commit_graph_of gx H) gen prec W (set com) records st" and "pending (ws_disc st) = {}"
    and pcs: "list_all2 (peels gx H) wants pcs" "W = fst ` set pcs"
    and tags: "set tags = (\<Union>c\<in>set pcs. set (snd c))" "distinct tags"
    and com: "distinct com" "set com \<subseteq> set haves"
  shows "selection_ok gx H prec wants haves
    \<lparr>to_send = ws_send st @ tags, common = com, bounded_by_haves = b\<rparr>"
proof -
  let ?G = "commit_graph_of gx H"
  from inv have I: "walk_inv ?G W (set com) records st {}" "send_closed ?G st"
    "\<forall>i\<in>W. marks (ws_disc st) i \<noteq> None" "prec \<Longrightarrow> prec_inv ?G gen (set com) st" by (auto simp: loop_inv_def)
  have 1: "reach ?G W \<subseteq> set (ws_send st) \<union> reach ?G (set com)"
    by (rule discovery_complete [OF I(1,2) assms(2) I(3)])
  have 2: "set (ws_send st) \<subseteq> reach ?G W" "distinct (ws_send st)" using walk_invD(5,6) [OF I(1)] by auto
  have 3: "prec \<longrightarrow> set (ws_send st) = reach ?G W - reach ?G (set com)"
    using 1 2(1) I(4) by (auto simp: prec_inv_def)
  show ?thesis
    unfolding selection_ok_def Let_def
    by (intro exI [of _ pcs] exI [of _ "ws_send st"] exI [of _ tags]) (use 1 2 3 pcs tags com in simp)
qed

context walk_source
begin

lemma peels_oid:
  assumes "peels (w_gix w) H i c" and "oid_ok i"
  shows "oid_ok (fst c)"
  using assms by (induction rule: peels.induct) (auto intro: tag_target_oid [OF gix_laws])

lemma select_wants_spec:
  assumes oids: "\<forall>i\<in>set wants. oid_ok i"
    and prec: "prec \<Longrightarrow> topo G gen" "\<And>i g. prec \<Longrightarrow> good i g \<Longrightarrow> g = gen i"
    and h: "fetched_agrees hs" "cache_agrees records" "dom records = {i. \<exists>rec. (i, Inr rec) \<in> set hs}"
    and com: "com = map fst (recognized hs)" "distinct com" "set com \<subseteq> set haves" "set com = dom records"
  shows "eff_spec I (select_error (w_gix w) H (w_fuel w) E wants) (selection_ok (w_gix w) H prec wants haves)
    (eff_bind (peel_wants w wants) (\<lambda>(commit_wants, tags).
     eff_bind (prefetch_records w records commit_wants) (\<lambda>(fetched, records).
     eff_bind (eff_lift (mark_wants (mark_all Have discovery_default (recognized hs)) fetched)) (\<lambda>d.
     eff_bind (select_loop w (w_fuel w) records (start d)) (\<lambda>st.
     eff_return \<lparr>to_send = ws_send st @ tags, common = com,
                 bounded_by_haves = (frontier (ws_disc st) \<noteq> [])\<rparr>)))))"
proof (rule eff_spec_bind)
  let ?E = "select_error (w_gix w) H (w_fuel w) E wants" and ?P = "selection_ok (w_gix w) H prec wants haves"
  let ?d0 = "mark_all Have discovery_default (recognized hs)"
  show "eff_spec I ?E (\<lambda>(commits, tags). \<exists>pcs. list_all2 (peels (w_gix w) H) wants pcs \<and>
      commits = map fst pcs \<and> set tags = (\<Union>c\<in>set pcs. set (snd c)) \<and> distinct tags) (peel_wants w wants)"
    by (rule eff_spec_weaken [OF peel_wants_spec [OF oids]]) (auto simp: select_error_def)
  fix x
  assume "case x of (commits, tags) \<Rightarrow> \<exists>pcs. list_all2 (peels (w_gix w) H) wants pcs \<and>
      commits = map fst pcs \<and> set tags = (\<Union>c\<in>set pcs. set (snd c)) \<and> distinct tags"
  then obtain pcs tags where x: "x = (map fst pcs, tags)"
    and pcs: "list_all2 (peels (w_gix w) H) wants pcs"
    and tags: "set tags = (\<Union>c\<in>set pcs. set (snd c))" "distinct tags" by auto
  have W: "oid_ok i" if "i \<in> set (map fst pcs)" for i
    using that list_all2_right [OF pcs] peels_oid oids by fastforce
  have fetch: "eff_spec I ?E
      (\<lambda>(fetched, cache'). fetched_agrees fetched \<and> cache_agrees cache' \<and>
         map fst fetched = cache_misses records {} (map fst pcs) \<and>
         dom cache' = dom records \<union> {i. \<exists>rec. (i, Inr rec) \<in> set fetched})
      (prefetch_records w records (map fst pcs))"
    by (rule eff_spec_weaken [OF prefetch_spec [OF _ h(2)]]) (use W in auto)
  have loop: "eff_spec I ?E ?P
      (eff_bind (select_loop w (w_fuel w) records' (start (mark_all Want ?d0 (recognized ws)))) (\<lambda>st.
       eff_return \<lparr>to_send = ws_send st @ tags, common = com,
                   bounded_by_haves = (frontier (ws_disc st) \<noteq> [])\<rparr>))"
    if f: "fetched_agrees ws" "cache_agrees records'" "map fst ws = cache_misses records {} (map fst pcs)"
      "dom records' = dom records \<union> {i. \<exists>rec. (i, Inr rec) \<in> set ws}"
      and all: "map fst (recognized ws) = map fst ws" for ws records'
  proof (rule eff_spec_bind)
    let ?W = "fst ` set pcs" and ?V = "reach G (fst ` set pcs \<union> set com)"
    have rec: "fst ` set (recognized ws) = ?W - dom records"
      using arg_cong [OF trans [OF all f(3)], of set] by (auto simp: cache_misses_set)
    have dom': "dom records' = fst ` set (recognized hs) \<union> fst ` set (recognized ws)"
      by (simp add: f(4) h(3) recognized_ids)
    have gen: "generation r = gen i" if prec "(i, r) \<in> set (recognized hs) \<union> set (recognized ws)" for i r
      using that prec(2) h(1) f(1) by (auto simp: recognized_set fetched_agrees_def record_agrees_def)
    note init = loop_inv_start [where G = G and haves = "recognized hs" and wants = "recognized ws" and W = ?W
        and C = "set com" and records = records' and prec = prec and gen = gen, OF dom']
    have C: "set com = fst ` set (recognized hs)" by (simp add: com(1))
    have sub: "?W \<subseteq> fst ` set (recognized ws) \<union> set com" using rec com(4) by blast
    have sup: "fst ` set (recognized ws) \<subseteq> ?W" using rec by blast
    have inv: "loop_inv G gen prec ?W (set com) records' (start (mark_all Want ?d0 (recognized ws)))"
      by (rule init(1) [OF C sup sub]) (rule gen)
    have pot: "finite ?V \<Longrightarrow> potential ?V (mark_all Want ?d0 (recognized ws)) \<le> 2 * card ?V"
      by (rule init(2) [OF C sup sub]) (rule gen)
    have "dom records' \<subseteq> dom G" using f(2) by (auto simp: cache_agrees_def record_agrees_def)
    then have V: "?V \<subseteq> history_ids G" 
      by (intro reach_history, elim order.trans [rotated])
        (use sub in \<open>simp add: dom' C sup_commute\<close>)
    show "eff_spec I ?E (\<lambda>st'. (\<exists>records'. loop_inv G gen prec ?W (set com) records' st') \<and> pending (ws_disc st') = {})
        (select_loop w (w_fuel w) records' (start (mark_all Want ?d0 (recognized ws))))"
    proof (rule eff_spec_weaken [OF select_loop_spec [OF prec f(2) inv]])
      fix e assume "E e \<or> e = WalkDiverges \<and> (finite ?V \<longrightarrow>
          w_fuel w \<le> potential ?V (ws_disc (start (mark_all Want ?d0 (recognized ws)))))"
      moreover have "w_fuel w \<le> 2 * card (history_ids G)"
        if "finite (history_ids G)" "w_fuel w \<le> potential ?V (mark_all Want ?d0 (recognized ws))"
        using pot [OF finite_subset [OF V that(1)]] card_mono [OF that(1) V] that(2) by simp
      ultimately show "?E e" using finite_subset [OF V] by (auto simp: select_error_def)
    qed
    fix st assume "(\<exists>records'. loop_inv G gen prec ?W (set com) records' st) \<and> pending (ws_disc st) = {}"
    then show "eff_spec I ?E ?P (eff_return \<lparr>to_send = ws_send st @ tags, common = com,
        bounded_by_haves = (frontier (ws_disc st) \<noteq> [])\<rparr>)"
      using loop_end_selection [OF _ _ pcs refl tags com(2,3)] by blast
  qed
  have marks: "eff_spec I ?E (\<lambda>d. d = mark_all Want ?d0 (recognized ws) \<and> map fst (recognized ws) = map fst ws)
      (eff_lift (mark_wants ?d0 ws))" if "fetched_agrees ws" for ws
    by (rule eff_spec_lift)
      (use mark_wants_Inl [of ?d0 ws] mark_wants_Inr [of ?d0 ws] that in \<open>auto simp: select_error_def fetched_agrees_def\<close>)
  show "eff_spec I ?E ?P (case x of (commit_wants, tags) \<Rightarrow>
     eff_bind (prefetch_records w records commit_wants) (\<lambda>(fetched, records).
     eff_bind (eff_lift (mark_wants ?d0 fetched)) (\<lambda>d.
     eff_bind (select_loop w (w_fuel w) records (start d)) (\<lambda>st.
     eff_return \<lparr>to_send = ws_send st @ tags, common = com,
                 bounded_by_haves = (frontier (ws_disc st) \<noteq> [])\<rparr>))))"
    unfolding x prod.case
    by (rule eff_spec_bind [OF fetch], clarify, rule eff_spec_bind [OF marks], assumption, clarify, rule loop)
qed

lemma select_commits_spec:
  assumes oids: "\<forall>i\<in>set wants. oid_ok i" "\<forall>i\<in>set haves. oid_ok i"
    and prec: "prec \<Longrightarrow> topo G gen" "\<And>i g. prec \<Longrightarrow> good i g \<Longrightarrow> g = gen i"
  shows "eff_spec I (select_error (w_gix w) H (w_fuel w) E wants) (selection_ok (w_gix w) H prec wants haves)
    (select_commits w wants haves)"
  unfolding select_commits_def
proof (rule eff_spec_bind)
  let ?E = "select_error (w_gix w) H (w_fuel w) E wants" and ?P = "selection_ok (w_gix w) H prec wants haves"
  show "eff_spec I ?E
      (\<lambda>(fetched, cache'). fetched_agrees fetched \<and> cache_agrees cache' \<and> map fst fetched = cache_misses Map.empty {} haves \<and>
         dom cache' = dom Map.empty \<union> {i. \<exists>rec. (i, Inr rec) \<in> set fetched}) (prefetch_records w Map.empty haves)"
    by (rule eff_spec_weaken [OF prefetch_spec]) (use oids(2) in \<open>auto simp: cache_agrees_def\<close>)
  fix x
  assume "case x of (fetched, cache') \<Rightarrow> fetched_agrees fetched \<and> cache_agrees cache' \<and>
      map fst fetched = cache_misses Map.empty {} haves \<and>
      dom cache' = dom Map.empty \<union> {i. \<exists>rec. (i, Inr rec) \<in> set fetched}"
  then obtain hs records where x: "x = (hs, records)" and h: "fetched_agrees hs" "cache_agrees records"
    "map fst hs = cache_misses Map.empty {} haves" "dom records = {i. \<exists>rec. (i, Inr rec) \<in> set hs}" by auto
  define com where "com = map fst (recognized hs)"
  have com: "distinct com" "set com \<subseteq> set haves" "set com = dom records"
  proof -
    show "distinct com" unfolding com_def by (rule recognized_distinct) (simp add: h(3) cache_misses_distinct)
    show "set com = dom records" by (simp add: com_def h(4) recognized_ids)
    moreover have "dom records \<subseteq> fst ` set hs" 
    proof
      fix i assume "i \<in> dom records"
      then obtain rec where "(i, Inr rec) \<in> set hs" unfolding h(4) by blast
      then show "i \<in> fst ` set hs" by (rule image_eqI [rotated]) simp
    qed
    moreover have "fst ` set hs \<subseteq> set haves" 
      unfolding set_map [symmetric] h(3) cache_misses_set by blast
    ultimately show "set com \<subseteq> set haves" by blast
  qed
  show "eff_spec I ?E ?P (case x of (fetched, records) \<Rightarrow>
     eff_bind (eff_lift (mark_haves discovery_default [] fetched)) (\<lambda>(d, com).
     eff_bind (peel_wants w wants) (\<lambda>(commit_wants, tags).
     eff_bind (prefetch_records w records commit_wants) (\<lambda>(fetched, records).
     eff_bind (eff_lift (mark_wants d fetched)) (\<lambda>d.
     eff_bind (select_loop w (w_fuel w) records \<lparr>ws_disc = d, ws_done = {}, ws_send = []\<rparr>) (\<lambda>st.
     eff_return \<lparr>to_send = ws_send st @ tags, common = com,
                 bounded_by_haves = (frontier (ws_disc st) \<noteq> [])\<rparr>))))))"
    unfolding x prod.case
  proof (rule eff_spec_bind)
    show "eff_spec I ?E (\<lambda>y. y = (mark_all Have discovery_default (recognized hs), com))
        (eff_lift (mark_haves discovery_default [] hs))"
      by (rule eff_spec_lift)
        (use mark_haves_Inl [of discovery_default "[]" hs] mark_haves_Inr [of discovery_default "[]" hs] h(1)
          in \<open>auto simp: select_error_def fetched_agrees_def com_def\<close>)
  qed (use select_wants_spec [OF oids(1) prec h(1,2,4) com_def com] in \<open>simp\<close>)
qed

end

end
