(* ===== verification/Walk_Storage.thy ===== *)
theory Walk_Storage
  imports Select_Correct
begin

text \<open>
  The storage stack provides what the walks rely on: over an engine and an object store that
  obey their contracts, with other writers that keep the database invariant and write only
  commit-graph records that agree with the commit objects.
\<close>

definition graph_ok ::
    "gix_object \<Rightarrow> (ObjectId \<rightharpoonup> Kind \<times> bytes) \<Rightarrow> (ObjectId \<Rightarrow> u32 \<Rightarrow> bool) \<Rightarrow> RepoId \<Rightarrow> kvmap \<Rightarrow> bool" where
  "graph_ok gx H good repo m \<longleftrightarrow>
     (\<forall>i v rec. oid_ok i \<longrightarrow> m (commit_key repo i) = Some v \<longrightarrow> graph_decode v (oid_kind i) = Inr rec \<longrightarrow>
        record_agrees (commit_graph_of gx H) good i rec)"

definition walk_ok ::
    "('s, 't) walker \<Rightarrow> ('s \<Rightarrow> kvmap) \<Rightarrow> ('s \<Rightarrow> (str \<rightharpoonup> bytes)) \<Rightarrow> (ObjectId \<rightharpoonup> Kind \<times> bytes)
      \<Rightarrow> (ObjectId \<Rightarrow> u32 \<Rightarrow> bool) \<Rightarrow> 's \<Rightarrow> bool" where
  "walk_ok w kv rest H good s \<longleftrightarrow>
     odb_ok (w_zlib w) H (kv s) (rest s) \<and> graph_ok (w_gix w) H good (w_repo w) (kv s)"

lemma odb_ok_commit_key: "odb_ok Z H (m(commit_key repo i \<mapsto> v)) b \<longleftrightarrow> odb_ok Z H m b"
  by (simp add: odb_ok_def)

text \<open>A record that decodes after being encoded is the record, whatever its parent count.\<close>

lemma graph_redecode:
  assumes "graph_uniform k rec" and "graph_decode (graph_encode rec) k = Inr rec'"
  shows "rec' = rec"
proof (cases "length (parents rec) \<le> 255")
  case True
  with assms show ?thesis using graph_decode_encode [of k rec] by (simp add: graph_wf_def)
next
  case False
  with assms show ?thesis using graph_count_wraps [of k rec] by simp
qed

lemma agrees_uniform:
  assumes "gix_ok gx" and "record_agrees (commit_graph_of gx H) good i rec"
  shows "graph_uniform (oid_kind i) rec"
  using assms
  by (auto simp: record_agrees_def commit_graph_of_def gix_ok_def graph_uniform_def
      split: option.splits prod.splits Kind.splits)

lemma graph_ok_put:
  assumes "gix_ok gx" and "graph_ok gx H good repo m" and "record_agrees (commit_graph_of gx H) good i rec"
  shows "graph_ok gx H good repo (m(commit_key repo i \<mapsto> graph_encode rec))"
  unfolding graph_ok_def
proof (intro allI impI)
  fix j v rec'
  assume j: "oid_ok j" "(m(commit_key repo i \<mapsto> graph_encode rec)) (commit_key repo j) = Some v"
    "graph_decode v (oid_kind j) = Inr rec'"
  show "record_agrees (commit_graph_of gx H) good j rec'"
  proof (cases "j = i")
    case True
    with j graph_redecode [OF agrees_uniform [OF assms(1,3)]] assms(3) show ?thesis by auto
  next
    case False
    with j assms(2) show ?thesis by (auto simp: graph_ok_def)
  qed
qed

locale walker_env = storage_laws "w_db w" kv rest env snap reads writes "w_os w"
  for w :: "('s, 't) walker" and kv :: "'s \<Rightarrow> kvmap" and rest :: "'s \<Rightarrow> (str \<rightharpoonup> bytes)"
    and env :: "'s \<Rightarrow> 's \<Rightarrow> bool" and snap :: "'t \<Rightarrow> kvmap" and reads :: "'t \<Rightarrow> bytes set"
    and writes :: "'t \<Rightarrow> (bytes \<rightharpoonup> bytes option)" +
  fixes H :: "ObjectId \<rightharpoonup> Kind \<times> bytes" and good :: "ObjectId \<Rightarrow> u32 \<Rightarrow> bool"
  assumes objects_rely: "env s s' \<Longrightarrow> odb_rely (w_zlib w) H (kv s) (rest s) (kv s') (rest s')"
    and graph_rely: "env s s' \<Longrightarrow> graph_ok (w_gix w) H good (w_repo w) (kv s) \<Longrightarrow>
      graph_ok (w_gix w) H good (w_repo w) (kv s')"
    and generations: "commit_graph_of (w_gix w) H i = Some (t, ps) \<Longrightarrow>
      (\<And>p. p \<in> set ps \<Longrightarrow> \<exists>g. gens p = Some g \<and> good p g) \<Longrightarrow> good i (next_generation gens ps)"
    and parsers: "gix_ok (w_gix w)"
begin

text \<open>Reads are steps of the environment.\<close>

lemma env_spec_get: "eff_spec (env s0) (\<lambda>e. True) (\<lambda>x. True) (db_get (w_db w) k)"
  using get_law env_trans by (auto simp: eff_spec_def split: sum.splits)

lemma env_spec_os_get: "eff_spec (env s0) (\<lambda>e. True) (\<lambda>x. True) (os_get (w_os w) p)"
  using os_get_law env_trans by (auto simp: eff_spec_def split: sum.splits)

lemma env_spec_get_object: "eff_spec (env s0) (\<lambda>e. True) (\<lambda>x. True) (get_object (w_db w) repo i)"
  unfolding get_object_def
  by (intro eff_spec_bind [OF eff_spec_map_err [OF env_spec_get]] eff_spec_lift) auto

lemma env_spec_stream: "eff_spec (env s0) (\<lambda>e. True) (\<lambda>x. True) (record_stream (w_os w) i rec)"
  by (cases rec) (auto simp: record_stream_def blobs_get_def
      intro!: eff_spec_bind [OF eff_spec_map_err [OF env_spec_os_get]])

lemma env_spec_odb_get:
  "eff_spec (env s0) (\<lambda>e. True) (\<lambda>x. True) (odb_get (w_db w) (w_os w) (w_zlib w) repo i)"
  unfolding odb_get_def
  by (rule eff_spec_bind [OF eff_spec_map_err [OF env_spec_get_object]], simp, rule eff_spec_option)
    (auto intro!: eff_spec_bind [OF env_spec_stream] eff_spec_bind [where Q = "\<lambda>x. True"] eff_spec_lift split: prod.splits)

lemma env_spec_odb_size: "eff_spec (env s0) (\<lambda>e. True) (\<lambda>x. True) (odb_size (w_db w) repo i)"
  unfolding odb_size_def
  by (intro eff_spec_bind [OF eff_spec_map_err [OF env_spec_get_object]]) (auto split: option.splits)

lemma walk_ok_env: "env s s' \<Longrightarrow> walk_ok w kv rest H good s \<Longrightarrow> walk_ok w kv rest H good s'"
  using objects_rely [of s s'] graph_rely [of s s'] by (auto simp: walk_ok_def odb_rely_def)

text \<open>What a computation of environment steps keeps.\<close>

lemma env_spec_keeps:
  assumes "\<And>s0. eff_spec (env s0) (\<lambda>e. True) (\<lambda>x. True) m" and "m s = (r, s')" and "walk_ok w kv rest H good s"
  shows "walk_ok w kv rest H good s'"
  using walk_ok_env [OF eff_specD(1) [OF assms(1,2) env_refl] assms(3)] .

lemma read_ok_cases:
  assumes "read_ok r P known"
  shows "r = Inl e \<Longrightarrow> engine_error e" and "r = Inr c \<Longrightarrow> c = None \<or> (\<exists>x. c = Some x \<and> P x)"
  using assms by (auto simp: read_ok_def split: option.splits)

end

sublocale walker_env \<subseteq> object_source w "walk_ok w kv rest H good" H good
proof
  fix i :: ObjectId assume i: "oid_ok i"
  show "eff_spec (walk_ok w kv rest H good) storage_error (\<lambda>c. c = None \<or> c = H i) (w_get w i)"
    unfolding w_get_def
  proof (rule eff_spec_map_err, rule eff_specI)
    fix s r s' assume s: "walk_ok w kv rest H good s"
      and run: "odb_get (w_db w) (w_os w) (w_zlib w) (w_repo w) i s = (r, s')"
    have "odb_ok (w_zlib w) H (kv s) (rest s)" using s by (simp add: walk_ok_def)
    note R = odb_get_run [OF objects_rely this i run]
    show "walk_ok w kv rest H good s' \<and> (case r of Inl e \<Rightarrow> True | Inr c \<Rightarrow> c = None \<or> c = H i)"
      using env_spec_keeps [OF env_spec_odb_get run s] R
      by (auto simp: read_ok_def split: sum.splits option.splits)
  qed simp
  show "eff_spec (walk_ok w kv rest H good) (\<lambda>e. True) (\<lambda>c. c = None \<or> (\<exists>x. c = Some x \<and> size_agrees H i x))
      (odb_size (w_db w) (w_repo w) i)"
  proof (rule eff_specI)
    fix s r s' assume s: "walk_ok w kv rest H good s" and run: "odb_size (w_db w) (w_repo w) i s = (r, s')"
    have "odb_ok (w_zlib w) H (kv s) (rest s)" using s by (simp add: walk_ok_def)
    note R = odb_size_run [OF objects_rely this i run]
    show "walk_ok w kv rest H good s' \<and>
        (case r of Inl e \<Rightarrow> True | Inr c \<Rightarrow> c = None \<or> (\<exists>x. c = Some x \<and> size_agrees H i x))"
      using env_spec_keeps [OF env_spec_odb_size run s] R
      by (auto simp: read_ok_def size_agrees_def split: sum.splits option.splits)
  qed
  show "eff_spec (walk_ok w kv rest H good) (\<lambda>e. True)
      (\<lambda>c. c = None \<or> (\<exists>rec. c = Some rec \<and> record_agrees (commit_graph_of (w_gix w) H) good i rec))
      (get_commit_graph (w_db w) (w_repo w) i)"
  proof (rule eff_specI)
    fix s r s' assume s: "walk_ok w kv rest H good s" and run: "get_commit_graph (w_db w) (w_repo w) i s = (r, s')"
    obtain g where g: "db_get (w_db w) (commit_key (w_repo w) i) s = (g, s')"
      and r: "r = and_then (map_err SDb g) (decode_opt (\<lambda>bs. graph_decode bs (oid_kind i)))"
      using run by (auto simp: get_commit_graph_def eff_bind_def eff_map_err_def eff_lift_def split: prod.splits sum.splits)
    from get_law [OF g] have e: "env s s'" and v: "\<And>v. g = Inr v \<Longrightarrow> v = kv s' (commit_key (w_repo w) i)" by auto
    have s': "walk_ok w kv rest H good s'" by (rule walk_ok_env [OF e s])
    have "record_agrees (commit_graph_of (w_gix w) H) good i rec" if "r = Inr (Some rec)" for rec
      using that r v s' i by (cases g) (auto simp: walk_ok_def graph_ok_def decode_opt_def and_then_eq_Inr map_err_eq_Inr split: option.splits)
    then show "walk_ok w kv rest H good s' \<and> (case r of Inl e \<Rightarrow> True
        | Inr c \<Rightarrow> c = None \<or> (\<exists>rec. c = Some rec \<and> record_agrees (commit_graph_of (w_gix w) H) good i rec))"
      using s' by (auto split: sum.splits)
  qed
  fix rec d assume rec: "record_agrees (commit_graph_of (w_gix w) H) good i rec"
  show "eff_spec (walk_ok w kv rest H good) (\<lambda>e. True) (\<lambda>x. True) (put_commit_graph (w_db w) (w_repo w) i rec d)"
    unfolding put_commit_graph_def
  proof (rule eff_spec_map_err, rule eff_specI)
    fix s r s' assume s: "walk_ok w kv rest H good s"
      and put: "db_put (w_db w) (commit_key (w_repo w) i) (graph_encode rec) (await_durable d) s = (r, s')"
    from put_law [OF put] have "walk_ok w kv rest H good s'"
    proof
      assume "\<exists>u. env s u \<and> rest s' = rest u \<and> kv s' = (kv u)(commit_key (w_repo w) i \<mapsto> graph_encode rec)"
      then obtain u where u: "env s u" "rest s' = rest u"
        "kv s' = (kv u)(commit_key (w_repo w) i \<mapsto> graph_encode rec)" by blast
      from walk_ok_env [OF u(1) s] u(2,3) show ?thesis
        using graph_ok_put [OF parsers _ rec] by (auto simp: walk_ok_def odb_ok_commit_key)
    qed (use walk_ok_env [OF _ s] in blast)
    then show "walk_ok w kv rest H good s' \<and> (case r of Inl e \<Rightarrow> True | Inr x \<Rightarrow> True)" by (simp split: sum.splits)
  qed simp
qed (use generations parsers in auto)

end
