(* ===== verification/Samples.thy ===== *)
theory Samples
  imports Walk_Storage
begin

text \<open>
  Concrete repositories for the witnesses: a parser of fixed-width bodies, and the in-memory
  stack holding a given list of objects, all inline.
\<close>

text \<open>A commit is its tree and its parents, a tag its target, a tree a list of mode, name and id.\<close>

definition flat_tree_entry :: "bytes \<Rightarrow> unit + TreeMode \<times> bytes \<times> ObjectId" where
  "flat_tree_entry bs =
     (case bs of
        m # c # i \<Rightarrow> Inr (if m = 0 then ModeTree else if m = 1 then ModeCommit else ModeOther, [c], i)
      | _ \<Rightarrow> Inl ())"

definition flat_gix :: gix_object where
  "flat_gix = \<lparr>
     commit_from_bytes = (\<lambda>body k. let n = len_in_bytes k in
       if n \<le> length body \<and> list_all (\<lambda>c. length c = n) (chunks n (drop n body))
       then Some (take n body, chunks n (drop n body)) else None),
     tag_from_bytes = (\<lambda>body k. if length body = len_in_bytes k then Some body else None),
     tree_entries = (\<lambda>body k. let n = len_in_bytes k in
       if list_all (\<lambda>c. length c = n + 2) (chunks (n + 2) body) then map flat_tree_entry (chunks (n + 2) body)
       else [Inl ()])\<rparr>"

lemma flat_gix_ok: "gix_ok flat_gix"
proof -
  have "length i = n" if "Inr (mode, name, i) \<in> set (map flat_tree_entry cs)" "list_all (\<lambda>c. length c = n + 2) cs"
    for mode name i n and cs :: "bytes list"
    using that by (auto simp: flat_tree_entry_def list_all_iff split: list.splits)
  then show ?thesis
    unfolding gix_ok_def flat_gix_def
    by (auto simp: Let_def list_all_iff split: if_splits)
qed

type_synonym object_table = "(ObjectId \<times> Kind \<times> bytes) list"

definition inline_cfg :: ObjectDbConfig where
  "inline_cfg = \<lparr>inline_threshold = 1000, compression_level = 6\<rparr>"

lemma inline_level: "compression_level inline_cfg \<le> 9"
  by (simp add: inline_cfg_def)

definition object_rows :: "RepoId \<Rightarrow> object_table \<Rightarrow> table" where
  "object_rows repo objs =
     map (\<lambda>(i, kind, body). (object_key repo i, record_encode (record_for stored_zlib inline_cfg kind body))) objs"

definition repo_world :: "RepoId \<Rightarrow> object_table \<Rightarrow> mem_world" where
  "repo_world repo objs = (object_rows repo objs, [])"

definition mem_walker :: "RepoId \<Rightarrow> nat \<Rightarrow> (mem_world, mem_txn) walker" where
  "mem_walker repo fuel = \<lparr>w_db = mem_db, w_os = mem_os, w_zlib = stored_zlib, w_gix = flat_gix, w_repo = repo, w_fuel = fuel\<rparr>"

lemma object_rows_lookup:
  "map_of (object_rows repo objs) (object_key repo' i) =
     (if repo' = repo
      then map_option (\<lambda>(kind, body). record_encode (record_for stored_zlib inline_cfg kind body)) (map_of objs i)
      else None)"
  by (induction objs) (auto simp: object_rows_def)

lemma object_rows_commit [simp]: "map_of (object_rows repo objs) (commit_key repo' i) = None"
  by (induction objs) (auto simp: object_rows_def)

lemma object_rows_ref [simp]: "map_of (object_rows repo objs) (ref_key repo' n) = None"
  by (induction objs) (auto simp: object_rows_def)

lemma repo_world_ok:
  assumes "list_all (\<lambda>(i, kind, body). length body \<le> 1000) objs" and "map_of objs \<subseteq>\<^sub>m H"
  shows "odb_ok stored_zlib H (mem_kv (repo_world repo objs)) (mem_rest (repo_world repo objs))"
proof
  fix repo' i v assume "oid_ok i" "mem_kv (repo_world repo objs) (object_key repo' i) = Some v"
  then obtain kind body where b: "map_of objs i = Some (kind, body)"
    "v = record_encode (record_for stored_zlib inline_cfg kind body)"
    by (auto simp: mem_kv_def repo_world_def object_rows_lookup split: if_splits)
  have n: "length body \<le> 1000" using assms(1) map_of_SomeD [OF b(1)] by (auto simp: list_all_iff)
  have this_holds: "record_holds stored_zlib (mem_rest (repo_world repo objs)) i v kind body"
    unfolding b(2) by (rule record_for_holds [OF stored_zlib_ok _ inline_level]) (use n in \<open>auto simp: offloaded_def inline_cfg_def\<close>)
  from assms(2) b(1) have "H i = Some (kind, body)" by (auto simp: map_le_def dest!: bspec [of _ _ i])
  with this_holds show "\<exists>kind body. H i = Some (kind, body) \<and>
      record_holds stored_zlib (mem_rest (repo_world repo objs)) i v kind body" by blast
qed (auto simp: mem_rest_def repo_world_def)

lemma mem_walk_part_ok:
  assumes "list_all (\<lambda>(i, kind, body). length body \<le> 1000) objs" and "map_of objs \<subseteq>\<^sub>m H"
  shows "walk_ok (mem_walker repo fuel) mem_kv mem_rest H good (repo_world repo objs)"
  using repo_world_ok [OF assms, of repo]
  by (simp add: walk_ok_def mem_walker_def graph_ok_def) (simp add: mem_kv_def repo_world_def)

lemma mem_walk_ok:
  assumes "list_all (\<lambda>(i, kind, body). length body \<le> 1000) objs"
  shows "walk_ok (mem_walker repo fuel) mem_kv mem_rest (map_of objs) good (repo_world repo objs)"
  by (rule mem_walk_part_ok [OF assms map_le_refl])

lemma mem_walker_env:
  assumes "\<And>i t ps gens. commit_graph_of flat_gix H i = Some (t, ps) \<Longrightarrow>
      (\<And>p. p \<in> set ps \<Longrightarrow> \<exists>g. gens p = Some g \<and> good p g) \<Longrightarrow> good i (next_generation gens ps)"
  shows "walker_env (mem_walker repo fuel) mem_kv mem_rest (=) (\<lambda>t. map_of (t_snap t))
    (\<lambda>t. set (t_reads t)) (\<lambda>t. map_of (t_writes t)) H good"
proof -
  have "storage_laws (w_db (mem_walker repo fuel)) mem_kv mem_rest (=) (\<lambda>t. map_of (t_snap t))
    (\<lambda>t. set (t_reads t)) (\<lambda>t. map_of (t_writes t)) (w_os (mem_walker repo fuel))"
    using mem_storage.storage_laws_axioms by (simp add: mem_walker_def)
  then show ?thesis
    by (rule walker_env.intro, unfold_locales) (use assms flat_gix_ok in \<open>auto simp: mem_walker_def\<close>)
qed

interpretation mem_walks: walker_env "mem_walker repo fuel" mem_kv mem_rest "(=)" "\<lambda>t. map_of (t_snap t)"
    "\<lambda>t. set (t_reads t)" "\<lambda>t. map_of (t_writes t)" H "\<lambda>i g. True" for repo fuel H
  by (rule mem_walker_env) simp

section \<open>A small history\<close>

text \<open>
  Two commits, a tag of the second, their trees (one shared subtree, a submodule) and blobs.
\<close>

definition sid :: "u8 \<Rightarrow> ObjectId" where
  "sid n = replicate 20 n"

definition small_objects :: object_table where
  "small_objects =
    [(sid 1, KCommit, sid 11),
     (sid 2, KCommit, sid 12 @ sid 1),
     (sid 3, KTag, sid 2),
     (sid 11, KTree, [0, 97] @ sid 13 @ [2, 98] @ sid 21),
     (sid 12, KTree, [0, 97] @ sid 13 @ [2, 98] @ sid 22 @ [1, 99] @ sid 99),
     (sid 13, KTree, [2, 100] @ sid 23),
     (sid 21, KBlob, [1]), (sid 22, KBlob, [2, 2]), (sid 23, KBlob, [3])]"

abbreviation small_world :: mem_world where
  "small_world \<equiv> repo_world (RepoId 3) small_objects"

lemma sid_inject [simp]: "sid a = sid b \<longleftrightarrow> a = b"
  by (simp add: sid_def)

lemma sid_ok [simp]: "oid_ok (sid n)"
  by (simp add: sid_def oid_ok_def)

lemma sid_kind [simp]: "oid_kind (sid n) = Sha1"
  by (simp add: sid_def oid_kind_def)

lemma small_bodies: "list_all (\<lambda>(i, kind, body). length body \<le> 1000) small_objects"
  by code_simp

lemma small_commits:
  "commit_from_bytes flat_gix (sid 11) Sha1 = Some (sid 11, [])"
  "commit_from_bytes flat_gix (sid 12 @ sid 1) Sha1 = Some (sid 12, [sid 1])"
  by code_simp+

lemma small_tags: "tag_from_bytes flat_gix (sid 2) Sha1 = Some (sid 2)"
  by code_simp

lemma small_graph:
  "commit_graph_of flat_gix (map_of small_objects) = [sid 1 \<mapsto> (sid 11, []), sid 2 \<mapsto> (sid 12, [sid 1])]"
proof
  fix i
  consider "i = sid 1" | "i = sid 2" | "i \<notin> {sid 1, sid 2}" by blast
  then show "commit_graph_of flat_gix (map_of small_objects) i = ([sid 1 \<mapsto> (sid 11, []), sid 2 \<mapsto> (sid 12, [sid 1])]) i"
    by cases (auto simp: commit_graph_of_def small_objects_def small_commits split: if_splits)
qed

lemma small_parents: "parent_rel (commit_graph_of flat_gix (map_of small_objects)) = {(sid 2, sid 1)}"
  by (auto simp: small_graph parent_rel_def split: if_splits)

end
