(* ===== verification/Selection.thy ===== *)
theory Selection
  imports Samples
begin

text \<open>
  What commit selection guarantees over the storage stack, for every outcome: the history it
  covers, its exactness under true generation numbers, and that it ends.
\<close>

section \<open>Fuel\<close>

text \<open>
  A rank that decreases along parents and a bound on the number of parents bound the steps of
  a backfill; the loops of the selection itself are bounded by the size of the history and by
  the tag chains.
\<close>

definition enough_fuel ::
    "gix_object \<Rightarrow> (ObjectId \<rightharpoonup> Kind \<times> bytes) \<Rightarrow> nat \<Rightarrow> ObjectId list \<Rightarrow> (ObjectId \<Rightarrow> nat) \<Rightarrow> nat \<Rightarrow> nat \<Rightarrow> bool" where
  "enough_fuel gx H fuel wants rank B R \<longleftrightarrow>
     (\<forall>i t ps. commit_graph_of gx H i = Some (t, ps) \<longrightarrow> length ps \<le> B \<and> (\<forall>p\<in>set ps. rank p < rank i)) \<and>
     (\<forall>i. rank i \<le> R) \<and> (B + 2) ^ (R + 1) < fuel \<and>
     finite (history_ids (commit_graph_of gx H)) \<and> 2 * card (history_ids (commit_graph_of gx H)) < fuel \<and>
     (\<forall>want\<in>set wants. \<not> tag_chain gx H fuel want)"

text \<open>
  What a selection may end with besides a result: a failure of storage, an object that is missing,
  of the wrong kind or does not parse, a want of the request that is not stored, or one that leads
  to neither a commit nor a tag. A stalled
  discovery, a panic and a loop without end are none of these.
\<close>

fun storage_or_data_error :: "ObjectId list \<Rightarrow> WalkError \<Rightarrow> bool" where
  "storage_or_data_error wants (UnknownWant i) \<longleftrightarrow> i \<in> set wants"
| "storage_or_data_error wants (UnsupportedWant i kind) \<longleftrightarrow> kind \<noteq> KCommit \<and> kind \<noteq> KTag"
| "storage_or_data_error wants (DiscoveryStalled unresolved) \<longleftrightarrow> False"
| "storage_or_data_error wants WalkPanic \<longleftrightarrow> False"
| "storage_or_data_error wants WalkDiverges \<longleftrightarrow> False"
| "storage_or_data_error wants e \<longleftrightarrow> True"

lemma enough_fuel_costs:
  assumes "enough_fuel gx H fuel wants rank B R"
  shows "cost_bound (commit_graph_of gx H) (\<lambda>i. (B + 2) ^ (rank i + 1))" and "(B + 2) ^ (rank i + 1) < fuel"
proof -
  show "cost_bound (commit_graph_of gx H) (\<lambda>i. (B + 2) ^ (rank i + 1))"
    unfolding cost_bound_def
  proof (intro conjI allI impI)
    fix i t ps assume G: "commit_graph_of gx H i = Some (t, ps)"
    let ?x = "(B + 2) ^ rank i"
    have "(B + 2) ^ (rank p + 1) \<le> ?x" if "p \<in> set ps" for p
      using assms G that by (intro power_increasing) (auto simp: enough_fuel_def Suc_le_eq)
    then have "sum_list (map (\<lambda>p. (B + 2) ^ (rank p + 1)) ps) \<le> sum_list (map (\<lambda>p. ?x) ps)"
      by (intro sum_list_mono) auto
    also have "\<dots> = length ps * ?x" by (simp add: sum_list_triv)
    also have "\<dots> \<le> B * ?x" using assms G by (intro mult_right_mono) (auto simp: enough_fuel_def)
    finally have le: "sum_list (map (\<lambda>p. (B + 2) ^ (rank p + 1)) ps) \<le> B * ?x" .
    have "1 \<le> ?x" by simp
    moreover have "(B + 2) ^ (rank i + 1) = B * ?x + 2 * ?x" by (simp add: algebra_simps)
    ultimately show "Suc (sum_list (map (\<lambda>p. (B + 2) ^ (rank p + 1)) ps)) < (B + 2) ^ (rank i + 1)"
      using le by linarith
  qed (simp add: Suc_le_eq del: power_Suc)
  have "(B + 2) ^ (rank i + 1) \<le> (B + 2) ^ (R + 1)"
    using assms by (intro power_increasing) (auto simp: enough_fuel_def)
  then show "(B + 2) ^ (rank i + 1) < fuel" using assms by (auto simp: enough_fuel_def)
qed

context walker_env
begin

lemma select_run:
  assumes "list_all oid_ok wants" and "list_all oid_ok haves"
    and "exact \<Longrightarrow> topo (commit_graph_of (w_gix w) H) gen" "\<And>i g. exact \<Longrightarrow> good i g \<Longrightarrow> g = gen i"
  shows "eff_spec (walk_ok w kv rest H good) (select_error (w_gix w) H (w_fuel w) source_error wants)
    (selection_ok (w_gix w) H exact wants haves) (select_commits w wants haves)"
  using source.select_commits_spec [of wants haves exact gen] assms by (simp add: list_all_iff)

lemma select_bounded:
  assumes "list_all oid_ok wants" and "list_all oid_ok haves"
    and fuel: "enough_fuel (w_gix w) H (w_fuel w) wants rank B R"
  shows "eff_spec (walk_ok w kv rest H good) (storage_or_data_error wants)
    (selection_ok (w_gix w) H False wants haves) (select_commits w wants haves)"
proof -
  have "bounded_source w (walk_ok w kv rest H good) H good (\<lambda>i. (B + 2) ^ (rank i + 1))"
    by unfold_locales (use enough_fuel_costs [OF fuel] in auto)
  then have "walk_source w (walk_ok w kv rest H good) H good (\<lambda>e. source_error e \<and> e \<noteq> WalkDiverges)"
    by (rule bounded_source.bounded_walk_source)
  from walk_source.select_commits_spec [OF this, of wants haves False] assms(1,2)
  have "eff_spec (walk_ok w kv rest H good)
      (select_error (w_gix w) H (w_fuel w) (\<lambda>e. source_error e \<and> e \<noteq> WalkDiverges) wants)
      (selection_ok (w_gix w) H False wants haves) (select_commits w wants haves)"
    by (simp add: list_all_iff)
  then show ?thesis
  proof (rule eff_spec_weaken)
    fix e assume "select_error (w_gix w) H (w_fuel w) (\<lambda>e. source_error e \<and> e \<noteq> WalkDiverges) wants e"
    with fuel have "source_error e \<and> e \<noteq> WalkDiverges \<or> (\<exists>want\<in>set wants. peel_error want e)"
      by (auto simp: select_error_def enough_fuel_def)
    then show "storage_or_data_error wants e" by (cases e) (auto simp: peel_error_def)
  qed simp
qed

end

section \<open>Properties\<close>

text \<open>C17: A selection covers the history of the wants: every ancestor of a wanted (peeled) commit is
  sent or is an ancestor of a have the server recognized, whatever the generations stored in
  the commit graph; nothing outside that history is sent, every tag peeled through is sent, and
  only the client's haves are acknowledged. A failure is a storage error, a bad want or an object
  that does not parse, never a stall of the discovery and never a panic. The storage invariant
  is kept, with other writers active throughout.\<close>

theorem selection_covers_history:
  assumes "walker_env w kv rest env snap reads writes H good"
    and "walk_ok w kv rest H good s"
    and "list_all oid_ok wants" and "list_all oid_ok haves"
    and "select_commits w wants haves s = (r, s')"
  shows "walk_ok w kv rest H good s' \<and>
    (case r of
       Inl e \<Rightarrow> select_error (w_gix w) H (w_fuel w) source_error wants e
     | Inr sel \<Rightarrow> selection_ok (w_gix w) H False wants haves sel)"
  using walker_env.select_run [OF assms(1,3,4), of False] assms(2,5) by (simp add: eff_spec_def)

text \<open>C18: With the true generation numbers in the commit graph (one more than the greatest of the
  parents', none overflowing) the commits sent are exactly the ancestors of the wants that are
  not ancestors of a recognized have.\<close>

theorem selection_is_difference:
  assumes "walker_env w kv rest env snap reads writes H (\<lambda>i g. g = gen i)"
    and "topo (commit_graph_of (w_gix w) H) gen"
    and "walk_ok w kv rest H (\<lambda>i g. g = gen i) s"
    and "list_all oid_ok wants" and "list_all oid_ok haves"
    and "select_commits w wants haves s = (Inr sel, s')"
  shows "selection_ok (w_gix w) H True wants haves sel"
  using walker_env.select_run [OF assms(1,4,5), of True gen] assms(2,3,6)
  by (auto simp: eff_spec_def)

text \<open>C19: Commit selection ends: over a finite acyclic history whose commits have boundedly many parents,
  with tag chains that end and a fuel above an explicit bound in these numbers, it returns a
  selection that covers the wants, or an error of storage or data; it never stalls, panics or runs out of steps.\<close>

theorem selection_terminates:
  assumes "walker_env w kv rest env snap reads writes H good"
    and "walk_ok w kv rest H good s"
    and "list_all oid_ok wants" and "list_all oid_ok haves"
    and "enough_fuel (w_gix w) H (w_fuel w) wants rank B R"
    and "select_commits w wants haves s = (r, s')"
  shows "(\<exists>sel. r = Inr sel \<and> selection_ok (w_gix w) H False wants haves sel) \<or>
    (\<exists>e. r = Inl e \<and> storage_or_data_error wants e)"
  using walker_env.select_bounded [OF assms(1,3-5)] assms(2,6) by (cases r) (auto simp: eff_spec_def)

text \<open>C20: A backfill that finds the record of its own target in the store, because another backfill
  wrote it after the caller's lookup missed, reports the target itself as missing.\<close>

theorem backfill_loses_race:
  assumes "get_commit_graph (w_db w) (w_repo w) i s = (Inr (Some rec), s')" and "1 < w_fuel w"
  shows "backfill_commit_info w i s = (Inl (MissingObject i), s')"
proof -
  from assms(2) obtain n where "w_fuel w = Suc (Suc n)" by (cases "w_fuel w"; cases "w_fuel w - 1") auto
  with assms(1) show ?thesis
    by (simp add: backfill_commit_info_def eff_bind_def eff_map_err_def eff_return_def eff_lift_def)
qed

section \<open>Witnesses\<close>

abbreviation small_walker :: "(mem_world, mem_txn) walker" where
  "small_walker \<equiv> mem_walker (RepoId 3) 100"

definition small_selection :: Selection where
  "small_selection = \<lparr>to_send = [sid 2, sid 3], common = [sid 1], bounded_by_haves = True\<rparr>"

lemma small_select:
  "select_commits small_walker [sid 3] [sid 1] small_world =
     (Inr small_selection, snd (select_commits small_walker [sid 3] [sid 1] small_world))"
  by (rule prod_eqI) (code_simp, simp)

lemma mem_walker_simps [simp]: "w_gix (mem_walker repo n) = flat_gix" "w_fuel (mem_walker repo n) = n"
  by (simp_all add: mem_walker_def)

theorem selection_covers_history_witness:
  "walk_ok small_walker mem_kv mem_rest (map_of small_objects) (\<lambda>i g. True)
     (snd (select_commits small_walker [sid 3] [sid 1] small_world)) \<and>
   selection_ok flat_gix (map_of small_objects) False [sid 3] [sid 1] small_selection"
  using selection_covers_history [OF mem_walks.walker_env_axioms mem_walk_ok [OF small_bodies] _ _ small_select]
  by simp

definition small_gen :: "ObjectId \<Rightarrow> u32" where
  "small_gen i = (if i = sid 2 then 2 else 1)"

lemma small_next:
  assumes "commit_graph_of flat_gix (map_of small_objects) i = Some (t, ps)"
    and "\<And>p. p \<in> set ps \<Longrightarrow> \<exists>g. gens p = Some g \<and> g = small_gen p"
  shows "next_generation gens ps = small_gen i"
  using assms
  by (auto simp: small_graph next_generation_def map_filter_simps small_gen_def split: if_splits)

theorem selection_is_difference_witness:
  "selection_ok flat_gix (map_of small_objects) True [sid 3] [sid 1] small_selection"
  using selection_is_difference [OF mem_walker_env _ mem_walk_ok [OF small_bodies] _ _ small_select, of small_gen]
    small_next
  by (simp add: topo_def small_parents) (simp add: small_gen_def)

lemma small_tag_chain: "tag_chain flat_gix (map_of small_objects) n (sid 3) \<Longrightarrow> n \<le> 1"
  by (erule tag_chain.cases; simp; erule tag_chain.cases) (auto simp: small_objects_def small_tags)

lemma small_fuel: "enough_fuel flat_gix (map_of small_objects) 100 [sid 3] (\<lambda>i. if i = sid 2 then 1 else 0) 1 1"
proof -
  have "history_ids (commit_graph_of flat_gix (map_of small_objects)) = {sid 1, sid 2}"
    unfolding history_ids_def small_parents by (auto simp: small_graph)
  moreover have "\<not> tag_chain flat_gix (map_of small_objects) 100 (sid 3)" using small_tag_chain by fastforce
  ultimately show ?thesis by (auto simp: enough_fuel_def small_graph split: if_splits)
qed

theorem selection_terminates_witness:
  "selection_ok flat_gix (map_of small_objects) False [sid 3] [sid 1] small_selection"
  using selection_terminates [OF mem_walks.walker_env_axioms mem_walk_ok [OF small_bodies] _ _ _ small_select] small_fuel by simp

text \<open>The world in which the record of the first commit has just been written.\<close>

definition raced_world :: mem_world where
  "raced_world = snd (get_commit_info small_walker (sid 1) small_world)"

lemma raced_record:
  "get_commit_graph (w_db small_walker) (w_repo small_walker) (sid 1) raced_world =
     (Inr (Some \<lparr>generation = 1, root_tree = sid 11, parents = []\<rparr>), raced_world)"
  by (rule prod_eqI) (code_simp, simp add: mem_walker_def get_commit_graph_def eff_bind_def eff_map_err_def
      eff_lift_def mem_db_def split: sum.splits)

theorem backfill_loses_race_witness:
  "backfill_commit_info small_walker (sid 1) raced_world = (Inl (MissingObject (sid 1)), raced_world)"
  by (rule backfill_loses_race [OF raced_record]) simp

end
