(* ===== verification/Filters.thy ===== *)
theory Filters
  imports Walk
begin

text \<open>
  The \<^verbatim>\<open>filter\<close> argument of a fetch: exactly which texts are accepted and what they mean.
\<close>

definition unit_suffixes :: "(str \<times> nat) set" where
  "unit_suffixes = {([], 1), ([107], 1024), ([75], 1024), ([109], 1024 ^ 2), ([77], 1024 ^ 2),
     ([103], 1024 ^ 3), ([71], 1024 ^ 3)}"

definition signed_digits :: "str \<Rightarrow> nat \<Rightarrow> bool" where
  "signed_digits s n \<longleftrightarrow>
     (\<exists>ds. (s = ds \<or> s = 43 # ds) \<and> ds \<noteq> [] \<and> list_all is_digit ds \<and> digits_value ds = n)"

lemma u64_of_nat: "d < 2 ^ 64 \<Longrightarrow> word_of_nat d = (n :: u64) \<longleftrightarrow> d = unat n"
  by (auto simp: unsigned_of_nat take_bit_nat_eq_self)

lemma u64_lt: "unat (n :: u64) < 2 ^ 64"
  using unsigned_less [of n] by simp

lemma checked_mul_iff: "checked_mul x y = Some n \<longleftrightarrow> unat n = unat x * unat y"
proof (cases "unat x * unat y < 2 ^ 64")
  case True
  then have "unat (x * y) = unat x * unat y" by (simp add: unat_word_ariths take_bit_nat_eq_self)
  with True show ?thesis by (auto simp: checked_mul_def word_unat_eq_iff)
next
  case False
  with u64_lt [of n] show ?thesis by (auto simp: checked_mul_def)
qed

lemma parse_u64_iff: "parse_u64 s = Some n \<longleftrightarrow> signed_digits s (unat n)"
proof -
  define ds where "ds = (case s of c # cs \<Rightarrow> if c = 43 then cs else s | [] \<Rightarrow> s)"
  have ds: "(s = e \<or> s = 43 # e) \<and> e \<noteq> [] \<and> list_all is_digit e \<longleftrightarrow>
      e = ds \<and> ds \<noteq> [] \<and> list_all is_digit ds" for e
    by (cases s) (auto simp: ds_def is_digit_def split: if_splits)
  have "parse_u64 s = Some n \<longleftrightarrow> ds \<noteq> [] \<and> list_all is_digit ds \<and> digits_value ds = unat n"
    unfolding parse_u64_def ds_def [symmetric] Let_def
    using u64_of_nat [of "digits_value ds" n] u64_lt [of n] by auto
  also have "\<dots> \<longleftrightarrow> signed_digits s (unat n)"
    unfolding signed_digits_def using ds by metis
  finally show ?thesis .
qed

lemma digits_not_suffix: "signed_digits s n \<Longrightarrow> s \<noteq> [] \<and> is_digit (last s)"
  by (auto simp: signed_digits_def list_all_iff)

lemma parse_unit_size_iff:
  "parse_unit_size s = Some n \<longleftrightarrow> (\<exists>ds m u k. s = ds @ u \<and> (u, k) \<in> unit_suffixes \<and> signed_digits ds m \<and> unat n = m * k)"
proof -
  have scaled: "(case parse_u64 ds of None \<Rightarrow> None | Some x \<Rightarrow> checked_mul x y) = Some n \<longleftrightarrow>
      (\<exists>m. signed_digits ds m \<and> unat n = m * unat y)" if "y \<noteq> 0" for ds y
  proof -
    have bound: "m < 2 ^ 64" if "unat n = m * unat y" for m
    proof -
      have "1 \<le> unat y" using \<open>y \<noteq> 0\<close> by (simp add: unat_gt_0 Suc_leI)
      then have "m * 1 \<le> m * unat y" by (rule mult_le_mono2)
      then show ?thesis using u64_lt [of n] unfolding that mult_1_right by (rule order.strict_trans1)
    qed
    have "(\<exists>m. signed_digits ds m \<and> unat n = m * unat y) \<longleftrightarrow>
        (\<exists>x. parse_u64 ds = Some x \<and> unat n = unat x * unat y)"
      using bound u64_of_nat parse_u64_iff by metis
    then show ?thesis by (auto simp: checked_mul_iff split: option.splits)
  qed
  show ?thesis
  proof (cases s rule: rev_cases)
    case Nil
    then show ?thesis using digits_not_suffix by (auto simp: parse_unit_size_def)
  next
    case (snoc ds c)
    have plain: "(\<exists>ds' m u k. ds @ [c] = ds' @ u \<and> (u, k) \<in> unit_suffixes \<and> signed_digits ds' m \<and> unat n = m * k) \<longleftrightarrow>
        (is_digit c \<and> (\<exists>m. signed_digits (ds @ [c]) m \<and> unat n = m)) \<or>
        (\<exists>k. ([c], k) \<in> unit_suffixes \<and> (\<exists>m. signed_digits ds m \<and> unat n = m * k))"
      using digits_not_suffix [of "ds @ [c]"]
      by (auto simp: unit_suffixes_def) (rule exI [of _ "ds @ [c]"], auto)
    show ?thesis
      unfolding snoc plain using digits_not_suffix [of "ds @ [c]"]
      by (auto simp: parse_unit_size_def unit_suffixes_def is_digit_def Let_def
          scaled [of 1024, simplified] scaled [of 1048576, simplified] scaled [of 1073741824, simplified]
          scaled [of 1, simplified])
  qed
qed

section \<open>Property\<close>

text \<open>C21: A filter is accepted exactly when it is \<^verbatim>\<open>blob:none\<close>, or \<^verbatim>\<open>blob:limit=\<close> followed by an
  unsigned decimal number and at most one unit letter; the limit is the number times the unit,
  and a product that does not fit 64 bits is refused rather than wrapped.\<close>

theorem filter_parse_exact:
  "(filter_parse spec = Some BlobNone \<longleftrightarrow> spec = lit ''blob:none'') \<and>
   (filter_parse spec = Some (BlobLimit n) \<longleftrightarrow>
      (\<exists>ds m u k. spec = lit ''blob:limit='' @ ds @ u \<and> (u, k) \<in> unit_suffixes \<and> signed_digits ds m \<and>
         unat n = m * k)) \<and>
   filter_parse spec \<noteq> Some NoFilter"
proof -
  have ne: "lit ''blob:none'' \<noteq> lit ''blob:limit='' @ x" for x by code_simp
  have "filter_parse spec = Some (BlobLimit n) \<longleftrightarrow>
      (\<exists>l. spec = lit ''blob:limit='' @ l \<and> parse_unit_size l = Some n)"
    using ne by (auto simp: filter_parse_def strip_prefix_def prefix_def)
  then have "filter_parse spec = Some (BlobLimit n) \<longleftrightarrow>
      (\<exists>ds m u k. spec = lit ''blob:limit='' @ ds @ u \<and> (u, k) \<in> unit_suffixes \<and> signed_digits ds m \<and>
         unat n = m * k)"
    unfolding parse_unit_size_iff by blast
  moreover have "filter_parse spec = Some BlobNone \<longleftrightarrow> spec = lit ''blob:none''" "filter_parse spec \<noteq> Some NoFilter"
    by (auto simp: filter_parse_def strip_prefix_def split: if_splits)
  ultimately show ?thesis by blast
qed

end
