(* ===== verification/Collect.thy ===== *)
theory Collect
  imports Walk
begin

text \<open>
  Phase II of \<^verbatim>\<open>src/git/walk.rs\<close>: expanding the selected commits into trees and blobs, one
  tree depth at a time, skipping what the haves reach.
\<close>

section \<open>Reading trees\<close>

fun read_tree_entries :: "ObjectId \<Rightarrow> bool \<Rightarrow> (unit + TreeMode \<times> bytes \<times> ObjectId) list \<Rightarrow> WalkError + TreeEntry list" where
  "read_tree_entries i include_names [] = Inr []"
| "read_tree_entries i include_names (Inl u # es) = Inl (WDecode i)"
| "read_tree_entries i include_names (Inr (mode, filename, child) # es) =
     and_then (read_tree_entries i include_names es) (\<lambda>entries.
       let name = (if include_names then Some filename else None) in
       Inr (if mode = ModeTree then Subtree child name # entries
            else if mode \<noteq> ModeCommit then Leaf child name # entries
            else entries))"

definition read_tree :: "('s, 't) walker \<Rightarrow> ObjectId \<Rightarrow> bool \<Rightarrow> ('s, WalkError, TreeEntry list) eff" where
  "read_tree w i include_names =
     eff_bind (w_get w i) (\<lambda>r.
       case r of
         None \<Rightarrow> eff_fail (MissingObject i)
       | Some (kind, body) \<Rightarrow>
           if kind \<noteq> KTree then eff_fail (UnexpectedKind i KTree kind)
           else eff_lift (read_tree_entries i include_names (tree_entries (w_gix w) body (oid_kind i))))"

text \<open>\<^verbatim>\<open>collect::<Result<Vec<_>, _>>\<close>: the first error in order, or every value.\<close>

fun collect_results :: "('e + 'a) list \<Rightarrow> 'e + 'a list" where
  "collect_results [] = Inr []"
| "collect_results (r # rs) = and_then r (\<lambda>x. and_then (collect_results rs) (\<lambda>xs. Inr (x # xs)))"

definition read_trees :: "('s, 't) walker \<Rightarrow> ObjectId list \<Rightarrow> bool \<Rightarrow> ('s, WalkError, TreeEntry list list) eff" where
  "read_trees w ids include_names =
     eff_bind (eff_map (\<lambda>i. eff_attempt (read_tree w i include_names)) ids) (\<lambda>rs. eff_lift (collect_results rs))"

section \<open>The have side\<close>

text \<open>One entry: the have-set and the next level.\<close>

definition expand_entry :: "FilterSpec \<Rightarrow> ObjectId set \<times> ObjectId list \<Rightarrow> TreeEntry \<Rightarrow> ObjectId set \<times> ObjectId list" where
  "expand_entry filter_spec = (\<lambda>(have_objects, nxt) entry.
     case entry of
       Subtree child name \<Rightarrow>
         if child \<notin> have_objects then (insert child have_objects, nxt @ [child]) else (have_objects, nxt)
     | Leaf child name \<Rightarrow>
         if filter_spec \<noteq> BlobNone then (insert child have_objects, nxt) else (have_objects, nxt))"

definition expand_root :: "ObjectId set \<times> ObjectId list \<Rightarrow> ObjectId \<Rightarrow> ObjectId set \<times> ObjectId list" where
  "expand_root = (\<lambda>(have_objects, level) root.
     if root \<notin> have_objects then (insert root have_objects, level @ [root]) else (have_objects, level))"

fun expand_loop :: "('s, 't) walker \<Rightarrow> FilterSpec \<Rightarrow> nat \<Rightarrow> ObjectId set \<Rightarrow> ObjectId list \<Rightarrow> ('s, WalkError, ObjectId set) eff" where
  "expand_loop w filter_spec 0 have_objects level = eff_fail WalkDiverges"
| "expand_loop w filter_spec (Suc n) have_objects level =
     (if level = [] then eff_return have_objects
      else
        eff_bind (read_trees w level False) (\<lambda>trees.
          let (have_objects, nxt) = foldl (expand_entry filter_spec) (have_objects, []) (concat trees) in
          expand_loop w filter_spec n have_objects nxt))"

definition expand_haves ::
    "('s, 't) walker \<Rightarrow> ObjectId list \<Rightarrow> ObjectId set \<Rightarrow> FilterSpec \<Rightarrow> ('s, WalkError, ObjectId set) eff" where
  "expand_haves w roots have_objects filter_spec =
     (let (have_objects, level) = foldl expand_root (have_objects, []) roots in
      expand_loop w filter_spec (w_fuel w) have_objects level)"

section \<open>The want side\<close>

text \<open>\<^verbatim>\<open>blob_paths.entry(child).or_insert(path)\<close>.\<close>

definition or_insert :: "('k \<rightharpoonup> 'v) \<Rightarrow> 'k \<Rightarrow> 'v \<Rightarrow> ('k \<rightharpoonup> 'v)" where
  "or_insert m k v = (case m k of None \<Rightarrow> m(k \<mapsto> v) | Some _ \<Rightarrow> m)"

definition admit_blob :: "bool \<Rightarrow> CollectedObjects \<Rightarrow> ObjectId \<Rightarrow> bytes \<Rightarrow> CollectedObjects" where
  "admit_blob record_paths col child path =
     \<lparr>objects = oset_insert (objects col) child,
      blob_paths = (if record_paths then or_insert (blob_paths col) child path else blob_paths col)\<rparr>"

fun admit_sized ::
    "u64 \<Rightarrow> bool \<Rightarrow> CollectedObjects
      \<Rightarrow> ((ObjectId \<times> bytes) \<times> ObjectId \<times> (ObjectDbError + (Kind \<times> u64) option)) list \<Rightarrow> WalkError + CollectedObjects" where
  "admit_sized limit record_paths col [] = Inr col"
| "admit_sized limit record_paths col (((child, path), (_, sz)) # rest) =
     and_then (known_size (MissingObject child) sz) (\<lambda>(kind, n).
       admit_sized limit record_paths (if n \<le> limit then admit_blob record_paths col child path else col) rest)"

definition admit_blobs ::
    "('s, 't) walker \<Rightarrow> (ObjectId \<times> bytes) list \<Rightarrow> CollectedObjects \<Rightarrow> FilterSpec \<Rightarrow> bool
      \<Rightarrow> ('s, WalkError, CollectedObjects) eff" where
  "admit_blobs w candidates col filter_spec record_paths =
     (case filter_spec of
        NoFilter \<Rightarrow> eff_return (foldl (\<lambda>col (child, path). admit_blob record_paths col child path) col candidates)
      | BlobNone \<Rightarrow> eff_return col
      | BlobLimit limit \<Rightarrow>
          eff_bind (object_sizes w (map fst candidates)) (\<lambda>sizes.
            eff_lift (admit_sized limit record_paths col (zip candidates sizes))))"

text \<open>The state of one level: the collected ids, the next level and the blob candidates.\<close>

record tree_step =
  ts_objects :: "ObjectId list"
  ts_next :: "(ObjectId \<times> bytes) list"
  ts_candidates :: "(ObjectId \<times> bytes) list"
  ts_seen :: "ObjectId set"

text \<open>\<^verbatim>\<open>name.as_deref().expect("named tree entry")\<close> when paths are recorded.\<close>

definition entry_path :: "bool \<Rightarrow> bytes \<Rightarrow> bytes option \<Rightarrow> WalkError + bytes" where
  "entry_path record_paths parent_path name =
     (if record_paths then (case name of None \<Rightarrow> Inl WalkPanic | Some n \<Rightarrow> Inr (join_path parent_path n)) else Inr [])"

definition walk_entry :: "ObjectId set \<Rightarrow> bool \<Rightarrow> bytes \<Rightarrow> tree_step \<Rightarrow> TreeEntry \<Rightarrow> WalkError + tree_step" where
  "walk_entry have_objects record_paths parent_path ts entry =
     (case entry of
        Subtree child name \<Rightarrow>
          if child \<notin> set (ts_objects ts) \<and> child \<notin> have_objects then
            and_then (entry_path record_paths parent_path name) (\<lambda>path.
              Inr (ts\<lparr>ts_objects := oset_insert (ts_objects ts) child, ts_next := ts_next ts @ [(child, path)]\<rparr>))
          else Inr ts
      | Leaf child name \<Rightarrow>
          if child \<notin> have_objects \<and> child \<notin> set (ts_objects ts) \<and> child \<notin> ts_seen ts then
            and_then (entry_path record_paths parent_path name) (\<lambda>path.
              Inr (ts\<lparr>ts_candidates := ts_candidates ts @ [(child, path)], ts_seen := insert child (ts_seen ts)\<rparr>))
          else Inr ts)"

fun walk_entries :: "ObjectId set \<Rightarrow> bool \<Rightarrow> tree_step \<Rightarrow> (bytes \<times> TreeEntry) list \<Rightarrow> WalkError + tree_step" where
  "walk_entries have_objects record_paths ts [] = Inr ts"
| "walk_entries have_objects record_paths ts ((parent_path, entry) # es) =
     and_then (walk_entry have_objects record_paths parent_path ts entry)
       (\<lambda>ts. walk_entries have_objects record_paths ts es)"

text \<open>The entries of a level, each with the path of its tree.\<close>

definition level_entries :: "(ObjectId \<times> bytes) list \<Rightarrow> TreeEntry list list \<Rightarrow> (bytes \<times> TreeEntry) list" where
  "level_entries level trees = concat (map (\<lambda>((_, parent_path), es). map (Pair parent_path) es) (zip level trees))"

fun walk_tree_loop ::
    "('s, 't) walker \<Rightarrow> ObjectId set \<Rightarrow> FilterSpec \<Rightarrow> bool \<Rightarrow> nat \<Rightarrow> CollectedObjects \<Rightarrow> (ObjectId \<times> bytes) list
      \<Rightarrow> ('s, WalkError, CollectedObjects) eff" where
  "walk_tree_loop w have_objects filter_spec record_paths 0 col level = eff_fail WalkDiverges"
| "walk_tree_loop w have_objects filter_spec record_paths (Suc n) col level =
     (if level = [] then eff_return col
      else
        eff_bind (read_trees w (map fst level) record_paths) (\<lambda>trees.
        eff_bind (eff_lift (walk_entries have_objects record_paths
            \<lparr>ts_objects = objects col, ts_next = [], ts_candidates = [], ts_seen = {}\<rparr> (level_entries level trees))) (\<lambda>ts.
        eff_bind (admit_blobs w (ts_candidates ts) (col\<lparr>objects := ts_objects ts\<rparr>) filter_spec record_paths) (\<lambda>col.
          walk_tree_loop w have_objects filter_spec record_paths n col (ts_next ts)))))"

definition walk_tree ::
    "('s, 't) walker \<Rightarrow> ObjectId \<Rightarrow> CollectedObjects \<Rightarrow> ObjectId set \<Rightarrow> FilterSpec \<Rightarrow> bool
      \<Rightarrow> ('s, WalkError, CollectedObjects) eff" where
  "walk_tree w root col have_objects filter_spec record_paths =
     (if root \<notin> set (objects col) \<and> root \<notin> have_objects
      then walk_tree_loop w have_objects filter_spec record_paths (w_fuel w)
             (col\<lparr>objects := oset_insert (objects col) root\<rparr>) [(root, [])]
      else walk_tree_loop w have_objects filter_spec record_paths (w_fuel w) col [])"

section \<open>Collecting\<close>

fun have_roots :: "(ObjectId \<times> (WalkError + CommitGraphRecord)) list \<Rightarrow> WalkError + ObjectId list" where
  "have_roots [] = Inr []"
| "have_roots ((have', r) # rest) =
     (case r of
        Inr info \<Rightarrow> and_then (have_roots rest) (\<lambda>roots. Inr (root_tree info # roots))
      | Inl (MissingObject missing) \<Rightarrow> if missing = have' then have_roots rest else Inl (MissingObject missing)
      | Inl (UnexpectedKind i expected actual) \<Rightarrow>
          if i = have' then have_roots rest else Inl (UnexpectedKind i expected actual)
      | Inl err \<Rightarrow> Inl err)"

fun classify ::
    "(ObjectId \<times> (ObjectDbError + (Kind \<times> u64) option)) list \<Rightarrow> WalkError + (ObjectId \<times> Kind) list" where
  "classify [] = Inr []"
| "classify ((i, sz) # rest) =
     and_then (known_size (MissingObject i) sz) (\<lambda>(kind, n).
     and_then (classify rest) (\<lambda>cs. Inr ((i, kind) # cs)))"

text \<open>\<^verbatim>\<open>records[&id]\<close> panics on a commit without a record.\<close>

fun collect_each ::
    "('s, 't) walker \<Rightarrow> record_cache \<Rightarrow> ObjectId set \<Rightarrow> FilterSpec \<Rightarrow> bool \<Rightarrow> CollectedObjects \<Rightarrow> (ObjectId \<times> Kind) list
      \<Rightarrow> ('s, WalkError, CollectedObjects) eff" where
  "collect_each w records have_objects filter_spec record_paths col [] = eff_return col"
| "collect_each w records have_objects filter_spec record_paths col ((i, kind) # rest) =
     (case kind of
        KCommit \<Rightarrow>
          (case records i of
             None \<Rightarrow> eff_fail WalkPanic
           | Some rec \<Rightarrow>
               eff_bind (walk_tree w (root_tree rec) (col\<lparr>objects := oset_insert (objects col) i\<rparr>)
                   have_objects filter_spec record_paths) (\<lambda>col.
                 collect_each w records have_objects filter_spec record_paths col rest))
      | KTag \<Rightarrow>
          collect_each w records have_objects filter_spec record_paths
            (col\<lparr>objects := oset_insert (objects col) i\<rparr>) rest
      | actual \<Rightarrow> eff_fail (UnexpectedKind i KCommit actual))"

definition collect_inner ::
    "('s, 't) walker \<Rightarrow> ObjectId list \<Rightarrow> ObjectId list \<Rightarrow> FilterSpec \<Rightarrow> bool \<Rightarrow> ('s, WalkError, CollectedObjects) eff" where
  "collect_inner w send haves filter_spec record_paths =
     eff_bind (prefetch_records w Map.empty haves) (\<lambda>(fetched, records).
     eff_bind (eff_lift (have_roots fetched)) (\<lambda>roots.
     eff_bind (expand_haves w roots {} filter_spec) (\<lambda>have_objects.
     eff_bind (object_sizes w send) (\<lambda>sizes.
     eff_bind (eff_lift (classify sizes)) (\<lambda>classified.
     eff_bind (prefetch_records w records (map fst (filter (\<lambda>c. snd c = KCommit) classified))) (\<lambda>(fetched, records).
     eff_bind (eff_lift (all_fetched fetched)) (\<lambda>_.
       collect_each w records have_objects filter_spec record_paths
         \<lparr>objects = [], blob_paths = Map.empty\<rparr> classified)))))))"

definition collect :: "('s, 't) walker \<Rightarrow> ObjectId list \<Rightarrow> ObjectId list \<Rightarrow> FilterSpec \<Rightarrow> ('s, WalkError, ObjectId list) eff" where
  "collect w send haves filter_spec =
     eff_bind (collect_inner w send haves filter_spec False) (\<lambda>col. eff_return (objects col))"

definition collect_with_paths ::
    "('s, 't) walker \<Rightarrow> ObjectId list \<Rightarrow> ObjectId list \<Rightarrow> FilterSpec \<Rightarrow> ('s, WalkError, CollectedObjects) eff" where
  "collect_with_paths w send haves filter_spec = collect_inner w send haves filter_spec True"

end
