(* ===== verification/Plan.thy ===== *)
theory Plan
  imports Collect PackOut "HOL-Library.Product_Lexorder"
begin

text \<open>
  The fetch planner of \<^verbatim>\<open>src/protocol/upload_pack.rs\<close>: the wants resolved into the objects to
  pack, the order they are packed in, and the reads that feed the pack writer. The phase timings
  are left out.
\<close>

section \<open>Scheduling\<close>

record ScheduledObject =
  so_oid :: ObjectId
  so_group :: "u32 option"

record PackPlan =
  plan_objects :: "ScheduledObject list"
  plan_common :: "ObjectId list"

definition plain_schedule :: "ObjectId list \<Rightarrow> ScheduledObject list" where
  "plain_schedule objs = map (\<lambda>i. \<lparr>so_oid = i, so_group = None\<rparr>) objs"

definition name_hash :: "bytes \<Rightarrow> u32" where
  "name_hash path = foldl (\<lambda>hash byte. hash * 33 + ucast byte) 5381 (rev path)"

text \<open>The map collected from the metadata pass: a later entry for an id replaces an earlier one.\<close>

definition info_map :: "(ObjectId \<times> Kind \<times> u64) list \<Rightarrow> (ObjectId \<rightharpoonup> Kind \<times> u64)" where
  "info_map = foldl (\<lambda>m (i, ks). m(i \<mapsto> ks)) Map.empty"

type_synonym fixed_slot = "nat \<times> ScheduledObject"
type_synonym blob_slot = "u32 \<times> bytes \<times> u64 \<times> nat \<times> ObjectId"

text \<open>The loop over the collected objects; \<^verbatim>\<open>info[&oid]\<close> panics on an id without metadata.\<close>

fun split_objects ::
    "(ObjectId \<rightharpoonup> Kind \<times> u64) \<Rightarrow> (ObjectId \<rightharpoonup> bytes) \<Rightarrow> nat \<Rightarrow> ObjectId list \<Rightarrow> WalkError + fixed_slot list \<times> blob_slot list" where
  "split_objects info paths position [] = Inr ([], [])"
| "split_objects info paths position (i # objs) =
     (let fix_it = (\<lambda>(fixed, blobs). Inr ((position, \<lparr>so_oid = i, so_group = None\<rparr>) # fixed, blobs)) in
      case paths i of
        None \<Rightarrow> and_then (split_objects info paths (position + 1) objs) fix_it
      | Some path \<Rightarrow>
          (case info i of
             None \<Rightarrow> Inl WalkPanic
           | Some (kind, sz) \<Rightarrow>
               if kind \<noteq> KBlob then and_then (split_objects info paths (position + 1) objs) fix_it
               else
                 and_then (split_objects info paths (position + 1) objs) (\<lambda>(fixed, blobs).
                   Inr (fixed, (name_hash path, path, sz, position, i) # blobs))))"

text \<open>The two sorts: blobs by hash, path, size and position, the rest by position.\<close>

definition blob_order :: "blob_slot \<Rightarrow> u32 \<times> bytes \<times> u64 \<times> nat" where
  "blob_order = (\<lambda>(hash, path, sz, position, i). (hash, path, sz, position))"

definition order_schedule :: "fixed_slot list \<Rightarrow> blob_slot list \<Rightarrow> ScheduledObject list" where
  "order_schedule fixed blobs =
     map snd (sort_key fst fixed) @
     map (\<lambda>(hash, path, sz, position, i). \<lparr>so_oid = i, so_group = Some hash\<rparr>) (sort_key blob_order blobs)"

definition schedule_for_ofs :: "('s, 't) walker \<Rightarrow> CollectedObjects \<Rightarrow> ('s, WalkError, ScheduledObject list) eff" where
  "schedule_for_ofs w col =
     eff_bind (object_info w (objects col)) (\<lambda>info.
     eff_bind (eff_lift (split_objects (info_map info) (blob_paths col) 0 (objects col))) (\<lambda>(fixed, blobs).
     eff_return (order_schedule fixed blobs)))"

section \<open>Planning\<close>

text \<open>Directly wanted objects the walk already collected are added once.\<close>

fun add_direct :: "ObjectId set \<Rightarrow> ObjectId list \<Rightarrow> ObjectId list \<Rightarrow> ObjectId list" where
  "add_direct seen objs [] = objs"
| "add_direct seen objs (i # wanted) =
     (if i \<notin> seen then add_direct (insert i seen) (objs @ [i]) wanted else add_direct seen objs wanted)"

definition plan_pack ::
    "('s, 't) walker \<Rightarrow> ObjectId list \<Rightarrow> ObjectId list \<Rightarrow> FilterSpec \<Rightarrow> bool \<Rightarrow> ('s, WalkError, PackPlan) eff" where
  "plan_pack w wants haves filter_spec ofs =
     eff_bind (partition_wants w wants) (\<lambda>partition.
     if history partition = [] then
       eff_return \<lparr>plan_objects = plain_schedule (direct partition), plan_common = []\<rparr>
     else
       eff_bind (select_commits w (history partition) haves) (\<lambda>sel.
       eff_bind
         (if ofs then collect_with_paths w (to_send sel) (common sel) filter_spec
          else eff_bind (collect w (to_send sel) (common sel) filter_spec) (\<lambda>objs.
                 eff_return \<lparr>objects = objs, blob_paths = Map.empty\<rparr>)) (\<lambda>collected.
       let collected = collected\<lparr>objects := add_direct (set (objects collected)) (objects collected) (direct partition)\<rparr> in
       eff_bind
         (if ofs then schedule_for_ofs w collected else eff_return (plain_schedule (objects collected))) (\<lambda>objs.
       eff_return \<lparr>plan_objects = objs, plan_common = common sel\<rparr>))))"

section \<open>Feeding the pack writer\<close>

datatype FetchObjectError = FObjects ObjectDbError | FMissing ObjectId

text \<open>One lookup as the item sent to the pack writer.\<close>

definition feed_item :: "ScheduledObject \<Rightarrow> ObjectDbError + (Kind \<times> u64 \<times> bytes) option \<Rightarrow> FetchObjectError + PackEntry" where
  "feed_item obj result =
     (case result of
        Inr (Some (kind, sz, z)) \<Rightarrow>
          Inr \<lparr>entry_id = so_oid obj, entry_kind = kind, decompressed_size = sz, entry_zlib = z, delta_group = so_group obj\<rparr>
      | Inr None \<Rightarrow> Inl (FMissing (so_oid obj))
      | Inl err \<Rightarrow> Inl (FObjects err))"

text \<open>
  The items the writer receives. Every lookup ahead of the one consumed is only a read;
  \<open>listening\<close> tells whether a send finds the writer still listening.
\<close>

fun feed_objects ::
    "('s, 't) slatedb \<Rightarrow> 's object_store \<Rightarrow> RepoId \<Rightarrow> (nat \<Rightarrow> bool) \<Rightarrow> nat \<Rightarrow> ScheduledObject list
      \<Rightarrow> ('s, FetchObjectError, (FetchObjectError + PackEntry) list) eff" where
  "feed_objects db os repo listening count [] = eff_return []"
| "feed_objects db os repo listening count (obj # objs) =
     eff_bind (eff_attempt (read_compressed db os repo (so_oid obj))) (\<lambda>result.
       let item = feed_item obj result in
       if \<not> listening count then eff_return []
       else if (case item of Inl e \<Rightarrow> True | Inr entry \<Rightarrow> False) then eff_return [item]
       else eff_bind (feed_objects db os repo listening (count + 1) objs) (\<lambda>items. eff_return (item # items)))"

end
