(* ===== verification/Collect_Correct.thy ===== *)
theory Collect_Correct
  imports Collect Walk_Storage
begin

text \<open>
  Phase II against the object graph: the have side computes exactly the snapshots of the
  recognized haves, and the want side adds exactly what the filter admits of the snapshots of
  the commits sent that the have side lacks.
\<close>

section \<open>Snapshots\<close>

definition tree_of :: "gix_object \<Rightarrow> (ObjectId \<rightharpoonup> Kind \<times> bytes) \<Rightarrow> ObjectId \<Rightarrow> TreeEntry list" where
  "tree_of gx H t =
     (case H t of
        Some (KTree, body) \<Rightarrow>
          (case read_tree_entries t True (tree_entries gx body (oid_kind t)) of Inr es \<Rightarrow> es | Inl e \<Rightarrow> [])
      | _ \<Rightarrow> [])"

definition tree_rel :: "gix_object \<Rightarrow> (ObjectId \<rightharpoonup> Kind \<times> bytes) \<Rightarrow> (ObjectId \<times> ObjectId) set" where
  "tree_rel gx H = {(t, c). \<exists>name. Subtree c name \<in> set (tree_of gx H t)}"

definition leaf_rel :: "gix_object \<Rightarrow> (ObjectId \<rightharpoonup> Kind \<times> bytes) \<Rightarrow> (ObjectId \<times> ObjectId) set" where
  "leaf_rel gx H = {(t, b). \<exists>name. Leaf b name \<in> set (tree_of gx H t)}"

definition subtrees :: "gix_object \<Rightarrow> (ObjectId \<rightharpoonup> Kind \<times> bytes) \<Rightarrow> ObjectId set \<Rightarrow> ObjectId set" where
  "subtrees gx H R = (tree_rel gx H)\<^sup>* `` R"

text \<open>Which blobs a filter lets through, by the size their id names.\<close>

fun admits :: "(ObjectId \<rightharpoonup> Kind \<times> bytes) \<Rightarrow> FilterSpec \<Rightarrow> ObjectId \<Rightarrow> bool" where
  "admits H NoFilter b = True"
| "admits H BlobNone b = False"
| "admits H (BlobLimit limit) b = (\<exists>kind body. H b = Some (kind, body) \<and> word_of_nat (length body) \<le> limit)"

definition snapshot :: "gix_object \<Rightarrow> (ObjectId \<rightharpoonup> Kind \<times> bytes) \<Rightarrow> (ObjectId \<Rightarrow> bool) \<Rightarrow> ObjectId set \<Rightarrow> ObjectId set" where
  "snapshot gx H P R = subtrees gx H R \<union> {b \<in> leaf_rel gx H `` subtrees gx H R. P b}"

text \<open>A blob entry never names a tree: what git's own checks enforce on every tree.\<close>

definition kinds_ok :: "gix_object \<Rightarrow> (ObjectId \<rightharpoonup> Kind \<times> bytes) \<Rightarrow> bool" where
  "kinds_ok gx H \<longleftrightarrow> (\<forall>(t, b)\<in>leaf_rel gx H. \<forall>body. H b \<noteq> Some (KTree, body))"

text \<open>\<open>X\<close> holds the children of all its members but those still to be read.\<close>

definition closed_but :: "gix_object \<Rightarrow> (ObjectId \<rightharpoonup> Kind \<times> bytes) \<Rightarrow> (ObjectId \<Rightarrow> bool) \<Rightarrow> ObjectId set \<Rightarrow> ObjectId set \<Rightarrow> bool" where
  "closed_but gx H P X todo \<longleftrightarrow>
     (\<forall>t\<in>X - todo. tree_rel gx H `` {t} \<subseteq> X \<and> {b \<in> leaf_rel gx H `` {t}. P b} \<subseteq> X)"

lemma subtrees_base: "R \<subseteq> subtrees gx H R"
  by (auto simp: subtrees_def)

lemma subtrees_step: "t \<in> subtrees gx H R \<Longrightarrow> (t, c) \<in> tree_rel gx H \<Longrightarrow> c \<in> subtrees gx H R"
  by (auto simp: subtrees_def intro: rtrancl_into_rtrancl)

lemma subtrees_mono: "R \<subseteq> S \<Longrightarrow> subtrees gx H R \<subseteq> subtrees gx H S"
  by (auto simp: subtrees_def)

lemma subtrees_closed:
  assumes "closed_but gx H P X {}" and "R \<subseteq> X"
  shows "subtrees gx H R \<subseteq> X"
proof
  fix c assume "c \<in> subtrees gx H R"
  then obtain r where r: "r \<in> R" "(r, c) \<in> (tree_rel gx H)\<^sup>*" by (auto simp: subtrees_def)
  from r(2,1) show "c \<in> X"
  proof (induction rule: rtrancl_induct)
    case base
    then show ?case using assms(2) by blast
  next
    case (step t c)
    then show ?case using assms(1) by (auto simp: closed_but_def)
  qed
qed

lemma snapshot_closed:
  assumes "closed_but gx H P X {}" and "R \<subseteq> X"
  shows "snapshot gx H P R \<subseteq> X"
  using subtrees_closed [OF assms] assms(1) by (fastforce simp: snapshot_def closed_but_def)

lemma snapshot_mono: "R \<subseteq> S \<Longrightarrow> (\<And>b. P b \<Longrightarrow> Q b) \<Longrightarrow> snapshot gx H P R \<subseteq> snapshot gx H Q S"
  using subtrees_mono [of R S gx H] by (auto simp: snapshot_def)

lemma tree_of_kind: "H t = Some (kind, body) \<Longrightarrow> kind \<noteq> KTree \<Longrightarrow> tree_of gx H t = []"
  by (cases kind) (auto simp: tree_of_def)

lemma tree_of_leaf: "kinds_ok gx H \<Longrightarrow> (t, b) \<in> leaf_rel gx H \<Longrightarrow> tree_of gx H b = []"
  by (auto simp: kinds_ok_def tree_of_def split: option.splits prod.splits Kind.splits)

lemma no_children: "tree_of gx H t = [] \<Longrightarrow> tree_rel gx H `` {t} = {} \<and> leaf_rel gx H `` {t} = {}"
  by (simp add: tree_rel_def leaf_rel_def)

section \<open>Reading\<close>

fun keep_name :: "bool \<Rightarrow> TreeEntry \<Rightarrow> TreeEntry" where
  "keep_name b (Subtree c name) = Subtree c (if b then name else None)"
| "keep_name b (Leaf c name) = Leaf c (if b then name else None)"

lemma read_tree_entries_names:
  "read_tree_entries i b es = and_then (read_tree_entries i True es) (\<lambda>es. Inr (map (keep_name b) es))"
proof (induction i b es rule: read_tree_entries.induct)
  case (3 i b mode filename child es)
  then show ?case by (cases "read_tree_entries i True es") (auto simp: Let_def)
qed auto

lemma read_tree_entries_named:
  assumes "read_tree_entries i True es = Inr entries" and "e \<in> set entries"
  shows "\<exists>name c. (e = Subtree c (Some name) \<or> e = Leaf c (Some name)) \<and> (\<exists>mode. Inr (mode, name, c) \<in> set es)"
  using assms
proof (induction i True es arbitrary: entries rule: read_tree_entries.induct)
  case (3 i mode filename child es)
  then show ?case by (auto simp: and_then_eq_Inr Let_def split: if_splits) blast+
qed auto

lemma read_tree_entries_error: "read_tree_entries i b es = Inl e \<Longrightarrow> e = WDecode i"
proof (induction i b es rule: read_tree_entries.induct)
  case (3 i b mode filename child es)
  then show ?case by (cases "read_tree_entries i b es") (auto simp: Let_def)
qed auto

lemma tree_of_entries:
  assumes "gix_ok gx" and "e \<in> set (tree_of gx H t)"
  shows "\<exists>name c. (e = Subtree c (Some name) \<or> e = Leaf c (Some name)) \<and> oid_ok c"
proof -
  from assms(2) obtain body es where es: "H t = Some (KTree, body)"
    "read_tree_entries t True (tree_entries gx body (oid_kind t)) = Inr es" "e \<in> set es"
    by (auto simp: tree_of_def split: option.splits prod.splits Kind.splits sum.splits) metis
  from read_tree_entries_named [OF es(2,3)] assms(1) show ?thesis
    unfolding gix_ok_def using oid_ok_len_in_bytes by blast
qed

lemma collect_results_Inr: "collect_results rs = Inr xs \<longleftrightarrow> rs = map Inr xs"
  by (induction rs arbitrary: xs) (auto simp: and_then_eq_Inr)

lemma collect_results_Inl: "collect_results rs = Inl e \<Longrightarrow> Inl e \<in> set rs"
proof (induction rs)
  case (Cons r rs)
  then show ?case by (cases r; cases "collect_results rs") auto
qed simp

fun corruption :: "WalkError \<Rightarrow> bool" where
  "corruption (MissingObject i) = True"
| "corruption (UnexpectedKind i k k') = True"
| "corruption (WDecode i) = True"
| "corruption _ = False"

context walk_source
begin

lemma read_tree_spec:
  assumes "oid_ok i"
  shows "eff_spec I (\<lambda>e. E e \<or> corruption e) (\<lambda>es. es = map (keep_name b) (tree_of (w_gix w) H i)) (read_tree w i b)"
  unfolding read_tree_def
proof (rule eff_spec_bind)
  show "eff_spec I (\<lambda>e. E e \<or> corruption e) (\<lambda>c. c = None \<or> c = H i) (w_get w i)"
    by (rule eff_spec_weaken [OF get_ok [OF assms]]) (use errors in auto)
  fix r assume r: "r = None \<or> r = H i"
  show "eff_spec I (\<lambda>e. E e \<or> corruption e) (\<lambda>es. es = map (keep_name b) (tree_of (w_gix w) H i))
    (case r of
       None \<Rightarrow> eff_fail (MissingObject i)
     | Some (kind, body) \<Rightarrow>
         if kind \<noteq> KTree then eff_fail (UnexpectedKind i KTree kind)
         else eff_lift (read_tree_entries i b (tree_entries (w_gix w) body (oid_kind i))))"
  proof (rule eff_spec_option)
    fix x assume x: "r = Some x"
    obtain kind body where kb: "x = (kind, body)" by force
    have h: "H i = Some (kind, body)" using r x kb by simp
    show "eff_spec I (\<lambda>e. E e \<or> corruption e) (\<lambda>es. es = map (keep_name b) (tree_of (w_gix w) H i))
      (case x of (kind, body) \<Rightarrow>
         if kind \<noteq> KTree then eff_fail (UnexpectedKind i KTree kind)
         else eff_lift (read_tree_entries i b (tree_entries (w_gix w) body (oid_kind i))))"
      unfolding kb prod.case
    proof (rule eff_spec_if)
      assume "\<not> kind \<noteq> KTree"
      with h have "H i = Some (KTree, body)" by simp
      then show "eff_spec I (\<lambda>e. E e \<or> corruption e) (\<lambda>es. es = map (keep_name b) (tree_of (w_gix w) H i))
          (eff_lift (read_tree_entries i b (tree_entries (w_gix w) body (oid_kind i))))"
        by (intro eff_spec_lift)
          (use read_tree_entries_error read_tree_entries_names [of i b "tree_entries (w_gix w) body (oid_kind i)"]
            in \<open>fastforce simp: tree_of_def and_then_eq_Inr\<close>)+
    qed auto
  qed auto
qed

lemma read_trees_spec:
  assumes "\<forall>i\<in>set ids. oid_ok i"
  shows "eff_spec I (\<lambda>e. E e \<or> corruption e)
    (\<lambda>trees. trees = map (\<lambda>i. map (keep_name b) (tree_of (w_gix w) H i)) ids) (read_trees w ids b)"
  unfolding read_trees_def
proof (rule eff_spec_bind)
  let ?P = "\<lambda>i es. es = map (keep_name b) (tree_of (w_gix w) H i)"
  show "eff_spec I (\<lambda>e. E e \<or> corruption e)
      (list_all2 (\<lambda>i r. case r of Inl e \<Rightarrow> E e \<or> corruption e | Inr es \<Rightarrow> ?P i es) ids)
      (eff_map (\<lambda>i. eff_attempt (read_tree w i b)) ids)"
    by (rule eff_spec_map, rule eff_spec_attempt, rule read_tree_spec) (use assms in blast)
  fix rs assume L: "list_all2 (\<lambda>i r. case r of Inl e \<Rightarrow> E e \<or> corruption e | Inr es \<Rightarrow> ?P i es) ids rs"
  show "eff_spec I (\<lambda>e. E e \<or> corruption e)
      (\<lambda>trees. trees = map (\<lambda>i. map (keep_name b) (tree_of (w_gix w) H i)) ids) (eff_lift (collect_results rs))"
  proof (rule eff_spec_lift)
    fix e assume "collect_results rs = Inl e"
    from list_all2_right [OF L collect_results_Inl [OF this]] show "E e \<or> corruption e" by auto
  next
    fix trees assume "collect_results rs = Inr trees"
    then have "rs = map Inr trees" by (simp add: collect_results_Inr)
    with L have "list_all2 ?P ids trees" by (simp add: list_all2_map2)
    then show "trees = map (\<lambda>i. map (keep_name b) (tree_of (w_gix w) H i)) ids"
      by (induction rule: list_all2_induct) auto
  qed
qed

end

section \<open>The have side\<close>

definition sub_ids :: "TreeEntry list \<Rightarrow> ObjectId set" where
  "sub_ids es = {c. \<exists>name. Subtree c name \<in> set es}"

definition leaf_ids :: "TreeEntry list \<Rightarrow> ObjectId set" where
  "leaf_ids es = {c. \<exists>name. Leaf c name \<in> set es}"

lemma ids_simps [simp]:
  "sub_ids [] = {}" "leaf_ids [] = {}"
  "sub_ids (Subtree c n # es) = insert c (sub_ids es)" "sub_ids (Leaf c n # es) = sub_ids es"
  "leaf_ids (Leaf c n # es) = insert c (leaf_ids es)" "leaf_ids (Subtree c n # es) = leaf_ids es"
  by (auto simp: sub_ids_def leaf_ids_def)

lemma ids_keep_name [simp]: "sub_ids (map (keep_name b) es) = sub_ids es" "leaf_ids (map (keep_name b) es) = leaf_ids es"
proof (induction es)
  case (Cons e es)
  { case 1 then show ?case using Cons by (cases e) auto }
  { case 2 then show ?case using Cons by (cases e) auto }
qed auto

lemma ids_concat: "sub_ids (concat ess) = (\<Union>es\<in>set ess. sub_ids es)" "leaf_ids (concat ess) = (\<Union>es\<in>set ess. leaf_ids es)"
  by (auto simp: sub_ids_def leaf_ids_def)

lemma ids_tree_of: "sub_ids (tree_of gx H t) = tree_rel gx H `` {t}" "leaf_ids (tree_of gx H t) = leaf_rel gx H `` {t}"
  by (auto simp: sub_ids_def leaf_ids_def tree_rel_def leaf_rel_def)

lemma expand_fold:
  assumes "foldl (expand_entry f) (X, nxt) es = (X', nxt')"
  shows "X' = X \<union> sub_ids es \<union> (if f \<noteq> BlobNone then leaf_ids es else {}) \<and> set nxt \<subseteq> set nxt' \<and>
    set nxt' \<subseteq> set nxt \<union> (sub_ids es - X) \<and> X' \<subseteq> X \<union> set nxt' \<union> leaf_ids es"
  using assms
proof (induction es arbitrary: X nxt)
  case (Cons e es)
  obtain X1 nxt1 where step: "expand_entry f (X, nxt) e = (X1, nxt1)" by force
  with Cons.prems have "foldl (expand_entry f) (X1, nxt1) es = (X', nxt')" by simp
  note IH = Cons.IH [OF this]
  show ?case
  proof (cases e)
    case (Subtree c n)
    show ?thesis
    proof (cases "c \<in> X")
      case True
      with step Subtree have "X1 = X" "nxt1 = nxt" by (auto simp: expand_entry_def)
      with IH Subtree True show ?thesis by (auto split: if_splits)
    next
      case False
      with step Subtree have "X1 = insert c X" "nxt1 = nxt @ [c]" by (auto simp: expand_entry_def)
      with IH Subtree False show ?thesis by (auto split: if_splits)
    qed
  next
    case (Leaf c n)
    with step have "X1 = (if f \<noteq> BlobNone then insert c X else X)" "nxt1 = nxt"
      by (auto simp: expand_entry_def split: if_splits)
    with IH Leaf show ?thesis by (auto split: if_splits)
  qed
qed auto

text \<open>Fuel left to read: one level for every tree not yet reached.\<close>

definition level_cost :: "gix_object \<Rightarrow> (ObjectId \<rightharpoonup> Kind \<times> bytes) \<Rightarrow> ObjectId set \<Rightarrow> 'a list \<Rightarrow> nat" where
  "level_cost gx H X level = (if level = [] then 0 else 1 + card (Range (tree_rel gx H) - X))"

lemma level_cost_next:
  assumes "finite (Range (tree_rel gx H))" and "X \<subseteq> X'" and "level \<noteq> []"
    and "nxt \<noteq> [] \<Longrightarrow> \<exists>c\<in>X' - X. c \<in> Range (tree_rel gx H)"
  shows "level_cost gx H X' nxt < level_cost gx H X level"
proof (cases "nxt = []")
  case False
  with assms(2,4) have "Range (tree_rel gx H) - X' \<subset> Range (tree_rel gx H) - X" by blast
  from psubset_card_mono [OF _ this] assms(1,3) False show ?thesis by (simp add: level_cost_def)
qed (use assms(3) in \<open>simp add: level_cost_def\<close>)

lemma closed_but_expand:
  assumes kinds: "kinds_ok gx H" and closed: "closed_but gx H (\<lambda>b. f \<noteq> BlobNone) X (set level)"
    and level: "set level \<subseteq> X"
    and X': "X' = X \<union> sub_ids es \<union> (if f \<noteq> BlobNone then leaf_ids es else {})"
    and nxt: "X' \<subseteq> X \<union> set nxt \<union> leaf_ids es"
    and es: "sub_ids es = tree_rel gx H `` set level" "leaf_ids es = leaf_rel gx H `` set level"
  shows "closed_but gx H (\<lambda>b. f \<noteq> BlobNone) X' (set nxt)"
  unfolding closed_but_def
proof
  fix t assume t: "t \<in> X' - set nxt"
  show "tree_rel gx H `` {t} \<subseteq> X' \<and> {b \<in> leaf_rel gx H `` {t}. f \<noteq> BlobNone} \<subseteq> X'"
  proof (cases "t \<in> X")
    case True
    then show ?thesis
    proof (cases "t \<in> set level")
      case True
      then show ?thesis using X' es by auto
    next
      case False
      with \<open>t \<in> X\<close> closed X' show ?thesis by (auto simp: closed_but_def)
    qed
  next
    case False
    with t nxt es(2) obtain u where "(u, t) \<in> leaf_rel gx H" by blast
    then show ?thesis using no_children [OF tree_of_leaf [OF kinds]] by simp
  qed
qed

lemma children_oid_ok:
  assumes "gix_ok gx"
  shows "(t, c) \<in> tree_rel gx H \<Longrightarrow> oid_ok c" and "(t, c) \<in> leaf_rel gx H \<Longrightarrow> oid_ok c"
  using tree_of_entries [OF assms] by (fastforce simp: tree_rel_def leaf_rel_def)+

lemma expand_roots:
  "\<exists>level'. foldl expand_root (set level, level) roots = (set level', level') \<and> set level' = set level \<union> set roots"
proof (induction roots arbitrary: level)
  case (Cons r roots)
  show ?case
  proof (cases "r \<in> set level")
    case True
    with Cons [of level] show ?thesis by (auto simp: expand_root_def insert_absorb)
  next
    case False
    with Cons [of "level @ [r]"] show ?thesis by (auto simp: expand_root_def)
  qed
qed auto

context walk_source
begin

lemma expand_loop_spec:
  assumes kinds: "kinds_ok (w_gix w) H"
    and "closed_but (w_gix w) H (\<lambda>b. f \<noteq> BlobNone) X (set level)" and "set level \<subseteq> X"
    and "\<forall>i\<in>set level. oid_ok i" and "set level \<subseteq> subtrees (w_gix w) H R"
    and "X \<subseteq> snapshot (w_gix w) H (\<lambda>b. f \<noteq> BlobNone) R"
  shows "eff_spec I (\<lambda>e. E e \<or> corruption e \<or> e = WalkDiverges \<and>
      (finite (Range (tree_rel (w_gix w) H)) \<longrightarrow> n \<le> level_cost (w_gix w) H X level))
    (\<lambda>X'. X \<subseteq> X' \<and> closed_but (w_gix w) H (\<lambda>b. f \<noteq> BlobNone) X' {} \<and>
       X' \<subseteq> snapshot (w_gix w) H (\<lambda>b. f \<noteq> BlobNone) R) (expand_loop w f n X level)"
  using assms(2-)
proof (induction n arbitrary: X level)
  case (Suc n)
  let ?gx = "w_gix w" and ?P = "\<lambda>b::ObjectId. f \<noteq> BlobNone"
  let ?E = "\<lambda>e. E e \<or> corruption e \<or> e = WalkDiverges \<and>
      (finite (Range (tree_rel ?gx H)) \<longrightarrow> Suc n \<le> level_cost ?gx H X level)"
  let ?Q = "\<lambda>X'. X \<subseteq> X' \<and> closed_but ?gx H ?P X' {} \<and> X' \<subseteq> snapshot ?gx H ?P R"
  define es where "es = concat (map (\<lambda>i. map (keep_name False) (tree_of ?gx H i)) level)"
  have es: "sub_ids es = tree_rel ?gx H `` set level" "leaf_ids es = leaf_rel ?gx H `` set level"
    by (auto simp: es_def ids_concat ids_tree_of)
  show ?case
  proof (cases "level = []")
    case True
    with Suc.prems show ?thesis by auto
  next
    case False
    obtain X1 nxt where fold: "foldl (expand_entry f) (X, []) es = (X1, nxt)" by force
    from expand_fold [OF fold] have F: "X1 = X \<union> sub_ids es \<union> (if f \<noteq> BlobNone then leaf_ids es else {})"
      "set nxt \<subseteq> sub_ids es - X" "X1 \<subseteq> X \<union> set nxt \<union> leaf_ids es" by auto
    have closed: "closed_but ?gx H ?P X1 (set nxt)"
      by (rule closed_but_expand [OF kinds Suc.prems(1,2) F(1,3) es])
    have sub: "set nxt \<subseteq> subtrees ?gx H R" using F(2) es(1) Suc.prems(4) subtrees_step by blast
    have "tree_rel ?gx H `` set level \<subseteq> snapshot ?gx H ?P R"
      using Suc.prems(4) subtrees_step by (fastforce simp: snapshot_def)
    moreover have "f \<noteq> BlobNone \<Longrightarrow> leaf_rel ?gx H `` set level \<subseteq> snapshot ?gx H ?P R"
      using Suc.prems(4) by (auto simp: snapshot_def)
    ultimately have snap: "X1 \<subseteq> snapshot ?gx H ?P R" using Suc.prems(5) by (simp add: F(1) es)
    have cost: "level_cost ?gx H X1 nxt < level_cost ?gx H X level" if "finite (Range (tree_rel ?gx H))"
    proof (rule level_cost_next [OF that _ False])
      show "\<exists>c\<in>X1 - X. c \<in> Range (tree_rel ?gx H)" if "nxt \<noteq> []"
      proof -
        from that F(2) obtain c where "c \<in> sub_ids es - X" by (auto simp: neq_Nil_conv)
        then show ?thesis unfolding F(1) es by blast
      qed
    qed (auto simp: F(1))
    have go: "eff_spec I ?E ?Q (expand_loop w f n X1 nxt)"
    proof (rule eff_spec_weaken [OF Suc.IH [OF closed _ _ sub snap]])
      show "set nxt \<subseteq> X1" using F by auto
      show "\<forall>i\<in>set nxt. oid_ok i" using F(2) es(1) children_oid_ok [OF gix_laws] by blast
    qed (use F(1) cost in auto)
    have "eff_spec I ?E (\<lambda>trees. concat trees = es) (read_trees w level False)"
      by (rule eff_spec_weaken [OF read_trees_spec]) (use Suc.prems(3) in \<open>auto simp: es_def\<close>)
    from eff_spec_bind [OF this, of ?Q] go fold show ?thesis
      unfolding expand_loop.simps if_not_P [OF False] by (simp add: fold)
  qed
qed auto

lemma expand_haves_spec:
  assumes kinds: "kinds_ok (w_gix w) H" and "\<forall>i\<in>set roots. oid_ok i"
  shows "eff_spec I (\<lambda>e. E e \<or> corruption e \<or> e = WalkDiverges \<and>
      (finite (Range (tree_rel (w_gix w) H)) \<longrightarrow> w_fuel w \<le> 1 + card (Range (tree_rel (w_gix w) H))))
    (\<lambda>X. X = snapshot (w_gix w) H (\<lambda>b. f \<noteq> BlobNone) (set roots)) (expand_haves w roots {} f)"
proof -
  let ?gx = "w_gix w" and ?P = "\<lambda>b::ObjectId. f \<noteq> BlobNone"
  from expand_roots [of "[]" roots] obtain level where fold: "foldl expand_root ({}, []) roots = (set roots, level)"
    and level: "set level = set roots" by auto
  have "closed_but ?gx H ?P (set roots) (set level)" by (simp add: closed_but_def level)
  moreover have "set roots \<subseteq> snapshot ?gx H ?P (set roots)" using subtrees_base by (fastforce simp: snapshot_def)
  ultimately have "eff_spec I (\<lambda>e. E e \<or> corruption e \<or> e = WalkDiverges \<and>
      (finite (Range (tree_rel ?gx H)) \<longrightarrow> w_fuel w \<le> level_cost ?gx H (set roots) level))
    (\<lambda>X'. set roots \<subseteq> X' \<and> closed_but ?gx H ?P X' {} \<and> X' \<subseteq> snapshot ?gx H ?P (set roots))
    (expand_loop w f (w_fuel w) (set roots) level)"
    by (intro expand_loop_spec [OF kinds]) (use level assms(2) subtrees_base in auto)
  then show ?thesis
    unfolding expand_haves_def fold Let_def prod.case
  proof (rule eff_spec_weaken)
    show "X' = snapshot ?gx H ?P (set roots)"
      if "set roots \<subseteq> X' \<and> closed_but ?gx H ?P X' {} \<and> X' \<subseteq> snapshot ?gx H ?P (set roots)" for X'
      using that snapshot_closed by blast
    have "finite (Range (tree_rel ?gx H)) \<Longrightarrow>
        level_cost ?gx H (set roots) level \<le> 1 + card (Range (tree_rel ?gx H))"
      using card_mono [of "Range (tree_rel ?gx H)" "Range (tree_rel ?gx H) - set roots"]
      by (auto simp: level_cost_def)
    then show "E e \<or> corruption e \<or> e = WalkDiverges \<and>
        (finite (Range (tree_rel ?gx H)) \<longrightarrow> w_fuel w \<le> 1 + card (Range (tree_rel ?gx H)))"
      if "E e \<or> corruption e \<or> e = WalkDiverges \<and>
        (finite (Range (tree_rel ?gx H)) \<longrightarrow> w_fuel w \<le> level_cost ?gx H (set roots) level)" for e
      using that by (auto intro: order.trans)
  qed
qed

lemma object_sizes_spec:
  assumes "\<forall>i\<in>set ids. oid_ok i"
  shows "eff_spec I (\<lambda>e. False)
    (list_all2 (\<lambda>i (j, r). j = i \<and> (\<forall>x. r = Inr (Some x) \<longrightarrow> size_agrees H i x)) ids) (object_sizes w ids)"
  unfolding object_sizes_def
  by (rule eff_spec_map, rule eff_spec_bind [OF eff_spec_attempt [OF size_ok]])
    (use assms in \<open>auto intro!: eff_spec_return split: sum.splits\<close>)

end

section \<open>The want side\<close>

text \<open>The state of a level once the entries \<open>pes\<close> are processed, from the collected ids \<open>A\<close>.\<close>

definition level_state :: "ObjectId set \<Rightarrow> ObjectId set \<Rightarrow> TreeEntry list \<Rightarrow> tree_step \<Rightarrow> bool" where
  "level_state X A es ts \<longleftrightarrow>
     set (ts_objects ts) = A \<union> (sub_ids es - X) \<and> distinct (ts_objects ts) \<and>
     fst ` set (ts_next ts) = sub_ids es - X - A \<and>
     ts_seen ts = fst ` set (ts_candidates ts) \<and>
     fst ` set (ts_candidates ts) \<subseteq> leaf_ids es - X \<and>
     leaf_ids es \<subseteq> X \<union> set (ts_objects ts) \<union> fst ` set (ts_candidates ts)"

definition level_paths :: "(bytes \<times> TreeEntry) list \<Rightarrow> tree_step \<Rightarrow> bool" where
  "level_paths pes ts \<longleftrightarrow>
     (\<forall>x\<in>set (ts_next ts). \<exists>q name. (q, Subtree (fst x) (Some name)) \<in> set pes \<and> snd x = join_path q name) \<and>
     (\<forall>x\<in>set (ts_candidates ts). \<exists>q name. (q, Leaf (fst x) (Some name)) \<in> set pes \<and> snd x = join_path q name)"

definition named :: "TreeEntry \<Rightarrow> bool" where
  "named e \<longleftrightarrow> (\<exists>c name. e = Subtree c (Some name) \<or> e = Leaf c (Some name))"

lemma entry_path_Inr:
  assumes "record_paths \<Longrightarrow> name \<noteq> None"
  obtains p where "entry_path record_paths q name = Inr p"
    and "record_paths \<Longrightarrow> \<exists>n. name = Some n \<and> p = join_path q n"
  using assms by (cases record_paths; cases name) (auto simp: entry_path_def)

lemma walk_entry_cases [consumes 1, case_names skip_tree tree skip_leaf leaf]:
  assumes "record_paths \<Longrightarrow> named e"
  obtains (skip_tree) c n where "e = Subtree c n" "c \<in> set (ts_objects ts) \<union> have_objects"
      "walk_entry have_objects record_paths q ts e = Inr ts"
  | (tree) c n p where "e = Subtree c n" "c \<notin> set (ts_objects ts)" "c \<notin> have_objects"
      "walk_entry have_objects record_paths q ts e =
         Inr (ts\<lparr>ts_objects := ts_objects ts @ [c], ts_next := ts_next ts @ [(c, p)]\<rparr>)"
      "record_paths \<Longrightarrow> \<exists>m. n = Some m \<and> p = join_path q m"
  | (skip_leaf) c n where "e = Leaf c n" "c \<in> have_objects \<union> set (ts_objects ts) \<union> ts_seen ts"
      "walk_entry have_objects record_paths q ts e = Inr ts"
  | (leaf) c n p where "e = Leaf c n" "c \<notin> have_objects" "c \<notin> set (ts_objects ts)" "c \<notin> ts_seen ts"
      "walk_entry have_objects record_paths q ts e =
         Inr (ts\<lparr>ts_candidates := ts_candidates ts @ [(c, p)], ts_seen := insert c (ts_seen ts)\<rparr>)"
      "record_paths \<Longrightarrow> \<exists>m. n = Some m \<and> p = join_path q m"
proof (cases e)
  case (Subtree c n)
  have n: "record_paths \<Longrightarrow> n \<noteq> None" using assms by (auto simp: Subtree named_def)
  obtain p where "entry_path record_paths q n = Inr p" "record_paths \<Longrightarrow> \<exists>m. n = Some m \<and> p = join_path q m"
    using entry_path_Inr [OF n] by blast
  then show thesis
    using that(1,2) Subtree by (cases "c \<in> set (ts_objects ts) \<union> have_objects") (auto simp: walk_entry_def oset_insert_def)
next
  case (Leaf c n)
  have n: "record_paths \<Longrightarrow> n \<noteq> None" using assms by (auto simp: Leaf named_def)
  obtain p where "entry_path record_paths q n = Inr p" "record_paths \<Longrightarrow> \<exists>m. n = Some m \<and> p = join_path q m"
    using entry_path_Inr [OF n] by blast
  then show thesis
    using that(3,4) Leaf by (cases "c \<in> have_objects \<union> set (ts_objects ts) \<union> ts_seen ts") (auto simp: walk_entry_def)
qed

lemma ids_snoc [simp]:
  "sub_ids (es @ [Subtree c n]) = insert c (sub_ids es)" "sub_ids (es @ [Leaf c n]) = sub_ids es"
  "leaf_ids (es @ [Leaf c n]) = insert c (leaf_ids es)" "leaf_ids (es @ [Subtree c n]) = leaf_ids es"
  by (auto simp: sub_ids_def leaf_ids_def)

lemma level_paths_mono: "level_paths pes ts \<Longrightarrow> set pes \<subseteq> set pes' \<Longrightarrow> level_paths pes' ts"
  unfolding level_paths_def by (meson subsetD)

lemma walk_entry_state:
  assumes state: "level_state X A es ts" and "rp \<Longrightarrow> named e"
  shows "\<exists>ts'. walk_entry X rp q ts e = Inr ts' \<and> level_state X A (es @ [e]) ts' \<and>
    (rp \<longrightarrow> level_paths pes ts \<longrightarrow> level_paths (pes @ [(q, e)]) ts')"
proof -
  have keep: "level_paths pes ts \<Longrightarrow> level_paths (pes @ [(q, e)]) ts" by (erule level_paths_mono) auto
  let ?S = "sub_ids es"
  from state have S: "set (ts_objects ts) = A \<union> (?S - X)" "distinct (ts_objects ts)"
    "fst ` set (ts_next ts) = ?S - X - A" "ts_seen ts = fst ` set (ts_candidates ts)"
    "fst ` set (ts_candidates ts) \<subseteq> leaf_ids es - X"
    "leaf_ids es \<subseteq> X \<union> set (ts_objects ts) \<union> fst ` set (ts_candidates ts)"
    unfolding level_state_def by blast+
  show ?thesis
  proof (cases rule: walk_entry_cases [of rp e ts X q, case_names named skip_tree tree skip_leaf leaf])
    case named
    then show ?case by (rule assms(2))
  next
    case (skip_tree c n)
    have "A \<union> (insert c ?S - X) = A \<union> (?S - X)" "insert c ?S - X - A = ?S - X - A"
      using skip_tree(2) unfolding S(1) by blast+
    with S skip_tree keep show ?thesis by (simp add: level_state_def)
  next
    case (skip_leaf c n)
    have "fst ` set (ts_candidates ts) \<subseteq> insert c (leaf_ids es) - X"
      "insert c (leaf_ids es) \<subseteq> X \<union> set (ts_objects ts) \<union> fst ` set (ts_candidates ts)"
      using skip_leaf(2) S(4-6) by blast+
    with S skip_leaf keep show ?thesis by (simp add: level_state_def)
  next
    case (tree c n p)
    have c: "c \<notin> A" "c \<notin> X" using tree(2,3) S(1) by auto
    let ?ts = "ts\<lparr>ts_objects := ts_objects ts @ [c], ts_next := ts_next ts @ [(c, p)]\<rparr>"
    have "insert c (A \<union> (?S - X)) = A \<union> (insert c ?S - X)" "insert c (?S - X - A) = insert c ?S - X - A"
      "leaf_ids es \<subseteq> X \<union> insert c (set (ts_objects ts)) \<union> fst ` set (ts_candidates ts)"
      using c S(6) by blast+
    with S tree(1,2) have "level_state X A (es @ [e]) ?ts" by (simp add: level_state_def)
    moreover have "level_paths (pes @ [(q, e)]) ?ts" if "level_paths pes ts" rp
      using keep [OF that(1)] tree(1,5) that(2) by (auto simp: level_paths_def)
    ultimately show ?thesis using tree(4) by blast
  next
    case (leaf c n p)
    let ?ts = "ts\<lparr>ts_candidates := ts_candidates ts @ [(c, p)], ts_seen := insert c (ts_seen ts)\<rparr>"
    have "insert c (fst ` set (ts_candidates ts)) \<subseteq> insert c (leaf_ids es) - X"
      "insert c (leaf_ids es) \<subseteq> X \<union> set (ts_objects ts) \<union> insert c (fst ` set (ts_candidates ts))"
      using leaf(2) S(5,6) by blast+
    with S leaf(1) have "level_state X A (es @ [e]) ?ts" by (simp add: level_state_def)
    moreover have "level_paths (pes @ [(q, e)]) ?ts" if "level_paths pes ts" rp
      using keep [OF that(1)] leaf(1,6) that(2) by (auto simp: level_paths_def)
    ultimately show ?thesis using leaf(5) by blast
  qed
qed

lemma walk_entries_state:
  assumes "level_state X A (map snd pre) ts" and "rp \<Longrightarrow> level_paths pre ts"
    and "rp \<Longrightarrow> \<forall>x\<in>set pes. named (snd x)"
  shows "\<exists>ts'. walk_entries X rp ts pes = Inr ts' \<and> level_state X A (map snd (pre @ pes)) ts' \<and>
    (rp \<longrightarrow> level_paths (pre @ pes) ts')"
  using assms
proof (induction pes arbitrary: ts pre)
  case (Cons x pes)
  obtain q e where x: "x = (q, e)" by force
  from walk_entry_state [OF Cons.prems(1), of rp e q pre] Cons.prems(2,3) obtain ts1 where
    ts1: "walk_entry X rp q ts e = Inr ts1" "level_state X A (map snd (pre @ [(q, e)])) ts1"
    "rp \<Longrightarrow> level_paths (pre @ [(q, e)]) ts1" by (auto simp: x)
  from Cons.IH [OF ts1(2,3)] Cons.prems(3) ts1(1) show ?case by (simp add: x)
qed auto

subsection \<open>Admitting blobs\<close>

definition admit_post ::
    "bool \<Rightarrow> (ObjectId \<times> bytes) list \<Rightarrow> (ObjectId \<Rightarrow> bool) \<Rightarrow> CollectedObjects \<Rightarrow> CollectedObjects \<Rightarrow> bool" where
  "admit_post rp cands P col col' \<longleftrightarrow>
     set (objects col') = set (objects col) \<union> {c \<in> fst ` set cands. P c} \<and>
     (distinct (objects col) \<longrightarrow> distinct (objects col')) \<and>
     (\<forall>b p. blob_paths col' b = Some p \<longrightarrow> blob_paths col b = Some p \<or> rp \<and> (b, p) \<in> set cands \<and> P b)"

lemma admit_post_refl: "(\<And>c. c \<in> fst ` set cands \<Longrightarrow> \<not> P c) \<Longrightarrow> admit_post rp cands P col col"
  by (auto simp: admit_post_def)

lemma admit_post_step:
  assumes "admit_post rp cands P (if P c then admit_blob rp col c p else col) col'"
  shows "admit_post rp ((c, p) # cands) P col col'"
proof (cases "P c")
  case False
  with assms show ?thesis by (auto simp: admit_post_def)
next
  case True
  have "blob_paths (admit_blob rp col c p) b = Some q \<Longrightarrow> blob_paths col b = Some q \<or> rp \<and> b = c \<and> q = p" for b q
    by (auto simp: admit_blob_def or_insert_def split: option.splits if_splits)
  moreover have "set (objects (admit_blob rp col c p)) = insert c (set (objects col))"
    "distinct (objects col) \<Longrightarrow> distinct (objects (admit_blob rp col c p))"
    by (auto simp: admit_blob_def oset_insert_def)
  ultimately show ?thesis using assms True by (simp add: admit_post_def) blast
qed

lemma admit_all: "admit_post rp cands (\<lambda>b. True) col
    (foldl (\<lambda>col (child, path). admit_blob rp col child path) col cands)"
proof (induction cands arbitrary: col)
  case (Cons x cands)
  obtain c p where "x = (c, p)" by force
  with Cons [of "admit_blob rp col c p"] admit_post_step [of rp cands "\<lambda>b. True" c col p] show ?case by simp
qed (simp add: admit_post_def)

lemma known_size_cases:
  "known_size e r = Inl e' \<Longrightarrow> e' = e \<or> storage_error e'"
  "known_size e r = Inr x \<Longrightarrow> r = Inr (Some x)"
  by (cases r; auto simp: known_size_def ok_or_def split: option.splits)+

lemma admit_sized_post:
  assumes "list_all2 (\<lambda>i (j, r). j = i \<and> (\<forall>x. r = Inr (Some x) \<longrightarrow> size_agrees H i x)) (map fst cands) sizes"
  shows "case admit_sized limit rp col (zip cands sizes) of
      Inl e \<Rightarrow> storage_error e \<or> corruption e
    | Inr col' \<Rightarrow> admit_post rp cands (admits H (BlobLimit limit)) col col'"
  using assms
proof (induction cands arbitrary: sizes col)
  case (Cons x cands)
  obtain c p where x: "x = (c, p)" by force
  from Cons.prems obtain r sizes' where sizes: "sizes = (c, r) # sizes'"
    "\<And>x. r = Inr (Some x) \<Longrightarrow> size_agrees H c x"
    "list_all2 (\<lambda>i (j, r). j = i \<and> (\<forall>x. r = Inr (Some x) \<longrightarrow> size_agrees H i x)) (map fst cands) sizes'"
    by (auto simp: x list_all2_Cons1)
  show ?case
  proof (cases "known_size (MissingObject c) r")
    case (Inl e)
    with known_size_cases(1) [OF Inl] show ?thesis by (auto simp: x sizes)
  next
    case (Inr y)
    obtain kind n where y: "y = (kind, n)" by force
    have "size_agrees H c (kind, n)" using sizes(2) known_size_cases(2) [OF Inr] y by simp
    then have adm: "admits H (BlobLimit limit) c \<longleftrightarrow> n \<le> limit" by (auto simp: size_agrees_def)
    define col1 where "col1 = (if admits H (BlobLimit limit) c then admit_blob rp col c p else col)"
    have run: "admit_sized limit rp col (zip (x # cands) sizes) = admit_sized limit rp col1 (zip cands sizes')"
      using Inr y adm by (simp add: x sizes(1) col1_def del: admits.simps)
    from Cons.IH [OF sizes(3), of col1] show ?thesis
      unfolding run using admit_post_step [of rp cands "admits H (BlobLimit limit)" c col p, folded col1_def]
      by (auto simp: x simp del: admits.simps split: sum.splits)
  qed
qed (simp add: admit_post_def)

context walk_source
begin

lemma admit_blobs_spec:
  assumes "\<forall>x\<in>set cands. oid_ok (fst x)"
  shows "eff_spec I (\<lambda>e. E e \<or> corruption e) (admit_post rp cands (admits H f) col) (admit_blobs w cands col f rp)"
proof (cases f)
  case NoFilter
  moreover have "admits H NoFilter = (\<lambda>b. True)" by (simp add: fun_eq_iff)
  ultimately show ?thesis using admit_all [of rp cands col] by (simp add: admit_blobs_def eff_spec_return)
next
  case BlobNone
  then show ?thesis by (simp add: admit_blobs_def eff_spec_return admit_post_refl)
next
  case (BlobLimit limit)
  have "eff_spec I (\<lambda>e. E e \<or> corruption e)
      (list_all2 (\<lambda>i (j, r). j = i \<and> (\<forall>x. r = Inr (Some x) \<longrightarrow> size_agrees H i x)) (map fst cands))
      (object_sizes w (map fst cands))"
    by (rule eff_spec_weaken [OF object_sizes_spec]) (use assms in auto)
  then show ?thesis
    unfolding admit_blobs_def BlobLimit FilterSpec.case
    by (rule eff_spec_bind)
      (rule eff_spec_lift; use admit_sized_post [where H = H and cands = cands and limit = limit and rp = rp and col = col] errors(2) in \<open>fastforce split: sum.splits\<close>)
qed

end

end
