(* ===== verification/Collect_Complete.thy ===== *)
theory Collect_Complete
  imports Collect_Correct
begin

text \<open>
  The want side of Phase II as a closure computation: the ids collected so far, together with
  what the client has, contain the admitted children of every tree in them but the trees of
  the current level. Every collected blob path leads from a root tree to the blob.
\<close>

section \<open>Paths\<close>

inductive tree_at :: "gix_object \<Rightarrow> (ObjectId \<rightharpoonup> Kind \<times> bytes) \<Rightarrow> ObjectId \<Rightarrow> ObjectId \<Rightarrow> bytes \<Rightarrow> bool"
  for gx H root where
  root: "tree_at gx H root root []"
| sub: "tree_at gx H root t p \<Longrightarrow> Subtree c (Some name) \<in> set (tree_of gx H t) \<Longrightarrow>
    tree_at gx H root c (join_path p name)"

definition blob_at :: "gix_object \<Rightarrow> (ObjectId \<rightharpoonup> Kind \<times> bytes) \<Rightarrow> ObjectId \<Rightarrow> ObjectId \<Rightarrow> bytes \<Rightarrow> bool" where
  "blob_at gx H root b p \<longleftrightarrow>
     (\<exists>t q name. tree_at gx H root t q \<and> Leaf b (Some name) \<in> set (tree_of gx H t) \<and> p = join_path q name)"

section \<open>The invariant\<close>

definition collect_inv ::
    "gix_object \<Rightarrow> (ObjectId \<rightharpoonup> Kind \<times> bytes) \<Rightarrow> ObjectId set \<Rightarrow> FilterSpec \<Rightarrow> bool \<Rightarrow> ObjectId set \<Rightarrow> ObjectId set
      \<Rightarrow> (ObjectId \<times> bytes) list \<Rightarrow> CollectedObjects \<Rightarrow> bool" where
  "collect_inv gx H X f rp B R level col \<longleftrightarrow>
     closed_but gx H (admits H f) (set (objects col) \<union> X) (fst ` set level) \<and>
     distinct (objects col) \<and> fst ` set level \<subseteq> set (objects col) \<and> fst ` set level \<subseteq> subtrees gx H R \<and>
     B \<subseteq> set (objects col) \<and> set (objects col) \<subseteq> B \<union> (snapshot gx H (admits H f) R - X) \<and>
     (\<forall>x\<in>set level. oid_ok (fst x)) \<and>
     (\<forall>x\<in>set level. rp \<longrightarrow> (\<exists>r\<in>R. tree_at gx H r (fst x) (snd x))) \<and>
     (\<forall>b p. blob_paths col b = Some p \<longrightarrow> b \<in> set (objects col) \<and> (\<exists>r\<in>R. blob_at gx H r b p))"

lemma level_entries_map:
  "level_entries level (map (\<lambda>i. map g (tr i)) (map fst level)) =
     concat (map (\<lambda>x. map (\<lambda>e. (snd x, g e)) (tr (fst x))) level)"
  by (induction level) (auto simp: level_entries_def comp_def)

lemma keep_name_inject:
  "keep_name b e = Subtree c n \<longleftrightarrow> (\<exists>m. e = Subtree c m \<and> n = (if b then m else None))"
  "keep_name b e = Leaf c n \<longleftrightarrow> (\<exists>m. e = Leaf c m \<and> n = (if b then m else None))"
  by (cases e; auto)+

lemma closed_but_level:
  assumes kinds: "kinds_ok gx H"
    and closed: "closed_but gx H (admits H f) (A \<union> X) L" and L: "L \<subseteq> A"
    and es: "sub_ids es = tree_rel gx H `` L" "leaf_ids es = leaf_rel gx H `` L"
    and ts: "level_state X A es ts"
    and Y: "Y = set (ts_objects ts) \<union> {c \<in> fst ` set (ts_candidates ts). admits H f c}"
  shows "closed_but gx H (admits H f) (Y \<union> X) (fst ` set (ts_next ts))"
  unfolding closed_but_def
proof
  let ?C = "fst ` set (ts_candidates ts)"
  from ts have S: "set (ts_objects ts) = A \<union> (sub_ids es - X)" "fst ` set (ts_next ts) = sub_ids es - X - A"
    "?C \<subseteq> leaf_ids es - X" "leaf_ids es \<subseteq> X \<union> set (ts_objects ts) \<union> ?C"
    unfolding level_state_def by blast+
  fix t assume t: "t \<in> Y \<union> X - fst ` set (ts_next ts)"
  show "tree_rel gx H `` {t} \<subseteq> Y \<union> X \<and> {b \<in> leaf_rel gx H `` {t}. admits H f b} \<subseteq> Y \<union> X"
  proof (cases "t \<in> A \<union> X")
    case AX: True
    show ?thesis
    proof (cases "t \<in> L")
      case True
      have "tree_rel gx H `` {t} \<subseteq> sub_ids es" "leaf_rel gx H `` {t} \<subseteq> leaf_ids es" using True es by auto
      then show ?thesis unfolding Y S(1) using S(1,4) by blast
    next
      case False
      with AX closed have "tree_rel gx H `` {t} \<subseteq> A \<union> X" "{b \<in> leaf_rel gx H `` {t}. admits H f b} \<subseteq> A \<union> X"
        by (auto simp: closed_but_def)
      then show ?thesis unfolding Y S(1) by blast
    qed
  next
    case False
    with t S(1-3) Y have "t \<in> leaf_ids es" by blast
    then obtain u where "(u, t) \<in> leaf_rel gx H" unfolding es by blast
    then show ?thesis using no_children [OF tree_of_leaf [OF kinds]] by simp
  qed
qed

definition path_entries ::
    "gix_object \<Rightarrow> (ObjectId \<rightharpoonup> Kind \<times> bytes) \<Rightarrow> bool \<Rightarrow> (ObjectId \<times> bytes) list \<Rightarrow> (bytes \<times> TreeEntry) list" where
  "path_entries gx H rp level = concat (map (\<lambda>x. map (\<lambda>e. (snd x, keep_name rp e)) (tree_of gx H (fst x))) level)"

lemma path_entries_ids:
  "sub_ids (map snd (path_entries gx H rp level)) = tree_rel gx H `` (fst ` set level)"
  "leaf_ids (map snd (path_entries gx H rp level)) = leaf_rel gx H `` (fst ` set level)"
proof -
  have "map snd (path_entries gx H rp level) = concat (map (\<lambda>x. map (keep_name rp) (tree_of gx H (fst x))) level)"
    by (induction level) (auto simp: path_entries_def comp_def)
  then show "sub_ids (map snd (path_entries gx H rp level)) = tree_rel gx H `` (fst ` set level)"
    "leaf_ids (map snd (path_entries gx H rp level)) = leaf_rel gx H `` (fst ` set level)"
    by (auto simp: ids_concat ids_tree_of)
qed

lemma path_entries_named:
  assumes "gix_ok gx" and "x \<in> set (path_entries gx H True level)"
  shows "named (snd x)"
  using assms(2) tree_of_entries [OF assms(1)] by (fastforce simp: path_entries_def named_def)

lemma path_entries_at:
  assumes "\<forall>x\<in>set level. \<exists>r\<in>R. tree_at gx H r (fst x) (snd x)"
  shows "(q, Subtree c (Some name)) \<in> set (path_entries gx H True level) \<Longrightarrow> \<exists>r\<in>R. tree_at gx H r c (join_path q name)"
    and "(q, Leaf c (Some name)) \<in> set (path_entries gx H True level) \<Longrightarrow> \<exists>r\<in>R. blob_at gx H r c (join_path q name)"
proof -
  assume "(q, Subtree c (Some name)) \<in> set (path_entries gx H True level)"
  then obtain x where "x \<in> set level" "q = snd x" "Subtree c (Some name) \<in> set (tree_of gx H (fst x))"
    by (auto simp: path_entries_def keep_name_inject eq_commute [of "Subtree _ _"])
  with assms show "\<exists>r\<in>R. tree_at gx H r c (join_path q name)" by (blast intro: tree_at.sub)
next
  assume "(q, Leaf c (Some name)) \<in> set (path_entries gx H True level)"
  then obtain x where "x \<in> set level" "q = snd x" "Leaf c (Some name) \<in> set (tree_of gx H (fst x))"
    by (auto simp: path_entries_def keep_name_inject eq_commute [of "Leaf _ _"])
  with assms show "\<exists>r\<in>R. blob_at gx H r c (join_path q name)" unfolding blob_at_def by blast
qed

lemma collect_inv_level:
  assumes kinds: "kinds_ok gx H" and gx: "gix_ok gx" and inv: "collect_inv gx H X f rp B R level col"
    and ts: "level_state X (set (objects col)) (map snd (path_entries gx H rp level)) ts"
    and paths: "rp \<Longrightarrow> level_paths (path_entries gx H rp level) ts"
    and admit: "admit_post rp (ts_candidates ts) (admits H f) (col\<lparr>objects := ts_objects ts\<rparr>) col'"
  shows "collect_inv gx H X f rp B R (ts_next ts) col'"
proof -
  let ?L = "fst ` set level" and ?A = "set (objects col)" and ?C = "fst ` set (ts_candidates ts)"
  let ?es = "map snd (path_entries gx H rp level)"
  from inv have I: "closed_but gx H (admits H f) (?A \<union> X) ?L" "?L \<subseteq> ?A" "?L \<subseteq> subtrees gx H R"
    "B \<subseteq> ?A" "?A \<subseteq> B \<union> (snapshot gx H (admits H f) R - X)"
    "\<And>b p. blob_paths col b = Some p \<Longrightarrow> b \<in> ?A \<and> (\<exists>r\<in>R. blob_at gx H r b p)"
    unfolding collect_inv_def by blast+
  have at: "rp \<Longrightarrow> \<forall>x\<in>set level. \<exists>r\<in>R. tree_at gx H r (fst x) (snd x)" using inv by (auto simp: collect_inv_def)
  from ts have S: "set (ts_objects ts) = ?A \<union> (sub_ids ?es - X)" "fst ` set (ts_next ts) = sub_ids ?es - X - ?A"
    "?C \<subseteq> leaf_ids ?es - X" "distinct (ts_objects ts)" unfolding level_state_def by blast+
  from admit S(4) have O: "set (objects col') = set (ts_objects ts) \<union> {c \<in> ?C. admits H f c}" "distinct (objects col')"
    "\<And>b p. blob_paths col' b = Some p \<Longrightarrow> blob_paths col b = Some p \<or> rp \<and> (b, p) \<in> set (ts_candidates ts) \<and> admits H f b"
    by (auto simp: admit_post_def)
  note ids = path_entries_ids [of gx H rp level]
  have closed: "closed_but gx H (admits H f) (set (objects col') \<union> X) (fst ` set (ts_next ts))"
    by (rule closed_but_level [OF kinds I(1,2) ids ts O(1)])
  have sub: "sub_ids ?es \<subseteq> subtrees gx H R" unfolding ids using I(3) subtrees_step by blast
  moreover have "{c \<in> leaf_ids ?es. admits H f c} \<subseteq> snapshot gx H (admits H f) R"
    unfolding ids snapshot_def using I(3) by blast
  ultimately have "sub_ids ?es \<union> {c \<in> leaf_ids ?es. admits H f c} \<subseteq> snapshot gx H (admits H f) R"
    unfolding snapshot_def by blast
  then have bound: "set (objects col') \<subseteq> B \<union> (snapshot gx H (admits H f) R - X)"
    unfolding O(1) S(1) using I(5) S(3) by blast
  have oids: "oid_ok (fst x)" if "x \<in> set (ts_next ts)" for x
  proof -
    have "fst x \<in> sub_ids ?es" using that S(2) by blast
    then show ?thesis unfolding ids using children_oid_ok [OF gx] by blast
  qed
  have nat_at: "\<exists>r\<in>R. tree_at gx H r (fst x) (snd x)" if "x \<in> set (ts_next ts)" rp for x
    using that paths path_entries_at(1) [OF at] unfolding level_paths_def by fastforce
  have "b \<in> set (objects col') \<and> (\<exists>r\<in>R. blob_at gx H r b p)" if "blob_paths col' b = Some p" for b p
    using O(3) [OF that]
  proof
    assume "blob_paths col b = Some p"
    with I(6) O(1) S(1) show ?thesis by blast
  next
    assume b: "rp \<and> (b, p) \<in> set (ts_candidates ts) \<and> admits H f b"
    then have "b \<in> ?C" by force
    moreover have "\<exists>r\<in>R. blob_at gx H r b p"
      using b paths path_entries_at(2) [OF at] unfolding level_paths_def by fastforce
    ultimately show ?thesis using b O(1) by blast
  qed
  then show ?thesis
    unfolding collect_inv_def
    using closed bound oids nat_at O(1,2) S(1,2) I(4) sub by (intro conjI ballI allI impI) blast+
qed

section \<open>Walking one tree\<close>

definition collect_error :: "(WalkError \<Rightarrow> bool) \<Rightarrow> gix_object \<Rightarrow> (ObjectId \<rightharpoonup> Kind \<times> bytes) \<Rightarrow> nat \<Rightarrow> WalkError \<Rightarrow> bool" where
  "collect_error E gx H fuel e \<longleftrightarrow>
     E e \<or> corruption e \<or>
     e = WalkDiverges \<and> (finite (Range (tree_rel gx H)) \<longrightarrow> fuel \<le> 1 + card (Range (tree_rel gx H)))"

lemma collect_inv_root:
  assumes inv: "collect_inv gx H X f rp B R [] col" and "oid_ok root"
  shows "root \<notin> set (objects col) \<Longrightarrow> root \<notin> X \<Longrightarrow>
      collect_inv gx H X f rp B (insert root R) [(root, [])] (col\<lparr>objects := oset_insert (objects col) root\<rparr>)"
    and "collect_inv gx H X f rp B (insert root R) [] col"
proof -
  have mono: "snapshot gx H (admits H f) R \<subseteq> snapshot gx H (admits H f) (insert root R)"
    by (rule snapshot_mono) auto
  have root: "root \<in> subtrees gx H (insert root R)" using subtrees_base by blast
  then have "root \<in> snapshot gx H (admits H f) (insert root R)" by (simp add: snapshot_def)
  with inv mono assms(2) root tree_at.root [of gx H root]
  show "root \<notin> set (objects col) \<Longrightarrow> root \<notin> X \<Longrightarrow>
      collect_inv gx H X f rp B (insert root R) [(root, [])] (col\<lparr>objects := oset_insert (objects col) root\<rparr>)"
    unfolding collect_inv_def closed_but_def oset_insert_def by (auto; blast)
  show "collect_inv gx H X f rp B (insert root R) [] col"
    using inv mono unfolding collect_inv_def by (auto; blast)
qed

context walk_source
begin

lemma walk_tree_loop_spec:
  assumes kinds: "kinds_ok (w_gix w) H" and "collect_inv (w_gix w) H X f rp B R level col"
  shows "eff_spec I (\<lambda>e. E e \<or> corruption e \<or> e = WalkDiverges \<and>
      (finite (Range (tree_rel (w_gix w) H)) \<longrightarrow> n \<le> level_cost (w_gix w) H (set (objects col) \<union> X) level))
    (\<lambda>col'. collect_inv (w_gix w) H X f rp B R [] col' \<and> set (objects col) \<subseteq> set (objects col'))
    (walk_tree_loop w X f rp n col level)"
  using assms(2)
proof (induction n arbitrary: col level)
  case (Suc n)
  let ?gx = "w_gix w" and ?A = "set (objects col)"
  let ?E = "\<lambda>e. E e \<or> corruption e \<or> e = WalkDiverges \<and>
      (finite (Range (tree_rel ?gx H)) \<longrightarrow> Suc n \<le> level_cost ?gx H (?A \<union> X) level)"
  let ?Q = "\<lambda>col'. collect_inv ?gx H X f rp B R [] col' \<and> ?A \<subseteq> set (objects col')"
  let ?ts0 = "\<lparr>ts_objects = objects col, ts_next = [], ts_candidates = [], ts_seen = {}\<rparr>"
  let ?pes = "path_entries ?gx H rp level"
  show ?case
  proof (cases "level = []")
    case True
    with Suc.prems show ?thesis by auto
  next
    case False
    have "distinct (objects col)" using Suc.prems by (simp add: collect_inv_def)
    then obtain ts where walk: "walk_entries X rp ?ts0 ?pes = Inr ts"
      and ts: "level_state X ?A (map snd ?pes) ts" "rp \<Longrightarrow> level_paths ?pes ts"
      using walk_entries_state [of X ?A "[]" ?ts0 rp ?pes] path_entries_named [OF gix_laws]
      by (cases rp) (auto simp: level_state_def level_paths_def)
    from ts(1) have S: "set (ts_objects ts) = ?A \<union> (sub_ids (map snd ?pes) - X)"
      "fst ` set (ts_next ts) = sub_ids (map snd ?pes) - X - ?A"
      "fst ` set (ts_candidates ts) \<subseteq> leaf_ids (map snd ?pes)" unfolding level_state_def by blast+
    have read: "eff_spec I ?E (\<lambda>trees. level_entries level trees = ?pes) (read_trees w (map fst level) rp)"
      by (rule eff_spec_weaken [OF read_trees_spec])
        (use Suc.prems in \<open>auto simp: collect_inv_def level_entries_map path_entries_def simp del: map_map\<close>)
    have "\<forall>x\<in>set (ts_candidates ts). oid_ok (fst x)"
      using S(3) children_oid_ok(2) [OF gix_laws] unfolding path_entries_ids by blast
    then have admit: "eff_spec I ?E (admit_post rp (ts_candidates ts) (admits H f) (col\<lparr>objects := ts_objects ts\<rparr>))
        (admit_blobs w (ts_candidates ts) (col\<lparr>objects := ts_objects ts\<rparr>) f rp)"
      by (intro eff_spec_weaken [OF admit_blobs_spec]) auto
    have go: "eff_spec I ?E ?Q (walk_tree_loop w X f rp n col1 (ts_next ts))"
      if post: "admit_post rp (ts_candidates ts) (admits H f) (col\<lparr>objects := ts_objects ts\<rparr>) col1" for col1
    proof (rule eff_spec_weaken [OF Suc.IH [OF collect_inv_level [OF kinds gix_laws Suc.prems ts post]]])
      have sub: "set (ts_objects ts) \<subseteq> set (objects col1)" using post by (auto simp: admit_post_def)
      then show "?Q col'" if "collect_inv ?gx H X f rp B R [] col' \<and> set (objects col1) \<subseteq> set (objects col')" for col'
        using that S(1) by blast
      have "level_cost ?gx H (set (objects col1) \<union> X) (ts_next ts) < level_cost ?gx H (?A \<union> X) level"
        if fin: "finite (Range (tree_rel ?gx H))"
      proof (rule level_cost_next [OF fin _ False])
        show "?A \<union> X \<subseteq> set (objects col1) \<union> X" using sub S(1) by blast
        assume "ts_next ts \<noteq> []"
        then obtain c where "c \<in> fst ` set (ts_next ts)" by (cases "ts_next ts") auto
        then show "\<exists>c\<in>set (objects col1) \<union> X - (?A \<union> X). c \<in> Range (tree_rel ?gx H)"
          using sub unfolding S path_entries_ids by blast
      qed
      then show "?E e" if "E e \<or> corruption e \<or> e = WalkDiverges \<and> (finite (Range (tree_rel ?gx H)) \<longrightarrow>
          n \<le> level_cost ?gx H (set (objects col1) \<union> X) (ts_next ts))" for e
        using that by auto
    qed
    show ?thesis
      unfolding walk_tree_loop.simps if_not_P [OF False]
    proof (rule eff_spec_bind [OF read])
      fix trees assume "level_entries level trees = ?pes"
      then show "eff_spec I ?E ?Q
        (eff_bind (eff_lift (walk_entries X rp ?ts0 (level_entries level trees))) (\<lambda>ts.
         eff_bind (admit_blobs w (ts_candidates ts) (col\<lparr>objects := ts_objects ts\<rparr>) f rp) (\<lambda>col.
           walk_tree_loop w X f rp n col (ts_next ts))))"
        using eff_spec_bind [OF admit go] by (simp add: walk eff_bind_def eff_lift_def)
    qed
  qed
qed auto

lemma walk_tree_spec:
  assumes kinds: "kinds_ok (w_gix w) H" and inv: "collect_inv (w_gix w) H X f rp B R [] col" and "oid_ok root"
  shows "eff_spec I (collect_error E (w_gix w) H (w_fuel w))
    (\<lambda>col'. collect_inv (w_gix w) H X f rp B (insert root R) [] col' \<and> set (objects col) \<subseteq> set (objects col') \<and>
       root \<in> set (objects col') \<union> X) (walk_tree w root col X f rp)"
proof -
  let ?gx = "w_gix w"
  have cost: "collect_error E ?gx H (w_fuel w) e"
    if "E e \<or> corruption e \<or> e = WalkDiverges \<and>
        (finite (Range (tree_rel ?gx H)) \<longrightarrow> w_fuel w \<le> level_cost ?gx H Y level)"
    for e Y and level :: "(ObjectId \<times> bytes) list"
  proof -
    have "level_cost ?gx H Y level \<le> 1 + card (Range (tree_rel ?gx H))" if "finite (Range (tree_rel ?gx H))"
      using card_mono [OF that, of "Range (tree_rel ?gx H) - Y"] by (auto simp: level_cost_def)
    with that show ?thesis by (auto simp: collect_error_def intro: order.trans)
  qed
  show ?thesis
    unfolding walk_tree_def
  proof (rule eff_spec_if)
    assume r: "root \<notin> set (objects col) \<and> root \<notin> X"
    show "eff_spec I (collect_error E ?gx H (w_fuel w))
      (\<lambda>col'. collect_inv ?gx H X f rp B (insert root R) [] col' \<and> set (objects col) \<subseteq> set (objects col') \<and>
         root \<in> set (objects col') \<union> X)
      (walk_tree_loop w X f rp (w_fuel w) (col\<lparr>objects := oset_insert (objects col) root\<rparr>) [(root, [])])"
      by (rule eff_spec_weaken [OF walk_tree_loop_spec [OF kinds collect_inv_root(1) [OF inv assms(3)]]])
        (use r cost in \<open>auto simp: oset_insert_def\<close>)
  next
    assume r: "\<not> (root \<notin> set (objects col) \<and> root \<notin> X)"
    show "eff_spec I (collect_error E ?gx H (w_fuel w))
      (\<lambda>col'. collect_inv ?gx H X f rp B (insert root R) [] col' \<and> set (objects col) \<subseteq> set (objects col') \<and>
         root \<in> set (objects col') \<union> X) (walk_tree_loop w X f rp (w_fuel w) col [])"
      by (rule eff_spec_weaken [OF walk_tree_loop_spec [OF kinds collect_inv_root(2) [OF inv assms(3)]]])
        (use r cost in auto)
  qed
qed

end

section \<open>The collection\<close>

definition roots_of :: "graph \<Rightarrow> ObjectId set \<Rightarrow> ObjectId set" where
  "roots_of G S = {t. \<exists>i\<in>S. \<exists>ps. G i = Some (t, ps)}"

text \<open>
  What a collection must be: the send list and exactly what the filter admits of its commits'
  snapshots, less the snapshots of some of the haves.
\<close>

definition collected_ok ::
    "gix_object \<Rightarrow> (ObjectId \<rightharpoonup> Kind \<times> bytes) \<Rightarrow> FilterSpec \<Rightarrow> ObjectId list \<Rightarrow> ObjectId list \<Rightarrow> CollectedObjects \<Rightarrow> bool" where
  "collected_ok gx H f send haves col \<longleftrightarrow>
     (\<exists>C \<subseteq> set haves. C \<subseteq> dom (commit_graph_of gx H) \<and> distinct (objects col) \<and>
        set (objects col) = set send \<union>
          (snapshot gx H (admits H f) (roots_of (commit_graph_of gx H) (set send)) -
           snapshot gx H (\<lambda>b. f \<noteq> BlobNone) (roots_of (commit_graph_of gx H) C)) \<and>
        (\<forall>b p. blob_paths col b = Some p \<longrightarrow> b \<in> set (objects col) \<and>
           (\<exists>r\<in>roots_of (commit_graph_of gx H) (set send). blob_at gx H r b p)))"

lemma snapshot_is_closed:
  assumes "kinds_ok gx H" and "\<And>b. P b \<Longrightarrow> Q b"
  shows "closed_but gx H P (snapshot gx H Q R) {}"
  unfolding closed_but_def
proof
  fix t assume t: "t \<in> snapshot gx H Q R - {}"
  show "tree_rel gx H `` {t} \<subseteq> snapshot gx H Q R \<and> {b \<in> leaf_rel gx H `` {t}. P b} \<subseteq> snapshot gx H Q R"
  proof (cases "t \<in> subtrees gx H R")
    case True
    then show ?thesis using subtrees_step [OF True] assms(2) by (auto simp: snapshot_def)
  next
    case False
    with t obtain u where "(u, t) \<in> leaf_rel gx H" by (auto simp: snapshot_def)
    then show ?thesis using no_children [OF tree_of_leaf [OF assms(1)]] by simp
  qed
qed

lemma collect_inv_insert:
  assumes "collect_inv gx H X f rp B R [] col" and "H i = Some (kind, body)" and "kind \<noteq> KTree"
  shows "collect_inv gx H X f rp (insert i B) R [] (col\<lparr>objects := oset_insert (objects col) i\<rparr>)"
  using assms(1) no_children [OF tree_of_kind [where H = H and t = i, OF assms(2,3)], of gx]
  unfolding collect_inv_def closed_but_def by (auto simp: oset_insert_def; blast)

context walk_source
begin

lemma collect_each_spec:
  assumes kinds: "kinds_ok (w_gix w) H" and "cache_agrees records"
    and "collect_inv (w_gix w) H X f rp B R [] col"
    and "\<And>i k. (i, k) \<in> set cls \<Longrightarrow> \<exists>body. H i = Some (k, body)"
    and "\<And>i. (i, KCommit) \<in> set cls \<Longrightarrow> records i \<noteq> None"
  shows "eff_spec I (collect_error E (w_gix w) H (w_fuel w))
    (\<lambda>col'. collect_inv (w_gix w) H X f rp (B \<union> fst ` set cls) (R \<union> roots_of G (fst ` set cls)) [] col' \<and>
       set (objects col) \<subseteq> set (objects col') \<and> roots_of G (fst ` set cls) \<subseteq> set (objects col') \<union> X)
    (collect_each w records X f rp col cls)"
  using assms(3-)
proof (induction cls arbitrary: col B R)
  case Nil
  then show ?case by (auto simp: roots_of_def)
next
  case (Cons x cls)
  obtain i kind where x: "x = (i, kind)" by force
  obtain body where H: "H i = Some (kind, body)" using Cons.prems(2) [of i kind] x by auto
  have rest: "\<And>i k. (i, k) \<in> set cls \<Longrightarrow> \<exists>body. H i = Some (k, body)"
    "\<And>i. (i, KCommit) \<in> set cls \<Longrightarrow> records i \<noteq> None" using Cons.prems(2,3) by auto
  let ?E = "collect_error E (w_gix w) H (w_fuel w)" and ?col = "col\<lparr>objects := oset_insert (objects col) i\<rparr>"
  let ?Q = "\<lambda>col'. collect_inv (w_gix w) H X f rp (B \<union> fst ` set (x # cls)) (R \<union> roots_of G (fst ` set (x # cls))) [] col' \<and>
       set (objects col) \<subseteq> set (objects col') \<and> roots_of G (fst ` set (x # cls)) \<subseteq> set (objects col') \<union> X"
  have sub: "set (objects col) \<subseteq> set (objects ?col)" by (auto simp: oset_insert_def)
  have ins: "kind \<noteq> KTree \<Longrightarrow> collect_inv (w_gix w) H X f rp (insert i B) R [] ?col"
    by (rule collect_inv_insert [OF Cons.prems(1) H])
  show ?case
  proof (cases kind)
    case KCommit
    then obtain rec where rec: "records i = Some rec" using Cons.prems(3) [of i] x by auto
    with assms(2) have g: "G i = Some (root_tree rec, parents rec)" by (auto simp: cache_agrees_def record_agrees_def)
    have roots: "roots_of G (insert i (fst ` set cls)) = insert (root_tree rec) (roots_of G (fst ` set cls))"
      using g by (auto simp: roots_of_def)
    have "oid_ok (root_tree rec)" using graph_of_oids [OF gix_laws g] by blast
    from walk_tree_spec [OF kinds ins this] KCommit
    have walk: "eff_spec I ?E (\<lambda>col'. collect_inv (w_gix w) H X f rp (insert i B) (insert (root_tree rec) R) [] col' \<and>
        set (objects ?col) \<subseteq> set (objects col') \<and> root_tree rec \<in> set (objects col') \<union> X)
        (walk_tree w (root_tree rec) ?col X f rp)" by simp
    have "eff_spec I ?E ?Q (collect_each w records X f rp col1 cls)"
      if c: "collect_inv (w_gix w) H X f rp (insert i B) (insert (root_tree rec) R) [] col1 \<and>
        set (objects ?col) \<subseteq> set (objects col1) \<and> root_tree rec \<in> set (objects col1) \<union> X" for col1
      by (rule eff_spec_weaken [OF Cons.IH [OF conjunct1 [OF c] rest]])
        (use c sub in \<open>auto simp: roots x\<close>)
    from eff_spec_bind [OF walk this] show ?thesis using KCommit rec by (simp add: x)
  next
    case KTag
    have roots: "roots_of G (insert i (fst ` set cls)) = roots_of G (fst ` set cls)"
      using H KTag by (auto simp: roots_of_def commit_graph_of_def)
    have inv: "collect_inv (w_gix w) H X f rp (insert i B) R [] ?col" using ins KTag by simp
    have "eff_spec I ?E ?Q (collect_each w records X f rp ?col cls)"
      by (rule eff_spec_weaken [OF Cons.IH [OF inv rest]]) (use sub in \<open>auto simp: roots x\<close>)
    then show ?thesis using KTag by (simp add: x)
  qed (auto simp: x collect_error_def)
qed

lemma classify_cases:
  assumes "list_all2 (\<lambda>i (j, r). j = i \<and> (\<forall>x. r = Inr (Some x) \<longrightarrow> size_agrees H i x)) ids sizes"
  shows "case classify sizes of
      Inl e \<Rightarrow> storage_error e \<or> corruption e
    | Inr cls \<Rightarrow> map fst cls = ids \<and> (\<forall>(i, k)\<in>set cls. \<exists>body. H i = Some (k, body))"
  using assms
proof (induction ids sizes rule: list_all2_induct)
  case (Cons i ids jr sizes)
  obtain r where jr: "jr = (i, r)" "\<And>x. r = Inr (Some x) \<Longrightarrow> size_agrees H i x"
    using Cons.hyps(1) by (cases jr) auto
  show ?case
  proof (cases "known_size (MissingObject i) r")
    case (Inl e)
    with known_size_cases(1) [OF Inl] show ?thesis by (auto simp: jr)
  next
    case (Inr y)
    have "size_agrees H i y" using jr(2) known_size_cases(2) [OF Inr] by simp
    with Inr Cons.IH show ?thesis
      by (cases "classify sizes") (auto simp: jr size_agrees_def split: prod.splits)
  qed
qed simp

lemma have_roots_cases:
  assumes "fetched_agrees fetched"
  shows "case have_roots fetched of
      Inl e \<Rightarrow> E e
    | Inr roots \<Rightarrow> set roots = roots_of G {i. \<exists>rec. (i, Inr rec) \<in> set fetched} \<and> (\<forall>t\<in>set roots. oid_ok t)"
  using assms
proof (induction fetched)
  case (Cons x rest)
  obtain h r where x: "x = (h, r)" by force
  have "fetched_agrees rest" using Cons.prems by (auto simp: fetched_agrees_def)
  note IH = Cons.IH [OF this]
  show ?case
  proof (cases r)
    case (Inr info)
    with Cons.prems x have g: "G h = Some (root_tree info, parents info)"
      by (auto simp: fetched_agrees_def record_agrees_def)
    have "roots_of G {i. \<exists>rec. (i, Inr rec) \<in> set ((h, r) # rest)} =
        insert (root_tree info) (roots_of G {i. \<exists>rec. (i, Inr rec) \<in> set rest})"
      using g Inr by (auto simp: roots_of_def)
    with IH Inr x graph_of_oids [OF gix_laws g] show ?thesis
      by (cases "have_roots rest") auto
  next
    case (Inl e)
    have "E e" using Cons.prems Inl x by (auto simp: fetched_agrees_def)
    moreover have "{i. \<exists>rec. (i, Inr rec) \<in> set ((h, r) # rest)} = {i. \<exists>rec. (i, Inr rec) \<in> set rest}"
      using Inl by auto
    ultimately show ?thesis using IH Inl x by (cases e) (auto split: sum.splits)
  qed
qed (auto simp: roots_of_def)

lemma collect_inner_spec:
  assumes kinds: "kinds_ok (w_gix w) H"
    and oids: "\<forall>i\<in>set send. oid_ok i" "\<forall>i\<in>set haves. oid_ok i"
  shows "eff_spec I (collect_error E (w_gix w) H (w_fuel w)) (collected_ok (w_gix w) H f send haves)
    (collect_inner w send haves f rp)"
  unfolding collect_inner_def
proof (rule eff_spec_bind)
  let ?E = "collect_error E (w_gix w) H (w_fuel w)" and ?Q = "collected_ok (w_gix w) H f send haves"
  let ?S = "\<lambda>C. snapshot (w_gix w) H (\<lambda>b. f \<noteq> BlobNone) (roots_of G C)"
  show "eff_spec I ?E
      (\<lambda>(fetched, cache'). fetched_agrees fetched \<and> cache_agrees cache' \<and> map fst fetched = cache_misses Map.empty {} haves \<and>
         dom cache' = dom Map.empty \<union> {i. \<exists>rec. (i, Inr rec) \<in> set fetched}) (prefetch_records w Map.empty haves)"
    by (rule eff_spec_weaken [OF prefetch_spec]) (use oids(2) in \<open>auto simp: cache_agrees_def\<close>)
  fix x
  assume "case x of (fetched, cache') \<Rightarrow> fetched_agrees fetched \<and> cache_agrees cache' \<and>
      map fst fetched = cache_misses Map.empty {} haves \<and>
      dom cache' = dom Map.empty \<union> {i. \<exists>rec. (i, Inr rec) \<in> set fetched}"
  then obtain hs records where x: "x = (hs, records)" and h: "fetched_agrees hs" "cache_agrees records"
    "map fst hs = cache_misses Map.empty {} haves" "dom records = {i. \<exists>rec. (i, Inr rec) \<in> set hs}" by auto
  define C where "C = dom records"
  have C: "C \<subseteq> set haves" "C \<subseteq> dom G"
  proof -
    have "C \<subseteq> set (map fst hs)" unfolding C_def h(4) set_map by (auto intro: image_eqI [rotated])
    then show "C \<subseteq> set haves" unfolding h(3) cache_misses_set by blast
    show "C \<subseteq> dom G" using h(2) by (auto simp: C_def cache_agrees_def record_agrees_def)
  qed
  have roots: "eff_spec I ?E (\<lambda>roots. set roots = roots_of G C \<and> (\<forall>t\<in>set roots. oid_ok t)) (eff_lift (have_roots hs))"
    by (rule eff_spec_lift)
      (use have_roots_cases [OF h(1)] in \<open>auto simp: collect_error_def C_def h(4)\<close>)
  have expand: "eff_spec I ?E (\<lambda>X. X = ?S C) (expand_haves w roots {} f)"
    if "set roots = roots_of G C \<and> (\<forall>t\<in>set roots. oid_ok t)" for roots
    by (rule eff_spec_weaken [OF expand_haves_spec [OF kinds]]) (use that in \<open>auto simp: collect_error_def\<close>)
  have sizes: "eff_spec I ?E
      (list_all2 (\<lambda>i (j, r). j = i \<and> (\<forall>x. r = Inr (Some x) \<longrightarrow> size_agrees H i x)) send) (object_sizes w send)"
    by (rule eff_spec_weaken [OF object_sizes_spec]) (use oids(1) in auto)
  have cls: "eff_spec I ?E (\<lambda>cls. map fst cls = send \<and> (\<forall>(i, k)\<in>set cls. \<exists>body. H i = Some (k, body)))
      (eff_lift (classify sizes))"
    if "list_all2 (\<lambda>i (j, r). j = i \<and> (\<forall>x. r = Inr (Some x) \<longrightarrow> size_agrees H i x)) send sizes" for sizes
    by (rule eff_spec_lift) (use classify_cases [OF that] errors(2) in \<open>auto simp: collect_error_def\<close>)
  have fetch: "eff_spec I ?E
      (\<lambda>(fetched, cache'). fetched_agrees fetched \<and> cache_agrees cache' \<and> map fst fetched = cache_misses records {} ids \<and>
         dom cache' = dom records \<union> {i. \<exists>rec. (i, Inr rec) \<in> set fetched}) (prefetch_records w records ids)"
    if "set ids \<subseteq> set send" for ids
    by (rule eff_spec_weaken [OF prefetch_spec [OF _ h(2)]]) (use oids(1) that in auto)
  have all: "eff_spec I ?E (\<lambda>_. all_fetched fetched = Inr ()) (eff_lift (all_fetched fetched))"
    if "fetched_agrees fetched" for fetched
    by (rule eff_spec_lift) (use that all_fetched_Inl in \<open>fastforce simp: fetched_agrees_def collect_error_def\<close>)+
  have each: "eff_spec I ?E ?Q (collect_each w records' (?S C) f rp \<lparr>objects = [], blob_paths = Map.empty\<rparr> cls)"
    if c: "map fst cls = send" "\<forall>(i, k)\<in>set cls. \<exists>body. H i = Some (k, body)" and r: "cache_agrees records'"
      "\<And>i. (i, KCommit) \<in> set cls \<Longrightarrow> records' i \<noteq> None" for cls records'
  proof -
    have "admits H f b \<Longrightarrow> f \<noteq> BlobNone" for b by auto
    then have inv: "collect_inv (w_gix w) H (?S C) f rp {} {} [] \<lparr>objects = [], blob_paths = Map.empty\<rparr>"
      using snapshot_is_closed [OF kinds, of "admits H f" "\<lambda>b. f \<noteq> BlobNone"] by (simp add: collect_inv_def)
    have send: "fst ` set cls = set send" using c(1) by (metis set_map)
    show ?thesis
    proof (rule eff_spec_weaken [OF collect_each_spec [OF kinds r(1) inv _ r(2)]])
      fix col
      assume "collect_inv (w_gix w) H (?S C) f rp ({} \<union> fst ` set cls) ({} \<union> roots_of G (fst ` set cls)) [] col \<and>
        set (objects \<lparr>objects = [], blob_paths = Map.empty\<rparr>) \<subseteq> set (objects col) \<and>
        roots_of G (fst ` set cls) \<subseteq> set (objects col) \<union> ?S C"
      then have inv: "collect_inv (w_gix w) H (?S C) f rp (set send) (roots_of G (set send)) [] col"
        and roots: "roots_of G (set send) \<subseteq> set (objects col) \<union> ?S C" by (auto simp: send)
      have "snapshot (w_gix w) H (admits H f) (roots_of G (set send)) \<subseteq> set (objects col) \<union> ?S C"
        by (rule snapshot_closed) (use inv roots in \<open>auto simp: collect_inv_def\<close>)
      then have "set (objects col) = set send \<union> (snapshot (w_gix w) H (admits H f) (roots_of G (set send)) - ?S C)"
        using inv unfolding collect_inv_def by blast
      then show "?Q col" using inv C unfolding collected_ok_def collect_inv_def by blast
    qed (use c(2) in auto)
  qed
  have commits: "records' i \<noteq> None"
    if d: "dom records' = dom records \<union> {i. \<exists>rec. (i, Inr rec) \<in> set fetched}" "all_fetched fetched = Inr ()"
      "map fst fetched = cache_misses records {} (map fst (filter (\<lambda>c. snd c = KCommit) cls))" "(i, KCommit) \<in> set cls"
    for records' i fetched cls
  proof (cases "i \<in> dom records")
    case False
    then have "i \<in> set (cache_misses records {} (map fst (filter (\<lambda>c. snd c = KCommit) cls)))"
      using d(4) by (force simp: cache_misses_set domIff)
    then obtain r where "(i, r) \<in> set fetched" unfolding d(3) [symmetric] by auto
    with all_fetched_Inr [OF d(2)] d(1) show ?thesis by blast
  qed (use d(1) in blast)
  have tail: "eff_spec I ?E ?Q
     (eff_bind (prefetch_records w records (map fst (filter (\<lambda>c. snd c = KCommit) cls))) (\<lambda>(fetched, records).
      eff_bind (eff_lift (all_fetched fetched)) (\<lambda>_.
       collect_each w records (?S C) f rp \<lparr>objects = [], blob_paths = Map.empty\<rparr> cls)))"
    if c: "map fst cls = send \<and> (\<forall>(i, k)\<in>set cls. \<exists>body. H i = Some (k, body))" for cls
  proof (rule eff_spec_bind [OF fetch])
    show "set (map fst (filter (\<lambda>c. snd c = KCommit) cls)) \<subseteq> set send" using c by force
    fix y
    assume "case y of (fetched, cache') \<Rightarrow> fetched_agrees fetched \<and> cache_agrees cache' \<and>
        map fst fetched = cache_misses records {} (map fst (filter (\<lambda>c. snd c = KCommit) cls)) \<and>
        dom cache' = dom records \<union> {i. \<exists>rec. (i, Inr rec) \<in> set fetched}"
    then obtain fs rs where y: "y = (fs, rs)" "fetched_agrees fs" "cache_agrees rs"
      "map fst fs = cache_misses records {} (map fst (filter (\<lambda>c. snd c = KCommit) cls))"
      "dom rs = dom records \<union> {i. \<exists>rec. (i, Inr rec) \<in> set fs}" by (cases y) auto
    show "eff_spec I ?E ?Q (case y of (fetched, records) \<Rightarrow>
      eff_bind (eff_lift (all_fetched fetched)) (\<lambda>_.
       collect_each w records (?S C) f rp \<lparr>objects = [], blob_paths = Map.empty\<rparr> cls))"
      unfolding y(1) prod.case
      by (rule eff_spec_bind [OF all [OF y(2)]], rule each [OF conjunct1 [OF c] conjunct2 [OF c] y(3)])
        (rule commits [OF y(5) _ y(4)])
  qed
  show "eff_spec I ?E ?Q (case x of (fetched, records) \<Rightarrow>
     eff_bind (eff_lift (have_roots fetched)) (\<lambda>roots.
     eff_bind (expand_haves w roots {} f) (\<lambda>have_objects.
     eff_bind (object_sizes w send) (\<lambda>sizes.
     eff_bind (eff_lift (classify sizes)) (\<lambda>classified.
     eff_bind (prefetch_records w records (map fst (filter (\<lambda>c. snd c = KCommit) classified))) (\<lambda>(fetched, records).
     eff_bind (eff_lift (all_fetched fetched)) (\<lambda>_.
       collect_each w records have_objects f rp \<lparr>objects = [], blob_paths = Map.empty\<rparr> classified)))))))"
    unfolding x prod.case
    by (rule eff_spec_bind [OF roots], rule eff_spec_bind [OF expand], assumption, rule eff_spec_bind [OF sizes],
        rule eff_spec_bind [OF cls], assumption, erule ssubst, rule tail)
qed

end

end
