(* ===== verification/Plan_Correct.thy ===== *)
theory Plan_Correct
  imports Plan Collect_Complete "HOL-Library.Multiset"
begin

text \<open>
  A fetch plan holds everything the client asked for and does not have, nothing it did not ask
  for, each object once, and schedules it without losing any.
\<close>

section \<open>What a request asks for\<close>

text \<open>The objects a set of commits stands for: its history and the admitted part of its snapshots.\<close>

definition object_closure ::
    "gix_object \<Rightarrow> (ObjectId \<rightharpoonup> Kind \<times> bytes) \<Rightarrow> (ObjectId \<Rightarrow> bool) \<Rightarrow> ObjectId set \<Rightarrow> ObjectId set" where
  "object_closure gx H P S =
     (let commits = reach (commit_graph_of gx H) S in
      commits \<union> snapshot gx H P (roots_of (commit_graph_of gx H) commits))"

definition is_history :: "(ObjectId \<rightharpoonup> Kind \<times> bytes) \<Rightarrow> ObjectId \<Rightarrow> bool" where
  "is_history H i \<longleftrightarrow> (\<exists>kind body. H i = Some (kind, body) \<and> (kind = KCommit \<or> kind = KTag))"

text \<open>
  A commit want stands for its closure, a tag for its chain and the closure of the commit it
  leads to, a tree or a blob for itself.
\<close>

definition wanted_objects ::
    "gix_object \<Rightarrow> (ObjectId \<rightharpoonup> Kind \<times> bytes) \<Rightarrow> FilterSpec \<Rightarrow> ObjectId list \<Rightarrow> ObjectId set" where
  "wanted_objects gx H f wants =
     {i \<in> set wants. \<not> is_history H i} \<union>
     (\<Union>i\<in>set wants. \<Union>c\<in>{c. peels gx H i c}. set (snd c) \<union> object_closure gx H (admits H f) {fst c})"

text \<open>What the server takes a client with these commits to hold.\<close>

definition client_objects ::
    "gix_object \<Rightarrow> (ObjectId \<rightharpoonup> Kind \<times> bytes) \<Rightarrow> FilterSpec \<Rightarrow> ObjectId list \<Rightarrow> ObjectId set" where
  "client_objects gx H f commits = object_closure gx H (\<lambda>b. f \<noteq> BlobNone) (set commits)"

definition plan_ok ::
    "gix_object \<Rightarrow> (ObjectId \<rightharpoonup> Kind \<times> bytes) \<Rightarrow> FilterSpec \<Rightarrow> ObjectId list \<Rightarrow> ObjectId list \<Rightarrow> PackPlan \<Rightarrow> bool" where
  "plan_ok gx H f wants haves plan \<longleftrightarrow>
     (let sent = map so_oid (plan_objects plan) in
      distinct sent \<and> set (plan_common plan) \<subseteq> set haves \<and>
      wanted_objects gx H f wants \<subseteq> set sent \<union> client_objects gx H f (plan_common plan) \<and>
      set sent \<subseteq> wanted_objects gx H f wants)"

lemma reach_Un: "reach G (\<Union>i\<in>A. S i) = (\<Union>i\<in>A. reach G (S i))"
  by (auto simp: reach_def)

lemma roots_Un: "roots_of G (\<Union>i\<in>A. S i) = (\<Union>i\<in>A. roots_of G (S i))"
  by (auto simp: roots_of_def)

lemma snapshot_Un: "snapshot gx H P (\<Union>i\<in>A. R i) = (\<Union>i\<in>A. snapshot gx H P (R i))"
  by (auto simp: snapshot_def subtrees_def)

lemma snapshot_roots_Un:
  "snapshot gx H P (roots_of G (S \<union> T)) = snapshot gx H P (roots_of G S) \<union> snapshot gx H P (roots_of G T)"
proof -
  have "roots_of G (S \<union> T) = roots_of G S \<union> roots_of G T" by (auto simp: roots_of_def)
  then show ?thesis by (auto simp: snapshot_def subtrees_def Image_Un)
qed

lemma object_closure_Un: "object_closure gx H P (\<Union>i\<in>A. S i) = (\<Union>i\<in>A. object_closure gx H P (S i))"
  by (simp add: object_closure_def Let_def reach_Un roots_Un snapshot_Un UN_Un_distrib)

lemma object_closure_points: "object_closure gx H P S = (\<Union>c\<in>S. object_closure gx H P {c})"
  using object_closure_Un [of gx H P "\<lambda>c. {c}" S] by simp

text \<open>Peeling is a function.\<close>

lemma peels_unique: "peels gx H i c \<Longrightarrow> peels gx H i c' \<Longrightarrow> c' = c"
proof (induction arbitrary: c' rule: peels.induct)
  case (commit i body)
  from commit(2,1) show ?case by cases auto
next
  case (tag i body t c tags)
  from tag.prems tag.hyps(1,2) obtain d tags' where "c' = (d, i # tags')" "peels gx H t (d, tags')"
    by cases auto
  with tag.IH show ?case by auto
qed

lemma peels_history: "peels gx H i c \<Longrightarrow> is_history H i"
  by (auto simp: is_history_def elim: peels.cases)

lemma wanted_objects_peeled:
  assumes "list_all2 (peels gx H) (filter (is_history H) wants) pcs"
  shows "wanted_objects gx H f wants = {i \<in> set wants. \<not> is_history H i} \<union>
    (\<Union>c\<in>set pcs. set (snd c)) \<union> object_closure gx H (admits H f) (fst ` set pcs)"
proof -
  have "(\<exists>i\<in>set wants. peels gx H i c) \<longleftrightarrow> c \<in> set pcs" for c
  proof
    assume "\<exists>i\<in>set wants. peels gx H i c"
    then obtain i where i: "i \<in> set (filter (is_history H) wants)" "peels gx H i c"
      using peels_history by auto
    then obtain c' where "c' \<in> set pcs" "peels gx H i c'" using list_all2_left [OF assms i(1)] by blast
    with peels_unique [OF i(2)] show "c \<in> set pcs" by simp
  next
    assume "c \<in> set pcs"
    from list_all2_right [OF assms this] show "\<exists>i\<in>set wants. peels gx H i c" by auto
  qed
  then have "(\<Union>i\<in>set wants. \<Union>c\<in>{c. peels gx H i c}. set (snd c) \<union> object_closure gx H (admits H f) {fst c})
      = (\<Union>c\<in>set pcs. set (snd c) \<union> object_closure gx H (admits H f) {fst c})" by blast
  also have "\<dots> = (\<Union>c\<in>set pcs. set (snd c)) \<union> object_closure gx H (admits H f) (fst ` set pcs)"
    using object_closure_points [of gx H "admits H f" "fst ` set pcs"] by (simp add: UN_Un_distrib)
  finally show ?thesis by (simp add: wanted_objects_def Un_assoc)
qed

section \<open>Partitioning the wants\<close>

lemma partition_sizes_cases:
  assumes "list_all2 (\<lambda>i (j, r). j = i \<and> (\<forall>x. r = Inr (Some x) \<longrightarrow> size_agrees H i x)) ids sizes"
  shows "case partition_sizes hist dir sizes of
      Inl e \<Rightarrow> storage_error e \<or> (\<exists>i\<in>set ids. e = UnknownWant i)
    | Inr p \<Rightarrow> history p = hist @ filter (is_history H) ids \<and>
        direct p = foldl oset_insert dir (filter (\<lambda>i. \<not> is_history H i) ids)"
  using assms
proof (induction ids sizes arbitrary: hist dir rule: list_all2_induct)
  case (Cons i ids jr sizes)
  obtain r where jr: "jr = (i, r)" "\<And>x. r = Inr (Some x) \<Longrightarrow> size_agrees H i x"
    using Cons.hyps(1) by (cases jr) auto
  show ?case
  proof (cases "known_size (UnknownWant i) r")
    case (Inl e)
    with known_size_cases(1) [OF Inl] show ?thesis by (auto simp: jr)
  next
    case (Inr y)
    obtain kind n where y: "y = (kind, n)" by force
    have "size_agrees H i (kind, n)" using jr(2) known_size_cases(2) [OF Inr] y by simp
    then have "is_history H i \<longleftrightarrow> kind = KCommit \<or> kind = KTag" by (auto simp: size_agrees_def is_history_def)
    with Inr y Cons.IH [of "hist @ [i]" dir] Cons.IH [of hist "oset_insert dir i"] show ?thesis
      by (auto simp: jr split: sum.splits)
  qed
qed simp

lemma info_sizes_cases:
  assumes "list_all2 (\<lambda>i (j, r). j = i \<and> (\<forall>x. r = Inr (Some x) \<longrightarrow> size_agrees H i x)) ids sizes"
  shows "case info_sizes sizes of
      Inl e \<Rightarrow> storage_error e \<or> corruption e
    | Inr info \<Rightarrow> map fst info = ids \<and> (\<forall>(i, x)\<in>set info. size_agrees H i x)"
  using assms
proof (induction ids sizes rule: list_all2_induct)
  case (Cons i ids jr sizes)
  obtain r where jr: "jr = (i, r)" "\<And>x. r = Inr (Some x) \<Longrightarrow> size_agrees H i x"
    using Cons.hyps(1) by (cases jr) auto
  show ?case
  proof (cases "known_size (MissingObject i) r")
    case (Inl e)
    with known_size_cases(1) [OF Inl] show ?thesis by (auto simp: jr)
  next
    case (Inr y)
    have "size_agrees H i y" using jr(2) known_size_cases(2) [OF Inr] by simp
    with Inr Cons.IH show ?thesis by (cases "info_sizes sizes"; cases y) (auto simp: jr)
  qed
qed simp

section \<open>Scheduling loses nothing\<close>

lemma info_map_covers:
  "i \<in> set (map fst info) \<Longrightarrow> \<exists>ks. info_map info i = Some ks \<and> (i, ks) \<in> set info"
proof (induction info rule: rev_induct)
  case (snoc x info)
  then show ?case by (cases x) (auto simp: info_map_def)
qed simp

lemma add_direct_spec:
  assumes "set objs \<subseteq> seen" and "distinct objs" and "seen = set objs"
  shows "distinct (add_direct seen objs wanted) \<and> set (add_direct seen objs wanted) = set objs \<union> set wanted"
  using assms by (induction seen objs wanted rule: add_direct.induct) auto

definition slot_ids :: "fixed_slot list \<Rightarrow> blob_slot list \<Rightarrow> ObjectId list" where
  "slot_ids fixed blobs = map (so_oid \<circ> snd) fixed @ map (\<lambda>(hash, path, sz, position, i). i) blobs"

lemma split_objects_spec:
  assumes "\<forall>i\<in>set objs. \<exists>ks. info i = Some ks \<and> size_agrees H i ks"
  shows "\<exists>fixed blobs. split_objects info paths position objs = Inr (fixed, blobs) \<and>
    mset (slot_ids fixed blobs) = mset objs \<and>
    (\<forall>(n, obj)\<in>set fixed. so_group obj = None) \<and>
    (\<forall>(hash, path, sz, n, i)\<in>set blobs. hash = name_hash path \<and> paths i = Some path \<and> (\<exists>body. H i = Some (KBlob, body)))"
  using assms
proof (induction objs arbitrary: position)
  case (Cons i objs)
  from Cons.prems obtain kind sz body where k: "info i = Some (kind, sz)" "H i = Some (kind, body)"
    by (auto simp: size_agrees_def)
  obtain fixed blobs where f: "split_objects info paths (position + 1) objs = Inr (fixed, blobs)"
    "mset (slot_ids fixed blobs) = mset objs" "\<forall>(n, obj)\<in>set fixed. so_group obj = None"
    "\<forall>(hash, path, sz, n, i)\<in>set blobs. hash = name_hash path \<and> paths i = Some path \<and> (\<exists>body. H i = Some (KBlob, body))"
    using Cons.IH [of "position + 1"] Cons.prems by auto
  show ?case
  proof (cases "paths i = None \<or> kind \<noteq> KBlob")
    case True
    with f k show ?thesis by (cases "paths i") (auto simp: slot_ids_def)
  next
    case False
    with f k show ?thesis by (auto simp: slot_ids_def)
  qed
qed (simp add: slot_ids_def)

lemma order_schedule_ids: "mset (map so_oid (order_schedule fixed blobs)) = mset (slot_ids fixed blobs)"
proof -
  have "mset (map so_oid (order_schedule fixed blobs)) =
      image_mset (so_oid \<circ> snd) (mset fixed) + image_mset (\<lambda>(hash, path, sz, position, i). i) (mset blobs)"
    unfolding order_schedule_def
    by (simp add: multiset.map_comp comp_def case_prod_unfold flip: mset_map)
       (simp add: image_mset.compositionality comp_def case_prod_unfold)
  then show ?thesis by (simp add: slot_ids_def)
qed

section \<open>A selection and its collection make a plan\<close>

lemma collected_covers:
  assumes sel: "list_all2 (peels gx H) (filter (is_history H) wants) pcs" "to_send sel = commits @ tags"
      "set tags = (\<Union>c\<in>set pcs. set (snd c))" "set commits \<subseteq> reach (commit_graph_of gx H) (fst ` set pcs)"
      "reach (commit_graph_of gx H) (fst ` set pcs) \<subseteq> set commits \<union> reach (commit_graph_of gx H) (set (common sel))"
    and tags: "roots_of (commit_graph_of gx H) (set tags) = {}"
    and col: "collected_ok gx H f (to_send sel) (common sel) col"
  shows "wanted_objects gx H f wants \<subseteq> {i \<in> set wants. \<not> is_history H i} \<union> set (objects col) \<union> client_objects gx H f (common sel)"
    and "set (objects col) \<subseteq> wanted_objects gx H f wants"
proof -
  let ?G = "commit_graph_of gx H"
  let ?W = "reach ?G (fst ` set pcs)" and ?C = "reach ?G (set (common sel))"
  let ?P = "admits H f" and ?Q = "\<lambda>b. f \<noteq> BlobNone"
  note wanted = wanted_objects_peeled [OF sel(1), of f]
  obtain C where C: "C \<subseteq> set (common sel)"
    "set (objects col) = set (to_send sel) \<union>
       (snapshot gx H ?P (roots_of ?G (set (to_send sel))) - snapshot gx H ?Q (roots_of ?G C))"
    using col unfolding collected_ok_def by blast
  have roots: "roots_of ?G (set (to_send sel)) = roots_of ?G (set commits)"
    using tags by (auto simp: sel(2) roots_of_def)
  have imp: "?P b \<Longrightarrow> ?Q b" for b by auto
  have 1: "snapshot gx H ?Q (roots_of ?G C) \<subseteq> client_objects gx H f (common sel)"
    using snapshot_mono [of "roots_of ?G C" "roots_of ?G ?C" ?Q ?Q] C(1) reach_base [of "set (common sel)" ?G]
    by (fastforce simp: client_objects_def object_closure_def Let_def roots_of_def)
  have 2: "snapshot gx H ?P (roots_of ?G ?C) \<subseteq> client_objects gx H f (common sel)"
    using snapshot_mono [of "roots_of ?G ?C" "roots_of ?G ?C" ?P ?Q] imp
    by (auto simp: client_objects_def object_closure_def Let_def)
  have "roots_of ?G ?W \<subseteq> roots_of ?G (set commits \<union> ?C)" using sel(5) by (auto simp: roots_of_def)
  then have "snapshot gx H ?P (roots_of ?G ?W) \<subseteq>
      snapshot gx H ?P (roots_of ?G (set commits)) \<union> snapshot gx H ?P (roots_of ?G ?C)"
    using snapshot_mono [of "roots_of ?G ?W" "roots_of ?G (set commits \<union> ?C)" ?P ?P] snapshot_roots_Un by fastforce
  then have "object_closure gx H ?P (fst ` set pcs) \<subseteq> set (objects col) \<union> client_objects gx H f (common sel)"
    using 1 2 sel(5) C(2) unfolding roots
    by (auto simp: object_closure_def Let_def sel(2) client_objects_def)
  then show "wanted_objects gx H f wants \<subseteq>
      {i \<in> set wants. \<not> is_history H i} \<union> set (objects col) \<union> client_objects gx H f (common sel)"
    unfolding wanted using C(2) by (auto simp: sel(2,3))
  have "roots_of ?G (set commits) \<subseteq> roots_of ?G ?W" using sel(4) by (auto simp: roots_of_def)
  then have "snapshot gx H ?P (roots_of ?G (set commits)) \<subseteq> snapshot gx H ?P (roots_of ?G ?W)"
    by (rule snapshot_mono)
  then show "set (objects col) \<subseteq> wanted_objects gx H f wants"
    unfolding wanted C(2) roots using sel(4) by (auto simp: sel(2,3) object_closure_def Let_def)
qed

lemma peels_tags:
  assumes "peels gx H i c" and "t \<in> set (snd c)"
  shows "\<exists>body. H t = Some (KTag, body)"
  using assms by (induction rule: peels.induct) auto

lemma tags_have_no_roots:
  assumes "list_all2 (peels gx H) wants pcs"
  shows "roots_of (commit_graph_of gx H) (\<Union>c\<in>set pcs. set (snd c)) = {}"
proof -
  have "\<exists>body. H t = Some (KTag, body)" if "c \<in> set pcs" "t \<in> set (snd c)" for c t
    using list_all2_right [OF assms that(1)] peels_tags that(2) by blast
  then show ?thesis by (fastforce simp: roots_of_def commit_graph_of_def)
qed

section \<open>The plan\<close>

definition plan_error ::
    "(WalkError \<Rightarrow> bool) \<Rightarrow> gix_object \<Rightarrow> (ObjectId \<rightharpoonup> Kind \<times> bytes) \<Rightarrow> nat \<Rightarrow> ObjectId list \<Rightarrow> WalkError \<Rightarrow> bool" where
  "plan_error E gx H fuel wants e \<longleftrightarrow> select_error gx H fuel E wants e \<or> collect_error E gx H fuel e"

lemma select_error_mono: "select_error gx H fuel E wants' e \<Longrightarrow> set wants' \<subseteq> set wants \<Longrightarrow> select_error gx H fuel E wants e"
  unfolding select_error_def by blast

lemma peels_tag_oids: "gix_ok gx \<Longrightarrow> peels gx H i c \<Longrightarrow> oid_ok i \<Longrightarrow> t \<in> set (snd c) \<Longrightarrow> oid_ok t"
  by (rotate_tac, induction rule: peels.induct) (auto intro: tag_target_oid)

lemma snapshot_oids:
  assumes "gix_ok gx" and "\<forall>r\<in>R. oid_ok r" and "i \<in> snapshot gx H P R"
  shows "oid_ok i"
proof -
  have "oid_ok c" if "(r, c) \<in> (tree_rel gx H)\<^sup>*" "oid_ok r" for r c
    using that by (induction rule: rtrancl_induct) (use children_oid_ok [OF assms(1)] in blast)+
  with assms children_oid_ok [OF assms(1)] show ?thesis by (auto simp: snapshot_def subtrees_def)
qed

lemma reach_oids:
  assumes "gix_ok gx" and "\<forall>i\<in>S. oid_ok i" and "c \<in> reach (commit_graph_of gx H) S"
  shows "oid_ok c"
  using assms(3)
  by (induction rule: reach_induct) (use assms(2) graph_of_oids [OF assms(1)] in \<open>fastforce simp: parent_rel_def\<close>)+

lemma roots_oids: "gix_ok gx \<Longrightarrow> t \<in> roots_of (commit_graph_of gx H) S \<Longrightarrow> oid_ok t"
  using graph_of_oids by (fastforce simp: roots_of_def)

context walk_source
begin

lemma partition_wants_spec:
  assumes "\<forall>i\<in>set wants. oid_ok i"
  shows "eff_spec I (plan_error E (w_gix w) H (w_fuel w) wants)
    (\<lambda>p. history p = filter (is_history H) wants \<and> distinct (direct p) \<and> set (direct p) = {i \<in> set wants. \<not> is_history H i})
    (partition_wants w wants)"
  unfolding partition_wants_def
proof (rule eff_spec_bind [OF eff_spec_weaken [OF object_sizes_spec [OF assms]]])
  fix sizes :: "(ObjectId \<times> (ObjectDbError + (Kind \<times> u64) option)) list"
  assume "list_all2 (\<lambda>i (j, r). j = i \<and> (\<forall>x. r = Inr (Some x) \<longrightarrow> size_agrees H i x)) wants sizes"
  note cases = partition_sizes_cases [OF this, of "[]" "[]"]
  show "eff_spec I (plan_error E (w_gix w) H (w_fuel w) wants)
    (\<lambda>p. history p = filter (is_history H) wants \<and> distinct (direct p) \<and> set (direct p) = {i \<in> set wants. \<not> is_history H i})
    (eff_lift (partition_sizes [] [] sizes))"
  proof (rule eff_spec_lift)
    fix e assume "partition_sizes [] [] sizes = Inl e"
    with cases show "plan_error E (w_gix w) H (w_fuel w) wants e"
      using errors(2) by (auto simp: plan_error_def select_error_def peel_error_def)
  next
    fix p assume "partition_sizes [] [] sizes = Inr p"
    with cases show "history p = filter (is_history H) wants \<and> distinct (direct p) \<and>
        set (direct p) = {i \<in> set wants. \<not> is_history H i}"
      by (auto simp: foldl_oset_insert)
  qed
qed auto

lemma schedule_spec:
  assumes "\<forall>i\<in>set (objects col). oid_ok i"
  shows "eff_spec I (plan_error E (w_gix w) H (w_fuel w) wants)
    (\<lambda>objs. mset (map so_oid objs) = mset (objects col)) (schedule_for_ofs w col)"
  unfolding schedule_for_ofs_def
proof (rule eff_spec_bind)
  let ?E = "plan_error E (w_gix w) H (w_fuel w) wants"
  show "eff_spec I ?E (\<lambda>info. map fst info = objects col \<and> (\<forall>(i, x)\<in>set info. size_agrees H i x))
      (object_info w (objects col))"
    unfolding object_info_def
  proof (rule eff_spec_bind [OF eff_spec_weaken [OF object_sizes_spec [OF assms]]])
    fix sizes :: "(ObjectId \<times> (ObjectDbError + (Kind \<times> u64) option)) list"
    assume "list_all2 (\<lambda>i (j, r). j = i \<and> (\<forall>x. r = Inr (Some x) \<longrightarrow> size_agrees H i x)) (objects col) sizes"
    from info_sizes_cases [OF this]
    show "eff_spec I ?E (\<lambda>info. map fst info = objects col \<and> (\<forall>(i, x)\<in>set info. size_agrees H i x))
        (eff_lift (info_sizes sizes))"
      using errors(2) by (auto intro!: eff_spec_lift simp: plan_error_def collect_error_def)
  qed auto
  fix info assume info: "map fst info = objects col \<and> (\<forall>(i, x)\<in>set info. size_agrees H i x)"
  have "\<forall>i\<in>set (objects col). \<exists>ks. info_map info i = Some ks \<and> size_agrees H i ks"
    using info info_map_covers [of _ info] by fastforce
  from split_objects_spec [OF this, of "blob_paths col" 0] obtain fixed blobs
    where s: "split_objects (info_map info) (blob_paths col) 0 (objects col) = Inr (fixed, blobs)"
      "mset (slot_ids fixed blobs) = mset (objects col)" by blast
  show "eff_spec I ?E (\<lambda>objs. mset (map so_oid objs) = mset (objects col))
      (eff_bind (eff_lift (split_objects (info_map info) (blob_paths col) 0 (objects col)))
        (\<lambda>(fixed, blobs). eff_return (order_schedule fixed blobs)))"
    unfolding s(1)
    by (rule eff_spec_bind [where Q = "\<lambda>fb. fb = (fixed, blobs)"], rule eff_spec_lift)
      (auto intro!: eff_spec_return simp: order_schedule_ids s(2) simp del: mset_map)
qed

lemma collect_either_spec:
  assumes "kinds_ok (w_gix w) H" and "\<forall>i\<in>set send. oid_ok i" and "\<forall>i\<in>set haves. oid_ok i"
  shows "eff_spec I (collect_error E (w_gix w) H (w_fuel w)) (collected_ok (w_gix w) H f send haves)
    (if ofs then collect_with_paths w send haves f
     else eff_bind (collect w send haves f) (\<lambda>objs. eff_return \<lparr>objects = objs, blob_paths = Map.empty\<rparr>))"
proof (cases ofs)
  case True
  then show ?thesis using collect_inner_spec [OF assms] by (simp add: collect_with_paths_def)
next
  case False
  have "eff_spec I (collect_error E (w_gix w) H (w_fuel w)) (collected_ok (w_gix w) H f send haves)
     (eff_bind (collect_inner w send haves f False) (\<lambda>col. eff_return \<lparr>objects = objects col, blob_paths = Map.empty\<rparr>))"
    by (rule eff_spec_bind [OF collect_inner_spec [OF assms]], rule eff_spec_return) (auto simp: collected_ok_def)
  then show ?thesis using False by (simp add: collect_def eff_bind_assoc)
qed

text \<open>What the walk half of a plan needs of its parts.\<close>

lemma walked_plan_ok:
  assumes wants: "\<forall>i\<in>set wants. oid_ok i" and haves: "\<forall>i\<in>set haves. oid_ok i"
    and sel: "selection_ok (w_gix w) H False (filter (is_history H) wants) haves sel"
  shows "\<forall>i\<in>set (to_send sel). oid_ok i" and "\<forall>i\<in>set (common sel). oid_ok i"
    and "collected_ok (w_gix w) H f (to_send sel) (common sel) col \<Longrightarrow> \<forall>i\<in>set (objects col). oid_ok i"
    and "collected_ok (w_gix w) H f (to_send sel) (common sel) col \<Longrightarrow>
      set dir = {i \<in> set wants. \<not> is_history H i} \<Longrightarrow>
      mset (map so_oid objs) = mset (add_direct (set (objects col)) (objects col) dir) \<Longrightarrow>
      plan_ok (w_gix w) H f wants haves \<lparr>plan_objects = objs, plan_common = common sel\<rparr>"
proof -
  let ?G = "commit_graph_of (w_gix w) H"
  obtain pcs commits tags where s: "list_all2 (peels (w_gix w) H) (filter (is_history H) wants) pcs"
    "to_send sel = commits @ tags" "set tags = (\<Union>c\<in>set pcs. set (snd c))" "set (common sel) \<subseteq> set haves"
    "reach ?G (fst ` set pcs) \<subseteq> set commits \<union> reach ?G (set (common sel))"
    "set commits \<subseteq> reach ?G (fst ` set pcs)"
    using sel unfolding selection_ok_def Let_def by blast
  have c: "oid_ok (fst c) \<and> (\<forall>t\<in>set (snd c). oid_ok t)" if "c \<in> set pcs" for c
  proof -
    from list_all2_right [OF s(1) that] wants obtain i where i: "peels (w_gix w) H i c" "oid_ok i" by auto
    from peels_oid [OF i] peels_tag_oids [OF gix_laws i] show ?thesis by blast
  qed
  then have "\<forall>i\<in>fst ` set pcs. oid_ok i" by blast
  from reach_oids [OF gix_laws this] have "\<forall>i\<in>set commits. oid_ok i" using s(6) by blast
  with c show send: "\<forall>i\<in>set (to_send sel). oid_ok i" by (auto simp: s(2,3))
  show "\<forall>i\<in>set (common sel). oid_ok i" using s(4) haves by blast
  assume col: "collected_ok (w_gix w) H f (to_send sel) (common sel) col"
  then have "set (objects col) \<subseteq> set (to_send sel) \<union> snapshot (w_gix w) H (admits H f) (roots_of ?G (set (to_send sel)))"
    by (auto simp: collected_ok_def)
  with send show "\<forall>i\<in>set (objects col). oid_ok i"
    using snapshot_oids [OF gix_laws] roots_oids [OF gix_laws] by blast
  assume dir: "set dir = {i \<in> set wants. \<not> is_history H i}"
    and objs: "mset (map so_oid objs) = mset (add_direct (set (objects col)) (objects col) dir)"
  have "roots_of ?G (set tags) = {}" unfolding s(3) by (rule tags_have_no_roots [OF s(1)])
  note cover = collected_covers [OF s(1,2,3,6,5) this col]
  have "distinct (objects col)" using col by (auto simp: collected_ok_def)
  then have d: "distinct (add_direct (set (objects col)) (objects col) dir)"
    "set (add_direct (set (objects col)) (objects col) dir) = set (objects col) \<union> set dir"
    using add_direct_spec [of "objects col" "set (objects col)" dir] by auto
  have o: "distinct (map so_oid objs)" "set (map so_oid objs) = set (objects col) \<union> set dir"
    using d mset_eq_imp_distinct_iff [OF objs] mset_eq_setD [OF objs] by auto
  have "set dir \<subseteq> wanted_objects (w_gix w) H f wants" unfolding dir wanted_objects_def by blast
  then show "plan_ok (w_gix w) H f wants haves \<lparr>plan_objects = objs, plan_common = common sel\<rparr>"
    unfolding plan_ok_def Let_def PackPlan.simps o(2) using o(1) cover s(4) by (intro conjI) (simp_all, auto simp: dir)
qed

lemma plan_pack_spec:
  assumes kinds: "kinds_ok (w_gix w) H" and wants: "\<forall>i\<in>set wants. oid_ok i" and haves: "\<forall>i\<in>set haves. oid_ok i"
  shows "eff_spec I (plan_error E (w_gix w) H (w_fuel w) wants) (plan_ok (w_gix w) H f wants haves)
    (plan_pack w wants haves f ofs)"
  unfolding plan_pack_def
proof (rule eff_spec_bind [OF partition_wants_spec [OF wants]])
  let ?E = "plan_error E (w_gix w) H (w_fuel w) wants" and ?Q = "plan_ok (w_gix w) H f wants haves"
  fix p assume p: "history p = filter (is_history H) wants \<and> distinct (direct p) \<and>
    set (direct p) = {i \<in> set wants. \<not> is_history H i}"
  have hw: "\<forall>i\<in>set (history p). oid_ok i" using p wants by simp
  have select: "eff_spec I ?E (selection_ok (w_gix w) H False (filter (is_history H) wants) haves)
      (select_commits w (history p) haves)"
    by (rule eff_spec_weaken [OF select_commits_spec [OF hw haves, of False]])
      (use p in \<open>auto simp: plan_error_def intro: select_error_mono [of _ _ _ _ "history p"]\<close>)
  have schedule: "eff_spec I ?E (\<lambda>objs. mset (map so_oid objs) = mset (objects col))
      (if ofs then schedule_for_ofs w col else eff_return (plain_schedule (objects col)))"
    if "\<forall>i\<in>set (objects col). oid_ok i" for col :: CollectedObjects
    using schedule_spec [OF that, of wants]
    by (auto intro!: eff_spec_return simp: plain_schedule_def comp_def simp del: mset_map)
  have rest: "eff_spec I ?E ?Q
     (eff_bind
       (if ofs then collect_with_paths w (to_send sel) (common sel) f
        else eff_bind (collect w (to_send sel) (common sel) f) (\<lambda>objs.
               eff_return \<lparr>objects = objs, blob_paths = Map.empty\<rparr>)) (\<lambda>col.
       let col = col\<lparr>objects := add_direct (set (objects col)) (objects col) (direct p)\<rparr> in
       eff_bind (if ofs then schedule_for_ofs w col else eff_return (plain_schedule (objects col))) (\<lambda>objs.
       eff_return \<lparr>plan_objects = objs, plan_common = common sel\<rparr>)))"
    if sel: "selection_ok (w_gix w) H False (filter (is_history H) wants) haves sel" for sel
  proof (rule eff_spec_bind)
    note W = walked_plan_ok [OF wants haves sel]
    show "eff_spec I ?E (collected_ok (w_gix w) H f (to_send sel) (common sel))
       (if ofs then collect_with_paths w (to_send sel) (common sel) f
        else eff_bind (collect w (to_send sel) (common sel) f) (\<lambda>objs.
               eff_return \<lparr>objects = objs, blob_paths = Map.empty\<rparr>))"
      by (rule eff_spec_weaken [OF collect_either_spec [OF kinds W(1,2)]]) (auto simp: plan_error_def)
    fix col assume col: "collected_ok (w_gix w) H f (to_send sel) (common sel) col"
    let ?col = "col\<lparr>objects := add_direct (set (objects col)) (objects col) (direct p)\<rparr>"
    have "distinct (objects col)" using col by (auto simp: collected_ok_def)
    then have "set (objects ?col) = set (objects col) \<union> set (direct p)"
      using add_direct_spec [of "objects col" "set (objects col)" "direct p"] by auto
    then have "\<forall>i\<in>set (objects ?col). oid_ok i" using W(3) [OF col] p wants by auto
    note S = schedule [OF this]
    show "eff_spec I ?E ?Q
       (let col = ?col in
        eff_bind (if ofs then schedule_for_ofs w col else eff_return (plain_schedule (objects col))) (\<lambda>objs.
        eff_return \<lparr>plan_objects = objs, plan_common = common sel\<rparr>))"
      unfolding Let_def
      by (rule eff_spec_bind [OF S], rule eff_spec_return) (use W(4) [OF col, of "direct p"] p in \<open>auto simp del: mset_map\<close>)
  qed
  show "eff_spec I ?E ?Q
    (if history p = [] then eff_return \<lparr>plan_objects = plain_schedule (direct p), plan_common = []\<rparr>
     else eff_bind (select_commits w (history p) haves) (\<lambda>sel.
       eff_bind
         (if ofs then collect_with_paths w (to_send sel) (common sel) f
          else eff_bind (collect w (to_send sel) (common sel) f) (\<lambda>objs.
                 eff_return \<lparr>objects = objs, blob_paths = Map.empty\<rparr>)) (\<lambda>col.
       let col = col\<lparr>objects := add_direct (set (objects col)) (objects col) (direct p)\<rparr> in
       eff_bind (if ofs then schedule_for_ofs w col else eff_return (plain_schedule (objects col))) (\<lambda>objs.
       eff_return \<lparr>plan_objects = objs, plan_common = common sel\<rparr>))))"
  proof (cases "history p = []")
    case True
    then have "list_all2 (peels (w_gix w) H) (filter (is_history H) wants) []" using p by simp
    from wanted_objects_peeled [OF this, of f] have "wanted_objects (w_gix w) H f wants = set (direct p)"
      using p by (simp add: object_closure_points [of _ _ _ "{}"])
    with True p show ?thesis
      by (auto intro!: eff_spec_return simp: plan_ok_def plain_schedule_def comp_def)
  next
    case False
    then show ?thesis using eff_spec_bind [OF select rest] by simp
  qed
qed

end

end
