(* ===== verification/Fetch.thy ===== *)
theory Fetch
  imports Plan_Correct Selection
begin

text \<open>
  The fetch path over the storage stack: what a plan holds, and that the pack written from it
  decodes to the objects themselves.
\<close>

section \<open>Feeding the writer\<close>

definition entry_holds :: "zlib_rs \<Rightarrow> (ObjectId \<rightharpoonup> Kind \<times> bytes) \<Rightarrow> ScheduledObject \<Rightarrow> PackEntry \<Rightarrow> bool" where
  "entry_holds Z H obj entry \<longleftrightarrow>
     entry_id entry = so_oid obj \<and> delta_group entry = so_group obj \<and>
     (\<exists>body. H (so_oid obj) = Some (entry_kind entry, body) \<and> stored_body Z entry = Some body)"

text \<open>
  The items sent: the entries of a prefix of the plan, and either that is all of it, or a
  failure follows, or the writer hung up.
\<close>

definition fed_ok ::
    "zlib_rs \<Rightarrow> (ObjectId \<rightharpoonup> Kind \<times> bytes) \<Rightarrow> (nat \<Rightarrow> bool) \<Rightarrow> ScheduledObject list \<Rightarrow> (FetchObjectError + PackEntry) list \<Rightarrow> bool" where
  "fed_ok Z H listening objs items \<longleftrightarrow>
     (\<exists>n entries. list_all2 (entry_holds Z H) (take n objs) entries \<and>
        (items = map Inr entries \<and> (length objs \<le> n \<or> (\<exists>k. \<not> listening k)) \<or> (\<exists>e. items = map Inr entries @ [Inl e])))"

lemma fed_ok_Nil: "fed_ok Z H listening [] []"
  unfolding fed_ok_def by (intro exI [of _ 0] exI [of _ "[]"]) simp

lemma fed_ok_hangup: "\<not> listening k \<Longrightarrow> fed_ok Z H listening objs []"
  unfolding fed_ok_def by (intro exI [of _ 0] exI [of _ "[]"]) auto

lemma fed_ok_error: "fed_ok Z H listening objs [Inl e]"
  unfolding fed_ok_def by (intro exI [of _ 0] exI [of _ "[]"]) auto

lemma fed_ok_Cons:
  assumes "entry_holds Z H obj entry" and "fed_ok Z H listening objs items"
  shows "fed_ok Z H listening (obj # objs) (Inr entry # items)"
proof -
  from assms(2) obtain n entries where "list_all2 (entry_holds Z H) (take n objs) entries"
    "items = map Inr entries \<and> (length objs \<le> n \<or> (\<exists>k. \<not> listening k)) \<or> (\<exists>e. items = map Inr entries @ [Inl e])"
    by (auto simp: fed_ok_def)
  with assms(1) show ?thesis
    unfolding fed_ok_def by (intro exI [of _ "Suc n"] exI [of _ "entry # entries"]) auto
qed

lemma fed_ok_complete:
  assumes "fed_ok Z H listening objs (map Inr entries)" and "length entries = length objs"
  shows "list_all2 (entry_holds Z H) objs entries"
proof -
  have "map Inr entries \<noteq> map Inr entries' @ [Inl e]" for entries' and e :: FetchObjectError
    by (metis Inl_Inr_False in_set_conv_decomp list.set_map imageE)
  with assms(1) obtain n where n: "list_all2 (entry_holds Z H) (take n objs) entries" by (auto simp: fed_ok_def dest: map_injective)
  with assms(2) list_all2_lengthD [OF n] have "take n objs = objs" by simp
  with n show ?thesis by simp
qed

section \<open>What a pack delivers\<close>

text \<open>The entries of a pack that carries all the objects read.\<close>

definition pack_of :: "zlib_rs \<Rightarrow> (FetchObjectError + PackEntry) list \<Rightarrow> OutEntry list \<Rightarrow> bool" where
  "pack_of Z items es \<longleftrightarrow>
     (\<exists>objs. items = map Inr objs \<and> map out_id es = map entry_id objs \<and> unpack Z [] es = map (stored_body Z) objs \<and> depth_one es)"

text \<open>
  The entries decode to the contents their ids name, hold each object once and nothing that was
  not asked for, and with what the client shares cover everything the wants stand for. What the
  client shares are haves of its own request, so a request without haves is covered by the entries alone.
\<close>

definition delivers ::
    "gix_object \<Rightarrow> (ObjectId \<rightharpoonup> Kind \<times> bytes) \<Rightarrow> zlib_rs \<Rightarrow> FilterSpec \<Rightarrow> ObjectId list \<Rightarrow> ObjectId list \<Rightarrow> ObjectId list \<Rightarrow>
      OutEntry list \<Rightarrow> bool" where
  "delivers gx H Z f wants haves shared es \<longleftrightarrow>
     set shared \<subseteq> set haves \<and> depth_one es \<and> unpack Z [] es = map (\<lambda>e. map_option snd (H (out_id e))) es \<and> None \<notin> set (unpack Z [] es) \<and>
     distinct (map out_id es) \<and> set (map out_id es) \<subseteq> wanted_objects gx H f wants \<and>
     wanted_objects gx H f wants \<subseteq> set (map out_id es) \<union> client_objects gx H f shared"

context walker_env
begin

lemma env_spec_read_compressed:
  "eff_spec (env s0) (\<lambda>e. True) (\<lambda>x. True) (read_compressed (w_db w) (w_os w) repo i)"
  unfolding read_compressed_def
  by (rule eff_spec_bind [OF eff_spec_map_err [OF env_spec_get_object]], simp, rule eff_spec_option)
    (auto intro!: eff_spec_bind [OF env_spec_stream] eff_spec_return split: prod.splits)

lemma read_compressed_spec:
  assumes "oid_ok i"
  shows "eff_spec (walk_ok w kv rest H good) (\<lambda>e. True)
    (\<lambda>c. c = None \<or> (\<exists>kind n z body. c = Some (kind, n, z) \<and> H i = Some (kind, body) \<and> inflate (w_zlib w) z n = Some body))
    (read_compressed (w_db w) (w_os w) (w_repo w) i)"
proof (rule eff_specI)
  fix s r s' assume s: "walk_ok w kv rest H good s"
    and run: "read_compressed (w_db w) (w_os w) (w_repo w) i s = (r, s')"
  have "odb_ok (w_zlib w) H (kv s) (rest s)" using s by (simp add: walk_ok_def)
  from read_compressed_run [OF objects_rely this assms run] env_spec_keeps [OF env_spec_read_compressed run s]
  show "walk_ok w kv rest H good s' \<and> (case r of Inl e \<Rightarrow> True | Inr c \<Rightarrow> c = None \<or>
      (\<exists>kind n z body. c = Some (kind, n, z) \<and> H i = Some (kind, body) \<and> inflate (w_zlib w) z n = Some body))"
    by (auto simp: read_ok_def split: sum.splits option.splits)
qed

lemma feed_item_holds:
  assumes "feed_item obj (Inr c) = Inr entry"
    and "c = None \<or> (\<exists>kind n z body. c = Some (kind, n, z) \<and> H (so_oid obj) = Some (kind, body) \<and> inflate Z z n = Some body)"
  shows "entry_holds Z H obj entry"
  using assms by (auto simp: feed_item_def entry_holds_def stored_body_def)

lemma feed_objects_spec:
  assumes "\<forall>obj\<in>set objs. oid_ok (so_oid obj)"
  shows "eff_spec (walk_ok w kv rest H good) (\<lambda>e. False) (fed_ok (w_zlib w) H listening objs)
    (feed_objects (w_db w) (w_os w) (w_repo w) listening sent objs)"
  using assms
proof (induction objs arbitrary: sent)
  case Nil
  then show ?case by (auto intro!: eff_spec_return fed_ok_Nil)
next
  case (Cons obj objs)
  let ?I = "walk_ok w kv rest H good"
  let ?R = "\<lambda>c. c = None \<or> (\<exists>kind n z body. c = Some (kind, n, z) \<and> H (so_oid obj) = Some (kind, body) \<and>
    inflate (w_zlib w) z n = Some body)"
  have read: "eff_spec ?I (\<lambda>e. False) (\<lambda>r. case r of Inl e \<Rightarrow> True | Inr c \<Rightarrow> ?R c)
      (eff_attempt (read_compressed (w_db w) (w_os w) (w_repo w) (so_oid obj)))"
    by (rule eff_spec_weaken [OF eff_spec_attempt [OF read_compressed_spec]]) (use Cons.prems in auto)
  have more: "eff_spec ?I (\<lambda>e. False) (fed_ok (w_zlib w) H listening (obj # objs))
      (eff_bind (feed_objects (w_db w) (w_os w) (w_repo w) listening (sent + 1) objs) (\<lambda>items. eff_return (Inr entry # items)))"
    if "entry_holds (w_zlib w) H obj entry" for entry
    by (rule eff_spec_bind [OF Cons.IH], use Cons.prems in simp, rule eff_spec_return, rule fed_ok_Cons [OF that])
  show ?case
    unfolding feed_objects.simps
  proof (rule eff_spec_bind [OF read])
    fix r :: "ObjectDbError + (Kind \<times> u64 \<times> bytes) option"
    assume r: "case r of Inl e \<Rightarrow> True | Inr c \<Rightarrow> ?R c"
    have "entry_holds (w_zlib w) H obj entry" if "feed_item obj r = Inr entry" for entry
      using that r feed_item_holds [of obj _ entry "w_zlib w"] by (cases r) (auto simp: feed_item_def)
    then show "eff_spec ?I (\<lambda>e. False) (fed_ok (w_zlib w) H listening (obj # objs))
      (let item = feed_item obj r in
       if \<not> listening sent then eff_return []
       else if (case item of Inl e \<Rightarrow> True | Inr entry \<Rightarrow> False) then eff_return [item]
       else eff_bind (feed_objects (w_db w) (w_os w) (w_repo w) listening (sent + 1) objs) (\<lambda>items. eff_return (item # items)))"
      using more by (cases "feed_item obj r") (auto simp: Let_def intro!: eff_spec_return fed_ok_error intro: fed_ok_hangup)
  qed
qed

lemma plan_run:
  assumes "kinds_ok (w_gix w) H" and "list_all oid_ok wants" and "list_all oid_ok haves"
  shows "eff_spec (walk_ok w kv rest H good) (plan_error source_error (w_gix w) H (w_fuel w) wants)
    (plan_ok (w_gix w) H f wants haves) (plan_pack w wants haves f ofs)"
  using source.plan_pack_spec [OF assms(1)] assms(2,3) by (simp add: list_all_iff)

lemma wanted_oids:
  assumes wants: "list_all oid_ok wants" and i: "i \<in> wanted_objects (w_gix w) H f wants"
  shows "oid_ok i"
proof -
  have "oid_ok j" if "c \<in> Collect (peels (w_gix w) H want)" "want \<in> set wants"
    "j \<in> set (snd c) \<union> object_closure (w_gix w) H (admits H f) {fst c}" for c want j
  proof -
    have p: "peels (w_gix w) H want c" "oid_ok want" using that(1,2) wants by (auto simp: list_all_iff)
    have c: "\<forall>i\<in>{fst c}. oid_ok i" using source.peels_oid [OF p] by simp
    have "\<forall>r\<in>roots_of (commit_graph_of (w_gix w) H) S. oid_ok r" for S using roots_oids [OF parsers] by blast
    from that(3) peels_tag_oids [OF parsers p] reach_oids [OF parsers c] snapshot_oids [OF parsers this]
    show ?thesis by (auto simp: object_closure_def Let_def)
  qed
  with i wants show ?thesis unfolding wanted_objects_def by (auto simp: list_all_iff)
qed

lemma fetch_run:
  assumes kinds: "kinds_ok (w_gix w) H" and wants: "list_all oid_ok wants" and haves: "list_all oid_ok haves"
    and s: "walk_ok w kv rest H good s"
    and plan: "plan_pack w wants haves f ofs s = (Inr plan, s1)"
    and feed: "feed_objects (w_db w) (w_os w) (w_repo w) listening 0 (plan_objects plan) s1 = (Inr (map Inr entries), s2)"
    and all: "length entries = length (plan_objects plan)"
  shows "plan_ok (w_gix w) H f wants haves plan" and "list_all2 (entry_holds (w_zlib w) H) (plan_objects plan) entries"
    and "walk_ok w kv rest H good s2"
proof -
  have P: "walk_ok w kv rest H good s1" "plan_ok (w_gix w) H f wants haves plan"
    using eff_specD [OF plan_run [OF kinds wants haves] plan s] by simp_all
  then show "plan_ok (w_gix w) H f wants haves plan" by blast
  have "\<forall>obj\<in>set (plan_objects plan). oid_ok (so_oid obj)"
    using P(2) wanted_oids [OF wants] by (fastforce simp: plan_ok_def Let_def)
  from eff_specD [OF feed_objects_spec [OF this] feed P(1)] all
  show "list_all2 (entry_holds (w_zlib w) H) (plan_objects plan) entries" "walk_ok w kv rest H good s2"
    by (auto intro: fed_ok_complete)
qed

lemma fetch_delivers:
  assumes kinds: "kinds_ok (w_gix w) H" and wants: "list_all oid_ok wants" and haves: "list_all oid_ok haves"
    and s: "walk_ok w kv rest H good s"
    and plan: "plan_pack w wants haves f ofs s = (Inr plan, s1)"
    and feed: "feed_objects (w_db w) (w_os w) (w_repo w) listening 0 (plan_objects plan) s1 = (Inr items, s2)"
    and es: "pack_of (w_zlib w) items es" "length es = length (plan_objects plan)"
  shows "delivers (w_gix w) H (w_zlib w) f wants haves (plan_common plan) es" and "walk_ok w kv rest H good s2"
proof -
  from es(1) obtain entries where E: "items = map Inr entries" "map out_id es = map entry_id entries"
    "unpack (w_zlib w) [] es = map (stored_body (w_zlib w)) entries" "depth_one es" by (auto simp: pack_of_def)
  have "length entries = length (plan_objects plan)" using es(2) map_eq_imp_length_eq [OF E(2)] by simp
  note R = fetch_run [OF kinds wants haves s plan feed [unfolded E(1)] this]
  show "walk_ok w kv rest H good s2" by (rule R)
  have ids: "map entry_id entries = map so_oid (plan_objects plan)"
    using R(2) by (induction rule: list_all2_induct) (auto simp: entry_holds_def)
  have bodies: "map (stored_body (w_zlib w)) entries = map (\<lambda>i. map_option snd (H i)) (map entry_id entries) \<and>
      None \<notin> set (map (stored_body (w_zlib w)) entries)"
    using R(2) by (induction rule: list_all2_induct) (auto simp: entry_holds_def)
  have sent: "map out_id es = map so_oid (plan_objects plan)" using E(2) ids by simp
  have "unpack (w_zlib w) [] es = map (\<lambda>i. map_option snd (H i)) (map out_id es)"
    unfolding E(2,3) using bodies by blast
  moreover have "None \<notin> set (unpack (w_zlib w) [] es)" unfolding E(3) using bodies by blast
  ultimately have "depth_one es \<and> unpack (w_zlib w) [] es = map (\<lambda>e. map_option snd (H (out_id e))) es \<and>
      None \<notin> set (unpack (w_zlib w) [] es)" using E(4) by (simp add: comp_def)
  with R(1) show "delivers (w_gix w) H (w_zlib w) f wants haves (plan_common plan) es"
    unfolding plan_ok_def Let_def sent [symmetric] delivers_def by blast
qed

end

section \<open>Properties\<close>

text \<open>C6: A fetch plan holds each object once; everything the wants stand for (their tags, their history,
  the trees and the admitted blobs of every commit of it, and trees and blobs wanted directly) is
  in the plan or reachable from a have of the request that the server acknowledges, and the plan holds nothing the
  client did not ask for. Planning fails only for storage errors, bad wants and corrupt objects,
  never with a panic or a stalled discovery, and keeps the storage invariant with other writers
  active. This is for histories in which no tree entry of blob mode names a tree, which the server
  does not check: the walk visits an object once, so such a tree would be sent without what is under it.\<close>

theorem plan_is_complete:
  assumes "walker_env w kv rest env snap reads writes H good"
    and "walk_ok w kv rest H good s" and "kinds_ok (w_gix w) H"
    and "list_all oid_ok wants" and "list_all oid_ok haves"
    and "plan_pack w wants haves f ofs s = (r, s')"
  shows "walk_ok w kv rest H good s' \<and>
    (case r of
       Inl e \<Rightarrow> plan_error source_error (w_gix w) H (w_fuel w) wants e
     | Inr plan \<Rightarrow> plan_ok (w_gix w) H f wants haves plan)"
  using walker_env.plan_run [OF assms(1,3,4,5)] assms(2,6) by (auto simp: eff_spec_def)

text \<open>C3: A fetch delivers: when the pack of a plan is written completely, its entries decode to the
  contents their ids name, each object once, and cover everything the wants stand for that the
  acknowledged haves, all of them haves of the request, do not; for histories in which no tree entry of blob mode names a tree.\<close>

theorem fetched_pack_complete:
  assumes "walker_env w kv rest env snap reads writes H good"
    and "walk_ok w kv rest H good s" and "kinds_ok (w_gix w) H"
    and "list_all oid_ok wants" and "list_all oid_ok haves" and "zlib_ok (w_zlib w)"
    and "plan_pack w wants haves f ofs s = (Inr plan, s1)"
    and "feed_objects (w_db w) (w_os w) (w_repo w) listening 0 (plan_objects plan) s1 = (Inr items, s2)"
    and "write_pack_with_options W (w_zlib w) items (length (plan_objects plan)) object_hash \<lparr>ofs_deltas = ofs\<rparr> stats b
      = ((Inr digest, stats'), out)"
  shows "\<exists>es w0 w1. pw_header W (length es) object_hash b = (Inr (), w0) \<and> feed W es w0 = (Inr (), w1) \<and>
    pw_trailer W w1 = (Inr (Some digest), out) \<and> delivers (w_gix w) H (w_zlib w) f wants haves (plan_common plan) es"
proof -
  from write_pack_sound [OF assms(6,9)] obtain entries es w0 w1 where es: "items = map Inr entries"
    "length es = length (plan_objects plan)" "pw_header W (length (plan_objects plan)) object_hash b = (Inr (), w0)"
    "feed W es w0 = (Inr (), w1)" "pw_trailer W w1 = (Inr (Some digest), out)"
    "map out_id es = map entry_id entries" "unpack (w_zlib w) [] es = map (stored_body (w_zlib w)) entries" "depth_one es"
    by blast
  then have "pack_of (w_zlib w) items es" by (auto simp: pack_of_def)
  note D = walker_env.fetch_delivers(1) [OF assms(1,3,4,5,2,7,8) this es(2)]
  have "pw_header W (length es) object_hash b = (Inr (), w0)" using es(2,3) by simp
  with D es(4,5) show ?thesis by blast
qed

section \<open>Witnesses\<close>

lemma small_kinds: "kinds_ok flat_gix (map_of small_objects)"
proof -
  have "list_all (\<lambda>(t, k, body). list_all (\<lambda>e. case e of
      Leaf b name \<Rightarrow> (case map_of small_objects b of Some (KTree, body) \<Rightarrow> False | _ \<Rightarrow> True)
    | Subtree c name \<Rightarrow> True) (tree_of flat_gix (map_of small_objects) t)) small_objects"
    by code_simp
  note all = this [unfolded list_all_iff]
  have "map_of small_objects b \<noteq> Some (KTree, body)"
    if leaf: "Leaf b name \<in> set (tree_of flat_gix (map_of small_objects) t)" for t b name body
  proof -
    obtain k tree where "map_of small_objects t = Some (k, tree)"
      using leaf by (cases "map_of small_objects t") (auto simp: tree_of_def)
    from bspec [OF all map_of_SomeD [OF this]] leaf show ?thesis by auto
  qed
  then show ?thesis by (auto simp: kinds_ok_def leaf_rel_def)
qed

definition small_plan :: PackPlan where
  "small_plan = \<lparr>plan_objects =
     [\<lparr>so_oid = sid 2, so_group = None\<rparr>, \<lparr>so_oid = sid 12, so_group = None\<rparr>, \<lparr>so_oid = sid 3, so_group = None\<rparr>,
      \<lparr>so_oid = sid 23, so_group = None\<rparr>, \<lparr>so_oid = sid 22, so_group = Some (name_hash [98])\<rparr>],
     plan_common = [sid 1]\<rparr>"

lemma small_plan_pack:
  "plan_pack small_walker [sid 3, sid 23] [sid 1] NoFilter True small_world =
     (Inr small_plan, snd (plan_pack small_walker [sid 3, sid 23] [sid 1] NoFilter True small_world))"
  by (rule prod_eqI) (code_simp, simp)

theorem plan_is_complete_witness:
  "plan_ok flat_gix (map_of small_objects) NoFilter [sid 3, sid 23] [sid 1] small_plan"
  using plan_is_complete [OF mem_walks.walker_env_axioms mem_walk_ok [OF small_bodies] _ _ _ small_plan_pack] small_kinds
  by simp

text \<open>The entries read for the plan: the stored streams are the bodies themselves.\<close>

definition small_entries :: "PackEntry list" where
  "small_entries = map (\<lambda>obj. case map_of small_objects (so_oid obj) of
     Some (kind, body) \<Rightarrow> \<lparr>entry_id = so_oid obj, entry_kind = kind, decompressed_size = word_of_nat (length body),
       entry_zlib = body, delta_group = so_group obj\<rparr>) (plan_objects small_plan)"

lemma small_feed:
  "feed_objects (w_db small_walker) (w_os small_walker) (w_repo small_walker) (\<lambda>n. True) 0 (plan_objects small_plan)
       (snd (plan_pack small_walker [sid 3, sid 23] [sid 1] NoFilter True small_world)) =
     (Inr (map Inr small_entries),
      snd (feed_objects (w_db small_walker) (w_os small_walker) (w_repo small_walker) (\<lambda>n. True) 0 (plan_objects small_plan)
        (snd (plan_pack small_walker [sid 3, sid 23] [sid 1] NoFilter True small_world))))"
  by (rule prod_eqI) (code_simp, simp)

lemma small_write:
  "write_pack_with_options list_writer (w_zlib small_walker) (map Inr small_entries :: (FetchObjectError + PackEntry) list)
     (length (plan_objects small_plan)) Sha1 \<lparr>ofs_deltas = True\<rparr> delta_stats_default [] =
     ((Inr (replicate 20 0), delta_stats_default), map full_entry small_entries)"
  by code_simp

theorem fetched_pack_complete_witness:
  "\<exists>es w0 w1. pw_header list_writer (length es) Sha1 [] = (Inr (), w0) \<and> feed list_writer es w0 = (Inr (), w1) \<and>
    pw_trailer list_writer w1 = (Inr (Some (replicate 20 0)), map full_entry small_entries) \<and>
    delivers flat_gix (map_of small_objects) stored_zlib NoFilter [sid 3, sid 23] [sid 1] (plan_common small_plan) es"
  using fetched_pack_complete [OF mem_walks.walker_env_axioms mem_walk_ok [OF small_bodies] _ _ _ _
      small_plan_pack small_feed small_write] small_kinds stored_zlib_ok
  by (simp add: mem_walker_def)

end
