(* ===== verification/Promote.thy ===== *)
theory Promote
  imports Walk
begin

text \<open>
  The receive side of \<^verbatim>\<open>src/git\<close>: ingesting a pack into a staging area (\<^verbatim>\<open>ingest.rs\<close>) and
  promoting its objects into committed storage (\<^verbatim>\<open>promote.rs\<close>). The pack reader and indexer
  of \<^verbatim>\<open>gix_pack\<close> and the staging file system are parameters.
\<close>

section \<open>Staged packs\<close>

datatype IngestError =
    IngIo
  | IngPack
  | IngBaseLookup ObjectDbError
  | IngBundle
  | IngDecode ObjectId
  | IngTaskAborted

text \<open>
  An indexed pack: the index of an id, the offset at an index, the kind the delta headers at an
  offset lead to, a full decode, the index entries in id order, and their number.
\<close>

record gix_bundle =
  bundle_lookup :: "ObjectId \<Rightarrow> nat option"
  bundle_offset :: "nat \<Rightarrow> nat"
  bundle_header :: "nat \<Rightarrow> unit + Kind"
  bundle_find :: "ObjectId \<Rightarrow> unit + (Kind \<times> bytes) option"
  bundle_iter :: "(nat \<times> ObjectId) list"
  bundle_count :: u32

record StagedPack =
  pack_bundle :: "gix_bundle option"

definition kind_at :: "gix_bundle \<Rightarrow> nat \<Rightarrow> ObjectId \<Rightarrow> IngestError + Kind" where
  "kind_at b offset i = map_err (\<lambda>_. IngDecode i) (bundle_header b offset)"

definition staged_contains :: "StagedPack \<Rightarrow> ObjectId \<Rightarrow> bool" where
  "staged_contains staged i = (case pack_bundle staged of None \<Rightarrow> False | Some b \<Rightarrow> bundle_lookup b i \<noteq> None)"

definition staged_info :: "StagedPack \<Rightarrow> ObjectId \<Rightarrow> IngestError + Kind option" where
  "staged_info staged i =
     (case pack_bundle staged of
        None \<Rightarrow> Inr None
      | Some b \<Rightarrow>
          (case bundle_lookup b i of
             None \<Rightarrow> Inr None
           | Some index \<Rightarrow> and_then (kind_at b (bundle_offset b index) i) (\<lambda>kind. Inr (Some kind))))"

definition staged_read :: "StagedPack \<Rightarrow> ObjectId \<Rightarrow> IngestError + (Kind \<times> bytes) option" where
  "staged_read staged i =
     (case pack_bundle staged of
        None \<Rightarrow> Inr None
      | Some b \<Rightarrow> map_err (\<lambda>_. IngDecode i) (bundle_find b i))"

definition staged_iter :: "StagedPack \<Rightarrow> (IngestError + ObjectId \<times> Kind) list" where
  "staged_iter staged =
     (case pack_bundle staged of
        None \<Rightarrow> []
      | Some b \<Rightarrow> map (\<lambda>(offset, i). and_then (kind_at b offset i) (\<lambda>kind. Inr (i, kind))) (bundle_iter b))"

definition object_count :: "StagedPack \<Rightarrow> u32" where
  "object_count staged = (case pack_bundle staged of None \<Rightarrow> 0 | Some b \<Rightarrow> bundle_count b)"

section \<open>Ingestion\<close>

datatype PackHeader = RefDelta ObjectId | OtherHeader

text \<open>
  \<open>gp_entries\<close> is \<^verbatim>\<open>BytesToEntriesIter::new_from_header\<close> with its items; \<open>gp_write\<close> is
  \<^verbatim>\<open>Bundle::write_to_directory\<close> in its verifying mode, given the thin-pack bases, and
  \<^verbatim>\<open>to_bundle\<close>, which has nothing for a pack of no objects.
\<close>

record gix_pack =
  gp_entries :: "bytes \<Rightarrow> HashKind \<Rightarrow> (unit + PackHeader) list option"
  gp_write :: "bytes \<Rightarrow> HashKind \<Rightarrow> (ObjectId \<rightharpoonup> Kind \<times> bytes) \<Rightarrow> unit + (unit + gix_bundle) option"

text \<open>Whether each use of the staging directory and of the blocking pool succeeds.\<close>

record staging =
  spool_task :: bool
  spool_io :: bool
  scan_open :: bool
  write_task :: bool
  write_open :: bool

record Spooled =
  pack_path :: "bytes option"
  ref_delta_bases :: "ObjectId list"

text \<open>The set of bases, without repetitions; the order its members are looked up in is immaterial.\<close>

definition scan_ref_delta_bases :: "gix_pack \<Rightarrow> staging \<Rightarrow> bytes \<Rightarrow> HashKind \<Rightarrow> IngestError + ObjectId list" where
  "scan_ref_delta_bases gp fs pack object_hash =
     (if \<not> scan_open fs then Inl IngIo
      else
        case gp_entries gp pack object_hash of
          None \<Rightarrow> Inr []
        | Some entries \<Rightarrow>
            Inr (remdups (List.map_filter (\<lambda>e. case e of Inr (RefDelta base_id) \<Rightarrow> Some base_id | _ \<Rightarrow> None) entries)))"

definition spool_and_scan :: "gix_pack \<Rightarrow> staging \<Rightarrow> bytes \<Rightarrow> HashKind \<Rightarrow> IngestError + Spooled" where
  "spool_and_scan gp fs input object_hash =
     (if \<not> spool_io fs then Inl IngIo
      else if length input = 0 then Inr \<lparr>pack_path = None, ref_delta_bases = []\<rparr>
      else
        and_then (scan_ref_delta_bases gp fs input object_hash) (\<lambda>bases.
          Inr \<lparr>pack_path = Some input, ref_delta_bases = bases\<rparr>))"

definition write_bundle ::
    "gix_pack \<Rightarrow> staging \<Rightarrow> bytes \<Rightarrow> HashKind \<Rightarrow> (ObjectId \<rightharpoonup> Kind \<times> bytes) \<Rightarrow> IngestError + gix_bundle option" where
  "write_bundle gp fs pack object_hash bases =
     (if \<not> write_open fs then Inl IngIo
      else
        and_then (map_err (\<lambda>_. IngPack) (gp_write gp pack object_hash bases)) (\<lambda>outcome.
          case outcome of
            None \<Rightarrow> Inr None
          | Some b \<Rightarrow> map_err (\<lambda>_. IngBundle) (and_then b (\<lambda>b. Inr (Some b)))))"

text \<open>The prefetch of the bases: an absent base is left out.\<close>

fun prefetch_bases ::
    "('s, 't) walker \<Rightarrow> (ObjectId \<rightharpoonup> Kind \<times> bytes) \<Rightarrow> ObjectId list \<Rightarrow> ('s, IngestError, ObjectId \<rightharpoonup> Kind \<times> bytes) eff" where
  "prefetch_bases w bases [] = eff_return bases"
| "prefetch_bases w bases (base_id # ids) =
     eff_bind (eff_map_err IngBaseLookup (odb_get (w_db w) (w_os w) (w_zlib w) (w_repo w) base_id)) (\<lambda>r.
       case r of
         None \<Rightarrow> prefetch_bases w bases ids
       | Some object \<Rightarrow> prefetch_bases w (bases(base_id \<mapsto> object)) ids)"

definition ingest_pack :: "('s, 't) walker \<Rightarrow> gix_pack \<Rightarrow> staging \<Rightarrow> bytes \<Rightarrow> HashKind \<Rightarrow> ('s, IngestError, StagedPack) eff" where
  "ingest_pack w gp fs input object_hash =
     eff_bind (eff_lift (if spool_task fs then spool_and_scan gp fs input object_hash else Inl IngTaskAborted)) (\<lambda>spooled.
       case pack_path spooled of
         None \<Rightarrow> eff_return \<lparr>pack_bundle = None\<rparr>
       | Some pack \<Rightarrow>
           eff_bind (prefetch_bases w Map.empty (ref_delta_bases spooled)) (\<lambda>bases.
           eff_bind (eff_lift (if write_task fs then write_bundle gp fs pack object_hash bases else Inl IngTaskAborted)) (\<lambda>b.
           eff_return \<lparr>pack_bundle = b\<rparr>)))"

section \<open>Validation\<close>

datatype PromoteError =
    PStore StoreError
  | PObjects ObjectDbError
  | PStaged IngestError
  | PWalk WalkError
  | PDecode ObjectId
  | PConnectivity ObjectId "ObjectId option"
  | PDiverges

record Promotion =
  promoted :: "ObjectId list"
  promo_commits :: "ObjectId list"

datatype Step = Enter ObjectId "ObjectId option" | Emit ObjectId Kind bytes

fun tree_children :: "ObjectId \<Rightarrow> (unit + TreeMode \<times> bytes \<times> ObjectId) list \<Rightarrow> PromoteError + ObjectId list" where
  "tree_children i [] = Inr []"
| "tree_children i (Inl u # es) = Inl (PDecode i)"
| "tree_children i (Inr (mode, filename, child) # es) =
     and_then (tree_children i es) (\<lambda>children. Inr (if mode = ModeCommit then children else child # children))"

definition object_children :: "gix_object \<Rightarrow> ObjectId \<Rightarrow> Kind \<Rightarrow> bytes \<Rightarrow> PromoteError + ObjectId list" where
  "object_children gx i kind body =
     (case kind of
        KBlob \<Rightarrow> Inr []
      | KTree \<Rightarrow> tree_children i (tree_entries gx body (oid_kind i))
      | KCommit \<Rightarrow>
          and_then (ok_or (PDecode i) (commit_from_bytes gx body (oid_kind i))) (\<lambda>(tree, ps). Inr (tree # ps))
      | KTag \<Rightarrow> and_then (ok_or (PDecode i) (tag_from_bytes gx body (oid_kind i))) (\<lambda>target. Inr [target]))"

text \<open>The traversal; the stack's top is the head of the list.\<close>

fun validate_loop ::
    "('s, 't) walker \<Rightarrow> StagedPack \<Rightarrow> nat \<Rightarrow> Step list \<Rightarrow> ObjectId set \<Rightarrow> (ObjectId \<times> Kind \<times> bytes) list
      \<Rightarrow> ('s, PromoteError, (ObjectId \<times> Kind \<times> bytes) list) eff" where
  "validate_loop w staged 0 stack visited post_order = eff_fail PDiverges"
| "validate_loop w staged (Suc n) [] visited post_order = eff_return post_order"
| "validate_loop w staged (Suc n) (Emit i kind body # stack) visited post_order =
     validate_loop w staged n stack visited (post_order @ [(i, kind, body)])"
| "validate_loop w staged (Suc n) (Enter i referenced_by # stack) visited post_order =
     (if i \<in> visited then validate_loop w staged n stack visited post_order
      else
        let visited = insert i visited in
        eff_bind (eff_map_err PObjects (odb_exists (w_db w) (w_repo w) i)) (\<lambda>known.
          if known then validate_loop w staged n stack visited post_order
          else
            eff_bind (eff_lift (map_err PStaged (staged_read staged i))) (\<lambda>r.
              case r of
                None \<Rightarrow> eff_fail (PConnectivity i referenced_by)
              | Some (kind, body) \<Rightarrow>
                  eff_bind (eff_lift (object_children (w_gix w) i kind body)) (\<lambda>children.
                    validate_loop w staged n (map (\<lambda>child. Enter child (Some i)) children @ Emit i kind body # stack)
                      visited post_order))))"

definition validate ::
    "('s, 't) walker \<Rightarrow> StagedPack \<Rightarrow> ObjectId list \<Rightarrow> ('s, PromoteError, (ObjectId \<times> Kind \<times> bytes) list) eff" where
  "validate w staged tips = validate_loop w staged (w_fuel w) (map (\<lambda>tip. Enter tip None) tips) {} []"

section \<open>Promotion\<close>

definition of_kind :: "Kind \<Rightarrow> (ObjectId \<times> Kind \<times> bytes) list \<Rightarrow> (ObjectId \<times> bytes) list" where
  "of_kind k post_order = map (\<lambda>(i, kind, body). (i, body)) (filter (\<lambda>(i, kind, body). kind = k) post_order)"

text \<open>The loop that puts the objects of one kind and records each id.\<close>

fun put_group ::
    "('s, 't) walker \<Rightarrow> ObjectDbConfig \<Rightarrow> Kind \<Rightarrow> ObjectId list \<Rightarrow> (ObjectId \<times> bytes) list \<Rightarrow> ('s, PromoteError, ObjectId list) eff" where
  "put_group w cfg kind promoted_ids [] = eff_return promoted_ids"
| "put_group w cfg kind promoted_ids ((i, body) # objs) =
     eff_bind (eff_map_err PObjects (odb_put (w_db w) (w_os w) (w_zlib w) cfg (w_repo w) i kind body Relaxed)) (\<lambda>_.
       put_group w cfg kind (promoted_ids @ [i]) objs)"

fun max_generation :: "('s, 't) walker \<Rightarrow> u32 \<Rightarrow> ObjectId list \<Rightarrow> ('s, PromoteError, u32) eff" where
  "max_generation w acc [] = eff_return acc"
| "max_generation w acc (parent # ps) =
     eff_bind (eff_map_err PWalk (get_commit_info w parent)) (\<lambda>info.
       max_generation w (max acc (generation info)) ps)"

fun extend_graph ::
    "('s, 't) walker \<Rightarrow> ObjectId list \<Rightarrow> (ObjectId \<times> bytes) list \<Rightarrow> ('s, PromoteError, ObjectId list) eff" where
  "extend_graph w recorded [] = eff_return recorded"
| "extend_graph w recorded ((i, body) # commits) =
     eff_bind (eff_lift (ok_or (PDecode i) (commit_from_bytes (w_gix w) body (oid_kind i)))) (\<lambda>(root, ps).
     eff_bind (max_generation w 0 ps) (\<lambda>max_parent_generation.
     eff_bind (eff_map_err PStore (put_commit_graph (w_db w) (w_repo w) i
         \<lparr>generation = max_parent_generation + 1, root_tree = root, parents = ps\<rparr> Relaxed)) (\<lambda>_.
     extend_graph w (recorded @ [i]) commits)))"

definition validate_and_promote ::
    "('s, 't) walker \<Rightarrow> ObjectDbConfig \<Rightarrow> StagedPack \<Rightarrow> ObjectId list \<Rightarrow> ('s, PromoteError, Promotion) eff" where
  "validate_and_promote w cfg staged tips =
     eff_bind (validate w staged tips) (\<lambda>post_order.
     eff_bind (put_group w cfg KBlob [] (of_kind KBlob post_order)) (\<lambda>ids.
     eff_bind (put_group w cfg KTree ids (of_kind KTree post_order)) (\<lambda>ids.
     eff_bind (put_group w cfg KCommit ids (of_kind KCommit post_order)) (\<lambda>ids.
     eff_bind (put_group w cfg KTag ids (of_kind KTag post_order)) (\<lambda>ids.
     eff_bind (extend_graph w [] (of_kind KCommit post_order)) (\<lambda>commits.
     eff_bind (eff_map_err PStore (flush (w_db w))) (\<lambda>_.
     eff_return \<lparr>promoted = ids, promo_commits = commits\<rparr>)))))))"

end
