(* ===== verification/Errors.thy ===== *)
theory Errors
  imports Promote Plan
begin

text \<open>
  \<^verbatim>\<open>src/error.rs\<close>: how a domain error surfaces at the protocol boundary. A failure is the
  client's (with a reason that is safe to echo), an absence, or the server's, of which the wire
  sees nothing. Logging a server fault is left out, so \<^verbatim>\<open>classify\<close> is the class itself. The
  two error values that stand for a panic and for running out of fuel are server faults.
\<close>

datatype Class = Client str | ClassNotFound | Server

definition store_class :: "StoreError \<Rightarrow> Class" where
  "store_class e = Server"

fun objectdb_class :: "ObjectDbError \<Rightarrow> Class" where
  "objectdb_class (OStore e) = store_class e"
| "objectdb_class (OBlob e) = Server"
| "objectdb_class (OCorruptZlib i) = Server"

fun ingest_class :: "IngestError \<Rightarrow> Class" where
  "ingest_class IngPack = Client (lit ''index-pack failed'')"
| "ingest_class (IngBaseLookup e) = objectdb_class e"
| "ingest_class IngIo = Server"
| "ingest_class IngBundle = Server"
| "ingest_class (IngDecode i) = Server"
| "ingest_class IngTaskAborted = Server"

fun walk_class :: "WalkError \<Rightarrow> Class" where
  "walk_class (UnknownWant i) = Client (lit ''not our ref '' @ to_hex i)"
| "walk_class (UnsupportedWant i kind) = Client (lit ''want is not a commit or tag'')"
| "walk_class (WStore e) = store_class e"
| "walk_class (WObjects e) = objectdb_class e"
| "walk_class (MissingObject i) = Server"
| "walk_class (UnexpectedKind i k k') = Server"
| "walk_class (WDecode i) = Server"
| "walk_class (DiscoveryStalled is) = Server"
| "walk_class WalkPanic = Server"
| "walk_class WalkDiverges = Server"

fun promote_class :: "PromoteError \<Rightarrow> Class" where
  "promote_class (PConnectivity i ref) = Client (lit ''missing necessary objects'')"
| "promote_class (PStore e) = store_class e"
| "promote_class (PObjects e) = objectdb_class e"
| "promote_class (PStaged e) = ingest_class e"
| "promote_class (PWalk e) = walk_class e"
| "promote_class (PDecode i) = Server"
| "promote_class PDiverges = Server"

fun packout_class :: "('e \<Rightarrow> Class) \<Rightarrow> 'e PackOutError \<Rightarrow> Class" where
  "packout_class inner (PInput e) = inner e"
| "packout_class inner (PWrite e) = Server"
| "packout_class inner (PCorruptZlib i) = Server"
| "packout_class inner (PTruncated n m) = Server"

end
