(* ===== verification/Wire.thy ===== *)
theory Wire
  imports Errors
begin

text \<open>
  What the protocol handlers share: packet lines, HTTP responses (the helpers of
  \<^verbatim>\<open>src/protocol/http.rs\<close>), the string operations of the standard library they call, and the
  server's state. The packet-line codec (\<^verbatim>\<open>gix_packetline_blocking\<close>) and
  \<^verbatim>\<open>ObjectId::from_hex\<close> are parameters with their documented laws.
\<close>

section \<open>Packet lines\<close>

datatype Channel = ChData | ChProgress | ChError

datatype PacketLine = Flush | Delimiter | ResponseEnd | Data bytes

text \<open>
  \<open>streaming\<close> is \<^verbatim>\<open>decode::streaming\<close>: an error for a bad prefix, \<^verbatim>\<open>None\<close> for incomplete input,
  or the first line with the bytes it takes. The encoders give what they append to the buffer.
\<close>

record gix_wire =
  streaming :: "bytes \<Rightarrow> unit + (PacketLine \<times> nat) option"
  data_to_write :: "bytes \<Rightarrow> bytes option"
  error_to_write :: "bytes \<Rightarrow> bytes option"
  band_to_write :: "Channel \<Rightarrow> bytes \<Rightarrow> bytes option"
  flush_to_write :: "bytes option"
  delim_to_write :: "bytes option"
  from_hex :: "bytes \<Rightarrow> ObjectId option"

text \<open>The bytes of a sequence of encoder calls on one buffer, unless one of them fails.\<close>

fun write_all :: "bytes option list \<Rightarrow> bytes option" where
  "write_all [] = Some []"
| "write_all (p # ps) = (case p of None \<Rightarrow> None | Some bs \<Rightarrow> map_option ((@) bs) (write_all ps))"

text \<open>The pkt-line data limit less the channel byte.\<close>

definition MAX_BAND_DATA :: nat where
  "MAX_BAND_DATA = 65515"

section \<open>Strings\<close>

text \<open>\<^verbatim>\<open>strip_suffix\<close>, \<^verbatim>\<open>split_once\<close>, \<^verbatim>\<open>split\<close> and \<^verbatim>\<open>splitn\<close> at a byte, and a number's decimal digits.\<close>

definition strip_suffix :: "bytes \<Rightarrow> bytes \<Rightarrow> bytes option" where
  "strip_suffix p s = (if suffix p s then Some (take (length s - length p) s) else None)"

definition split_once :: "u8 \<Rightarrow> bytes \<Rightarrow> (bytes \<times> bytes) option" where
  "split_once c s =
     (case dropWhile (\<lambda>b. b \<noteq> c) s of [] \<Rightarrow> None | x # tail \<Rightarrow> Some (takeWhile (\<lambda>b. b \<noteq> c) s, tail))"

lemma split_once_length [termination_simp]: "split_once c s = Some (a, b) \<Longrightarrow> length b < length s"
proof -
  assume "split_once c s = Some (a, b)"
  then obtain x where "dropWhile (\<lambda>b. b \<noteq> c) s = x # b" by (auto simp: split_once_def split: list.splits)
  moreover have "length (dropWhile (\<lambda>b. b \<noteq> c) s) \<le> length s" by (rule length_dropWhile_le)
  ultimately show "length b < length s" by simp
qed

fun split_all :: "u8 \<Rightarrow> bytes \<Rightarrow> bytes list" where
  "split_all c s = (case split_once c s of None \<Rightarrow> [s] | Some (a, b) \<Rightarrow> a # split_all c b)"

declare split_all.simps [simp del]

fun splitn :: "nat \<Rightarrow> u8 \<Rightarrow> bytes \<Rightarrow> bytes list" where
  "splitn 0 c s = []"
| "splitn (Suc 0) c s = [s]"
| "splitn (Suc (Suc n)) c s = (case split_once c s of None \<Rightarrow> [s] | Some (a, b) \<Rightarrow> a # splitn (Suc n) c b)"

fun decimal :: "nat \<Rightarrow> str" where
  "decimal n = (if n < 10 then [48 + word_of_nat n] else decimal (n div 10) @ [48 + word_of_nat (n mod 10)])"

declare decimal.simps [simp del]

text \<open>
  \<^verbatim>\<open>String::from_utf8_lossy\<close>: a malformed sequence, up to the first byte that cannot continue
  it, becomes one replacement character.
\<close>

definition utf8_head :: "bytes \<Rightarrow> nat \<times> bool" where
  "utf8_head bs =
     (case bs of
        [] \<Rightarrow> (1, True)
      | b # bs \<Rightarrow>
          if b < 0x80 then (1, True)
          else
            case (utf8_lead b, bs) of
              (Some (n, lo, hi), c # cs) \<Rightarrow>
                if lo \<le> c \<and> c \<le> hi
                then (let k = length (takeWhile utf8_cont (take n cs)) in (k + 2, k = n))
                else (1, False)
            | _ \<Rightarrow> (1, False))"

lemma utf8_head_pos: "0 < fst (utf8_head bs)"
  by (auto simp: utf8_head_def Let_def split: list.splits option.splits)

function from_utf8_lossy :: "bytes \<Rightarrow> str" where
  "from_utf8_lossy bs =
     (if bs = [] then []
      else let (n, ok) = utf8_head bs in (if ok then take n bs else [0xEF, 0xBF, 0xBD]) @ from_utf8_lossy (drop n bs))"
  by pat_completeness auto
termination
proof (relation "measure length")
  fix bs :: bytes and x n ok
  assume "bs \<noteq> []" "x = utf8_head bs" "(n, ok) = x"
  then show "(drop n bs, bs) \<in> measure length" using utf8_head_pos [of bs] by (cases bs) (auto simp: prod_eq_iff)
qed simp

declare from_utf8_lossy.simps [simp del]

text \<open>A line's text: one trailing newline is dropped.\<close>

definition chomp :: "bytes \<Rightarrow> bytes" where
  "chomp data = (case strip_suffix ([10]) data of Some d \<Rightarrow> d | None \<Rightarrow> data)"

definition null_oid :: "HashKind \<Rightarrow> ObjectId" where
  "null_oid k = replicate (len_in_bytes k) 0"

definition is_null :: "ObjectId \<Rightarrow> bool" where
  "is_null i \<longleftrightarrow> list_all (\<lambda>b. b = 0) i"

section \<open>Responses\<close>

record Response =
  status :: nat
  content_type :: str
  cache_control :: str
  resp_body :: bytes

definition git_response :: "nat \<Rightarrow> str \<Rightarrow> bytes \<Rightarrow> Response" where
  "git_response code ctype bs =
     \<lparr>status = code, content_type = ctype, cache_control = lit ''no-cache'', resp_body = bs\<rparr>"

definition plain :: "nat \<Rightarrow> str \<Rightarrow> Response" where
  "plain code message = git_response code (lit ''text/plain; charset=utf-8'') message"

definition internal_error :: Response where
  "internal_error = plain 500 (lit ''internal server error'')"

section \<open>The server\<close>

text \<open>
  \<^verbatim>\<open>AppState\<close>: the store, the object database and the configuration the handlers read, with the
  parameters standing for the libraries they call and the fuel of the walks.
\<close>

record ('s, 't) AppState =
  st_db :: "('s, 't) slatedb"
  st_os :: "'s object_store"
  st_zlib :: zlib_rs
  st_cfg :: ObjectDbConfig
  auto_create_repos :: bool
  st_gix :: gix_object
  st_pack :: gix_pack
  st_wire :: gix_wire
  st_fuel :: nat

text \<open>\<^verbatim>\<open>Walker::new\<close>.\<close>

definition walker_new :: "('s, 't) AppState \<Rightarrow> RepoId \<Rightarrow> ('s, 't) walker" where
  "walker_new st repo =
     \<lparr>w_db = st_db st, w_os = st_os st, w_zlib = st_zlib st, w_gix = st_gix st, w_repo = repo, w_fuel = st_fuel st\<rparr>"

lemma walker_new_simps [simp]:
  "w_db (walker_new st repo) = st_db st" "w_os (walker_new st repo) = st_os st" "w_zlib (walker_new st repo) = st_zlib st"
  "w_gix (walker_new st repo) = st_gix st" "w_repo (walker_new st repo) = repo" "w_fuel (walker_new st repo) = st_fuel st"
  by (simp_all add: walker_new_def)

text \<open>A handler that returns early with a response, or at its end.\<close>

definition respond :: "('s, Response, Response) eff \<Rightarrow> 's \<Rightarrow> Response \<times> 's" where
  "respond m s = (case m s of (Inl r, s) \<Rightarrow> (r, s) | (Inr r, s) \<Rightarrow> (r, s))"

end
