(* ===== verification/ReceivePack.thy ===== *)
theory ReceivePack
  imports Wire
begin

text \<open>
  \<^verbatim>\<open>src/protocol/receive_pack.rs\<close>: the push endpoint. A request is a list of ref-update commands
  up to a flush, then a pack; the handler ingests the pack, validates and promotes its objects,
  applies the commands as compare-and-swap and reports. Metrics and log events are left out.
\<close>

section \<open>Requests\<close>

record Command =
  cmd_old :: "ObjectId option"
  cmd_new :: "ObjectId option"
  cmd_name :: str

record Caps =
  report_status :: bool
  side_band_64k :: bool

definition caps_default :: Caps where
  "caps_default = \<lparr>report_status = False, side_band_64k = False\<rparr>"

record PushRequest =
  commands :: "Command list"
  push_caps :: Caps
  push_pack :: bytes

text \<open>The second value stands for a loop whose codec never consumes anything.\<close>

datatype ParseError = ParseError | ParseDiverges

definition parse_oid :: "gix_wire \<Rightarrow> str \<Rightarrow> ParseError + ObjectId option" where
  "parse_oid wr hex =
     and_then (ok_or ParseError (from_hex wr hex)) (\<lambda>i. Inr (if \<not> is_null i then Some i else None))"

definition caps_token :: "Caps \<Rightarrow> str \<Rightarrow> Caps" where
  "caps_token caps token =
     (let name = takeWhile (\<lambda>b. b \<noteq> 61) token in
      if name = lit ''report-status'' then caps\<lparr>report_status := True\<rparr>
      else if name = lit ''side-band-64k'' then caps\<lparr>side_band_64k := True\<rparr>
      else caps)"

definition parse_caps :: "bytes \<Rightarrow> Caps" where
  "parse_caps bs = foldl caps_token caps_default (split_all 32 (from_utf8_lossy bs))"

definition parse_command :: "gix_wire \<Rightarrow> bytes \<Rightarrow> ParseError + Command \<times> Caps option" where
  "parse_command wr data =
     (let data = chomp data;
          (command_bytes, caps) =
            (case split_once 0 data of
               Some (cmd, tail) \<Rightarrow> (cmd, Some (parse_caps tail))
             | None \<Rightarrow> (data, None)) in
      and_then (ok_or ParseError (from_utf8 command_bytes)) (\<lambda>text.
        case splitn 3 32 text of
          [old, new, name] \<Rightarrow>
            if name = [] then Inl ParseError
            else
              and_then (parse_oid wr old) (\<lambda>old.
              and_then (parse_oid wr new) (\<lambda>new.
              Inr (\<lparr>cmd_old = old, cmd_new = new, cmd_name = name\<rparr>, caps)))
        | _ \<Rightarrow> Inl ParseError))"

text \<open>The loop over the body; \<open>body\<close> is what is left of it.\<close>

fun rp_parse_loop :: "gix_wire \<Rightarrow> nat \<Rightarrow> bytes \<Rightarrow> Command list \<Rightarrow> Caps \<Rightarrow> bool \<Rightarrow> ParseError + PushRequest" where
  "rp_parse_loop wr 0 body cmds caps first = Inl ParseDiverges"
| "rp_parse_loop wr (Suc n) body cmds caps first =
     (case streaming wr body of
        Inr (Some (line, consumed)) \<Rightarrow>
          (let body = drop consumed body in
           case line of
             Flush \<Rightarrow> Inr \<lparr>commands = cmds, push_caps = caps, push_pack = body\<rparr>
           | Data data \<Rightarrow>
               and_then (parse_command wr data) (\<lambda>(command, line_caps).
                 rp_parse_loop wr n body (cmds @ [command])
                   (if first then (case line_caps of Some line_caps \<Rightarrow> line_caps | None \<Rightarrow> caps) else caps) False)
           | _ \<Rightarrow> Inl ParseError)
      | _ \<Rightarrow> Inl ParseError)"

definition rp_parse_request :: "gix_wire \<Rightarrow> bytes \<Rightarrow> ParseError + PushRequest" where
  "rp_parse_request wr body = rp_parse_loop wr (Suc (length body)) body [] caps_default True"

section \<open>Reports\<close>

definition RP_RESULT_CONTENT_TYPE :: str where
  "RP_RESULT_CONTENT_TYPE = lit ''application/x-git-receive-pack-result''"

definition NG_UNPACKER_ERROR :: str where
  "NG_UNPACKER_ERROR = lit ''unpacker error''"

datatype RefStatus = RefOk | RefNg str

definition status_line :: "str \<times> RefStatus \<Rightarrow> bytes" where
  "status_line = (\<lambda>(name, st). case st of
     RefOk \<Rightarrow> lit ''ok '' @ name @ [10]
   | RefNg reason \<Rightarrow> lit ''ng '' @ name @ [32] @ reason @ [10])"

definition report_body :: "gix_wire \<Rightarrow> str \<Rightarrow> (str \<times> RefStatus) list \<Rightarrow> bool \<Rightarrow> bytes option" where
  "report_body wr unpack_line statuses side_band =
     (case write_all ([data_to_write wr (unpack_line @ [10])] @ map (data_to_write wr \<circ> status_line) statuses @
         [flush_to_write wr]) of
        None \<Rightarrow> None
      | Some inner \<Rightarrow>
          if \<not> side_band then Some inner
          else write_all (map (band_to_write wr ChData) (chunks MAX_BAND_DATA inner) @ [flush_to_write wr]))"

definition build_report :: "gix_wire \<Rightarrow> Caps \<Rightarrow> str \<Rightarrow> (str \<times> RefStatus) list \<Rightarrow> Response" where
  "build_report wr caps unpack_line statuses =
     (if \<not> report_status caps then git_response 200 RP_RESULT_CONTENT_TYPE []
      else
        case report_body wr unpack_line statuses (side_band_64k caps) of
          Some body \<Rightarrow> git_response 200 RP_RESULT_CONTENT_TYPE body
        | None \<Rightarrow> internal_error)"

definition ref_status :: "RefOutcome \<Rightarrow> RefStatus" where
  "ref_status out = (case out of Updated \<Rightarrow> RefOk | Rejected reason \<Rightarrow> RefNg reason)"

definition report_success :: "gix_wire \<Rightarrow> PushRequest \<Rightarrow> RefUpdateResult list \<Rightarrow> Response" where
  "report_success wr request results =
     build_report wr (push_caps request) (lit ''unpack ok'') (map (\<lambda>r. (res_name r, ref_status (outcome r))) results)"

definition push_failed :: "gix_wire \<Rightarrow> PushRequest \<Rightarrow> Class \<Rightarrow> Response" where
  "push_failed wr request cls =
     (case cls of
        Client reason \<Rightarrow>
          build_report wr (push_caps request) (lit ''unpack '' @ reason)
            (map (\<lambda>cmd. (cmd_name cmd, RefNg NG_UNPACKER_ERROR)) (commands request))
      | ClassNotFound \<Rightarrow> plain 404 (lit ''repository not found'')
      | Server \<Rightarrow> internal_error)"

section \<open>The handler\<close>

definition resolve_repo :: "('s, 't) AppState \<Rightarrow> str \<Rightarrow> ('s, unit, RepoMeta option) eff" where
  "resolve_repo st repo =
     eff_map_err (\<lambda>e. ())
       (if auto_create_repos st then eff_bind (get_or_create_repo (st_db st) repo) (\<lambda>meta. eff_return (Some meta))
        else lookup_repo (st_db st) repo)"

definition command_update :: "Command \<Rightarrow> RefUpdate" where
  "command_update cmd = \<lparr>upd_name = cmd_name cmd, expected_old = cmd_old cmd, upd_new = cmd_new cmd\<rparr>"

definition push_tips :: "PushRequest \<Rightarrow> ObjectId list" where
  "push_tips request = List.map_filter cmd_new (commands request)"

definition receive_pack :: "('s, 't) AppState \<Rightarrow> staging \<Rightarrow> str \<Rightarrow> bytes \<Rightarrow> 's \<Rightarrow> Response \<times> 's" where
  "receive_pack st fs repo body =
     (let wr = st_wire st in
      respond
        (eff_bind (eff_lift (map_err (\<lambda>e. plain 400 (lit ''malformed receive-pack request'')) (rp_parse_request wr body))) (\<lambda>request.
         eff_bind (eff_map_err (\<lambda>e. internal_error) (resolve_repo st repo)) (\<lambda>found.
           case found of
             None \<Rightarrow> eff_fail (plain 404 (lit ''repository not found''))
           | Some meta \<Rightarrow>
               eff_bind (eff_map_err (\<lambda>e. push_failed wr request (ingest_class e))
                 (ingest_pack (walker_new st (repo_id meta)) (st_pack st) fs (push_pack request) (object_format meta))) (\<lambda>staged.
               eff_bind (eff_map_err (\<lambda>e. push_failed wr request (promote_class e))
                 (validate_and_promote (walker_new st (repo_id meta)) (st_cfg st) staged (push_tips request))) (\<lambda>promotion.
               eff_bind (eff_map_err (\<lambda>e. internal_error)
                 (update_refs (st_db st) (repo_id meta) (map command_update (commands request)))) (\<lambda>results.
               eff_return (report_success wr request results))))))))"

end
