(* ===== verification/Packets.thy ===== *)
theory Packets
  imports Wire
begin

text \<open>
  The contract of the packet-line codec, the reader a client uses on a response, and a concrete
  codec that obeys the contract.
\<close>

fun channel_byte :: "Channel \<Rightarrow> u8" where
  "channel_byte ChData = 1"
| "channel_byte ChProgress = 2"
| "channel_byte ChError = 3"

text \<open>
  A data line holds between 1 and 65516 bytes and reads back whatever follows it; side-band and
  error lines are data lines with a prefix; a decoded line lies within the input. Hex ids read
  back, and only well-formed ids are read.
\<close>

locale wire_laws =
  fixes wr :: gix_wire
  assumes data_fits: "data_to_write wr d \<noteq> None \<longleftrightarrow> d \<noteq> [] \<and> length d \<le> 65516"
    and data_reads: "data_to_write wr d = Some p \<Longrightarrow> streaming wr (p @ tail) = Inr (Some (Data d, length p))"
    and flush_writes: "flush_to_write wr \<noteq> None"
    and flush_reads: "flush_to_write wr = Some p \<Longrightarrow> streaming wr (p @ tail) = Inr (Some (Flush, length p))"
    and delim_writes: "delim_to_write wr \<noteq> None"
    and delim_reads: "delim_to_write wr = Some p \<Longrightarrow> streaming wr (p @ tail) = Inr (Some (Delimiter, length p))"
    and band_frames: "d \<noteq> [] \<Longrightarrow> band_to_write wr ch d = data_to_write wr (channel_byte ch # d)"
    and error_frames: "d \<noteq> [] \<Longrightarrow> error_to_write wr d = data_to_write wr (lit ''ERR '' @ d)"
    and consumes: "streaming wr bs = Inr (Some (line, n)) \<Longrightarrow> 0 < n \<and> n \<le> length bs"
    and hex_reads: "oid_ok i \<Longrightarrow> from_hex wr (to_hex i) = Some i"
    and hex_ok: "from_hex wr s = Some i \<Longrightarrow> oid_ok i"

section \<open>Reading a section\<close>

text \<open>The lines up to a flush, and what follows it.\<close>

fun read_lines :: "gix_wire \<Rightarrow> nat \<Rightarrow> bytes \<Rightarrow> (PacketLine list \<times> bytes) option" where
  "read_lines wr 0 bs = None"
| "read_lines wr (Suc n) bs =
     (case streaming wr bs of
        Inr (Some (line, k)) \<Rightarrow>
          if line = Flush then Some ([], drop k bs)
          else map_option (\<lambda>(ls, rest). (line # ls, rest)) (read_lines wr n (drop k bs))
      | _ \<Rightarrow> None)"

definition read_section :: "gix_wire \<Rightarrow> bytes \<Rightarrow> (PacketLine list \<times> bytes) option" where
  "read_section wr bs = read_lines wr (Suc (length bs)) bs"

definition line_to_write :: "gix_wire \<Rightarrow> PacketLine \<Rightarrow> bytes option" where
  "line_to_write wr line =
     (case line of Data d \<Rightarrow> data_to_write wr d | Delimiter \<Rightarrow> delim_to_write wr | Flush \<Rightarrow> flush_to_write wr | ResponseEnd \<Rightarrow> None)"

text \<open>The payload of a side-band channel.\<close>

definition channel_data :: "Channel \<Rightarrow> PacketLine list \<Rightarrow> bytes" where
  "channel_data ch lines =
     concat (map (\<lambda>line. case line of Data (c # d) \<Rightarrow> if c = channel_byte ch then d else [] | _ \<Rightarrow> []) lines)"

lemma write_all_append: "write_all (xs @ ys) = (case write_all xs of None \<Rightarrow> None | Some a \<Rightarrow> map_option ((@) a) (write_all ys))"
  by (cases "write_all ys"; induction xs) (auto split: option.splits)

lemma write_all_Some: "write_all ps = Some out \<longleftrightarrow> None \<notin> set ps \<and> out = concat (map the ps)"
  by (induction ps arbitrary: out) (auto split: option.splits)

lemma write_all_total: "\<forall>p\<in>set ps. p \<noteq> None \<Longrightarrow> \<exists>out. write_all ps = Some out"
  by (induction ps) auto

context wire_laws
begin

lemma line_reads: "line_to_write wr line = Some p \<Longrightarrow> streaming wr (p @ tail) = Inr (Some (line, length p))"
  by (cases line) (auto simp: line_to_write_def data_reads flush_reads delim_reads)

lemma line_length: "line_to_write wr line = Some p \<Longrightarrow> 0 < length p"
  using line_reads [of line p "[]"] consumes by blast

lemma read_lines_written:
  assumes "write_all (map (line_to_write wr) ls @ [flush_to_write wr]) = Some out" and "Flush \<notin> set ls" and "length out < n"
  shows "read_lines wr n (out @ tail) = Some (ls, tail)"
  using assms
proof (induction ls arbitrary: out n)
  case Nil
  then obtain p m where "flush_to_write wr = Some p" "out = p" "n = Suc m" by (cases n) (auto split: option.splits)
  then show ?case by (simp add: flush_reads)
next
  case (Cons l ls)
  from Cons.prems(1) obtain p out' where p: "line_to_write wr l = Some p"
    and rest: "write_all (map (line_to_write wr) ls @ [flush_to_write wr]) = Some out'" and out: "out = p @ out'"
    by (auto split: option.splits)
  from Cons.prems(3) obtain m where n: "n = Suc m" by (cases n) auto
  have "length out' < m" using Cons.prems(3) line_length [OF p] unfolding out n length_append by linarith
  from Cons.IH [OF rest _ this] Cons.prems(2) line_reads [OF p, of "out' @ tail"] show ?case by (auto simp: n out)
qed

lemma read_section_written:
  assumes "write_all (map (line_to_write wr) ls @ [flush_to_write wr]) = Some out" and "Flush \<notin> set ls"
  shows "read_section wr (out @ tail) = Some (ls, tail)"
  unfolding read_section_def by (rule read_lines_written [OF assms]) simp

text \<open>Lines that fit are written.\<close>

lemma lines_written:
  assumes "\<forall>d\<in>set ds. d \<noteq> [] \<and> length d \<le> 65516"
  obtains out where "write_all (map (data_to_write wr) ds @ [flush_to_write wr]) = Some out"
    "\<And>tail. read_section wr (out @ tail) = Some (map Data ds, tail)"
proof -
  have eq: "map (data_to_write wr) ds = map (line_to_write wr) (map Data ds)" by (simp add: line_to_write_def)
  have "data_to_write wr d \<noteq> None" if "d \<in> set ds" for d using assms data_fits that by blast
  then have "\<forall>p\<in>set (map (data_to_write wr) ds @ [flush_to_write wr]). p \<noteq> None" using flush_writes by auto
  from write_all_total [OF this]
  obtain out where out: "write_all (map (data_to_write wr) ds @ [flush_to_write wr]) = Some out" by blast
  from that [OF out read_section_written [OF out [unfolded eq]]] show thesis by auto
qed

lemma bands_written:
  assumes "\<forall>d\<in>set ds. d \<noteq> [] \<and> length d \<le> MAX_BAND_DATA"
  obtains out where "write_all (map (band_to_write wr ch) ds @ [flush_to_write wr]) = Some out"
    "\<And>tail. read_section wr (out @ tail) = Some (map (\<lambda>d. Data (channel_byte ch # d)) ds, tail)"
proof -
  have eq: "map (band_to_write wr ch) ds = map (data_to_write wr) (map ((#) (channel_byte ch)) ds)"
    using assms by (simp add: band_frames)
  have "\<forall>d\<in>set (map ((#) (channel_byte ch)) ds). d \<noteq> [] \<and> length d \<le> 65516"
    using assms by (auto simp: MAX_BAND_DATA_def)
  from lines_written [OF this] that eq show thesis by (simp add: comp_def) blast
qed

end

lemma channel_data_bands: "channel_data ch (map (\<lambda>d. Data (channel_byte ch # d)) ds) = concat ds"
  by (simp add: channel_data_def comp_def)

section \<open>The packet-line format\<close>

definition hex_value :: "u8 \<Rightarrow> nat option" where
  "hex_value c =
     (if 48 \<le> c \<and> c \<le> 57 then Some (unat c - 48)
      else if 97 \<le> c \<and> c \<le> 102 then Some (unat c - 87)
      else if 65 \<le> c \<and> c \<le> 70 then Some (unat c - 55) else None)"

definition hex4 :: "nat \<Rightarrow> bytes" where
  "hex4 n = map (\<lambda>d. hex_digit (word_of_nat d)) [n div 4096 mod 16, n div 256 mod 16, n div 16 mod 16, n mod 16]"

definition hex4_value :: "bytes \<Rightarrow> nat option" where
  "hex4_value bs =
     (case map hex_value bs of
        [Some a, Some b, Some c, Some d] \<Rightarrow> Some (((a * 16 + b) * 16 + c) * 16 + d)
      | _ \<Rightarrow> None)"

definition pkt_line :: "bytes \<Rightarrow> bytes option" where
  "pkt_line d = (if d = [] \<or> 65516 < length d then None else Some (hex4 (length d + 4) @ d))"

definition pkt_streaming :: "bytes \<Rightarrow> unit + (PacketLine \<times> nat) option" where
  "pkt_streaming bs =
     (if length bs < 4 then Inr None
      else
        case hex4_value (take 4 bs) of
          None \<Rightarrow> Inl ()
        | Some n \<Rightarrow>
            if n = 0 then Inr (Some (Flush, 4))
            else if n = 1 then Inr (Some (Delimiter, 4))
            else if n = 2 then Inr (Some (ResponseEnd, 4))
            else if n \<le> 4 \<or> 65520 < n then Inl ()
            else if length bs < n then Inr None
            else Inr (Some (Data (take (n - 4) (drop 4 bs)), n)))"

fun hex_decode :: "bytes \<Rightarrow> bytes option" where
  "hex_decode [] = Some []"
| "hex_decode (a # b # cs) =
     (case (hex_value a, hex_value b, hex_decode cs) of
        (Some x, Some y, Some bs) \<Rightarrow> Some (word_of_nat (x * 16 + y) # bs)
      | _ \<Rightarrow> None)"
| "hex_decode [a] = None"

definition pkt_wire :: gix_wire where
  "pkt_wire = \<lparr>streaming = pkt_streaming, data_to_write = pkt_line,
     error_to_write = (\<lambda>d. if d = [] then None else pkt_line (lit ''ERR '' @ d)),
     band_to_write = (\<lambda>ch d. if d = [] then None else pkt_line (channel_byte ch # d)),
     flush_to_write = Some (lit ''0000''), delim_to_write = Some (lit ''0001''),
     from_hex = (\<lambda>s. Option.bind (hex_decode s) oid_try_from)\<rparr>"

lemma hex_digit_value: "n < 16 \<Longrightarrow> hex_value (hex_digit (word_of_nat n)) = Some n"
proof -
  assume "n < 16"
  then have "n \<in> set [0..<16]" by simp
  moreover have "list_all (\<lambda>n. hex_value (hex_digit (word_of_nat n)) = Some n) [0..<16]" by code_simp
  ultimately show ?thesis by (simp add: list_all_iff)
qed

lemma hex4_length [simp]: "length (hex4 n) = 4"
  by (simp add: hex4_def)

lemma hex4_value_hex4:
  assumes "n < 65536"
  shows "hex4_value (hex4 n) = Some n"
proof -
  have "n div 4096 mod 16 = n div 256 div 16" "n div 256 = n div 16 div 16"
    using assms by (simp_all add: div_mult2_eq [symmetric])
  then have "((n div 4096 mod 16 * 16 + n div 256 mod 16) * 16 + n div 16 mod 16) * 16 + n mod 16 = n"
    by (simp only: div_mult_mod_eq)
  moreover have "n div 4096 < 16" using assms by simp
  ultimately show ?thesis by (simp add: hex4_value_def hex4_def hex_digit_value)
qed

lemma pkt_reads:
  assumes "pkt_line d = Some p"
  shows "pkt_streaming (p @ tail) = Inr (Some (Data d, length p))"
proof -
  from assms have d: "d \<noteq> []" "length d \<le> 65516" and p: "p = hex4 (length d + 4) @ d"
    by (auto simp: pkt_line_def split: if_splits)
  then have "hex4_value (take 4 (p @ tail)) = Some (length d + 4)" by (simp add: hex4_value_hex4)
  with d p show ?thesis by (simp add: pkt_streaming_def)
qed

lemma hex_bytes_decode:
  "list_all (\<lambda>n. hex_decode [hex_digit (drop_bit 4 (word_of_nat n)), hex_digit (word_of_nat n AND 15)] = Some [word_of_nat n]) [0..<256]"
  by code_simp

lemma hex_byte_decode: "hex_decode [hex_digit (drop_bit 4 b), hex_digit (b AND 15)] = Some [b]"
proof -
  have "unat b \<in> set [0..<256]" using unsigned_less [of b, where 'a = nat] by simp
  with hex_bytes_decode have "hex_decode [hex_digit (drop_bit 4 (word_of_nat (unat b))), hex_digit (word_of_nat (unat b) AND 15)]
      = Some [word_of_nat (unat b)]" unfolding list_all_iff by blast
  then show ?thesis by simp
qed

lemma hex_decode_to_hex: "hex_decode (to_hex bs) = Some bs"
proof (induction bs)
  case (Cons b bs)
  have "to_hex (b # bs) = hex_digit (drop_bit 4 b) # hex_digit (b AND 15) # to_hex bs" by (simp add: to_hex_def)
  with Cons hex_byte_decode [of b] show ?case by (auto split: option.splits)
qed (simp add: to_hex_def)

lemma hex_decode_length: "hex_decode s = Some bs \<Longrightarrow> length s = 2 * length bs"
  by (induction s arbitrary: bs rule: hex_decode.induct) (auto split: option.splits)

interpretation pkt: wire_laws pkt_wire
proof
  fix d p tail
  show "data_to_write pkt_wire d \<noteq> None \<longleftrightarrow> d \<noteq> [] \<and> length d \<le> 65516" by (auto simp: pkt_wire_def pkt_line_def)
  show "data_to_write pkt_wire d = Some p \<Longrightarrow> streaming pkt_wire (p @ tail) = Inr (Some (Data d, length p))"
    by (simp add: pkt_wire_def pkt_reads)
  have h: "hex4_value (lit ''0000'') = Some 0" "hex4_value (lit ''0001'') = Some 1" by code_simp+
  show "flush_to_write pkt_wire = Some p \<Longrightarrow> streaming pkt_wire (p @ tail) = Inr (Some (Flush, length p))"
    using h by (auto simp: pkt_wire_def pkt_streaming_def)
  show "delim_to_write pkt_wire = Some p \<Longrightarrow> streaming pkt_wire (p @ tail) = Inr (Some (Delimiter, length p))"
    using h by (auto simp: pkt_wire_def pkt_streaming_def)
next
  fix bs line n
  show "streaming pkt_wire bs = Inr (Some (line, n)) \<Longrightarrow> 0 < n \<and> n \<le> length bs"
    by (auto simp: pkt_wire_def pkt_streaming_def split: if_splits option.splits)
qed (auto simp: pkt_wire_def hex_decode_to_hex split: option.splits bind_splits)

end
