(* ===== verification/Receive_Wire.thy ===== *)
theory Receive_Wire
  imports ReceivePack Packets
begin

text \<open>
  The push endpoint's wire formats: a request written as the protocol says parses to itself, and
  a client reads from a report exactly the lines the server put in it.
\<close>

section \<open>Splitting\<close>

lemma split_once_append: "c \<notin> set a \<Longrightarrow> split_once c (a @ c # b) = Some (a, b)"
proof -
  assume "c \<notin> set a"
  then have "\<forall>x\<in>set a. x \<noteq> c" by auto
  then show ?thesis by (simp add: split_once_def takeWhile_append2 dropWhile_append2)
qed

lemma split_once_None: "split_once c s = None \<longleftrightarrow> c \<notin> set s"
proof -
  have "split_once c s = None \<longleftrightarrow> dropWhile (\<lambda>b. b \<noteq> c) s = []"
    by (cases "dropWhile (\<lambda>b. b \<noteq> c) s") (simp_all add: split_once_def del: dropWhile_eq_Nil_conv)
  then show ?thesis by (auto simp: dropWhile_eq_Nil_conv)
qed

lemma splitn_three:
  assumes "c \<notin> set a" and "c \<notin> set b"
  shows "splitn 3 c (a @ c # b @ c # d) = [a, b, d]"
  using assms by (simp add: numeral_3_eq_3 split_once_append)

lemma chomp_newline [simp]: "chomp (s @ [10]) = s"
  by (simp add: chomp_def strip_suffix_def suffix_def)

lemma hex_digit_bounds:
  "list_all (\<lambda>n. (48 \<le> hex_digit (word_of_nat n) \<and> hex_digit (word_of_nat n) < 128)) [0..<16]"
  by code_simp

lemma to_hex_chars:
  assumes "b \<in> set (to_hex i)"
  shows "48 \<le> b \<and> b < 128"
proof -
  have nibble: "48 \<le> hex_digit d \<and> hex_digit d < 128" if "d < 16" for d
  proof -
    have "unat d \<in> set [0..<16]" using that by (simp add: word_less_nat_alt)
    with hex_digit_bounds have "48 \<le> hex_digit (word_of_nat (unat d)) \<and> hex_digit (word_of_nat (unat d)) < 128"
      unfolding list_all_iff by blast
    then show ?thesis by simp
  qed
  have "drop_bit 4 x < 16" "x AND 15 < 16" for x :: u8
  proof -
    have "unat x < 256" using unsigned_less [of x, where 'a = nat] by simp
    moreover have "unat (drop_bit 4 x) = unat x div 16" by (subst unat_drop_bit_eq) (simp add: drop_bit_eq_div)
    ultimately show "drop_bit 4 x < 16" unfolding word_less_nat_alt by simp
    have mask: "(15 :: u8) = mask 4" by (simp add: mask_eq_exp_minus_1)
    have "unat (x AND 15) = take_bit 4 (unat x)"
      unfolding mask by (simp only: unsigned_take_bit_eq flip: take_bit_eq_mask)
    then show "x AND 15 < 16" unfolding word_less_nat_alt using take_bit_nat_less_exp [of 4 "unat x"] by simp
  qed
  with nibble assms show ?thesis by (auto simp: to_hex_def)
qed

lemma to_hex_plain: "b \<in> {0, 10, 32} \<Longrightarrow> b \<notin> set (to_hex i)"
  using to_hex_chars [of b i] by auto

lemma to_hex_utf8: "valid_utf8 (to_hex i)"
  by (rule valid_utf8_ascii) (use to_hex_chars [of _ i] in auto)

section \<open>Requests\<close>

text \<open>The protocol's form of a command, and of the list: the first line carries the capabilities.\<close>

definition oid_text :: "HashKind \<Rightarrow> ObjectId option \<Rightarrow> str" where
  "oid_text k i = to_hex (case i of Some i \<Rightarrow> i | None \<Rightarrow> null_oid k)"

definition command_text :: "HashKind \<Rightarrow> Command \<Rightarrow> bytes" where
  "command_text k cmd = oid_text k (cmd_old cmd) @ [32] @ oid_text k (cmd_new cmd) @ [32] @ cmd_name cmd"

fun command_lines :: "HashKind \<Rightarrow> bytes \<Rightarrow> Command list \<Rightarrow> bytes list" where
  "command_lines k caps [] = []"
| "command_lines k caps (cmd # cmds) =
     (command_text k cmd @ [0] @ caps @ [10]) # map (\<lambda>cmd. command_text k cmd @ [10]) cmds"

definition oid_wf :: "ObjectId option \<Rightarrow> bool" where
  "oid_wf i \<longleftrightarrow> (case i of None \<Rightarrow> True | Some i \<Rightarrow> oid_ok i \<and> \<not> is_null i)"

definition command_wf :: "Command \<Rightarrow> bool" where
  "command_wf cmd \<longleftrightarrow> oid_wf (cmd_old cmd) \<and> oid_wf (cmd_new cmd) \<and>
     valid_utf8 (cmd_name cmd) \<and> cmd_name cmd \<noteq> [] \<and> 0 \<notin> set (cmd_name cmd)"

lemma command_text_no_nul: "command_wf cmd \<Longrightarrow> 0 \<notin> set (command_text k cmd)"
  by (auto simp: command_text_def oid_text_def command_wf_def to_hex_plain)

context wire_laws
begin

lemma parse_oid_text: "oid_wf i \<Longrightarrow> parse_oid wr (oid_text k i) = Inr i"
proof -
  assume i: "oid_wf i"
  have "oid_ok (null_oid k)" "is_null (null_oid k)" by (cases k; simp add: null_oid_def oid_ok_def is_null_def list_all_iff)+
  with i show ?thesis by (cases i) (auto simp: parse_oid_def oid_text_def oid_wf_def hex_reads)
qed

lemma parse_command_text:
  assumes "command_wf cmd"
  shows "parse_command wr (command_text k cmd @ [10]) = Inr (cmd, None)"
    and "parse_command wr (command_text k cmd @ [0] @ caps @ [10]) = Inr (cmd, Some (parse_caps caps))"
proof -
  let ?t = "command_text k cmd"
  have nul: "split_once 0 ?t = None" "split_once 0 (?t @ 0 # caps) = Some (?t, caps)"
    using command_text_no_nul [OF assms] by (simp_all add: split_once_None split_once_append)
  have "valid_utf8 [32]" by (simp add: valid_utf8_ascii)
  then have utf8: "from_utf8 ?t = Some ?t"
    using assms unfolding command_text_def oid_text_def command_wf_def
    by (auto intro!: valid_utf8_append to_hex_utf8)
  have fields: "splitn 3 32 ?t = [oid_text k (cmd_old cmd), oid_text k (cmd_new cmd), cmd_name cmd]"
    using splitn_three [of 32 "oid_text k (cmd_old cmd)" "oid_text k (cmd_new cmd)" "cmd_name cmd"]
    by (simp add: command_text_def oid_text_def to_hex_plain)
  have chomp: "chomp (?t @ 0 # caps @ [10]) = ?t @ 0 # caps" using chomp_newline [of "?t @ 0 # caps"] by simp
  show "parse_command wr (?t @ [10]) = Inr (cmd, None)"
    using assms nul utf8 fields by (simp add: parse_command_def Let_def parse_oid_text command_wf_def from_utf8_def)
  show "parse_command wr (?t @ [0] @ caps @ [10]) = Inr (cmd, Some (parse_caps caps))"
    using assms nul utf8 fields chomp by (simp add: parse_command_def Let_def parse_oid_text command_wf_def from_utf8_def)
qed

lemma rp_parse_more:
  assumes "\<forall>cmd\<in>set cmds. command_wf cmd"
    and "write_all (map (data_to_write wr) (map (\<lambda>cmd. command_text k cmd @ [10]) cmds) @ [flush_to_write wr]) = Some out"
    and "length out < n"
  shows "rp_parse_loop wr n (out @ pack) done' caps False = Inr \<lparr>commands = done' @ cmds, push_caps = caps, push_pack = pack\<rparr>"
  using assms
proof (induction cmds arbitrary: out n done')
  case Nil
  then obtain m where "flush_to_write wr = Some out" "n = Suc m" by (cases n) (auto split: option.splits)
  then show ?case by (simp add: flush_reads)
next
  case (Cons cmd cmds)
  let ?d = "command_text k cmd @ [10]"
  from Cons.prems(2) obtain p out' where p: "data_to_write wr ?d = Some p"
    and rest: "write_all (map (data_to_write wr) (map (\<lambda>cmd. command_text k cmd @ [10]) cmds) @ [flush_to_write wr]) = Some out'"
    and out: "out = p @ out'" by (auto split: option.splits)
  from Cons.prems(3) obtain m where n: "n = Suc m" by (cases n) auto
  have "0 < length p" using line_length [of "Data ?d" p] p by (simp add: line_to_write_def)
  then have "length out' < m" using Cons.prems(3) unfolding out n length_append by linarith
  from Cons.IH [OF _ rest this, of "done' @ [cmd]"] Cons.prems(1) data_reads [OF p, of "out' @ pack"]
  show ?case using parse_command_text(1) [of cmd k] by (simp add: n out)
qed

lemma rp_parse_written:
  assumes "\<forall>cmd\<in>set cmds. command_wf cmd"
    and "write_all (map (data_to_write wr) (command_lines k caps cmds) @ [flush_to_write wr]) = Some out"
  shows "rp_parse_request wr (out @ pack) =
    Inr \<lparr>commands = cmds, push_caps = (if cmds = [] then caps_default else parse_caps caps), push_pack = pack\<rparr>"
proof (cases cmds)
  case Nil
  with assms(2) have "flush_to_write wr = Some out" by (auto split: option.splits)
  then show ?thesis by (simp add: rp_parse_request_def flush_reads Nil)
next
  case (Cons cmd more)
  let ?d = "command_text k cmd @ [0] @ caps @ [10]"
  from assms(2) obtain p out' where p: "data_to_write wr ?d = Some p"
    and rest: "write_all (map (data_to_write wr) (map (\<lambda>cmd. command_text k cmd @ [10]) more) @ [flush_to_write wr]) = Some out'"
    and out: "out = p @ out'" by (auto simp: Cons split: option.splits)
  have "0 < length p" using line_length [of "Data ?d" p] p by (simp add: line_to_write_def)
  then have len: "length out' < length (out @ pack)" unfolding out length_append by linarith
  have more: "\<forall>cmd\<in>set more. command_wf cmd" using assms(1) Cons by simp
  from rp_parse_more [OF more rest len, of pack "[cmd]" "parse_caps caps"] data_reads [OF p, of "out' @ pack"] assms(1)
  show ?thesis using parse_command_text(2) [of cmd k caps] by (simp add: rp_parse_request_def Cons out)
qed

text \<open>Whatever is parsed, the ids are well formed.\<close>

lemma parse_oid_wf: "parse_oid wr s = Inr i \<Longrightarrow> oid_wf i"
  using hex_ok by (auto simp: parse_oid_def oid_wf_def and_then_eq_Inr split: if_splits option.splits)

lemma parse_command_wf: "parse_command wr d = Inr (cmd, caps) \<Longrightarrow> oid_wf (cmd_old cmd) \<and> oid_wf (cmd_new cmd)"
  using parse_oid_wf by (auto simp: parse_command_def Let_def and_then_eq_Inr split: list.splits if_splits prod.splits)

lemma rp_parse_wf:
  assumes "rp_parse_loop wr n body cmds caps first = Inr request"
    and "\<forall>cmd\<in>set cmds. oid_wf (cmd_old cmd) \<and> oid_wf (cmd_new cmd)"
  shows "\<forall>cmd\<in>set (commands request). oid_wf (cmd_old cmd) \<and> oid_wf (cmd_new cmd)"
  using assms
proof (induction n arbitrary: body cmds caps first)
  case (Suc n)
  from Suc.prems(1) obtain line k where line: "streaming wr body = Inr (Some (line, k))"
    by (auto split: sum.splits option.splits)
  show ?case
  proof (cases line)
    case (Data d)
    with Suc.prems(1) line obtain cmd lc caps' where "parse_command wr d = Inr (cmd, lc)"
      and more: "rp_parse_loop wr n (drop k body) (cmds @ [cmd]) caps' False = Inr request"
      by (auto simp: Let_def and_then_eq_Inr)
    with Suc.IH [OF more] Suc.prems(2) parse_command_wf show ?thesis by auto
  qed (use Suc.prems line in \<open>auto simp: Let_def\<close>)
qed simp

lemma push_tips_ok:
  assumes "rp_parse_request wr body = Inr request"
  shows "\<forall>i\<in>set (push_tips request). oid_ok i"
proof -
  have "\<forall>cmd\<in>set (commands request). oid_wf (cmd_old cmd) \<and> oid_wf (cmd_new cmd)"
    by (rule rp_parse_wf [OF assms [unfolded rp_parse_request_def]]) simp
  then show ?thesis by (auto simp: push_tips_def map_filter_def oid_wf_def)
qed

end

section \<open>Reports\<close>

text \<open>What a client reads: the lines of the report, out of the data channel when it asked for side-band.\<close>

definition client_report :: "gix_wire \<Rightarrow> Caps \<Rightarrow> bytes \<Rightarrow> PacketLine list option" where
  "client_report wr caps body =
     (if side_band_64k caps
      then
        (case read_section wr body of
           None \<Rightarrow> None
         | Some (lines, rest) \<Rightarrow> map_option fst (read_section wr (channel_data ChData lines)))
      else map_option fst (read_section wr body))"

definition report_lines :: "str \<Rightarrow> (str \<times> RefStatus) list \<Rightarrow> bytes list" where
  "report_lines unpack_line statuses = (unpack_line @ [10]) # map status_line statuses"

context wire_laws
begin

lemma report_reads:
  assumes "report_body wr unpack_line statuses (side_band_64k caps) = Some body"
  shows "client_report wr caps body = Some (map Data (report_lines unpack_line statuses))"
proof -
  let ?ds = "report_lines unpack_line statuses"
  have eq: "map (data_to_write wr) ?ds @ [flush_to_write wr] = map (line_to_write wr) (map Data ?ds) @ [flush_to_write wr]"
    by (simp add: line_to_write_def)
  from assms obtain inner where inner: "write_all (map (data_to_write wr) ?ds @ [flush_to_write wr]) = Some inner"
    and body: "(if \<not> side_band_64k caps then Some inner
      else write_all (map (band_to_write wr ChData) (chunks MAX_BAND_DATA inner) @ [flush_to_write wr])) = Some body"
    by (auto simp: report_body_def report_lines_def split: option.splits)
  have read: "read_section wr (inner @ tail) = Some (map Data ?ds, tail)" for tail
    by (rule read_section_written [OF inner [unfolded eq]]) auto
  show ?thesis
  proof (cases "side_band_64k caps")
    case False
    with body read [of "[]"] show ?thesis by (simp add: client_report_def)
  next
    case True
    have "\<forall>d\<in>set (chunks MAX_BAND_DATA inner). d \<noteq> [] \<and> length d \<le> MAX_BAND_DATA" using chunks_bounds by blast
    from bands_written [OF this, of ChData] body True
    have "read_section wr (body @ []) = Some (map (\<lambda>d. Data (channel_byte ChData # d)) (chunks MAX_BAND_DATA inner), [])"
      by (metis (no_types, lifting) option.inject)
    with True read [of "[]"] show ?thesis
      by (simp add: client_report_def channel_data_bands concat_chunks MAX_BAND_DATA_def del: channel_byte.simps)
  qed
qed

end

lemma caps_token_fold:
  "report_status (foldl caps_token caps ts) \<longleftrightarrow> report_status caps \<or> lit ''report-status'' \<in> takeWhile (\<lambda>b. b \<noteq> 61) ` set ts"
  "side_band_64k (foldl caps_token caps ts) \<longleftrightarrow> side_band_64k caps \<or> lit ''side-band-64k'' \<in> takeWhile (\<lambda>b. b \<noteq> 61) ` set ts"
proof -
  have ne: "lit ''report-status'' \<noteq> lit ''side-band-64k''" by (simp add: lit_def)
  show "report_status (foldl caps_token caps ts) \<longleftrightarrow> report_status caps \<or> lit ''report-status'' \<in> takeWhile (\<lambda>b. b \<noteq> 61) ` set ts"
    using ne by (induction ts arbitrary: caps) (auto simp: caps_token_def Let_def)
  show "side_band_64k (foldl caps_token caps ts) \<longleftrightarrow> side_band_64k caps \<or> lit ''side-band-64k'' \<in> takeWhile (\<lambda>b. b \<noteq> 61) ` set ts"
    using ne by (induction ts arbitrary: caps) (auto simp: caps_token_def Let_def)
qed

section \<open>Properties\<close>

text \<open>C25: A push request framed as the protocol says (a command line per ref, the capabilities after a NUL on
  the first, a flush, then the pack) parses to exactly its commands, with the all-zero id read as
  the absence of a value, to the capabilities the list names, and to its pack.\<close>

theorem push_request_roundtrip:
  assumes "wire_laws wr" and "list_all command_wf cmds"
    and "write_all (map (data_to_write wr) (command_lines k caps cmds) @ [flush_to_write wr]) = Some out"
  shows "rp_parse_request wr (out @ pack) =
      Inr \<lparr>commands = cmds, push_caps = (if cmds = [] then caps_default else parse_caps caps), push_pack = pack\<rparr> \<and>
    (report_status (parse_caps caps) \<longleftrightarrow>
       lit ''report-status'' \<in> takeWhile (\<lambda>b. b \<noteq> 61) ` set (split_all 32 (from_utf8_lossy caps))) \<and>
    (side_band_64k (parse_caps caps) \<longleftrightarrow>
       lit ''side-band-64k'' \<in> takeWhile (\<lambda>b. b \<noteq> 61) ` set (split_all 32 (from_utf8_lossy caps)))"
  using wire_laws.rp_parse_written [OF assms(1) _ assms(3)] assms(2)
  by (simp add: list_all_iff parse_caps_def caps_token_fold caps_default_def)

definition sample_command :: Command where
  "sample_command = \<lparr>cmd_old = None, cmd_new = Some (replicate 20 7), cmd_name = lit ''refs/heads/main''\<rparr>"

lemma sample_command_wf: "list_all command_wf [sample_command]"
  by code_simp

definition sample_push :: bytes where
  "sample_push = the (write_all (map (data_to_write pkt_wire)
     (command_lines Sha1 (lit '' report-status side-band-64k agent=git'') [sample_command]) @ [flush_to_write pkt_wire]))"

lemma sample_push_written:
  "write_all (map (data_to_write pkt_wire)
     (command_lines Sha1 (lit '' report-status side-band-64k agent=git'') [sample_command]) @ [flush_to_write pkt_wire])
   = Some sample_push"
proof -
  have "write_all (map (data_to_write pkt_wire)
     (command_lines Sha1 (lit '' report-status side-band-64k agent=git'') [sample_command]) @ [flush_to_write pkt_wire]) \<noteq> None"
    by code_simp
  then show ?thesis by (auto simp: sample_push_def)
qed

theorem push_request_roundtrip_witness:
  "rp_parse_request pkt_wire (sample_push @ [1, 2]) = Inr \<lparr>commands = [sample_command],
     push_caps = parse_caps (lit '' report-status side-band-64k agent=git''), push_pack = [1, 2]\<rparr>"
  using push_request_roundtrip [OF pkt.wire_laws_axioms sample_command_wf sample_push_written, of "[1, 2]"] by simp

end
