(* ===== verification/Promote_Order.thy ===== *)
theory Promote_Order
  imports Promote Walk_Correct
begin

text \<open>
  The order of a promotion: the traversal lists new objects children before parents, and
  grouping that list by kind keeps it so when no object refers to one of a later kind.
\<close>

section \<open>References\<close>

definition children_of :: "gix_object \<Rightarrow> (ObjectId \<rightharpoonup> Kind \<times> bytes) \<Rightarrow> ObjectId \<Rightarrow> ObjectId list" where
  "children_of gx H i =
     (case H i of
        None \<Rightarrow> []
      | Some (kind, body) \<Rightarrow> (case object_children gx i kind body of Inl e \<Rightarrow> [] | Inr cs \<Rightarrow> cs))"

definition child_rel :: "gix_object \<Rightarrow> (ObjectId \<rightharpoonup> Kind \<times> bytes) \<Rightarrow> (ObjectId \<times> ObjectId) set" where
  "child_rel gx H = {(i, c). c \<in> set (children_of gx H i)}"

lemma tree_children_oids:
  assumes "tree_children i es = Inr cs" and "\<forall>mode name c. Inr (mode, name, c) \<in> set es \<longrightarrow> P c"
  shows "\<forall>c\<in>set cs. P c"
  using assms
  by (induction i es arbitrary: cs rule: tree_children.induct) (auto simp: and_then_eq_Inr split: if_splits)

lemma object_children_oids:
  assumes "gix_ok gx" and "object_children gx i kind body = Inr cs"
  shows "\<forall>c\<in>set cs. oid_ok c"
proof (cases kind)
  case KTree
  with assms tree_children_oids [of i _ cs oid_ok] oid_ok_len_in_bytes show ?thesis
    by (auto simp: object_children_def gix_ok_def)
qed (use assms oid_ok_len_in_bytes in \<open>auto simp: object_children_def and_then_eq_Inr gix_ok_def\<close>)

lemma children_of_eq: "H i = Some (kind, body) \<Longrightarrow> object_children gx i kind body = Inr cs \<Longrightarrow> children_of gx H i = cs"
  by (simp add: children_of_def)

lemma children_oids:
  assumes "gix_ok gx" and "c \<in> set (children_of gx H i)"
  shows "oid_ok c"
proof (cases "H i")
  case (Some x)
  obtain kind body where x: "x = (kind, body)" by force
  with assms Some object_children_oids [OF assms(1), of i kind body] show ?thesis
    by (cases "object_children gx i kind body") (auto simp: children_of_def)
qed (use assms in \<open>simp add: children_of_def\<close>)

section \<open>Children before parents\<close>

text \<open>A list of objects that can be written in order, given the objects already there.\<close>

fun promotable ::
    "gix_object \<Rightarrow> (ObjectId \<rightharpoonup> Kind \<times> bytes) \<Rightarrow> ObjectId set \<Rightarrow> (ObjectId \<times> Kind \<times> bytes) list \<Rightarrow> bool" where
  "promotable gx H C [] \<longleftrightarrow> True"
| "promotable gx H C ((i, kind, body) # objs) \<longleftrightarrow>
     set (children_of gx H i) \<subseteq> C \<and> promotable gx H (insert i C) objs"

lemma promotable_mono: "promotable gx H C objs \<Longrightarrow> C \<subseteq> D \<Longrightarrow> promotable gx H D objs"
proof (induction gx H C objs arbitrary: D rule: promotable.induct)
  case (2 gx H C i kind body objs)
  then show ?case using "2.IH" [of "insert i D"] by auto
qed simp

lemma promotable_append:
  "promotable gx H C (xs @ ys) \<longleftrightarrow> promotable gx H C xs \<and> promotable gx H (C \<union> fst ` set xs) ys"
  by (induction gx H C xs rule: promotable.induct) auto

lemma promotable_take: "promotable gx H C objs \<Longrightarrow> promotable gx H C (take n objs)"
  by (metis append_take_drop_id promotable_append)

text \<open>Moving the objects of a downward closed set of ids to the front.\<close>

lemma promotable_partition:
  assumes "promotable gx H C objs"
    and "\<And>i c. i \<in> fst ` set objs \<Longrightarrow> P i \<Longrightarrow> c \<in> set (children_of gx H i) \<Longrightarrow> c \<in> fst ` set objs \<Longrightarrow> P c"
  shows "promotable gx H C (filter (\<lambda>x. P (fst x)) objs @ filter (\<lambda>x. \<not> P (fst x)) objs)"
  using assms
proof (induction objs rule: rev_induct)
  case (snoc x objs)
  obtain i kind body where x: "x = (i, kind, body)" by (cases x)
  have p: "promotable gx H C objs" and c: "set (children_of gx H i) \<subseteq> C \<union> fst ` set objs"
    using snoc.prems(1) by (auto simp: x promotable_append)
  have IH: "promotable gx H C (filter (\<lambda>x. P (fst x)) objs @ filter (\<lambda>x. \<not> P (fst x)) objs)"
    by (rule snoc.IH [OF p]) (use snoc.prems(2) in auto)
  show ?case
  proof (cases "P i")
    case True
    have "c \<in> C \<union> fst ` set (filter (\<lambda>x. P (fst x)) objs)" if "c \<in> set (children_of gx H i)" for c
    proof (cases "c \<in> C")
      case False
      with c that have "c \<in> fst ` set objs" by blast
      moreover from this have "P c" using snoc.prems(2) [of i c] True that by (auto simp: x)
      ultimately show ?thesis by force
    qed simp
    then have "promotable gx H C (filter (\<lambda>x. P (fst x)) objs @ [x])"
      using IH by (auto simp: promotable_append x)
    moreover have "promotable gx H (C \<union> fst ` set (filter (\<lambda>x. P (fst x)) objs @ [x])) (filter (\<lambda>x. \<not> P (fst x)) objs)"
      by (rule promotable_mono [of gx H "C \<union> fst ` set (filter (\<lambda>x. P (fst x)) objs)"])
        (use IH in \<open>auto simp: promotable_append\<close>)
    ultimately show ?thesis using True by (simp add: x promotable_append)
  next
    case False
    have "fst ` set objs \<subseteq> fst ` set (filter (\<lambda>x. P (fst x)) objs) \<union> fst ` set (filter (\<lambda>x. \<not> P (fst x)) objs)" by auto
    with c IH False show ?thesis by (auto simp: x promotable_append)
  qed
qed simp

section \<open>Grouping by kind\<close>

fun kind_rank :: "Kind \<Rightarrow> nat" where
  "kind_rank KBlob = 0"
| "kind_rank KTree = 1"
| "kind_rank KCommit = 2"
| "kind_rank KTag = 3"

text \<open>No object refers to one of a later kind: trees to blobs and trees, commits to those and commits.\<close>

definition kinds_ranked :: "gix_object \<Rightarrow> (ObjectId \<rightharpoonup> Kind \<times> bytes) \<Rightarrow> bool" where
  "kinds_ranked gx H \<longleftrightarrow>
     (\<forall>i c kind body kind' body'. c \<in> set (children_of gx H i) \<longrightarrow> H i = Some (kind, body) \<longrightarrow>
        H c = Some (kind', body') \<longrightarrow> kind_rank kind' \<le> kind_rank kind)"

definition rank_of :: "(ObjectId \<rightharpoonup> Kind \<times> bytes) \<Rightarrow> ObjectId \<Rightarrow> nat" where
  "rank_of H i = (case H i of None \<Rightarrow> 0 | Some (kind, body) \<Rightarrow> kind_rank kind)"

text \<open>The sequence of writes of a promotion.\<close>

definition promotion_writes :: "(ObjectId \<times> Kind \<times> bytes) list \<Rightarrow> (ObjectId \<times> Kind \<times> bytes) list" where
  "promotion_writes post_order =
     concat (map (\<lambda>k. map (\<lambda>(i, body). (i, k, body)) (of_kind k post_order)) [KBlob, KTree, KCommit, KTag])"

lemma of_kind_entries:
  "map (\<lambda>(i, body). (i, k, body)) (of_kind k post_order) = filter (\<lambda>(i, kind, body). kind = k) post_order"
  by (induction post_order) (auto simp: of_kind_def)

lemma promotion_writes_set [simp]: "set (promotion_writes post_order) = set post_order"
proof -
  have "k \<in> {KBlob, KTree, KCommit, KTag}" for k by (cases k) auto
  then show ?thesis unfolding promotion_writes_def of_kind_entries by auto
qed

lemma kind_rank_inject [simp]: "kind_rank k = kind_rank k' \<longleftrightarrow> k = k'"
  by (cases k; cases k') simp_all

definition entries_ok :: "(ObjectId \<rightharpoonup> Kind \<times> bytes) \<Rightarrow> (ObjectId \<times> Kind \<times> bytes) list \<Rightarrow> bool" where
  "entries_ok H objs \<longleftrightarrow> (\<forall>i kind body. (i, kind, body) \<in> set objs \<longrightarrow> H i = Some (kind, body))"

lemma entries_okD: "entries_ok H objs \<Longrightarrow> (i, kind, body) \<in> set objs \<Longrightarrow> H i = Some (kind, body)"
  by (simp add: entries_ok_def)

lemma filter_rank:
  assumes "entries_ok H objs"
  shows "filter (\<lambda>(i, kind, body). kind = k) objs = filter (\<lambda>x. rank_of H (fst x) = kind_rank k) objs"
  by (rule filter_cong [OF refl]) (use entries_okD [OF assms] in \<open>force simp: rank_of_def\<close>)

lemma promotion_writes_promotable:
  assumes p: "promotable gx H C objs" and H: "entries_ok H objs"
    and ranked: "kinds_ranked gx H"
  shows "promotable gx H C (promotion_writes objs)"
proof -
  let ?f = "\<lambda>P. filter (\<lambda>x. P (rank_of H (fst x))) objs"
  have rank: "rank_of H c \<le> rank_of H i"
    if "i \<in> fst ` set objs" "c \<in> set (children_of gx H i)" "c \<in> fst ` set objs" for i c
  proof -
    from that(1,3) entries_okD [OF H] obtain kind body kind' body'
      where "H i = Some (kind, body)" "H c = Some (kind', body')" by force
    with ranked that(2) show ?thesis unfolding kinds_ranked_def rank_of_def by fastforce
  qed
  have split: "promotable gx H C (?f (\<lambda>r. r \<le> n) @ ?f (\<lambda>r. \<not> r \<le> n))" for n
    using promotable_partition [OF p, of "\<lambda>i. rank_of H i \<le> n"] rank le_trans by blast
  have le: "promotable gx H D (?f (\<lambda>r. r = Suc n))"
    if "promotable gx H C (?f (\<lambda>r. r \<le> Suc n))" "C \<union> fst ` set (?f (\<lambda>r. r \<le> n)) \<subseteq> D" for n D
  proof -
    have "promotable gx H C (filter (\<lambda>x. rank_of H (fst x) \<le> n) (?f (\<lambda>r. r \<le> Suc n)) @
        filter (\<lambda>x. \<not> rank_of H (fst x) \<le> n) (?f (\<lambda>r. r \<le> Suc n)))"
    proof (rule promotable_partition [OF that(1)])
      fix i c assume "i \<in> fst ` set (?f (\<lambda>r. r \<le> Suc n))" "rank_of H i \<le> n" "c \<in> set (children_of gx H i)"
        "c \<in> fst ` set (?f (\<lambda>r. r \<le> Suc n))"
      then show "rank_of H c \<le> n" using rank [of i c] by fastforce
    qed
    moreover have "filter (\<lambda>x. rank_of H (fst x) \<le> n) (?f (\<lambda>r. r \<le> Suc n)) = ?f (\<lambda>r. r \<le> n)"
      "filter (\<lambda>x. \<not> rank_of H (fst x) \<le> n) (?f (\<lambda>r. r \<le> Suc n)) = ?f (\<lambda>r. r = Suc n)"
      by (auto intro: filter_cong)
    ultimately have "promotable gx H (C \<union> fst ` set (?f (\<lambda>r. r \<le> n))) (?f (\<lambda>r. r = Suc n))"
      by (simp only: promotable_append)
    then show ?thesis by (rule promotable_mono [OF _ that(2)])
  qed
  have 0: "?f (\<lambda>r. r \<le> 0) = ?f (\<lambda>r. r = 0)" by simp
  have set: "fst ` set (?f (\<lambda>r. r \<le> Suc n)) = fst ` set (?f (\<lambda>r. r \<le> n)) \<union> fst ` set (?f (\<lambda>r. r = Suc n))" for n
    by (auto simp: le_Suc_eq)
  have all: "promotable gx H C (?f (\<lambda>r. r \<le> n))" for n using split [of n] by (simp add: promotable_append)
  let ?g = "\<lambda>n. ?f (\<lambda>r. r = n)"
  have 1: "promotable gx H (C \<union> fst ` set (?g 0)) (?g (Suc 0))"
    by (rule le [OF all]) (unfold 0, blast)
  have 2: "promotable gx H (C \<union> fst ` set (?g 0) \<union> fst ` set (?g (Suc 0))) (?g (Suc (Suc 0)))"
    by (rule le [OF all]) (unfold set 0, blast)
  have 3: "promotable gx H (C \<union> fst ` set (?g 0) \<union> fst ` set (?g (Suc 0)) \<union> fst ` set (?g (Suc (Suc 0))))
      (?g (Suc (Suc (Suc 0))))"
    by (rule le [OF all]) (unfold set 0, blast)
  have "promotable gx H C (?f (\<lambda>r. r = 0) @ ?f (\<lambda>r. r = Suc 0) @ ?f (\<lambda>r. r = Suc (Suc 0)) @ ?f (\<lambda>r. r = Suc (Suc (Suc 0))))"
    using all [of 0] 1 2 3 unfolding 0 promotable_append by blast
  then show ?thesis
    unfolding promotion_writes_def of_kind_entries list.map filter_rank [OF H]
    by (simp add: numeral_2_eq_2 numeral_3_eq_3)
qed

section \<open>The traversal's stack\<close>

fun step_oid :: "Step \<Rightarrow> ObjectId" where
  "step_oid (Enter i r) = i"
| "step_oid (Emit i kind body) = i"

fun emitting :: "Step list \<Rightarrow> ObjectId set" where
  "emitting [] = {}"
| "emitting (Enter i r # stack) = emitting stack"
| "emitting (Emit i kind body # stack) = insert i (emitting stack)"

text \<open>
  \<open>B\<close> is what is settled, \<open>A\<close> the ids above the stack: the children of an object waiting to be
  emitted are settled or above it, and everything above it is a proper descendant.
\<close>

fun stack_ok :: "gix_object \<Rightarrow> (ObjectId \<rightharpoonup> Kind \<times> bytes) \<Rightarrow> ObjectId set \<Rightarrow> ObjectId set \<Rightarrow> Step list \<Rightarrow> bool" where
  "stack_ok gx H B A [] \<longleftrightarrow> True"
| "stack_ok gx H B A (Enter i r # stack) \<longleftrightarrow> stack_ok gx H B (insert i A) stack"
| "stack_ok gx H B A (Emit i kind body # stack) \<longleftrightarrow>
     set (children_of gx H i) \<subseteq> B \<union> A \<and> (\<forall>x\<in>A. (i, x) \<in> (child_rel gx H)\<^sup>+) \<and> stack_ok gx H B (insert i A) stack"

lemma stack_ok_below: "stack_ok gx H B A stack \<Longrightarrow> j \<in> emitting stack \<Longrightarrow> x \<in> A \<Longrightarrow> (j, x) \<in> (child_rel gx H)\<^sup>+"
  by (induction gx H B A stack rule: stack_ok.induct) auto

lemma stack_ok_change:
  assumes "stack_ok gx H B A stack" and "B \<union> A \<subseteq> B' \<union> A'"
    and "\<And>j x. j \<in> emitting stack \<Longrightarrow> x \<in> A' \<Longrightarrow> (j, x) \<in> (child_rel gx H)\<^sup>+"
  shows "stack_ok gx H B' A' stack"
  using assms
proof (induction gx H B A stack arbitrary: A' rule: stack_ok.induct)
  case (2 gx H B A i r stack)
  have "stack_ok gx H B' (insert i A') stack"
    by (rule "2.IH") (use "2.prems" stack_ok_below [of gx H B "insert i A" stack _ i] in auto)
  then show ?case by simp
next
  case (3 gx H B A i kind body stack)
  have "stack_ok gx H B' (insert i A') stack"
    by (rule "3.IH") (use "3.prems" stack_ok_below [of gx H B "insert i A" stack _ i] in auto)
  with "3.prems" show ?case by auto
qed simp

lemma stack_ok_settled: "stack_ok gx H B {i} stack \<Longrightarrow> B \<subseteq> B' \<Longrightarrow> i \<in> B' \<Longrightarrow> stack_ok gx H B' {} stack"
  by (erule stack_ok_change) auto

lemma stack_ok_enters:
  "stack_ok gx H B A (map (\<lambda>c. Enter c r) cs @ stack) \<longleftrightarrow> stack_ok gx H B (A \<union> set cs) stack"
  by (induction cs arbitrary: A) auto

lemma stack_ok_push:
  assumes "stack_ok gx H B {i} stack"
  shows "stack_ok gx H B {} (map (\<lambda>c. Enter c r) (children_of gx H i) @ Emit i kind body # stack)"
proof -
  have "stack_ok gx H B (insert i (set (children_of gx H i))) stack"
  proof (rule stack_ok_change [OF assms])
    fix j x assume j: "j \<in> emitting stack" and x: "x \<in> insert i (set (children_of gx H i))"
    have "(j, i) \<in> (child_rel gx H)\<^sup>+" using stack_ok_below [OF assms j] by simp
    moreover have "x = i \<or> (i, x) \<in> child_rel gx H" using x by (auto simp: child_rel_def)
    ultimately show "(j, x) \<in> (child_rel gx H)\<^sup>+" by (auto intro: trancl_into_trancl)
  qed auto
  then show ?thesis by (auto simp: stack_ok_enters child_rel_def)
qed

text \<open>An id that is entered again is settled: otherwise it would be its own descendant.\<close>

lemma stack_ok_revisit:
  "stack_ok gx H B {i} stack \<Longrightarrow> acyclic (child_rel gx H) \<Longrightarrow> i \<notin> emitting stack"
  using stack_ok_below [of gx H B "{i}" stack i i] by (auto simp: acyclic_def)

section \<open>The traversal's invariant\<close>

text \<open>
  \<open>K\<close> are the ids found committed, \<open>T\<close> those the traversal must settle.
\<close>

definition visit_inv ::
    "gix_object \<Rightarrow> (ObjectId \<rightharpoonup> Kind \<times> bytes) \<Rightarrow> ObjectId set \<Rightarrow> ObjectId set \<Rightarrow> Step list \<Rightarrow> ObjectId set
      \<Rightarrow> (ObjectId \<times> Kind \<times> bytes) list \<Rightarrow> bool" where
  "visit_inv gx H K T stack visited post \<longleftrightarrow>
     visited = K \<union> fst ` set post \<union> emitting stack \<and> T \<subseteq> visited \<union> step_oid ` set stack \<and>
     promotable gx H K post \<and> stack_ok gx H (K \<union> fst ` set post) {} stack \<and>
     distinct (map fst post) \<and> emitting stack \<inter> fst ` set post = {} \<and> K \<inter> (emitting stack \<union> fst ` set post) = {} \<and>
     entries_ok H post \<and> (\<forall>i kind body. Emit i kind body \<in> set stack \<longrightarrow> H i = Some (kind, body)) \<and>
     (\<forall>s\<in>set stack. oid_ok (step_oid s)) \<and> (\<forall>i\<in>visited. oid_ok i)"

lemma visit_inv_start:
  assumes "\<forall>i\<in>set tips. oid_ok i"
  shows "visit_inv gx H {} (set tips) (map (\<lambda>tip. Enter tip None) tips) {} []"
proof -
  have "emitting (map (\<lambda>tip. Enter tip None) tips) = {}" by (induction tips) auto
  with assms stack_ok_enters [of gx H "{}" "{}" None tips "[]"] show ?thesis
    by (auto simp: visit_inv_def entries_ok_def image_image)
qed

lemma visit_inv_emit:
  assumes inv: "visit_inv gx H K T (Emit i kind body # stack) visited post" and acyc: "acyclic (child_rel gx H)"
  shows "visit_inv gx H K T stack visited (post @ [(i, kind, body)])"
proof -
  from inv have st: "stack_ok gx H (K \<union> fst ` set post) {i} stack" and ch: "set (children_of gx H i) \<subseteq> K \<union> fst ` set post"
    by (auto simp: visit_inv_def)
  have "stack_ok gx H (K \<union> fst ` set (post @ [(i, kind, body)])) {} stack"
    by (rule stack_ok_settled [OF st]) auto
  moreover have "i \<notin> emitting stack" by (rule stack_ok_revisit [OF st acyc])
  moreover have "promotable gx H K (post @ [(i, kind, body)])" using inv ch by (simp add: visit_inv_def promotable_append)
  ultimately show ?thesis using inv unfolding visit_inv_def entries_ok_def by auto
qed

lemma visit_inv_skip:
  assumes inv: "visit_inv gx H K T (Enter i r # stack) visited post" and acyc: "acyclic (child_rel gx H)" and "i \<in> visited"
  shows "visit_inv gx H K T stack visited post"
proof -
  from inv have st: "stack_ok gx H (K \<union> fst ` set post) {i} stack" by (simp add: visit_inv_def)
  have "i \<in> K \<union> fst ` set post" using inv stack_ok_revisit [OF st acyc] assms(3) by (auto simp: visit_inv_def)
  then have "stack_ok gx H (K \<union> fst ` set post) {} stack" by (intro stack_ok_settled [OF st]) auto
  with inv assms(3) show ?thesis unfolding visit_inv_def by auto
qed

lemma visit_inv_prune:
  assumes inv: "visit_inv gx H K T (Enter i r # stack) visited post" and "i \<notin> visited"
  shows "visit_inv gx H (insert i K) T stack (insert i visited) post"
proof -
  from inv have st: "stack_ok gx H (K \<union> fst ` set post) {i} stack" by (simp add: visit_inv_def)
  have "stack_ok gx H (insert i K \<union> fst ` set post) {} stack" by (rule stack_ok_settled [OF st]) auto
  moreover have "promotable gx H (insert i K) post"
    using inv promotable_mono [of gx H K post "insert i K"] by (auto simp: visit_inv_def)
  ultimately show ?thesis using inv assms(2) unfolding visit_inv_def by auto
qed

lemma emitting_enters [simp]: "emitting (map (\<lambda>c. Enter c r) cs @ stack) = emitting stack"
  by (induction cs) auto

lemma visit_inv_enter:
  assumes inv: "visit_inv gx H K T (Enter i r # stack) visited post" and "i \<notin> visited" and gx: "gix_ok gx"
    and H: "H i = Some (kind, body)" and cs: "object_children gx i kind body = Inr cs"
  shows "visit_inv gx H K T (map (\<lambda>c. Enter c (Some i)) cs @ Emit i kind body # stack) (insert i visited) post"
proof -
  have c: "children_of gx H i = cs" using H cs by (simp add: children_of_def)
  from inv have st: "stack_ok gx H (K \<union> fst ` set post) {i} stack" by (simp add: visit_inv_def)
  from stack_ok_push [OF st, of "Some i" kind body]
  have "stack_ok gx H (K \<union> fst ` set post) {} (map (\<lambda>c. Enter c (Some i)) cs @ Emit i kind body # stack)" by (simp add: c)
  moreover have "\<forall>c\<in>set cs. oid_ok c" by (rule object_children_oids [OF gx cs])
  ultimately show ?thesis using inv assms(2) H unfolding visit_inv_def by (auto simp: image_Un)
qed

text \<open>The steps left: one per stack entry, and for each staged id not yet visited its children and itself.\<close>

definition visit_cost ::
    "gix_object \<Rightarrow> (ObjectId \<rightharpoonup> Kind \<times> bytes) \<Rightarrow> ObjectId set \<Rightarrow> ObjectId set \<Rightarrow> Step list \<Rightarrow> nat" where
  "visit_cost gx H S visited stack = length stack + (\<Sum>i\<in>S - visited. length (children_of gx H i) + 1)"

lemma visit_cost_skip:
  assumes "finite S"
  shows "visit_cost gx H S (insert i visited) stack < visit_cost gx H S visited (step # stack)"
proof -
  have "(\<Sum>j\<in>S - insert i visited. length (children_of gx H j) + 1) \<le> (\<Sum>j\<in>S - visited. length (children_of gx H j) + 1)"
    by (rule sum_mono2) (use assms in auto)
  then show ?thesis unfolding visit_cost_def list.size by linarith
qed

lemma visit_cost_enter:
  assumes "finite S" and "i \<in> S" and "i \<notin> visited"
  shows "visit_cost gx H S (insert i visited) (map f (children_of gx H i) @ e # stack) < visit_cost gx H S visited (step # stack)"
proof -
  have S: "S - visited = insert i (S - insert i visited)" using assms by auto
  have "(\<Sum>j\<in>S - visited. length (children_of gx H j) + 1) =
      length (children_of gx H i) + 1 + (\<Sum>j\<in>S - insert i visited. length (children_of gx H j) + 1)"
    unfolding S by (rule sum.insert) (use assms(1) in auto)
  then show ?thesis unfolding visit_cost_def length_append length_map list.size by linarith
qed

end
