(* ===== verification/Promote_Correct.thy ===== *)
theory Promote_Correct
  imports Promote_Order Walk_Storage Store_Correct
begin

text \<open>
  Promotion over the storage stack: every state it goes through holds only objects whose
  references are there too, whatever fails and whatever other writers do.
\<close>

section \<open>Closed storage\<close>

definition stored :: "RepoId \<Rightarrow> kvmap \<Rightarrow> ObjectId \<Rightarrow> bool" where
  "stored repo m i \<longleftrightarrow> m (object_key repo i) \<noteq> None"

text \<open>The promotion invariant: every stored object has its children stored.\<close>

definition closed_kv :: "gix_object \<Rightarrow> (ObjectId \<rightharpoonup> Kind \<times> bytes) \<Rightarrow> RepoId \<Rightarrow> kvmap \<Rightarrow> bool" where
  "closed_kv gx H repo m \<longleftrightarrow>
     (\<forall>i c. oid_ok i \<longrightarrow> stored repo m i \<longrightarrow> c \<in> set (children_of gx H i) \<longrightarrow> stored repo m c)"

lemma closed_kv_put:
  assumes "closed_kv gx H repo m" and "\<forall>c\<in>set (children_of gx H i). stored repo m c"
  shows "closed_kv gx H repo (m(object_key repo i \<mapsto> v))"
  using assms by (auto simp: closed_kv_def stored_def)

text \<open>Every direct ref of a repository names a stored object.\<close>

definition refs_stored :: "RepoId \<Rightarrow> kvmap \<Rightarrow> bool" where
  "refs_stored repo m \<longleftrightarrow> (\<forall>name i. ref_view m repo name = Some (Direct i) \<longrightarrow> stored repo m i)"

text \<open>The invariant of a repository, and of all of them.\<close>

definition repo_closed ::
    "gix_object \<Rightarrow> (ObjectId \<rightharpoonup> Kind \<times> bytes) \<Rightarrow> (ObjectId \<Rightarrow> u32 \<Rightarrow> bool) \<Rightarrow> RepoId \<Rightarrow> kvmap \<Rightarrow> bool" where
  "repo_closed gx H good repo m \<longleftrightarrow> graph_ok gx H good repo m \<and> closed_kv gx H repo m \<and> refs_stored repo m"

definition storage_closed ::
    "gix_object \<Rightarrow> (ObjectId \<rightharpoonup> Kind \<times> bytes) \<Rightarrow> (ObjectId \<Rightarrow> u32 \<Rightarrow> bool) \<Rightarrow> kvmap \<Rightarrow> bool" where
  "storage_closed gx H good m \<longleftrightarrow> (\<forall>repo. repo_closed gx H good repo m)"

lemma ref_view_object [simp]: "ref_view (m(object_key repo i \<mapsto> v)) repo' = ref_view m repo'"
  by (simp add: ref_view_def fun_eq_iff)

lemma ref_view_commit [simp]: "ref_view (m(commit_key repo i \<mapsto> v)) repo' = ref_view m repo'"
  by (simp add: ref_view_def fun_eq_iff)

lemma graph_ok_object [simp]: "graph_ok gx H good repo (m(object_key repo' i \<mapsto> v)) \<longleftrightarrow> graph_ok gx H good repo m"
  by (simp add: graph_ok_def)

lemma stored_put: "stored repo m j \<Longrightarrow> stored repo (m(object_key repo' i \<mapsto> v)) j"
  by (simp add: stored_def)

lemma repo_closed_put_object:
  assumes "repo_closed gx H good repo m" and "repo = repo' \<Longrightarrow> \<forall>c\<in>set (children_of gx H i). stored repo m c"
  shows "repo_closed gx H good repo (m(object_key repo' i \<mapsto> v))"
proof (cases "repo = repo'")
  case True
  with assms closed_kv_put [of gx H repo m i v] show ?thesis
    by (auto simp: repo_closed_def refs_stored_def intro: stored_put)
next
  case False
  then have "stored repo (m(object_key repo' i \<mapsto> v)) = stored repo m" by (simp add: stored_def fun_eq_iff)
  with assms(1) show ?thesis by (simp add: repo_closed_def refs_stored_def closed_kv_def)
qed

lemma closed_kv_commit [simp]: "closed_kv gx H repo (m(commit_key repo' i \<mapsto> v)) \<longleftrightarrow> closed_kv gx H repo m"
  by (simp add: closed_kv_def stored_def)

lemma stored_commit [simp]: "stored repo (m(commit_key repo' i \<mapsto> v)) j \<longleftrightarrow> stored repo m j"
  by (simp add: stored_def)

lemma repo_closed_put_commit:
  assumes "gix_ok gx" and "repo_closed gx H good repo m" and "record_agrees (commit_graph_of gx H) good i rec"
  shows "repo_closed gx H good repo (m(commit_key repo' i \<mapsto> graph_encode rec))"
proof (cases "repo = repo'")
  case True
  with assms graph_ok_put [OF assms(1) _ assms(3)] show ?thesis by (simp add: repo_closed_def refs_stored_def)
next
  case False
  then have "graph_ok gx H good repo (m(commit_key repo' i \<mapsto> graph_encode rec)) \<longleftrightarrow> graph_ok gx H good repo m"
    by (simp add: graph_ok_def)
  with assms(2) show ?thesis by (simp add: repo_closed_def refs_stored_def)
qed

text \<open>In closed storage a stored object has everything it reaches.\<close>

lemma closed_kv_reach:
  assumes "gix_ok gx" and "closed_kv gx H repo m" and "(i, c) \<in> (child_rel gx H)\<^sup>*" and "oid_ok i" and "stored repo m i"
  shows "stored repo m c"
proof -
  from assms(3) have "oid_ok c \<and> stored repo m c"
  proof (induction rule: rtrancl_induct)
    case (step j c)
    then have c: "c \<in> set (children_of gx H j)" by (simp add: child_rel_def)
    with step assms(2) have "stored repo m c" unfolding closed_kv_def by blast
    with children_oids [OF assms(1) c] show ?case by simp
  qed (use assms in simp)
  then show ?thesis ..
qed

definition keeps ::
    "('s, 't) walker \<Rightarrow> ('s \<Rightarrow> kvmap) \<Rightarrow> (ObjectId \<rightharpoonup> Kind \<times> bytes) \<Rightarrow> (ObjectId \<Rightarrow> u32 \<Rightarrow> bool) \<Rightarrow> ObjectId set \<Rightarrow> 's \<Rightarrow> bool" where
  "keeps w kv H good K s \<longleftrightarrow>
     storage_closed (w_gix w) H good (kv s) \<and> (\<forall>i\<in>K. stored (w_repo w) (kv s) i)"

lemma keeps_repo: "keeps w kv H good K s \<Longrightarrow> repo_closed (w_gix w) H good repo (kv s)"
  by (simp add: keeps_def storage_closed_def)

lemma keeps_put_object_key:
  assumes "keeps w kv H good K u" and "kv s' = (kv u)(object_key (w_repo w) i \<mapsto> v)" and "set (children_of (w_gix w) H i) \<subseteq> K"
  shows "keeps w kv H good K s'"
proof -
  have st: "\<forall>c\<in>K. stored (w_repo w) (kv u) c" using assms(1) by (simp add: keeps_def)
  have "repo_closed (w_gix w) H good repo (kv s')" for repo
    unfolding assms(2) by (rule repo_closed_put_object [OF keeps_repo [OF assms(1)]]) (use assms(3) st in auto)
  then show ?thesis using st by (simp add: keeps_def storage_closed_def assms(2) stored_put)
qed

lemma keeps_put_commit_key:
  assumes "gix_ok (w_gix w)" and "keeps w kv H good K u" and "kv s' = (kv u)(commit_key repo i \<mapsto> graph_encode rec)"
    and "record_agrees (commit_graph_of (w_gix w) H) good i rec"
  shows "keeps w kv H good K s'"
  using assms(2) repo_closed_put_commit [OF assms(1) keeps_repo [OF assms(2)] assms(4)]
  by (simp add: keeps_def storage_closed_def assms(3))

definition promo_ok ::
    "('s, 't) walker \<Rightarrow> ('s \<Rightarrow> kvmap) \<Rightarrow> ('s \<Rightarrow> (str \<rightharpoonup> bytes)) \<Rightarrow> (ObjectId \<rightharpoonup> Kind \<times> bytes)
      \<Rightarrow> (ObjectId \<Rightarrow> u32 \<Rightarrow> bool) \<Rightarrow> ObjectId set \<Rightarrow> 's \<Rightarrow> bool" where
  "promo_ok w kv rest H good K s \<longleftrightarrow> walk_ok w kv rest H good s \<and> keeps w kv H good K s"

text \<open>
  Other writers never delete an object and keep storage closed, as every push does.
\<close>

locale promote_env = walker_env w kv rest env snap reads writes H good
  for w :: "('s, 't) walker" and kv :: "'s \<Rightarrow> kvmap" and rest :: "'s \<Rightarrow> (str \<rightharpoonup> bytes)"
    and env :: "'s \<Rightarrow> 's \<Rightarrow> bool" and snap :: "'t \<Rightarrow> kvmap" and reads :: "'t \<Rightarrow> bytes set"
    and writes :: "'t \<Rightarrow> (bytes \<rightharpoonup> bytes option)"
    and H :: "ObjectId \<rightharpoonup> Kind \<times> bytes" and good :: "ObjectId \<Rightarrow> u32 \<Rightarrow> bool" +
  assumes objects_kept: "env s s' \<Longrightarrow> stored (w_repo w) (kv s) i \<Longrightarrow> stored (w_repo w) (kv s') i"
    and closure_rely: "env s s' \<Longrightarrow> storage_closed (w_gix w) H good (kv s) \<Longrightarrow> storage_closed (w_gix w) H good (kv s')"
    and zlib_laws: "zlib_ok (w_zlib w)"
begin

lemma keeps_env: "env s s' \<Longrightarrow> keeps w kv H good K s \<Longrightarrow> keeps w kv H good K s'"
  using closure_rely [of s s'] objects_kept [of s s'] by (auto simp: keeps_def)

lemma promo_ok_env: "env s s' \<Longrightarrow> promo_ok w kv rest H good K s \<Longrightarrow> promo_ok w kv rest H good K s'"
  using keeps_env walk_ok_env by (auto simp: promo_ok_def)

text \<open>A computation of environment steps keeps every invariant that they keep.\<close>

lemma reads_keep:
  assumes "\<And>s0. eff_spec (env s0) (\<lambda>e. True) (\<lambda>x. True) m"
  shows "eff_spec (keeps w kv H good K) (\<lambda>e. True) (\<lambda>x. True) m"
proof (rule eff_specI)
  fix s r s' assume s: "keeps w kv H good K s" and run: "m s = (r, s')"
  from eff_specD(1) [OF assms run env_refl] keeps_env [OF _ s]
  show "keeps w kv H good K s' \<and> (case r of Inl e \<Rightarrow> True | Inr x \<Rightarrow> True)" by (simp split: sum.splits)
qed

lemma env_spec_exists: "eff_spec (env s0) (\<lambda>e. True) (\<lambda>x. True) (object_exists (w_db w) (w_repo w) i)"
  using object_exists_run env_trans by (fastforce simp: eff_spec_def split: sum.splits)

lemma keeps_put_object:
  assumes "set (children_of (w_gix w) H i) \<subseteq> K"
  shows "eff_spec (keeps w kv H good K) (\<lambda>e. True) (\<lambda>x. True) (put_object (w_db w) (w_repo w) i rec d)"
  unfolding put_object_def
proof (rule eff_spec_map_err, rule eff_specI)
  fix s r s' assume s: "keeps w kv H good K s"
    and run: "db_put (w_db w) (object_key (w_repo w) i) (record_encode rec) (await_durable d) s = (r, s')"
  from put_law [OF run] have "keeps w kv H good K s'"
  proof
    assume "\<exists>u. env s u \<and> rest s' = rest u \<and> kv s' = (kv u)(object_key (w_repo w) i \<mapsto> record_encode rec)"
    then obtain u where u: "env s u" "kv s' = (kv u)(object_key (w_repo w) i \<mapsto> record_encode rec)" by blast
    show ?thesis by (rule keeps_put_object_key [OF keeps_env [OF u(1) s] u(2) assms])
  qed (use keeps_env [OF _ s] in blast)
  then show "keeps w kv H good K s' \<and> (case r of Inl e \<Rightarrow> True | Inr x \<Rightarrow> True)" by (simp split: sum.splits)
qed simp

lemma keeps_blobs_put: "eff_spec (keeps w kv H good K) (\<lambda>e. True) (\<lambda>x. True) (blobs_put (w_os w) i z)"
  unfolding blobs_put_def
proof (rule eff_specI)
  fix s r s' assume s: "keeps w kv H good K s" and run: "os_put (w_os w) (blob_path i) z s = (r, s')"
  from os_put_law [OF run] keeps_env [OF _ s]
  have "keeps w kv H good K s'" by (auto simp: keeps_def)
  then show "keeps w kv H good K s' \<and> (case r of Inl e \<Rightarrow> True | Inr x \<Rightarrow> True)" by (simp split: sum.splits)
qed

lemma keeps_odb_put:
  assumes "set (children_of (w_gix w) H i) \<subseteq> K"
  shows "eff_spec (keeps w kv H good K) (\<lambda>e. True) (\<lambda>x. True)
    (odb_put (w_db w) (w_os w) (w_zlib w) cfg (w_repo w) i kind body d)"
proof -
  let ?S = "eff_spec (keeps w kv H good K) (\<lambda>e. True)"
  have put: "?S (\<lambda>x. True) (eff_map_err OStore (put_object (w_db w) (w_repo w) i rec d))" for rec
    by (rule eff_spec_map_err [OF keeps_put_object [OF assms]]) simp
  have blob: "?S (\<lambda>x. True) (eff_bind (eff_map_err OBlob (blobs_put (w_os w) i z)) (\<lambda>_. eff_return rec))" for z and rec :: ObjectRecord
    by (rule eff_spec_bind [OF eff_spec_map_err [OF keeps_blobs_put]]) auto
  have choose: "?S (\<lambda>x. True)
      (case kind of
         KBlob \<Rightarrow>
           if length body > inline_threshold cfg
           then eff_bind (eff_map_err OBlob (blobs_put (w_os w) i z)) (\<lambda>_. eff_return r1)
           else eff_return r2
       | KTree \<Rightarrow> eff_return r3 | KCommit \<Rightarrow> eff_return r4 | KTag \<Rightarrow> eff_return r5)" for z and r1 r2 r3 r4 r5 :: ObjectRecord
    using blob by (cases kind) (auto intro!: eff_spec_return)
  show ?thesis
    unfolding odb_put_def Let_def
    by (rule eff_spec_bind [OF eff_spec_map_err [OF reads_keep [OF env_spec_exists]]], simp, rule eff_spec_if)
      (rule eff_spec_return, simp, rule eff_spec_bind [OF choose put])
qed

definition entry_good :: "ObjectId \<times> Kind \<times> bytes \<Rightarrow> bool" where
  "entry_good = (\<lambda>(i, kind, body). oid_ok i \<and> H i = Some (kind, body) \<and> length body < 2 ^ 64)"

lemma put_step:
  assumes s: "promo_ok w kv rest H good K s" and e: "entry_good (i, kind, body)"
    and c: "set (children_of (w_gix w) H i) \<subseteq> K" and level: "compression_level cfg \<le> 9"
    and run: "odb_put (w_db w) (w_os w) (w_zlib w) cfg (w_repo w) i kind body d s = (r, s')"
  shows "promo_ok w kv rest H good K s' \<and> (r = Inr () \<longrightarrow> promo_ok w kv rest H good (insert i K) s')"
proof -
  have "odb_ok (w_zlib w) H (kv s) (rest s)" using s by (simp add: promo_ok_def walk_ok_def)
  from odb_put_run [OF objects_rely zlib_laws this _ _ _ level run] e
  have odb: "odb_ok (w_zlib w) H (kv s') (rest s')" "r = Inr () \<longrightarrow> stored (w_repo w) (kv s') i"
    by (auto simp: entry_good_def stored_def)
  have "keeps w kv H good K s'" using eff_specD(1) [OF keeps_odb_put [OF c] run] s by (simp add: promo_ok_def)
  with odb keeps_repo [OF this, of "w_repo w"] show ?thesis by (auto simp: promo_ok_def walk_ok_def keeps_def repo_closed_def)
qed

end

section \<open>Sequences of writes\<close>

fun put_list :: "('s, 't) walker \<Rightarrow> ObjectDbConfig \<Rightarrow> (ObjectId \<times> Kind \<times> bytes) list \<Rightarrow> ('s, PromoteError, unit) eff" where
  "put_list w cfg [] = eff_return ()"
| "put_list w cfg ((i, kind, body) # objs) =
     eff_bind (eff_map_err PObjects (odb_put (w_db w) (w_os w) (w_zlib w) cfg (w_repo w) i kind body Relaxed)) (\<lambda>_.
       put_list w cfg objs)"

lemma put_list_append: "put_list w cfg (xs @ ys) = eff_bind (put_list w cfg xs) (\<lambda>_. put_list w cfg ys)"
  by (induction w cfg xs rule: put_list.induct) (simp_all add: eff_bind_assoc)

lemma put_list_error: "put_list w cfg objs s = (Inl e, s') \<Longrightarrow> \<exists>x. e = PObjects x"
  by (induction w cfg objs arbitrary: s rule: put_list.induct) (auto simp: effect_simps eff_bind_Inl)

lemma put_group_eq:
  "put_group w cfg kind ids objs =
     eff_bind (put_list w cfg (map (\<lambda>(i, body). (i, kind, body)) objs)) (\<lambda>_. eff_return (ids @ map fst objs))"
  by (induction w cfg kind ids objs rule: put_group.induct) (simp_all add: eff_bind_assoc)

lemma validate_and_promote_eq:
  "validate_and_promote w cfg staged tips =
     eff_bind (validate w staged tips) (\<lambda>post_order.
     eff_bind (put_list w cfg (promotion_writes post_order)) (\<lambda>_.
     eff_bind (extend_graph w [] (of_kind KCommit post_order)) (\<lambda>commits.
     eff_bind (eff_map_err PStore (flush (w_db w))) (\<lambda>_.
     eff_return \<lparr>promoted = map fst (promotion_writes post_order), promo_commits = commits\<rparr>))))"
  unfolding validate_and_promote_def
  by (simp add: put_group_eq promotion_writes_def put_list_append eff_bind_assoc comp_def case_prod_unfold)

context promote_env
begin

lemma put_list_run:
  assumes "promo_ok w kv rest H good K s" and "promotable (w_gix w) H K objs" and "\<forall>x\<in>set objs. entry_good x"
    and level: "compression_level cfg \<le> 9" and "put_list w cfg objs s = (r, s')"
  shows "promo_ok w kv rest H good K s' \<and> (r = Inr () \<longrightarrow> promo_ok w kv rest H good (K \<union> fst ` set objs) s')"
  using assms(1-3,5)
proof (induction objs arbitrary: K s)
  case Nil
  then show ?case by (simp add: eff_return_def)
next
  case (Cons x objs)
  obtain i kind body where x: "x = (i, kind, body)" by (cases x)
  obtain r1 s1 where put: "odb_put (w_db w) (w_os w) (w_zlib w) cfg (w_repo w) i kind body Relaxed s = (r1, s1)" by force
  from put_step [OF Cons.prems(1) _ _ level put] Cons.prems(2,3)
  have P: "promo_ok w kv rest H good K s1" "r1 = Inr () \<longrightarrow> promo_ok w kv rest H good (insert i K) s1" by (auto simp: x)
  show ?case
  proof (cases r1)
    case (Inl e)
    with Cons.prems(4) put P(1) show ?thesis by (auto simp: x eff_bind_def eff_map_err_def)
  next
    case (Inr u)
    then have run: "put_list w cfg objs s1 = (r, s')" using Cons.prems(4) put by (simp add: x eff_bind_def eff_map_err_def)
    from Cons.IH [OF _ _ _ run, of "insert i K"] P(2) Inr Cons.prems(2,3)
    show ?thesis by (auto simp: x promo_ok_def keeps_def)
  qed
qed

end

section \<open>Validation\<close>

text \<open>
  What the indexer's verification gives: a staged object is the content its id names. The
  lengths of contents fit Rust's.
\<close>

definition staged_ok :: "(ObjectId \<rightharpoonup> Kind \<times> bytes) \<Rightarrow> StagedPack \<Rightarrow> bool" where
  "staged_ok H staged \<longleftrightarrow>
     (\<forall>i kind body. staged_read staged i = Inr (Some (kind, body)) \<longrightarrow> H i = Some (kind, body)) \<and>
     (\<forall>i kind body. H i = Some (kind, body) \<longrightarrow> length body < 2 ^ 64)"

definition staged_ids :: "StagedPack \<Rightarrow> ObjectId set" where
  "staged_ids staged = {i. \<exists>x. staged_read staged i = Inr (Some x)}"

text \<open>
  A rejection for connectivity names an object the tips reach that is not staged; the traversal
  runs out of steps only when there are fewer of them than the staged objects and their
  references.
\<close>

definition validate_error ::
    "gix_object \<Rightarrow> (ObjectId \<rightharpoonup> Kind \<times> bytes) \<Rightarrow> StagedPack \<Rightarrow> ObjectId set \<Rightarrow> nat \<Rightarrow> nat \<Rightarrow> PromoteError \<Rightarrow> bool" where
  "validate_error gx H staged T fuel cost e \<longleftrightarrow>
     (\<exists>x. e = PObjects x) \<or> (\<exists>x. e = PStaged x) \<or> (\<exists>i. e = PDecode i) \<or>
     (\<exists>i ref. e = PConnectivity i ref \<and> staged_read staged i = Inr None \<and> (\<exists>t\<in>T. (t, i) \<in> (child_rel gx H)\<^sup>*)) \<or>
     e = PDiverges \<and> (finite (staged_ids staged) \<longrightarrow> fuel \<le> cost)"

lemma validate_error_step:
  "validate_error gx H staged T n cost e \<Longrightarrow> (finite (staged_ids staged) \<Longrightarrow> cost < cost') \<Longrightarrow>
    validate_error gx H staged T (Suc n) cost' e"
  unfolding validate_error_def by fastforce

lemma object_children_error: "object_children gx i kind body = Inl e \<Longrightarrow> e = PDecode i"
proof (cases kind)
  case KTree
  have "tree_children i es = Inl e \<Longrightarrow> e = PDecode i" for es
    by (induction i es rule: tree_children.induct) (auto simp: and_then_def split: sum.splits)
  then show "object_children gx i kind body = Inl e \<Longrightarrow> ?thesis" using KTree by (simp add: object_children_def)
qed (auto simp: object_children_def and_then_def ok_or_def split: sum.splits option.splits)

context promote_env
begin

lemma exists_run:
  assumes "odb_exists (w_db w) (w_repo w) i s = (r, s')"
  shows "env s s' \<and> (r = Inr True \<longrightarrow> stored (w_repo w) (kv s') i) \<and> (r = Inr False \<longrightarrow> \<not> stored (w_repo w) (kv s') i)"
proof -
  from assms obtain r1 where "object_exists (w_db w) (w_repo w) i s = (r1, s')" "r = map_err OStore r1"
    by (auto simp: odb_exists_def eff_map_err_def split: prod.splits)
  with object_exists_run show ?thesis by (fastforce simp: stored_def)
qed

text \<open>Entering an id that was not visited: how the step can end or go on.\<close>

lemma validate_enter_cases [consumes 2, case_names io known staged_io missing decode found]:
  assumes "validate_loop w staged (Suc n) (Enter i ref # stack) visited post s = (r, s')" and "i \<notin> visited"
  obtains e where "odb_exists (w_db w) (w_repo w) i s = (Inl e, s')" "r = Inl (PObjects e)"
  | s1 where "odb_exists (w_db w) (w_repo w) i s = (Inr True, s1)"
      "validate_loop w staged n stack (insert i visited) post s1 = (r, s')"
  | e where "odb_exists (w_db w) (w_repo w) i s = (Inr False, s')" "r = Inl (PStaged e)"
  | "odb_exists (w_db w) (w_repo w) i s = (Inr False, s')" "staged_read staged i = Inr None" "r = Inl (PConnectivity i ref)"
  | "odb_exists (w_db w) (w_repo w) i s = (Inr False, s')" "r = Inl (PDecode i)"
  | s1 kind body cs where "odb_exists (w_db w) (w_repo w) i s = (Inr False, s1)"
      "staged_read staged i = Inr (Some (kind, body))" "object_children (w_gix w) i kind body = Inr cs"
      "validate_loop w staged n (map (\<lambda>child. Enter child (Some i)) cs @ Emit i kind body # stack) (insert i visited) post s1 = (r, s')"
proof -
  obtain r1 s1 where ex: "odb_exists (w_db w) (w_repo w) i s = (r1, s1)" by force
  consider (fail) e where "r1 = Inl e" | (known) "r1 = Inr True" | (new) "r1 = Inr False" by (cases r1) auto
  then show ?thesis
  proof cases
    case fail
    with ex have "odb_exists (w_db w) (w_repo w) i s = (Inl e, s1)" by simp
    with assms that(1) [of e] show ?thesis by (simp add: Let_def eff_bind_err [OF eff_map_err_err])
  next
    case known
    with ex have "odb_exists (w_db w) (w_repo w) i s = (Inr True, s1)" by simp
    with assms that(2) [of s1] show ?thesis by (simp add: Let_def eff_bind_ok [OF eff_map_err_ok])
  next
    case new
    have ex: "odb_exists (w_db w) (w_repo w) i s = (Inr False, s1)" using ex new by simp
    have run: "(eff_bind (eff_lift (map_err PStaged (staged_read staged i))) (\<lambda>r.
        case r of
          None \<Rightarrow> eff_fail (PConnectivity i ref)
        | Some (kind, body) \<Rightarrow>
            eff_bind (eff_lift (object_children (w_gix w) i kind body)) (\<lambda>children.
              validate_loop w staged n (map (\<lambda>child. Enter child (Some i)) children @ Emit i kind body # stack)
                (insert i visited) post))) s1 = (r, s')"
      using assms ex by (simp add: Let_def eff_bind_ok [OF eff_map_err_ok])
    show ?thesis
    proof (cases "staged_read staged i")
      case (Inl e)
      with run ex that(3) [of e] show ?thesis by (simp add: eff_bind_def eff_lift_def)
    next
      case (Inr x)
      show ?thesis
      proof (cases x)
        case None
        with Inr run ex that(4) show ?thesis by (simp add: eff_bind_def eff_lift_def eff_fail_def)
      next
        case (Some kb)
        obtain kind body where kb: "kb = (kind, body)" by force
        with Inr Some run ex that(5) that(6) [of s1 kind body] object_children_error [of "w_gix w" i kind body]
        show ?thesis by (cases "object_children (w_gix w) i kind body") (auto simp: eff_bind_def eff_lift_def)
      qed
    qed
  qed
qed

definition validated where
  "validated staged T n visited stack s' r \<longleftrightarrow>
     (case r of
        Inl e \<Rightarrow> validate_error (w_gix w) H staged T n (visit_cost (w_gix w) H (staged_ids staged) visited stack) e
      | Inr post \<Rightarrow> \<exists>K visited. promo_ok w kv rest H good K s' \<and> visit_inv (w_gix w) H K T [] visited post)"

lemma validated_step:
  assumes "validated staged T n visited' stack' s' r"
    and "finite (staged_ids staged) \<Longrightarrow>
      visit_cost (w_gix w) H (staged_ids staged) visited' stack' < visit_cost (w_gix w) H (staged_ids staged) visited stack"
  shows "validated staged T (Suc n) visited stack s' r"
  using assms validate_error_step unfolding validated_def by (cases r) auto

lemma validate_loop_run:
  assumes staged: "staged_ok H staged" and acyc: "acyclic (child_rel (w_gix w) H)"
  shows "validate_loop w staged n stack visited post s = (r, s') \<Longrightarrow> promo_ok w kv rest H good K s \<Longrightarrow>
    visit_inv (w_gix w) H K T stack visited post \<Longrightarrow>
    \<forall>x\<in>set stack. \<exists>t\<in>T. (t, step_oid x) \<in> (child_rel (w_gix w) H)\<^sup>* \<Longrightarrow>
    env s s' \<and> validated staged T n visited stack s' r"
proof (induction n arbitrary: stack visited post s K)
  case 0
  then show ?case using env_refl by (auto simp: eff_fail_def validated_def validate_error_def)
next
  case (Suc n)
  note run = Suc.prems(1) and ok = Suc.prems(2) and inv = Suc.prems(3) and tips = Suc.prems(4)
  consider (finished) "stack = []" | (emit) i kind body st where "stack = Emit i kind body # st"
    | (again) i ref st where "stack = Enter i ref # st" "i \<in> visited"
    | (enter) i ref st where "stack = Enter i ref # st" "i \<notin> visited"
    by (metis Step.exhaust list.exhaust)
  then show ?case
  proof cases
    case finished
    then have "r = Inr post" "s' = s" using run by (auto simp: eff_return_def)
    then show ?thesis using ok inv finished env_refl by (auto simp: validated_def)
  next
    case emit
    from Suc.IH [OF _ ok visit_inv_emit [OF inv [unfolded emit] acyc]] run tips
    have "env s s' \<and> validated staged T n visited st s' r" by (simp add: emit)
    then show ?thesis using validated_step [of staged T n visited st s' r visited stack] by (simp add: emit visit_cost_def)
  next
    case again
    from Suc.IH [OF _ ok visit_inv_skip [OF inv [unfolded again(1)] acyc again(2)]] run tips again(2)
    have "env s s' \<and> validated staged T n visited st s' r" by (simp add: again(1))
    then show ?thesis using validated_step [of staged T n visited st s' r visited stack] by (simp add: again(1) visit_cost_def)
  next
    case enter
    from run [unfolded enter(1)] enter(2) show ?thesis
    proof (cases rule: validate_enter_cases)
      case (known s1)
      note E = exists_run [OF known(1)]
      have "promo_ok w kv rest H good (insert i K) s1"
        using promo_ok_env [OF _ ok, of s1] E by (simp add: promo_ok_def keeps_def)
      from Suc.IH [OF known(2) this visit_inv_prune [OF inv [unfolded enter(1)] enter(2)]] tips E env_trans [of s s1 s']
      show ?thesis using validated_step [OF _ visit_cost_skip, of staged T n i visited st s' r "Enter i ref"] by (simp add: enter(1))
    next
      case (found s1 kind body cs)
      note E = exists_run [OF found(1)]
      have Hi: "H i = Some (kind, body)" using staged found(2) by (auto simp: staged_ok_def)
      have cs: "children_of (w_gix w) H i = cs" using Hi found(3) by (simp add: children_of_def)
      obtain t where t: "t \<in> T" "(t, i) \<in> (child_rel (w_gix w) H)\<^sup>*" using tips enter(1) by auto
      have "(t, c) \<in> (child_rel (w_gix w) H)\<^sup>*" if "c \<in> set cs" for c
        using t(2) that cs by (auto simp: child_rel_def intro: rtrancl_into_rtrancl)
      then have "\<forall>c\<in>set cs. \<exists>t\<in>T. (t, c) \<in> (child_rel (w_gix w) H)\<^sup>*" using t(1) by blast
      then have "\<forall>x\<in>set (map (\<lambda>child. Enter child (Some i)) cs @ Emit i kind body # st).
          \<exists>t\<in>T. (t, step_oid x) \<in> (child_rel (w_gix w) H)\<^sup>*" using t tips enter(1) by auto
      from Suc.IH [OF found(4) promo_ok_env [OF conjunct1 [OF E] ok]
          visit_inv_enter [where H = H, OF inv [unfolded enter(1)] enter(2) parsers Hi found(3)] this]
      have IH: "env s1 s'"
        "validated staged T n (insert i visited) (map (\<lambda>child. Enter child (Some i)) cs @ Emit i kind body # st) s' r" by auto
      have "i \<in> staged_ids staged" using found(2) by (simp add: staged_ids_def)
      from validated_step [OF IH(2)] visit_cost_enter [OF _ this enter(2), of "w_gix w" H "\<lambda>c. Enter c (Some i)"] E
        env_trans [OF _ IH(1)]
      show ?thesis by (simp add: cs enter(1))
    qed (use exists_run tips enter(1) in \<open>auto simp: validated_def validate_error_def\<close>)
  qed
qed

text \<open>The traversal as a whole.\<close>

lemma validate_run:
  assumes staged: "staged_ok H staged" and acyc: "acyclic (child_rel (w_gix w) H)" and tips: "\<forall>i\<in>set tips. oid_ok i"
    and ok: "promo_ok w kv rest H good {} s" and run: "validate w staged tips s = (r, s')"
  shows "env s s' \<and> (case r of
      Inl e \<Rightarrow> validate_error (w_gix w) H staged (set tips) (w_fuel w)
        (length tips + (\<Sum>i\<in>staged_ids staged. length (children_of (w_gix w) H i) + 1)) e
    | Inr post \<Rightarrow> \<exists>K. promo_ok w kv rest H good K s' \<and> promotable (w_gix w) H K post \<and> distinct (map fst post) \<and>
        set tips \<subseteq> K \<union> fst ` set post \<and> (\<forall>x\<in>set post. entry_good x))"
proof -
  have "\<forall>x\<in>set (map (\<lambda>tip. Enter tip None) tips). \<exists>t\<in>set tips. (t, step_oid x) \<in> (child_rel (w_gix w) H)\<^sup>*" by auto
  note V = validate_loop_run [OF staged acyc run [unfolded validate_def] ok visit_inv_start [OF tips] this]
  have good: "entry_good x" if "visit_inv (w_gix w) H K T [] visited post" "x \<in> set post" for K T visited post x
  proof -
    obtain i kind body where x: "x = (i, kind, body)" by (cases x)
    have "H i = Some (kind, body)" using that x by (auto simp: visit_inv_def entries_ok_def)
    moreover have "i \<in> fst ` set post" using image_eqI [of i fst x, OF _ that(2)] by (simp add: x)
    then have "oid_ok i" using that(1) by (auto simp: visit_inv_def)
    ultimately show ?thesis using staged by (auto simp: x entry_good_def staged_ok_def)
  qed
  show ?thesis
  proof (cases r)
    case (Inl e)
    with V show ?thesis by (simp add: validated_def visit_cost_def)
  next
    case (Inr post)
    with V obtain K visited where K: "promo_ok w kv rest H good K s'" "visit_inv (w_gix w) H K (set tips) [] visited post" by (auto simp: validated_def)
    from K(2) good [OF K(2)] have "promotable (w_gix w) H K post" "distinct (map fst post)"
      "set tips \<subseteq> K \<union> fst ` set post" "\<forall>x\<in>set post. entry_good x" by (auto simp: visit_inv_def)
    with V K(1) Inr show ?thesis by auto
  qed
qed

end

section \<open>Extending the commit graph\<close>

lemma foldl_max_set: "foldl max (a :: 'a :: linorder) xs = Max (insert a (set xs))"
proof -
  have "foldl max a xs = fold max xs a" by (simp add: foldl_conv_fold max.commute)
  then show ?thesis using Max.set_eq_fold [of a xs] by simp
qed

text \<open>Two reads of one parent may differ; the greatest of them is as good.\<close>

lemma greatest_generations:
  assumes "list_all2 good ps (gs :: u32 list)"
  obtains gens where "\<forall>p\<in>set ps. \<exists>g. gens p = Some g \<and> good p g"
    "foldl max 0 (List.map_filter gens ps) = foldl max 0 gs"
proof
  let ?G = "\<lambda>p. {g. (p, g) \<in> set (zip ps gs)}"
  let ?gens = "\<lambda>p. Some (Max (?G p))"
  have fin: "finite (?G p)" for p by (rule finite_subset [of _ "set gs"]) (auto dest: set_zip_rightD)
  have ne: "?G p \<noteq> {}" if "p \<in> set ps" for p
    using that assms by (metis (mono_tags, lifting) empty_iff in_set_impl_in_set_zip1 list_all2_lengthD mem_Collect_eq)
  have G: "Max (?G p) \<in> ?G p" if "p \<in> set ps" for p by (rule Max_in [OF fin ne [OF that]])
  have good: "good p g" if "g \<in> ?G p" for p g using that assms by (auto simp: list_all2_iff)
  show "\<forall>p\<in>set ps. \<exists>g. ?gens p = Some g \<and> good p g" using G good by blast
  have set: "set (List.map_filter ?gens ps) = (\<lambda>p. Max (?G p)) ` set ps" by (simp add: map_filter_def)
  have sub: "(\<lambda>p. Max (?G p)) ` set ps \<subseteq> set gs" using G by (auto dest: set_zip_rightD)
  have dom: "\<exists>x\<in>(\<lambda>p. Max (?G p)) ` set ps. g \<le> x" if g: "g \<in> set gs" for g
  proof -
    obtain p where p: "(p, g) \<in> set (zip ps gs)"
      by (rule in_set_impl_in_set_zip2 [OF list_all2_lengthD [OF assms] g])
    then have "g \<le> Max (?G p)" using fin by (auto intro: Max_ge)
    with set_zip_leftD [OF p] show ?thesis by blast
  qed
  have "Max (insert 0 ((\<lambda>p. Max (?G p)) ` set ps)) = Max (insert 0 (set gs))"
  proof (rule antisym)
    show "Max (insert 0 ((\<lambda>p. Max (?G p)) ` set ps)) \<le> Max (insert 0 (set gs))"
      by (rule Max_mono) (use sub in auto)
    show "Max (insert 0 (set gs)) \<le> Max (insert 0 ((\<lambda>p. Max (?G p)) ` set ps))"
      using dom by (intro Max.boundedI) (auto simp: Max_ge_iff)
  qed
  then show "foldl max 0 (List.map_filter ?gens ps) = foldl max 0 gs" by (simp add: foldl_max_set set)
qed

context promote_env
begin

lemma promo_source: "object_source w (promo_ok w kv rest H good K) H good"
proof -
  have eq: "promo_ok w kv rest H good K = (\<lambda>s. walk_ok w kv rest H good s \<and> keeps w kv H good K s)"
    by (rule ext) (simp add: promo_ok_def)
  have env_get: "eff_spec (env s0) (\<lambda>e. True) (\<lambda>x. True) (w_get w i)" for s0 i
    unfolding w_get_def by (rule eff_spec_map_err [OF env_spec_odb_get]) simp
  have env_graph: "eff_spec (env s0) (\<lambda>e. True) (\<lambda>x. True) (get_commit_graph (w_db w) (w_repo w) i)" for s0 i
    unfolding get_commit_graph_def
    by (intro eff_spec_bind [OF eff_spec_map_err [OF env_spec_get]] eff_spec_lift) auto
  have put: "eff_spec (keeps w kv H good K) (\<lambda>e. True) (\<lambda>x. True) (put_commit_graph (w_db w) (w_repo w) i rec d)"
    if "record_agrees (commit_graph_of (w_gix w) H) good i rec" for i rec d
    unfolding put_commit_graph_def
  proof (rule eff_spec_map_err, rule eff_specI)
    fix s r s' assume s: "keeps w kv H good K s"
      and run: "db_put (w_db w) (commit_key (w_repo w) i) (graph_encode rec) (await_durable d) s = (r, s')"
    from put_law [OF run] have "keeps w kv H good K s'"
    proof
      assume "\<exists>u. env s u \<and> rest s' = rest u \<and> kv s' = (kv u)(commit_key (w_repo w) i \<mapsto> graph_encode rec)"
      then obtain u where u: "env s u" "kv s' = (kv u)(commit_key (w_repo w) i \<mapsto> graph_encode rec)" by blast
      show ?thesis by (rule keeps_put_commit_key [OF parsers keeps_env [OF u(1) s] u(2) that])
    qed (use keeps_env [OF _ s] in blast)
    then show "keeps w kv H good K s' \<and> (case r of Inl e \<Rightarrow> True | Inr x \<Rightarrow> True)" by (simp split: sum.splits)
  qed simp
  show ?thesis
    unfolding eq
    by unfold_locales
      (rule eff_spec_conj, erule get_ok, rule reads_keep [OF env_get],
       rule eff_spec_conj, erule size_ok, rule reads_keep [OF env_spec_odb_size],
       rule eff_spec_conj, erule graph_get_ok, rule reads_keep [OF env_graph],
       rule eff_spec_conj, erule (1) graph_put_ok, erule put, erule good_next, blast, rule gix_laws)
qed

lemma max_generation_spec:
  assumes "\<forall>p\<in>set ps. oid_ok p"
  shows "eff_spec (promo_ok w kv rest H good K) (\<lambda>e. \<exists>x. e = PWalk x \<and> source_error x)
    (\<lambda>g. \<exists>gs. list_all2 good ps gs \<and> g = foldl max acc gs) (max_generation w acc ps)"
  using assms
proof (induction ps arbitrary: acc)
  case Nil
  then show ?case by (auto intro!: eff_spec_return)
next
  case (Cons p ps)
  have info: "eff_spec (promo_ok w kv rest H good K) (\<lambda>e. \<exists>x. e = PWalk x \<and> source_error x)
      (record_agrees (commit_graph_of (w_gix w) H) good p) (eff_map_err PWalk (get_commit_info w p))"
    by (rule eff_spec_map_err [OF eff_spec_weaken [OF object_source.get_commit_info_spec [OF promo_source]]])
      (use Cons.prems in auto)
  show ?case
    unfolding max_generation.simps
  proof (rule eff_spec_bind [OF info])
    fix rec assume rec: "record_agrees (commit_graph_of (w_gix w) H) good p rec"
    show "eff_spec (promo_ok w kv rest H good K) (\<lambda>e. \<exists>x. e = PWalk x \<and> source_error x)
        (\<lambda>g. \<exists>gs. list_all2 good (p # ps) gs \<and> g = foldl max acc gs) (max_generation w (max acc (generation rec)) ps)"
    proof (rule eff_spec_weaken [OF Cons.IH])
      fix g assume "\<exists>gs. list_all2 good ps gs \<and> g = foldl max (max acc (generation rec)) gs"
      then obtain gs where "list_all2 good ps gs" "g = foldl max (max acc (generation rec)) gs" by blast
      with rec show "\<exists>gs. list_all2 good (p # ps) gs \<and> g = foldl max acc gs"
        by (intro exI [of _ "generation rec # gs"]) (simp add: record_agrees_def)
    qed (use Cons.prems in auto)
  qed
qed

lemma extend_graph_spec:
  assumes "\<forall>(i, body)\<in>set commits. oid_ok i \<and> H i = Some (KCommit, body)"
  shows "eff_spec (promo_ok w kv rest H good K) (\<lambda>e. (\<exists>x. e = PWalk x \<and> source_error x) \<or> (\<exists>x. e = PStore x) \<or> (\<exists>i. e = PDecode i))
    (\<lambda>ids. ids = recorded @ map fst commits) (extend_graph w recorded commits)"
  using assms
proof (induction commits arbitrary: recorded)
  case Nil
  then show ?case by (auto intro!: eff_spec_return)
next
  case (Cons x commits)
  obtain i body where x: "x = (i, body)" by force
  let ?E = "\<lambda>e. (\<exists>x. e = PWalk x \<and> source_error x) \<or> (\<exists>x. e = PStore x) \<or> (\<exists>i. e = PDecode i)"
  let ?I = "promo_ok w kv rest H good K" and ?P = "\<lambda>ids. ids = recorded @ map fst (x # commits)"
  have parse: "eff_spec ?I ?E (\<lambda>(root, ps). commit_graph_of (w_gix w) H i = Some (root, ps))
      (eff_lift (ok_or (PDecode i) (commit_from_bytes (w_gix w) body (oid_kind i))))"
    using Cons.prems x by (auto intro!: eff_spec_lift simp: commit_graph_of_def ok_or_def split: option.splits)
  have put: "eff_spec ?I ?E (\<lambda>u. True) (eff_map_err PStore (put_commit_graph (w_db w) (w_repo w) i
      \<lparr>generation = foldl max 0 gs + 1, root_tree = root, parents = ps\<rparr> Relaxed))"
    if g: "commit_graph_of (w_gix w) H i = Some (root, ps)" "list_all2 good ps gs" for root ps gs
  proof -
    obtain gens where "\<forall>p\<in>set ps. \<exists>g. gens p = Some g \<and> good p g"
      "foldl max 0 (List.map_filter gens ps) = foldl max 0 gs" by (rule greatest_generations [OF g(2)])
    with generations [OF g(1), of gens] have "good i (foldl max 0 gs + 1)"
      by (simp add: next_generation_def add.commute)
    with g(1) have "record_agrees (commit_graph_of (w_gix w) H) good i
        \<lparr>generation = foldl max 0 gs + 1, root_tree = root, parents = ps\<rparr>" by (simp add: record_agrees_def)
    from object_source.graph_put_ok [OF promo_source _ this] show ?thesis
      using Cons.prems x by (intro eff_spec_map_err) auto
  qed
  have IH: "eff_spec ?I ?E ?P (extend_graph w (recorded @ [i]) commits)"
    by (rule eff_spec_weaken [OF Cons.IH]) (use Cons.prems x in auto)
  have gens: "eff_spec ?I ?E (\<lambda>g. \<exists>gs. list_all2 good ps gs \<and> g = foldl max 0 gs) (max_generation w 0 ps)"
    if "commit_graph_of (w_gix w) H i = Some (root, ps)" for root ps
    by (rule eff_spec_weaken [OF max_generation_spec]) (use graph_of_oids [OF parsers that] in auto)
  show ?case
    unfolding x extend_graph.simps
    by (rule eff_spec_bind [OF parse], clarify, rule eff_spec_bind [OF gens], assumption, clarify,
        rule eff_spec_bind [OF put], assumption, assumption) (use IH x in simp)
qed

end

end
