(* ===== verification/Push.thy ===== *)
theory Push
  imports Promote_Correct Samples
begin

text \<open>
  What promotion guarantees over the storage stack: closed storage after every write, nothing
  written for a rejected push, and everything a tip reaches once a promotion returns.
\<close>

section \<open>Promotion as a whole\<close>

definition promote_error ::
    "gix_object \<Rightarrow> (ObjectId \<rightharpoonup> Kind \<times> bytes) \<Rightarrow> StagedPack \<Rightarrow> ObjectId list \<Rightarrow> nat \<Rightarrow> PromoteError \<Rightarrow> bool" where
  "promote_error gx H staged tips fuel e \<longleftrightarrow>
     validate_error gx H staged (set tips) fuel
       (length tips + (\<Sum>i\<in>staged_ids staged. length (children_of gx H i) + 1)) e \<or>
     (\<exists>x. e = PWalk x \<and> source_error x) \<or> (\<exists>x. e = PStore x)"

text \<open>Every object a tip reaches is stored, and what was promoted is listed once.\<close>

definition promotion_ok ::
    "gix_object \<Rightarrow> (ObjectId \<rightharpoonup> Kind \<times> bytes) \<Rightarrow> RepoId \<Rightarrow> kvmap \<Rightarrow> ObjectId list \<Rightarrow> Promotion \<Rightarrow> bool" where
  "promotion_ok gx H repo m tips p \<longleftrightarrow>
     (\<forall>t\<in>set tips. \<forall>c. (t, c) \<in> (child_rel gx H)\<^sup>* \<longrightarrow> stored repo m c) \<and>
     distinct (promoted p) \<and> (\<forall>i\<in>set (promoted p). stored repo m i) \<and>
     promo_commits p = filter (\<lambda>i. rank_of H i = 2) (promoted p)"

lemma promotion_writes_distinct:
  assumes "distinct (map fst post)"
  shows "distinct (map fst (promotion_writes post))"
proof -
  have "distinct (map fst (filter (\<lambda>(i, kind, body). kind = k) post))" for k
    using assms by (simp add: distinct_map_filter)
  moreover have "fst ` set (filter (\<lambda>(i, kind, body). kind = k) post) \<inter>
      fst ` set (filter (\<lambda>(i, kind, body). kind = k') post) = {}" if "k \<noteq> k'" for k k'
    using that eq_key_imp_eq_value [OF assms] by fastforce
  ultimately show ?thesis
    unfolding promotion_writes_def of_kind_entries by (simp add: Int_Un_distrib Int_Un_distrib2)
qed

lemma promotion_commits:
  assumes "entries_ok H post"
  shows "map fst (of_kind KCommit post) = filter (\<lambda>i. rank_of H i = 2) (map fst (promotion_writes post))"
proof -
  let ?f = "\<lambda>k. filter (\<lambda>(i, kind, body). kind = k) post"
  have rank: "rank_of H (fst x) = kind_rank k" if "x \<in> set (?f k)" for x k
    using that entries_okD [OF assms] by (auto simp: rank_of_def)
  have keep: "filter (\<lambda>i. rank_of H i = 2) (map fst (?f k)) = (if k = KCommit then map fst (?f k) else [])" for k
    using rank [of _ k] by (cases k) (auto simp: filter_empty_conv filter_id_conv)
  have "map fst (of_kind k post) = map fst (?f k)" for k
    by (simp add: of_kind_def comp_def case_prod_unfold)
  then show ?thesis
    unfolding promotion_writes_def of_kind_entries by (simp add: keep)
qed

text \<open>The writes up to a kind are the entries up to that kind.\<close>

lemma promotion_writes_prefix:
  "set (take (length (filter (\<lambda>(i, kind, body). kind_rank kind \<le> kind_rank k) post)) (promotion_writes post)) =
     {x \<in> set post. kind_rank (fst (snd x)) \<le> kind_rank k}"
proof -
  let ?f = "\<lambda>ks. concat (map (\<lambda>k. filter (\<lambda>(i, kind, body). kind = k) post) ks)"
  let ?kinds = "[KBlob, KTree, KCommit, KTag]"
  let ?upto = "take (kind_rank k + 1) ?kinds"
  have split: "promotion_writes post = ?f ?upto @ ?f (drop (kind_rank k + 1) ?kinds)"
    unfolding promotion_writes_def of_kind_entries by (cases k) simp_all
  have len: "length (filter (\<lambda>(i, kind, body). kind_rank kind \<le> kind_rank k) post) = length (?f ?upto)"
  proof (induction post)
    case (Cons x post)
    then show ?case by (cases k; cases "fst (snd x)") (simp_all add: case_prod_unfold)
  qed (cases k; simp)
  have "set (?f ks) = {x \<in> set post. fst (snd x) \<in> set ks}" for ks by auto
  moreover have "k' \<in> set ?upto \<longleftrightarrow> kind_rank k' \<le> kind_rank k" for k' by (cases k; cases k') simp_all
  ultimately have "set (?f ?upto) = {x \<in> set post. kind_rank (fst (snd x)) \<le> kind_rank k}" by (simp only:)
  then show ?thesis unfolding len split by (simp only: append_eq_conv_conj [THEN iffD1, THEN conjunct1, OF refl, symmetric])
qed

context promote_env
begin

lemma flush_run: "flush (w_db w) s = (r, s') \<Longrightarrow> env s s'"
  using flush_law by (auto simp: flush_def eff_map_err_def split: prod.splits)

lemma writes_run:
  assumes staged: "staged_ok H staged" and acyc: "acyclic (child_rel (w_gix w) H)" and ranked: "kinds_ranked (w_gix w) H"
    and tips: "\<forall>i\<in>set tips. oid_ok i" and ok: "promo_ok w kv rest H good {} s"
    and run: "validate w staged tips s = (Inr post, s1)"
  obtains K where "promo_ok w kv rest H good K s1" "promotable (w_gix w) H K (promotion_writes post)"
    "distinct (map fst post)" "set tips \<subseteq> K \<union> fst ` set post" "\<forall>x\<in>set post. entry_good x" "entries_ok H post"
proof -
  from validate_run [OF staged acyc tips ok run] obtain K where
    K: "promo_ok w kv rest H good K s1" "promotable (w_gix w) H K post" "distinct (map fst post)"
      "set tips \<subseteq> K \<union> fst ` set post" "\<forall>x\<in>set post. entry_good x" by auto
  have e: "entries_ok H post" using K(5) by (fastforce simp: entries_ok_def entry_good_def)
  from that [OF K(1) promotion_writes_promotable [OF K(2) e ranked] K(3,4,5) e] show ?thesis .
qed

lemma cut_run:
  assumes staged: "staged_ok H staged" and acyc: "acyclic (child_rel (w_gix w) H)" and ranked: "kinds_ranked (w_gix w) H"
    and tips: "\<forall>i\<in>set tips. oid_ok i" and ok: "promo_ok w kv rest H good {} s"
    and run: "validate w staged tips s = (Inr post, s1)"
    and level: "compression_level cfg \<le> 9" and cut: "put_list w cfg (take n (promotion_writes post)) s1 = (r, s2)"
  obtains K where "promo_ok w kv rest H good K s2"
proof (rule writes_run [OF staged acyc ranked tips ok run])
  fix K assume K: "promo_ok w kv rest H good K s1" "promotable (w_gix w) H K (promotion_writes post)" "\<forall>x\<in>set post. entry_good x"
  have "\<forall>x\<in>set (take n (promotion_writes post)). entry_good x"
    using K(3) set_take_subset [of n "promotion_writes post"] by auto
  from put_list_run [OF K(1) promotable_take [OF K(2)] this level cut] that show thesis by blast
qed

lemma promote_run:
  assumes staged: "staged_ok H staged" and acyc: "acyclic (child_rel (w_gix w) H)" and ranked: "kinds_ranked (w_gix w) H"
    and tips: "\<forall>i\<in>set tips. oid_ok i" and ok: "promo_ok w kv rest H good {} s"
    and level: "compression_level cfg \<le> 9" and run: "validate_and_promote w cfg staged tips s = (r, s')"
  shows "promo_ok w kv rest H good {} s' \<and>
    (case r of Inl e \<Rightarrow> (\<exists>x. e = PObjects x) \<or> promote_error (w_gix w) H staged tips (w_fuel w) e
     | Inr p \<Rightarrow> promotion_ok (w_gix w) H (w_repo w) (kv s') tips p)"
proof -
  obtain r0 s0 where v: "validate w staged tips s = (r0, s0)" by force
  show ?thesis
  proof (cases r0)
    case (Inl e)
    with run v have "r = Inl e" "s' = s0" by (auto simp: validate_and_promote_eq eff_bind_def)
    with validate_run [OF staged acyc tips ok v] Inl promo_ok_env [OF _ ok] show ?thesis
      by (auto simp: promote_error_def)
  next
    case (Inr post)
    with v have v: "validate w staged tips s = (Inr post, s0)" by simp
    from writes_run [OF staged acyc ranked tips ok v] obtain K where K: "promo_ok w kv rest H good K s0"
      "promotable (w_gix w) H K (promotion_writes post)" "distinct (map fst post)" "set tips \<subseteq> K \<union> fst ` set post"
      "\<forall>x\<in>set post. entry_good x" "entries_ok H post" .
    obtain r1 s1 where p: "put_list w cfg (promotion_writes post) s0 = (r1, s1)" by force
    from put_list_run [OF K(1,2) _ level p] K(5) have P: "promo_ok w kv rest H good K s1"
      "r1 = Inr () \<longrightarrow> promo_ok w kv rest H good (K \<union> fst ` set post) s1" by auto
    let ?K = "K \<union> fst ` set post"
    let ?tail = "eff_bind (extend_graph w [] (of_kind KCommit post)) (\<lambda>commits.
       eff_bind (eff_map_err PStore (flush (w_db w))) (\<lambda>_.
       eff_return \<lparr>promoted = map fst (promotion_writes post), promo_commits = commits\<rparr>))"
    let ?E = "\<lambda>e. (\<exists>x. e = PWalk x \<and> source_error x) \<or> (\<exists>x. e = PStore x) \<or> (\<exists>i. e = PDecode i)"
    have commits: "\<forall>(i, body)\<in>set (of_kind KCommit post). oid_ok i \<and> H i = Some (KCommit, body)"
      using K(5) by (fastforce simp: of_kind_def entry_good_def)
    have fl: "eff_spec (promo_ok w kv rest H good ?K) ?E (\<lambda>x. True) (eff_map_err PStore (flush (w_db w)))"
    proof (rule eff_spec_map_err, rule eff_specI)
      fix t x t' assume "promo_ok w kv rest H good ?K t" "flush (w_db w) t = (x, t')"
      then have "promo_ok w kv rest H good ?K t'" using promo_ok_env [OF flush_run] by blast
      then show "promo_ok w kv rest H good ?K t' \<and> (case x of Inl e \<Rightarrow> True | Inr y \<Rightarrow> True)" by (simp split: sum.splits)
    qed simp
    have tail: "eff_spec (promo_ok w kv rest H good ?K) ?E
        (\<lambda>p. p = \<lparr>promoted = map fst (promotion_writes post), promo_commits = map fst (of_kind KCommit post)\<rparr>) ?tail"
      by (rule eff_spec_bind [OF extend_graph_spec [OF commits]], rule eff_spec_bind [OF fl], rule eff_spec_return) simp
    show ?thesis
    proof (cases r1)
      case (Inl e)
      with run v p have "r = Inl e" "s' = s1" by (auto simp: validate_and_promote_eq eff_bind_def)
      moreover have "\<exists>x. e = PObjects x" by (rule put_list_error [OF p [unfolded Inl]])
      ultimately show ?thesis using P(1) by (auto simp: promo_ok_def keeps_def)
    next
      case (Inr u)
      with run v p have "?tail s1 = (r, s')" by (simp add: validate_and_promote_eq eff_bind_ok)
      from eff_specD [OF tail this] P(2) Inr
      have T: "promo_ok w kv rest H good ?K s'" "\<And>e. r = Inl e \<Longrightarrow> ?E e"
        "\<And>p. r = Inr p \<Longrightarrow> p = \<lparr>promoted = map fst (promotion_writes post), promo_commits = map fst (of_kind KCommit post)\<rparr>"
        by auto
      have at: "stored (w_repo w) (kv s') i" if "i \<in> ?K" for i using T(1) that by (simp add: promo_ok_def keeps_def)
      have "stored (w_repo w) (kv s') c" if t: "t \<in> set tips" and "(t, c) \<in> (child_rel (w_gix w) H)\<^sup>*" for t c
      proof (rule closed_kv_reach [OF parsers _ that(2)])
        show "closed_kv (w_gix w) H (w_repo w) (kv s')" using T(1) keeps_repo [of w kv H good ?K s' "w_repo w"] by (simp add: promo_ok_def repo_closed_def)
        show "oid_ok t" using t tips by blast
        show "stored (w_repo w) (kv s') t" using t K(4) by (intro at) blast
      qed
      then have "promotion_ok (w_gix w) H (w_repo w) (kv s') tips p" if "r = Inr p" for p
        using T(3) [OF that] at promotion_writes_distinct [OF K(3)] promotion_commits [OF K(6)]
        unfolding promotion_ok_def by auto
      with T(1,2) show ?thesis
        by (cases r) (auto simp: promo_ok_def keeps_def promote_error_def validate_error_def)
    qed
  qed
qed

text \<open>The frame of a put: another object that nobody stores meanwhile stays absent.\<close>

lemma odb_put_absent:
  assumes quiet: "\<forall>s s'. env s s' \<longrightarrow> \<not> stored (w_repo w) (kv s) c \<longrightarrow> \<not> stored (w_repo w) (kv s') c" and "i \<noteq> c"
  shows "eff_spec (\<lambda>s. \<not> stored (w_repo w) (kv s) c) (\<lambda>e. True) (\<lambda>x. True)
    (odb_put (w_db w) (w_os w) (w_zlib w) cfg (w_repo w) i kind body d)"
proof -
  let ?S = "eff_spec (\<lambda>s. \<not> stored (w_repo w) (kv s) c) (\<lambda>e. True) (\<lambda>x. True)"
  have any: "?S m" if "\<And>s r s'. m s = (r, s') \<Longrightarrow> \<not> stored (w_repo w) (kv s) c \<Longrightarrow> \<not> stored (w_repo w) (kv s') c" for m
    by (rule eff_specI) (use that in \<open>auto split: sum.splits\<close>)
  have exists': "?S (object_exists (w_db w) (w_repo w) i)" by (rule any) (use object_exists_run quiet in blast)
  have blob: "?S (blobs_put (w_os w) i z)" for z
    by (rule any) (use os_put_law quiet in \<open>fastforce simp: blobs_put_def\<close>)
  have "\<not> stored (w_repo w) (kv s') c"
    if run: "db_put (w_db w) (object_key (w_repo w) i) v b s = (r, s')" and s: "\<not> stored (w_repo w) (kv s) c" for v b s r s'
    using put_law [OF run]
  proof
    assume "\<exists>u. env s u \<and> rest s' = rest u \<and> kv s' = (kv u)(object_key (w_repo w) i \<mapsto> v)"
    then obtain u where "env s u" "kv s' = (kv u)(object_key (w_repo w) i \<mapsto> v)" by blast
    moreover from this(1) have "\<not> stored (w_repo w) (kv u) c" using quiet s by blast
    ultimately show ?thesis using assms(2) by (simp add: stored_def)
  qed (use quiet s in blast)
  then have put: "?S (put_object (w_db w) (w_repo w) i rec d)" for rec
    unfolding put_object_def by (rule eff_spec_map_err [OF any]) auto
  show ?thesis
    unfolding odb_put_eq
    by (rule eff_spec_bind [OF eff_spec_map_err [OF exists']], simp, rule eff_spec_if, rule eff_spec_return, simp,
        rule eff_spec_bind [where Q = "\<lambda>x. True"], rule eff_spec_if)
      (auto intro: eff_spec_map_err [OF blob] eff_spec_map_err [OF put] eff_spec_return)
qed

lemma put_list_frame:
  assumes quiet: "\<forall>s s'. env s s' \<longrightarrow> \<not> stored (w_repo w) (kv s) c \<longrightarrow> \<not> stored (w_repo w) (kv s') c"
    and "odb_ok (w_zlib w) H (kv s) (rest s)" and "\<forall>x\<in>set objs. entry_good x"
    and "c \<notin> fst ` set objs" and "\<not> stored (w_repo w) (kv s) c"
    and "put_list w cfg objs s = (Inr (), s')" and level: "compression_level cfg \<le> 9"
  shows "\<not> stored (w_repo w) (kv s') c \<and> odb_grows (kv s) (rest s) (kv s') (rest s') \<and>
    (\<forall>x\<in>set objs. stored (w_repo w) (kv s') (fst x))"
  using assms(2-6)
proof (induction objs arbitrary: s)
  case Nil
  then show ?case by (simp add: eff_return_def odb_grows_def)
next
  case (Cons x objs)
  obtain i kind body where x: "x = (i, kind, body)" by (cases x)
  from Cons.prems(5) obtain s1 where put: "odb_put (w_db w) (w_os w) (w_zlib w) cfg (w_repo w) i kind body Relaxed s = (Inr (), s1)"
    and run: "put_list w cfg objs s1 = (Inr (), s')" by (auto simp: x effect_simps)
  have P: "odb_ok (w_zlib w) H (kv s1) (rest s1)" "odb_grows (kv s) (rest s) (kv s1) (rest s1)" "stored (w_repo w) (kv s1) i"
    using odb_put_run [OF objects_rely zlib_laws Cons.prems(1) _ _ _ level put] Cons.prems(2) by (auto simp: x entry_good_def stored_def)
  have "\<not> stored (w_repo w) (kv s1) c"
    using eff_specD(1) [OF odb_put_absent [OF quiet] put] Cons.prems(3,4) by (auto simp: x)
  from Cons.IH [OF P(1) _ _ this run] Cons.prems(2,3)
  have "\<not> stored (w_repo w) (kv s') c" "odb_grows (kv s1) (rest s1) (kv s') (rest s')" "\<forall>x\<in>set objs. stored (w_repo w) (kv s') (fst x)"
    by auto
  moreover from this(2) P(3) have "stored (w_repo w) (kv s') i" by (simp add: odb_grows_def stored_def)
  moreover note odb_grows_trans [OF P(2) calculation(2)]
  ultimately show ?case by (simp add: x)
qed

lemma misgrouped_run:
  assumes staged: "staged_ok H staged" and acyc: "acyclic (child_rel (w_gix w) H)"
    and tips: "\<forall>i\<in>set tips. oid_ok i" and ok: "promo_ok w kv rest H good {} s"
    and run: "validate w staged tips s = (Inr post, s1)"
    and i: "(i, kind, body) \<in> set post" and c: "(c, kind', body') \<in> set post" and rank: "kind_rank kind < kind_rank kind'"
    and quiet: "\<forall>s s'. env s s' \<longrightarrow> \<not> stored (w_repo w) (kv s) c \<longrightarrow> \<not> stored (w_repo w) (kv s') c"
    and new: "\<not> stored (w_repo w) (kv s1) c"
    and cut: "put_list w cfg (take (length (filter (\<lambda>(i, k, body). kind_rank k \<le> kind_rank kind) post)) (promotion_writes post)) s1 =
      (Inr (), s2)" and level: "compression_level cfg \<le> 9"
  shows "oid_ok i \<and> stored (w_repo w) (kv s2) i \<and> \<not> stored (w_repo w) (kv s2) c"
proof -
  let ?ws = "take (length (filter (\<lambda>(i, k, body). kind_rank k \<le> kind_rank kind) post)) (promotion_writes post)"
  note ws = promotion_writes_prefix [of kind post]
  from validate_run [OF staged acyc tips ok run] obtain K where
    K: "promo_ok w kv rest H good K s1" "distinct (map fst post)" "\<forall>x\<in>set post. entry_good x" by auto
  have odb: "odb_ok (w_zlib w) H (kv s1) (rest s1)" using K(1) by (simp add: promo_ok_def walk_ok_def)
  have entries: "\<forall>x\<in>set ?ws. entry_good x" using K(3) ws by simp
  have first: "(i, kind, body) \<in> set ?ws" using i ws by simp
  have later: "c \<notin> fst ` set ?ws"
  proof
    assume "c \<in> fst ` set ?ws"
    then obtain y where "(c, y) \<in> set post" "kind_rank (fst y) \<le> kind_rank kind" unfolding ws by auto
    with eq_key_imp_eq_value [OF K(2) c] rank show False by fastforce
  qed
  note F = put_list_frame [OF quiet odb entries later new cut level]
  from bspec [OF conjunct2 [OF conjunct2 [OF F]] first] have "stored (w_repo w) (kv s2) i" by simp
  moreover from bspec [OF K(3) i] have "oid_ok i" by (simp add: entry_good_def)
  ultimately show ?thesis using F by blast
qed

end

section \<open>Properties\<close>

text \<open>C7: A push never leaves storage with a dangling reference, as long as none of the objects names one of a
  later kind in the order blob, tree, commit, tag, which validation does not check: whatever
  fails, and with other writers active, validating and promoting a staged pack of such objects keeps every stored object
  the content its id names, every stored object's references stored and every ref's object stored, in every repository. When it succeeds,
  everything its tips reach is stored. It fails only for storage and staging failures, objects
  that do not parse, and objects the tips reach that are neither staged nor stored.\<close>

theorem promotion_keeps_closure:
  assumes "promote_env w kv rest env snap reads writes H good"
    and "staged_ok H staged" and "acyclic (child_rel (w_gix w) H)" and "kinds_ranked (w_gix w) H"
    and "list_all oid_ok tips" and "walk_ok w kv rest H good s" and "storage_closed (w_gix w) H good (kv s)"
    and "compression_level cfg \<le> 9" and "validate_and_promote w cfg staged tips s = (r, s')"
  shows "walk_ok w kv rest H good s' \<and> storage_closed (w_gix w) H good (kv s') \<and>
    (case r of
       Inl e \<Rightarrow> (\<exists>x. e = PObjects x) \<or> promote_error (w_gix w) H staged tips (w_fuel w) e
     | Inr p \<Rightarrow> promotion_ok (w_gix w) H (w_repo w) (kv s') tips p)"
proof -
  have "promo_ok w kv rest H good {} s" using assms(6,7) by (simp add: promo_ok_def keeps_def walk_ok_def)
  from promote_env.promote_run [OF assms(1-4) _ this assms(8,9)] assms(5) show ?thesis
    by (auto simp: promo_ok_def keeps_def list_all_iff)
qed

text \<open>C8: When no object names one of a later kind in the order blob, tree, commit, tag, a promotion cut off after any number of
  its writes, in the order it issues them, leaves storage closed: a crash loses objects, never an object's
  references. Validation does not check the condition, and without it the statement fails.\<close>

theorem promotion_crash_safe:
  assumes "promote_env w kv rest env snap reads writes H good"
    and "staged_ok H staged" and "acyclic (child_rel (w_gix w) H)" and "kinds_ranked (w_gix w) H"
    and "list_all oid_ok tips" and "walk_ok w kv rest H good s" and "storage_closed (w_gix w) H good (kv s)"
    and "validate w staged tips s = (Inr post, s1)" and "compression_level cfg \<le> 9"
    and "put_list w cfg (take n (promotion_writes post)) s1 = (r, s2)"
  shows "walk_ok w kv rest H good s2 \<and> storage_closed (w_gix w) H good (kv s2)"
proof -
  have "promo_ok w kv rest H good {} s" using assms(6,7) by (simp add: promo_ok_def keeps_def walk_ok_def)
  moreover have "\<forall>i\<in>set tips. oid_ok i" using assms(5) by (simp add: list_all_iff)
  ultimately obtain K where "promo_ok w kv rest H good K s2"
    using promote_env.cut_run [OF assms(1-4) _ _ assms(8-10)] by blast
  then show ?thesis by (simp add: promo_ok_def keeps_def)
qed

text \<open>C9: A push whose validation fails writes nothing: the storage changes only by what other writers did,
  and the connectivity error names an object a tip reaches that was not sent.\<close>

theorem rejected_push_writes_nothing:
  assumes "promote_env w kv rest env snap reads writes H good"
    and "staged_ok H staged" and "acyclic (child_rel (w_gix w) H)"
    and "list_all oid_ok tips" and "walk_ok w kv rest H good s" and "storage_closed (w_gix w) H good (kv s)"
    and "validate w staged tips s = (Inl e, s1)"
  shows "validate_and_promote w cfg staged tips s = (Inl e, s1) \<and> env s s1 \<and>
    promote_error (w_gix w) H staged tips (w_fuel w) e"
proof -
  have "promo_ok w kv rest H good {} s" using assms(5,6) by (simp add: promo_ok_def keeps_def walk_ok_def)
  from promote_env.validate_run [OF assms(1-3) _ this assms(7)] assms(4,7) show ?thesis
    by (simp add: promote_error_def list_all_iff validate_and_promote_eq eff_bind_def)
qed

section \<open>Witnesses\<close>

text \<open>A table of objects whose references go down in a rank, and never to a later kind.\<close>

definition table_ranked :: "(ObjectId \<Rightarrow> nat) \<Rightarrow> object_table \<Rightarrow> bool" where
  "table_ranked f objs \<longleftrightarrow>
     list_all (\<lambda>(i, kind, body). list_all (\<lambda>c. f c < f i \<and> rank_of (map_of objs) c \<le> kind_rank kind)
       (children_of flat_gix (map_of objs) i)) objs"

lemma table_ranked_child:
  assumes "table_ranked f objs" and "c \<in> set (children_of flat_gix (map_of objs) i)"
  obtains kind body where "map_of objs i = Some (kind, body)" "f c < f i" "rank_of (map_of objs) c \<le> kind_rank kind"
proof -
  obtain kind body where i: "map_of objs i = Some (kind, body)"
    using assms(2) by (cases "map_of objs i") (auto simp: children_of_def)
  from map_of_SomeD [OF this] assms have "f c < f i \<and> rank_of (map_of objs) c \<le> kind_rank kind"
    unfolding table_ranked_def list_all_iff by fastforce
  with i that show thesis by blast
qed

lemma table_acyclic:
  assumes "table_ranked f objs"
  shows "acyclic (child_rel flat_gix (map_of objs))"
proof (rule acyclic_subset)
  show "acyclic ((measure f)\<inverse>)" using wf_acyclic [OF wf_measure] by simp
  show "child_rel flat_gix (map_of objs) \<subseteq> (measure f)\<inverse>"
    using assms by (auto simp: child_rel_def elim: table_ranked_child)
qed

lemma table_kinds_ranked:
  assumes "table_ranked f objs"
  shows "kinds_ranked flat_gix (map_of objs)"
  unfolding kinds_ranked_def
proof (intro allI impI)
  fix i c kind body kind' body'
  assume "c \<in> set (children_of flat_gix (map_of objs) i)" "map_of objs i = Some (kind, body)" "map_of objs c = Some (kind', body')"
  then show "kind_rank kind' \<le> kind_rank kind" using table_ranked_child [OF assms, of c i] by (auto simp: rank_of_def)
qed

definition table_staged :: "object_table \<Rightarrow> StagedPack" where
  "table_staged objs = \<lparr>pack_bundle = Some \<lparr>bundle_lookup = (\<lambda>i. if map_of objs i = None then None else Some 0),
     bundle_offset = (\<lambda>n. n), bundle_header = (\<lambda>n. Inl ()), bundle_find = (\<lambda>i. Inr (map_of objs i)), bundle_iter = [],
     bundle_count = word_of_nat (length objs)\<rparr>\<rparr>"

lemma table_staged_ok:
  assumes "list_all (\<lambda>(i, kind, body). length body \<le> 1000) all" and "map_of objs \<subseteq>\<^sub>m map_of all"
  shows "staged_ok (map_of all) (table_staged objs)"
proof -
  have "length body < 2 ^ 64" if "map_of all i = Some (kind, body)" for i kind body
    using assms(1) map_of_SomeD [OF that] by (auto simp: list_all_iff)
  moreover have "map_of all i = Some (kind, body)" if "map_of objs i = Some (kind, body)" for i kind body
    using assms(2) that by (auto simp: map_le_def dest!: bspec [of _ _ i])
  ultimately show ?thesis by (auto simp: staged_ok_def table_staged_def staged_read_def map_err_def)
qed

lemma table_part:
  assumes "list_all (\<lambda>(i, kind, body). map_of all i = Some (kind, body)) objs"
  shows "map_of objs \<subseteq>\<^sub>m map_of all"
proof -
  have "map_of all i = Some (kind, body)" if "map_of objs i = Some (kind, body)" for i kind body
    using assms map_of_SomeD [OF that] by (auto simp: list_all_iff)
  then show ?thesis by (auto simp: map_le_def)
qed

text \<open>Storage holds the first commit of the small history; the whole history is pushed.\<close>

definition push_base :: object_table where
  "push_base = filter (\<lambda>(i, kind, body). i \<in> {sid 1, sid 11, sid 13, sid 21, sid 23}) small_objects"

abbreviation push_world :: mem_world where
  "push_world \<equiv> repo_world (RepoId 3) push_base"

abbreviation push_walker :: "(mem_world, mem_txn) walker" where
  "push_walker \<equiv> mem_walker (RepoId 3) 50"

definition push_rank :: "ObjectId \<Rightarrow> nat" where
  "push_rank i = (if i = sid 3 then 5 else if i = sid 2 then 4 else if i = sid 1 then 3
     else if i = sid 11 \<or> i = sid 12 then 2 else if i = sid 13 then 1 else 0)"

lemma small_ranked: "table_ranked push_rank small_objects"
  by code_simp

lemma push_base_part: "map_of push_base \<subseteq>\<^sub>m map_of small_objects"
  by (rule table_part) code_simp

interpretation mem_promotes: promote_env "mem_walker repo fuel" mem_kv mem_rest "(=)" "\<lambda>t. map_of (t_snap t)"
    "\<lambda>t. set (t_reads t)" "\<lambda>t. map_of (t_writes t)" H "\<lambda>i g. True" for repo fuel H
  by unfold_locales (use stored_zlib_ok in \<open>auto simp: mem_walker_def\<close>)

lemma mem_stored: "stored repo' (mem_kv (repo_world repo objs)) i \<longleftrightarrow> repo' = repo \<and> map_of objs i \<noteq> None"
  by (simp add: stored_def mem_kv_def repo_world_def object_rows_lookup)

lemma push_base_closed: "storage_closed flat_gix (map_of small_objects) good (mem_kv push_world)"
proof -
  have all: "list_all (\<lambda>(i, kind, body). list_all (\<lambda>c. map_of push_base c \<noteq> None) (children_of flat_gix (map_of small_objects) i)) push_base"
    by code_simp
  have "map_of push_base c \<noteq> None" if "map_of push_base i = Some (kind, body)" "c \<in> set (children_of flat_gix (map_of small_objects) i)" for i c kind body
    using all map_of_SomeD [OF that(1)] that(2) unfolding list_all_iff by fastforce
  then have "closed_kv flat_gix (map_of small_objects) repo (mem_kv push_world)" for repo
    unfolding closed_kv_def mem_stored by (metis not_None_eq old.prod.exhaust)
  moreover have "graph_ok flat_gix (map_of small_objects) good repo (mem_kv push_world)"
    "refs_stored repo (mem_kv push_world)" for repo
    by (simp_all add: graph_ok_def refs_stored_def ref_view_def mem_kv_def repo_world_def)
  ultimately show ?thesis by (simp add: storage_closed_def repo_closed_def)
qed

lemma push_base_bodies: "list_all (\<lambda>(i, kind, body). length body \<le> 1000) push_base"
  by code_simp

definition small_promotion :: Promotion where
  "small_promotion = \<lparr>promoted = [sid 22, sid 12, sid 2, sid 3], promo_commits = [sid 2]\<rparr>"

lemma small_promote:
  "validate_and_promote push_walker inline_cfg (table_staged small_objects) [sid 3] push_world =
     (Inr small_promotion, snd (validate_and_promote push_walker inline_cfg (table_staged small_objects) [sid 3] push_world))"
  by (rule prod_eqI) (code_simp, simp)

lemmas small_push_facts = mem_promotes.promote_env_axioms table_staged_ok [OF small_bodies map_le_refl] table_acyclic [OF small_ranked]
  table_kinds_ranked [OF small_ranked] mem_walk_part_ok [OF push_base_bodies push_base_part] push_base_closed

theorem promotion_keeps_closure_witness:
  "promotion_ok flat_gix (map_of small_objects) (RepoId 3)
     (mem_kv (snd (validate_and_promote push_walker inline_cfg (table_staged small_objects) [sid 3] push_world))) [sid 3] small_promotion"
  using promotion_keeps_closure [OF small_push_facts(1,2) _ _ _ small_push_facts(5) _ _ small_promote] small_push_facts(3,4,6)
  by (simp add: mem_walker_def inline_level)

definition small_post :: "(ObjectId \<times> Kind \<times> bytes) list" where
  "small_post = [(sid 22, KBlob, [2, 2]), (sid 12, KTree, [0, 97] @ sid 13 @ [2, 98] @ sid 22 @ [1, 99] @ sid 99),
     (sid 2, KCommit, sid 12 @ sid 1), (sid 3, KTag, sid 2)]"

lemma small_validate:
  "validate push_walker (table_staged small_objects) [sid 3] push_world =
     (Inr small_post, snd (validate push_walker (table_staged small_objects) [sid 3] push_world))"
  by (rule prod_eqI) (code_simp, simp)

definition cut_world :: mem_world where
  "cut_world = snd (put_list push_walker inline_cfg (take 2 (promotion_writes small_post))
     (snd (validate push_walker (table_staged small_objects) [sid 3] push_world)))"

lemma small_cut:
  "put_list push_walker inline_cfg (take 2 (promotion_writes small_post))
     (snd (validate push_walker (table_staged small_objects) [sid 3] push_world)) = (Inr (), cut_world)"
  by (rule prod_eqI) (code_simp, simp add: cut_world_def)

theorem promotion_crash_safe_witness:
  "storage_closed flat_gix (map_of small_objects) (\<lambda>i g. True) (mem_kv cut_world) \<and> stored (RepoId 3) (mem_kv cut_world) (sid 12) \<and>
     \<not> stored (RepoId 3) (mem_kv cut_world) (sid 2)"
proof -
  have "stored (RepoId 3) (mem_kv cut_world) (sid 12)" "\<not> stored (RepoId 3) (mem_kv cut_world) (sid 2)" by code_simp+
  with promotion_crash_safe [OF small_push_facts(1,2) _ _ _ small_push_facts(5) _ small_validate _ small_cut] small_push_facts(3,4,6)
  show ?thesis by (simp add: mem_walker_def inline_level)
qed

text \<open>The pushed pack lacks a blob.\<close>

definition short_pack :: object_table where
  "short_pack = filter (\<lambda>(i, kind, body). i \<noteq> sid 22) small_objects"

lemma short_pack_part: "map_of short_pack \<subseteq>\<^sub>m map_of small_objects"
  by (rule table_part) code_simp

lemma short_validate:
  "validate push_walker (table_staged short_pack) [sid 3] push_world = (Inl (PConnectivity (sid 22) (Some (sid 12))), push_world)"
  by code_simp

theorem rejected_push_writes_nothing_witness:
  "validate_and_promote push_walker inline_cfg (table_staged short_pack) [sid 3] push_world =
     (Inl (PConnectivity (sid 22) (Some (sid 12))), push_world)"
  using rejected_push_writes_nothing [OF small_push_facts(1) table_staged_ok [OF small_bodies short_pack_part] _ _
      small_push_facts(5) _ short_validate, of inline_cfg] small_push_facts(3,6)
  by (simp add: mem_walker_def)

section \<open>A reference against the order of kinds\<close>

text \<open>Tree 31 has an entry of blob mode that names commit 32; nothing checks the kind of what an entry names.\<close>

definition odd_objects :: object_table where
  "odd_objects =
    [(sid 31, KTree, [2, 98] @ sid 32), (sid 32, KCommit, sid 33), (sid 33, KTree, []), (sid 34, KCommit, sid 31)]"

definition odd_post :: "(ObjectId \<times> Kind \<times> bytes) list" where
  "odd_post = [(sid 33, KTree, []), (sid 32, KCommit, sid 33), (sid 31, KTree, [2, 98] @ sid 32), (sid 34, KCommit, sid 31)]"

lemma odd_validate: "validate push_walker (table_staged odd_objects) [sid 34] ([], []) = (Inr odd_post, ([], []))"
  by code_simp

definition odd_world :: mem_world where
  "odd_world = snd (put_list push_walker inline_cfg (take 2 (promotion_writes odd_post)) ([], []))"

lemma odd_child: "sid 32 \<in> set (children_of flat_gix (map_of odd_objects) (sid 31))"
  by code_simp

lemma odd_put: "put_list push_walker inline_cfg (take 2 (promotion_writes odd_post)) ([], []) = (Inr (), odd_world)"
proof -
  have "fst (put_list push_walker inline_cfg (take 2 (promotion_writes odd_post)) ([], [])) = Inr ()" by code_simp
  then show ?thesis by (intro prod_eqI) (simp_all add: odd_world_def)
qed

text \<open>C40: The write order is only as good as the order of kinds: when a validated push holds an object and one of a later kind
  that it names, such as a tree whose entry of blob mode names a commit, then a promotion cut off after its writes up to the kind
  of the first, grouped by kind as it issues them, leaves storage with an object whose reference is
  missing, unless that was stored before or someone else stores it.\<close>

theorem misgrouped_promotion_dangles:
  assumes "promote_env w kv rest env snap reads writes H good"
    and "staged_ok H staged" and "acyclic (child_rel (w_gix w) H)"
    and "list_all oid_ok tips" and "walk_ok w kv rest H good s" and "storage_closed (w_gix w) H good (kv s)"
    and "validate w staged tips s = (Inr post, s1)"
    and "(i, kind, body) \<in> set post" and "(c, kind', body') \<in> set post" and "kind_rank kind < kind_rank kind'"
    and "c \<in> set (children_of (w_gix w) H i)"
    and "\<not> stored (w_repo w) (kv s1) c"
    and "\<forall>s s'. env s s' \<longrightarrow> \<not> stored (w_repo w) (kv s) c \<longrightarrow> \<not> stored (w_repo w) (kv s') c"
    and "put_list w cfg (take (length (filter (\<lambda>(i, k, body). kind_rank k \<le> kind_rank kind) post)) (promotion_writes post)) s1 =
      (Inr (), s2)" and "compression_level cfg \<le> 9"
  shows "stored (w_repo w) (kv s2) i \<and> \<not> stored (w_repo w) (kv s2) c \<and> \<not> closed_kv (w_gix w) H (w_repo w) (kv s2)"
proof -
  have "promo_ok w kv rest H good {} s" using assms(5,6) by (simp add: promo_ok_def keeps_def walk_ok_def)
  moreover have "\<forall>i\<in>set tips. oid_ok i" using assms(4) by (simp add: list_all_iff)
  ultimately have "oid_ok i \<and> stored (w_repo w) (kv s2) i \<and> \<not> stored (w_repo w) (kv s2) c"
    using promote_env.misgrouped_run [OF assms(1-3) _ _ assms(7-10,13,12,14,15)] by blast
  with assms(11) show ?thesis unfolding closed_kv_def by blast
qed

text \<open>The push of the odd tree is validated, and the writes that store the tree and not yet the commit go through.\<close>

definition odd_rank :: "ObjectId \<Rightarrow> nat" where
  "odd_rank i = (if i = sid 34 then 3 else if i = sid 31 then 2 else if i = sid 32 then 1 else 0)"

lemma odd_acyclic: "acyclic (child_rel flat_gix (map_of odd_objects))"
proof (rule acyclic_subset)
  have all: "list_all (\<lambda>(i, kind, body). list_all (\<lambda>c. odd_rank c < odd_rank i) (children_of flat_gix (map_of odd_objects) i)) odd_objects"
    by code_simp
  have "odd_rank c < odd_rank i" if c: "c \<in> set (children_of flat_gix (map_of odd_objects) i)" for i c
  proof -
    obtain kind body where "map_of odd_objects i = Some (kind, body)" using c by (cases "map_of odd_objects i") (auto simp: children_of_def)
    from map_of_SomeD [OF this] all c show ?thesis unfolding list_all_iff by fastforce
  qed
  then show "child_rel flat_gix (map_of odd_objects) \<subseteq> (measure odd_rank)\<inverse>" by (auto simp: child_rel_def)
  show "acyclic ((measure odd_rank)\<inverse>)" using wf_acyclic [OF wf_measure] by simp
qed

lemma odd_start:
  "staged_ok (map_of odd_objects) (table_staged odd_objects)"
  "walk_ok push_walker mem_kv mem_rest (map_of odd_objects) (\<lambda>i g. True) ([], [])"
  "storage_closed flat_gix (map_of odd_objects) (\<lambda>i g. True) (mem_kv ([], []))"
proof -
  have "list_all (\<lambda>(i, kind, body). length body \<le> 1000) odd_objects" by code_simp
  then show "staged_ok (map_of odd_objects) (table_staged odd_objects)" by (rule table_staged_ok) (rule map_le_refl)
  show "walk_ok push_walker mem_kv mem_rest (map_of odd_objects) (\<lambda>i g. True) ([], [])"
    using odb_ok_empty by (simp add: walk_ok_def graph_ok_def mem_kv_def mem_walker_def)
  show "storage_closed flat_gix (map_of odd_objects) (\<lambda>i g. True) (mem_kv ([], []))"
    by (simp add: storage_closed_def repo_closed_def closed_kv_def graph_ok_def refs_stored_def ref_view_def stored_def mem_kv_def)
qed

theorem misgrouped_promotion_dangles_witness:
  "stored (RepoId 3) (mem_kv odd_world) (sid 31) \<and> \<not> stored (RepoId 3) (mem_kv odd_world) (sid 32) \<and>
   \<not> closed_kv flat_gix (map_of odd_objects) (RepoId 3) (mem_kv odd_world)"
proof -
  have n: "length (filter (\<lambda>(i, k, body). kind_rank k \<le> Suc 0) odd_post) = 2" by code_simp
  have "(sid 31, KTree, [2, 98] @ sid 32) \<in> set odd_post" "(sid 32, KCommit, sid 33) \<in> set odd_post" by (simp_all add: odd_post_def)
  moreover have "\<not> stored (RepoId 3) (mem_kv ([], [])) (sid 32)" by (simp add: stored_def mem_kv_def)
  ultimately show ?thesis
    using misgrouped_promotion_dangles [OF mem_promotes.promote_env_axioms odd_start(1) _ _ odd_start(2) _ odd_validate,
        of "sid 31" KTree _ "sid 32" KCommit _ inline_cfg odd_world] odd_put odd_acyclic odd_start(3) odd_child
    by (simp add: n mem_walker_def inline_level)
qed

end
