(* ===== verification/Store_Frame.thy ===== *)
theory Store_Frame
  imports Registry
begin

text \<open>
  What the store's operations keep: an invariant of the world that other clients keep is kept by
  every read, and by a transaction whose buffered writes keep it, whatever the operation returns.
\<close>

text \<open>The writes a batch of ref updates can buffer.\<close>

definition ref_writes :: "RepoId \<Rightarrow> RefUpdate list \<Rightarrow> (bytes \<rightharpoonup> bytes option) \<Rightarrow> bool" where
  "ref_writes repo us W \<longleftrightarrow>
     (\<forall>k v. W k = Some v \<longrightarrow> (\<exists>u\<in>set us. k = ref_key repo (upd_name u) \<and> v = map_option (target_encode \<circ> Direct) (upd_new u)))"

lemma ref_writes_empty [simp]: "ref_writes repo us Map.empty"
  by (simp add: ref_writes_def)

lemma ref_writes_upd:
  "ref_writes repo us W \<Longrightarrow> u \<in> set us \<Longrightarrow>
    ref_writes repo us (W(ref_key repo (upd_name u) \<mapsto> map_option (target_encode \<circ> Direct) (upd_new u)))"
  by (auto simp: ref_writes_def)

locale store_client = slatedb_laws db kv rest env snap reads writes
  for db :: "('s, 't) slatedb" and kv :: "'s \<Rightarrow> kvmap" and rest :: "'s \<Rightarrow> 'o" and env :: "'s \<Rightarrow> 's \<Rightarrow> bool"
    and snap :: "'t \<Rightarrow> kvmap" and reads :: "'t \<Rightarrow> bytes set" and writes :: "'t \<Rightarrow> (bytes \<rightharpoonup> bytes option)" +
  fixes I :: "'s \<Rightarrow> bool"
  assumes I_env: "env s s' \<Longrightarrow> I s \<Longrightarrow> I s'"
begin

definition safe_writes :: "(kvmap \<Rightarrow> kvmap) \<Rightarrow> bool" where
  "safe_writes f \<longleftrightarrow> (\<forall>u s'. I u \<longrightarrow> rest s' = rest u \<longrightarrow> kv s' = f (kv u) \<longrightarrow> I s')"

lemma env_steps_keep:
  assumes "\<And>s r s'. m s = (r, s') \<Longrightarrow> env s s' \<and> (\<forall>x. r = Inr x \<longrightarrow> P x)"
  shows "eff_spec I (\<lambda>e. True) P m"
proof (rule eff_specI)
  fix s r s' assume "I s" "m s = (r, s')"
  with assms [of s r s'] I_env [of s s'] show "I s' \<and> (case r of Inl e \<Rightarrow> True | Inr x \<Rightarrow> P x)" by (auto split: sum.splits)
qed

lemma keep_get: "eff_spec I (\<lambda>e. True) (\<lambda>v. True) (db_get db k)"
  by (rule env_steps_keep) (use get_law in blast)

lemma keep_scan: "eff_spec I (\<lambda>e. True) (\<lambda>v. True) (db_scan_prefix db p)"
  by (rule env_steps_keep) (use scan_law in blast)

lemma keep_begin: "eff_spec I (\<lambda>e. True) (\<lambda>t. writes t = Map.empty) (eff_map_err SDb (db_begin db))"
  by (rule eff_spec_map_err [OF env_steps_keep]) (use begin_law in auto)

lemma keep_txn_get: "eff_spec I (\<lambda>e. True) (\<lambda>(v, t'). writes t' = writes t) (eff_map_err SDb (txn_get db t k))"
  by (rule eff_spec_map_err [OF env_steps_keep]) (use txn_get_law in auto)

lemma keep_commit:
  assumes "safe_writes (apply_writes (writes t))"
  shows "eff_spec I (\<lambda>e. True) (\<lambda>x. True) (txn_commit db t)"
proof (rule eff_specI)
  fix s r s' assume s: "I s" and run: "txn_commit db t s = (r, s')"
  from commit_law [OF run] have "I s'"
  proof
    assume "\<exists>u. env s u \<and> rest s' = rest u \<and> (\<forall>k\<in>reads t. kv u k = snap t k) \<and>
      kv s' = apply_writes (writes t) (kv u) \<and> r \<noteq> Inl TransactionError"
    then obtain u where "env s u" "rest s' = rest u" "kv s' = apply_writes (writes t) (kv u)" by blast
    with assms I_env [OF _ s] show ?thesis unfolding safe_writes_def by blast
  qed (use I_env [OF _ s] in blast)
  then show "I s' \<and> (case r of Inl e \<Rightarrow> True | Inr x \<Rightarrow> True)" by (simp split: sum.splits)
qed

section \<open>The registry\<close>

lemma keep_get_meta: "eff_spec I (\<lambda>e. True) (\<lambda>v. True) (get_meta db i name)"
  unfolding get_meta_def by (rule eff_spec_bind [OF eff_spec_map_err [OF keep_get]]) (auto intro: eff_spec_lift)

lemma keep_read_meta: "eff_spec I (\<lambda>e. True) (\<lambda>v. True) (read_repo_meta db i)"
  unfolding read_repo_meta_def
  by (rule eff_spec_bind [OF keep_get_meta], rule eff_spec_bind [where Q = "\<lambda>x. True"], rule eff_spec_lift, simp, simp,
      rule eff_spec_bind [OF keep_get_meta], rule eff_spec_bind [where Q = "\<lambda>x. True"], rule eff_spec_lift, simp, simp)
    (rule eff_spec_return, simp)

lemma keep_lookup: "eff_spec I (\<lambda>e. True) (\<lambda>v. True) (lookup_repo db name)"
proof -
  have id: "eff_spec I (\<lambda>e. True) (\<lambda>v. True) (read_repo_id db name)"
    unfolding read_repo_id_def Let_def
    by (rule eff_spec_bind [OF eff_spec_map_err [OF keep_get]]) (auto intro: eff_spec_lift)
  show ?thesis
    unfolding lookup_repo_def
    by (rule eff_spec_bind [OF id], rule eff_spec_option)
      (auto intro!: eff_spec_bind [OF keep_read_meta])
qed

lemma keep_create:
  assumes safe: "\<And>n. safe_writes (put_entries (create_entries name n))"
  shows "eff_spec I (\<lambda>e. True) (\<lambda>v. True) (create_attempts db name k)"
proof (induction k)
  case (Suc k)
  have alloc: "eff_spec I (\<lambda>e. True) (\<lambda>v. True) (create_alloc db name t)" if t: "writes t = Map.empty" for t
    unfolding create_alloc_def
  proof (rule eff_spec_bind [OF keep_txn_get], clarify, rule eff_spec_bind [where Q = "\<lambda>x. True"], rule eff_spec_lift, simp, simp,
      rule eff_spec_bind [where Q = "\<lambda>t2. safe_writes (apply_writes (writes t2))"], rule eff_spec_lift, simp)
    fix c t1 n t2 assume "writes t1 = writes t" "map_err SDb (txn_puts db t1 (create_entries name n)) = Inr t2"
    then show "safe_writes (apply_writes (writes t2))"
      using txn_puts_law [of t1 "create_entries name n" t2] safe [of n] t by (simp add: safe_writes_def)
  qed (auto intro!: eff_spec_bind [OF eff_spec_attempt [OF keep_commit]] eff_spec_return)
  have again: "eff_spec I (\<lambda>e. True) (\<lambda>v. True)
      (case r of Inr meta \<Rightarrow> eff_return meta | Inl e \<Rightarrow> if is_conflict e then create_attempts db name k else eff_fail (SDb e))" for r
    using Suc by (cases r) auto
  show ?case
    unfolding create_attempts.simps Let_def
    by (rule eff_spec_bind [OF keep_begin], rule eff_spec_bind [OF keep_txn_get], clarify, rule eff_spec_option,
        rule eff_spec_bind [OF alloc], simp, rule again)
      (auto intro!: eff_spec_bind [where Q = "\<lambda>x. True"] eff_spec_lift keep_read_meta)
qed auto

lemma keep_get_or_create:
  assumes "\<And>n. safe_writes (put_entries (create_entries name n))"
  shows "eff_spec I (\<lambda>e. True) (\<lambda>v. True) (get_or_create_repo db name)"
  unfolding get_or_create_repo_def create_repo_def
  by (rule eff_spec_bind [OF keep_lookup], rule eff_spec_option) (auto intro!: keep_create assms)

section \<open>Ref updates\<close>

lemma apply_update_writes:
  assumes "apply_update db repo u cur t = Inr (r, t')" and "ref_writes repo us (writes t)" and "u \<in> set us"
  shows "ref_writes repo us (writes t')"
proof -
  consider "t' = t" | i where "upd_new u = Some i" "txn_put db t (ref_key repo (upd_name u)) (target_encode (Direct i)) = Inr t'"
    | "upd_new u = None" "txn_delete db t (ref_key repo (upd_name u)) = Inr t'"
    using assms(1) by (auto simp: apply_update_def Let_def and_then_eq_Inr split: option.splits RefTarget.splits if_splits)
  then show ?thesis
  proof cases
    case (2 i)
    with txn_put_law [OF 2(2)] ref_writes_upd [OF assms(2,3)] show ?thesis by simp
  next
    case 3
    with txn_delete_law [OF 3(2)] ref_writes_upd [OF assms(2,3)] show ?thesis by simp
  qed (use assms(2) in simp)
qed

lemma keep_update_each:
  assumes "ref_writes repo us (writes t)" and "set vs \<subseteq> set us"
  shows "eff_spec I (\<lambda>e. True) (\<lambda>(rs, t'). ref_writes repo us (writes t')) (update_each db repo vs t)"
  using assms
proof (induction vs arbitrary: t)
  case (Cons v vs)
  have one: "eff_spec I (\<lambda>e. True) (\<lambda>(r, t'). ref_writes repo us (writes t')) (update_one db repo v t)"
    unfolding update_one_def
    by (rule eff_spec_bind [OF keep_txn_get], clarify, rule eff_spec_lift)
      (use Cons.prems apply_update_writes in \<open>auto simp: and_then_eq_Inr\<close>)
  show ?case
    unfolding update_each.simps
  proof (rule eff_spec_bind [OF one], clarify)
    fix r t1 assume t1: "ref_writes repo us (writes t1)"
    show "eff_spec I (\<lambda>e. True) (\<lambda>(rs, t'). ref_writes repo us (writes t'))
        (eff_bind (update_each db repo vs t1) (\<lambda>(rs, t). eff_return (r # rs, t)))"
      by (rule eff_spec_bind [OF Cons.IH [OF t1]]) (use Cons.prems in auto)
  qed
qed auto

lemma keep_update_refs:
  assumes "\<And>W. ref_writes repo us W \<Longrightarrow> safe_writes (apply_writes W)"
  shows "eff_spec I (\<lambda>e. True) (\<lambda>rs. True) (update_refs db repo us)"
proof -
  have "eff_spec I (\<lambda>e. True) (\<lambda>rs. True) (update_refs_loop db repo us n)" for n
  proof (induction n)
    case (Suc n)
    have each: "eff_spec I (\<lambda>e. True) (\<lambda>(rs, t'). safe_writes (apply_writes (writes t'))) (update_each db repo us t)"
      if "writes t = Map.empty" for t
      by (rule eff_spec_weaken [OF keep_update_each [of repo us]]) (use that assms in auto)
    have again: "eff_spec I (\<lambda>e. True) (\<lambda>rs. True)
        (case r of Inr _ \<Rightarrow> eff_return results | Inl e \<Rightarrow> if is_conflict e then update_refs_loop db repo us n else eff_fail (SDb e))"
      for r and results :: "RefUpdateResult list" using Suc by (cases r) auto
    show ?case
      unfolding update_refs_loop.simps
      by (rule eff_spec_bind [OF keep_begin], rule eff_spec_bind [OF each], assumption, clarify,
          rule eff_spec_bind [OF eff_spec_attempt [OF keep_commit]], assumption, rule again)
  qed auto
  then show ?thesis by (simp add: update_refs_def)
qed

end

interpretation mem_client: store_client mem_db mem_kv mem_rest "(=)" "\<lambda>t. map_of (t_snap t)"
    "\<lambda>t. set (t_reads t)" "\<lambda>t. map_of (t_writes t)" "\<lambda>s. registry_ok (mem_kv s)"
  by unfold_locales auto

end
