(* ===== verification/Receive_Correct.thy ===== *)
theory Receive_Correct
  imports Receive_Wire Push Store_Frame
begin

text \<open>
  The push endpoint over the storage stack: no request, failure or interleaving leaves a ref or
  an object whose references are missing, and what a report says is what happened to the refs.
\<close>

section \<open>The server's invariant\<close>

definition server_ok ::
    "('s, 't) AppState \<Rightarrow> ('s \<Rightarrow> kvmap) \<Rightarrow> ('s \<Rightarrow> (str \<rightharpoonup> bytes)) \<Rightarrow> (ObjectId \<rightharpoonup> Kind \<times> bytes)
      \<Rightarrow> (ObjectId \<Rightarrow> u32 \<Rightarrow> bool) \<Rightarrow> 's \<Rightarrow> bool" where
  "server_ok st kv rest H good s \<longleftrightarrow>
     odb_ok (st_zlib st) H (kv s) (rest s) \<and> storage_closed (st_gix st) H good (kv s)"

lemma promo_ok_server:
  "promo_ok (walker_new st r) kv rest H good K s \<longleftrightarrow> server_ok st kv rest H good s \<and> (\<forall>i\<in>K. stored r (kv s) i)"
  by (auto simp: promo_ok_def server_ok_def walk_ok_def keeps_def storage_closed_def repo_closed_def)

text \<open>
  What the verifying indexer documents: with bases that are what their ids name, every object of
  the bundle is what its id names; the ids of delta bases are well formed.
\<close>

definition indexer_ok :: "gix_pack \<Rightarrow> (ObjectId \<rightharpoonup> Kind \<times> bytes) \<Rightarrow> bool" where
  "indexer_ok gp H \<longleftrightarrow>
     (\<forall>pack hash bases b i x. gp_write gp pack hash bases = Inr (Some (Inr b)) \<longrightarrow> bases \<subseteq>\<^sub>m H \<longrightarrow>
        bundle_find b i = Inr (Some x) \<longrightarrow> H i = Some x) \<and>
     (\<forall>pack hash es i. gp_entries gp pack hash = Some es \<longrightarrow> Inr (RefDelta i) \<in> set es \<longrightarrow> oid_ok i)"

definition bodies_fit :: "(ObjectId \<rightharpoonup> Kind \<times> bytes) \<Rightarrow> bool" where
  "bodies_fit H \<longleftrightarrow> (\<forall>i kind body. H i = Some (kind, body) \<longrightarrow> length body < 2 ^ 64)"

lemma eff_spec_unmap:
  assumes "eff_spec I E P (eff_map_err g m)"
  shows "eff_spec I (\<lambda>e. E (g e)) P m"
proof (rule eff_specI)
  fix s r s' assume s: "I s" and run: "m s = (r, s')"
  then have "eff_map_err g m s = (map_err g r, s')" by (simp add: eff_map_err_def)
  from eff_specD [OF assms this s] show "I s' \<and> (case r of Inl e \<Rightarrow> E (g e) | Inr x \<Rightarrow> P x)" by (auto split: sum.splits)
qed

section \<open>Ingestion\<close>

context promote_env
begin

lemma odb_get_spec:
  assumes "oid_ok i"
  shows "eff_spec (promo_ok w kv rest H good K) (\<lambda>e. True) (\<lambda>c. c = None \<or> c = H i)
    (odb_get (w_db w) (w_os w) (w_zlib w) (w_repo w) i)"
  by (rule eff_spec_weaken [OF eff_spec_unmap [OF object_source.get_ok [OF promo_source assms, unfolded w_get_def]]]) auto

lemma prefetch_spec:
  assumes "\<forall>i\<in>set ids. oid_ok i" and "bases \<subseteq>\<^sub>m H"
  shows "eff_spec (promo_ok w kv rest H good K) (\<lambda>e. True) (\<lambda>b. b \<subseteq>\<^sub>m H) (prefetch_bases w bases ids)"
  using assms
proof (induction ids arbitrary: bases)
  case (Cons i ids)
  show ?case
    unfolding prefetch_bases.simps
  proof (rule eff_spec_bind [OF eff_spec_map_err [OF odb_get_spec]])
    fix r assume r: "r = None \<or> r = H i"
    have "bases(i \<mapsto> x) \<subseteq>\<^sub>m H" if "r = Some x" for x
      using Cons.prems(2) r that by (auto simp: map_le_def)
    then show "eff_spec (promo_ok w kv rest H good K) (\<lambda>e. True) (\<lambda>b. b \<subseteq>\<^sub>m H)
        (case r of None \<Rightarrow> prefetch_bases w bases ids | Some object \<Rightarrow> prefetch_bases w (bases(i \<mapsto> object)) ids)"
      using Cons.IH Cons.prems by (intro eff_spec_option) auto
  qed (use Cons.prems in auto)
qed auto

lemma ingest_spec:
  assumes gp: "indexer_ok gp H" and fit: "bodies_fit H"
  shows "eff_spec (promo_ok w kv rest H good K) (\<lambda>e. True) (staged_ok H) (ingest_pack w gp fs input object_hash)"
proof -
  let ?S = "\<lambda>b. staged_ok H \<lparr>pack_bundle = b\<rparr>"
  have none: "?S None" using fit by (auto simp: staged_ok_def staged_read_def bodies_fit_def)
  have some: "?S (Some b)" if "gp_write gp pack object_hash bases = Inr (Some (Inr b))" "bases \<subseteq>\<^sub>m H" for pack bases b
    using fit gp that by (auto simp: staged_ok_def staged_read_def bodies_fit_def indexer_ok_def)
  have spool: "\<forall>i\<in>set (ref_delta_bases sp). oid_ok i" if "spool_and_scan gp fs input object_hash = Inr sp" for sp
    using that gp
    by (auto simp: spool_and_scan_def scan_ref_delta_bases_def and_then_eq_Inr map_filter_def indexer_ok_def
        split: if_splits option.splits sum.splits PackHeader.splits)
  have bundled: "?S b" if "write_bundle gp fs pack object_hash bases = Inr b" "bases \<subseteq>\<^sub>m H" for pack bases b
    using that none some by (auto simp: write_bundle_def and_then_eq_Inr split: if_splits option.splits)
  show ?thesis
    unfolding ingest_pack_def
  proof (rule eff_spec_bind [where Q = "\<lambda>sp. \<forall>i\<in>set (ref_delta_bases sp). oid_ok i"])
    fix sp assume sp: "\<forall>i\<in>set (ref_delta_bases sp). oid_ok i"
    show "eff_spec (promo_ok w kv rest H good K) (\<lambda>e. True) (staged_ok H)
       (case pack_path sp of
          None \<Rightarrow> eff_return \<lparr>pack_bundle = None\<rparr>
        | Some pack \<Rightarrow>
            eff_bind (prefetch_bases w Map.empty (ref_delta_bases sp)) (\<lambda>bases.
            eff_bind (eff_lift (if write_task fs then write_bundle gp fs pack object_hash bases else Inl IngTaskAborted)) (\<lambda>b.
            eff_return \<lparr>pack_bundle = b\<rparr>)))"
      by (rule eff_spec_option, rule eff_spec_return, rule none, rule eff_spec_bind [OF prefetch_spec [OF sp]], simp,
          rule eff_spec_bind [where Q = ?S], rule eff_spec_lift, simp)
        (auto intro!: eff_spec_return dest: bundled split: if_splits)
  qed (auto intro!: eff_spec_lift dest: spool split: if_splits)
qed

end

section \<open>Ref updates\<close>

text \<open>Every push keeps the invariant at the refs it writes: their objects are stored.\<close>

lemma apply_ref_writes:
  assumes "ref_writes repo us W"
  shows "apply_writes W m (object_key r i) = m (object_key r i)" "apply_writes W m (commit_key r i) = m (commit_key r i)"
    "r \<noteq> repo \<Longrightarrow> apply_writes W m (ref_key r n) = m (ref_key r n)"
  using assms unfolding ref_writes_def apply_writes_def by (auto split: option.splits) fastforce+

lemma ref_writes_view:
  assumes "ref_writes repo us W" and "ref_view (apply_writes W m) repo n = Some (Direct i)" and "updates_wf us"
  shows "ref_view m repo n = Some (Direct i) \<or> (\<exists>u\<in>set us. upd_new u = Some i)"
proof (cases "W (ref_key repo n)")
  case None
  with assms(2) show ?thesis by (simp add: ref_view_def apply_writes_def)
next
  case (Some v)
  with assms(1) obtain u where u: "u \<in> set us" "v = map_option (target_encode \<circ> Direct) (upd_new u)"
    by (auto simp: ref_writes_def)
  with assms(2) Some obtain j where j: "upd_new u = Some j" "v = Some (target_encode (Direct j))"
    by (cases "upd_new u") (auto simp: ref_view_def apply_writes_def)
  have "oid_ok j" using assms(3) u(1) j(1) by (auto simp: updates_wf_def list_all_iff)
  then have "target_decode (target_encode (Direct j)) = Inr (Direct j)" using ref_targets.roundtrip [of "Direct j"] by simp
  with assms(2) Some j have "j = i" by (simp add: ref_view_def apply_writes_def del: target_encode.simps)
  with u(1) j(1) show ?thesis by blast
qed

lemma closed_ref_writes:
  assumes "storage_closed gx H good m" and W: "ref_writes repo us W" and "updates_wf us"
    and "\<forall>u\<in>set us. \<forall>i. upd_new u = Some i \<longrightarrow> stored repo m i"
  shows "storage_closed gx H good (apply_writes W m)"
proof -
  have st: "stored r (apply_writes W m) = stored r m" for r by (simp add: stored_def fun_eq_iff apply_ref_writes [OF W])
  have "refs_stored r (apply_writes W m)" for r
  proof (cases "r = repo")
    case True
    with ref_writes_view [OF W _ assms(3)] assms(1,4) show ?thesis
      by (fastforce simp: refs_stored_def st storage_closed_def repo_closed_def)
  next
    case False
    then have "ref_view (apply_writes W m) r = ref_view m r" by (simp add: ref_view_def fun_eq_iff apply_ref_writes [OF W])
    with assms(1) show ?thesis by (simp add: refs_stored_def st storage_closed_def repo_closed_def)
  qed
  with assms(1) show ?thesis
    by (simp add: storage_closed_def repo_closed_def closed_kv_def graph_ok_def st apply_ref_writes [OF W])
qed

lemma odb_ok_ref_writes:
  assumes "ref_writes repo us W"
  shows "odb_ok Z H (apply_writes W m) b \<longleftrightarrow> odb_ok Z H m b"
  by (simp add: odb_ok_def apply_ref_writes [OF assms])

section \<open>Repository creation\<close>

lemma create_entries_keys:
  "put_entries (create_entries name n) m (object_key r i) = m (object_key r i)"
  "put_entries (create_entries name n) m (commit_key r i) = m (commit_key r i)"
  by (simp_all add: put_entries_def create_entries_def Let_def)

lemma create_entries_refs:
  assumes "ref_view (put_entries (create_entries name n) m) r name' = Some (Direct i)"
  shows "ref_view m r name' = Some (Direct i)"
proof (cases "r = RepoId n \<and> name' = HEAD_REF")
  case True
  have "valid_utf8 DEFAULT_BRANCH" by code_simp
  then have "target_decode (target_encode (Reference DEFAULT_BRANCH)) = Inr (Reference DEFAULT_BRANCH)"
    using ref_targets.roundtrip [of "Reference DEFAULT_BRANCH"] by simp
  with assms True show ?thesis
    by (simp add: ref_view_def put_entries_def create_entries_def Let_def del: target_encode.simps)
next
  case False
  with assms show ?thesis
    by (auto simp: ref_view_def put_entries_def create_entries_def Let_def simp del: target_encode.simps)
qed

lemma closed_create:
  assumes "storage_closed gx H good m"
  shows "storage_closed gx H good (put_entries (create_entries name n) m)"
proof -
  have st: "stored r (put_entries (create_entries name n) m) = stored r m" for r
    by (simp add: stored_def fun_eq_iff create_entries_keys)
  have "refs_stored r (put_entries (create_entries name n) m)" for r
    using assms create_entries_refs [of name n m r] unfolding refs_stored_def st storage_closed_def repo_closed_def by blast
  with assms show ?thesis
    by (simp add: storage_closed_def repo_closed_def closed_kv_def graph_ok_def st create_entries_keys)
qed

lemma odb_ok_create: "odb_ok Z H (put_entries (create_entries name n) m) b \<longleftrightarrow> odb_ok Z H m b"
  by (simp add: odb_ok_def create_entries_keys)

section \<open>The handler\<close>

text \<open>
  The stack under a server: for every repository the promotion's environment, a verifying
  indexer, the packet-line codec's laws, a compression level that the start of the server accepts, and
  the ids' contents, which have no cycles and refer
  only to kinds that are promoted no later than themselves: a condition on the data that nothing checks.
\<close>

locale server_env =
  fixes st :: "('s, 't) AppState" and kv :: "'s \<Rightarrow> kvmap" and rest :: "'s \<Rightarrow> (str \<rightharpoonup> bytes)"
    and env :: "'s \<Rightarrow> 's \<Rightarrow> bool" and snap :: "'t \<Rightarrow> kvmap" and reads :: "'t \<Rightarrow> bytes set"
    and writes :: "'t \<Rightarrow> (bytes \<rightharpoonup> bytes option)"
    and H :: "ObjectId \<rightharpoonup> Kind \<times> bytes" and good :: "ObjectId \<Rightarrow> u32 \<Rightarrow> bool"
  assumes promotes: "promote_env (walker_new st repo) kv rest env snap reads writes H good"
    and wire: "wire_laws (st_wire st)"
    and indexer: "indexer_ok (st_pack st) H"
    and fit: "bodies_fit H"
    and history: "acyclic (child_rel (st_gix st) H)" "kinds_ranked (st_gix st) H"
    and level: "compression_level (st_cfg st) \<le> 9"
begin

lemma slate: "slatedb_laws (st_db st) kv rest env snap reads writes"
  using storage_laws.axioms(1) [OF walker_env.axioms(1) [OF promote_env.axioms(1) [OF promotes]]] by simp

lemma server_env_step: "env s s' \<Longrightarrow> server_ok st kv rest H good s \<Longrightarrow> server_ok st kv rest H good s'"
  using promote_env.promo_ok_env [OF promotes, where s = s and s' = s' and K = "{}"] by (simp add: promo_ok_server)

lemma client: "store_client (st_db st) kv rest env snap reads writes (server_ok st kv rest H good)"
  by (rule store_client.intro [OF slate], unfold_locales) (rule server_env_step)

lemma keep_resolve: "eff_spec (server_ok st kv rest H good) (\<lambda>e. True) (\<lambda>v. True) (resolve_repo st repo)"
proof -
  have "store_client.safe_writes kv rest (server_ok st kv rest H good) (put_entries (create_entries name n))" for name n
    unfolding store_client.safe_writes_def [OF client] by (simp add: server_ok_def odb_ok_create closed_create)
  from store_client.keep_get_or_create [OF client this] store_client.keep_lookup [OF client] show ?thesis
    unfolding resolve_repo_def by (intro eff_spec_map_err [where E' = "\<lambda>e. True"] eff_spec_if eff_spec_bind [where Q = "\<lambda>x. True"]) auto
qed

lemma keep_updates:
  assumes "updates_wf us" and "\<forall>u\<in>set us. \<forall>i. upd_new u = Some i \<longrightarrow> i \<in> K"
  shows "eff_spec (promo_ok (walker_new st repo) kv rest H good K) (\<lambda>e. True) (\<lambda>rs. True) (update_refs (st_db st) repo us)"
proof -
  have c: "store_client (st_db st) kv rest env snap reads writes (promo_ok (walker_new st repo) kv rest H good K)"
    by (rule store_client.intro [OF slate], unfold_locales) (rule promote_env.promo_ok_env [OF promotes])
  have "store_client.safe_writes kv rest (promo_ok (walker_new st repo) kv rest H good K) (apply_writes W)"
    if W: "ref_writes repo us W" for W
    unfolding store_client.safe_writes_def [OF c]
  proof (intro allI impI)
    fix u s' assume u: "promo_ok (walker_new st repo) kv rest H good K u" and s': "rest s' = rest u" "kv s' = apply_writes W (kv u)"
    then have k: "server_ok st kv rest H good u" "\<forall>i\<in>K. stored repo (kv u) i" by (simp_all add: promo_ok_server)
    then have "storage_closed (st_gix st) H good (kv s')"
      unfolding s'(2) using assms by (intro closed_ref_writes [OF _ W]) (auto simp: server_ok_def)
    moreover have "stored repo (kv s') = stored repo (kv u)" by (simp add: stored_def fun_eq_iff s' apply_ref_writes [OF W])
    ultimately show "promo_ok (walker_new st repo) kv rest H good K s'"
      using k by (simp add: promo_ok_server server_ok_def s' odb_ok_ref_writes [OF W])
  qed
  from store_client.keep_update_refs [OF c this] show ?thesis .
qed

lemma command_updates_wf:
  assumes "rp_parse_request (st_wire st) body = Inr request"
  shows "updates_wf (map command_update (commands request))"
    and "\<forall>u\<in>set (map command_update (commands request)). \<forall>i. upd_new u = Some i \<longrightarrow> i \<in> set (push_tips request)"
  using wire_laws.push_tips_ok [OF wire assms]
  by (auto simp: updates_wf_def list_all_iff command_update_def push_tips_def map_filter_def split: option.splits) force+

text \<open>Promotion, then the ref updates it licenses.\<close>

lemma keep_promote_update:
  assumes parse: "rp_parse_request (st_wire st) body = Inr request" and staged: "staged_ok H staged"
  shows "eff_spec (server_ok st kv rest H good) (\<lambda>e. True) (\<lambda>x. True)
    (eff_bind (eff_map_err f (validate_and_promote (walker_new st repo) (st_cfg st) staged (push_tips request))) (\<lambda>promotion.
     eff_bind (eff_map_err g (update_refs (st_db st) repo (map command_update (commands request)))) (\<lambda>results.
     eff_return (report results))))"
proof (rule eff_specI)
  let ?w = "walker_new st repo" and ?us = "map command_update (commands request)"
  let ?tail = "eff_bind (eff_map_err g (update_refs (st_db st) repo ?us)) (\<lambda>results. eff_return (report results))"
  fix s r s' assume s: "server_ok st kv rest H good s"
    and run: "eff_bind (eff_map_err f (validate_and_promote ?w (st_cfg st) staged (push_tips request))) (\<lambda>promotion. ?tail) s = (r, s')"
  obtain p s1 where v: "validate_and_promote ?w (st_cfg st) staged (push_tips request) s = (p, s1)" by force
  have "promo_ok ?w kv rest H good {} s" using s by (simp add: promo_ok_server)
  note P = promote_env.promote_run [OF promotes staged _ _ wire_laws.push_tips_ok [OF wire parse] this level v]
  have s1: "promo_ok ?w kv rest H good {} s1" using P history by simp
  have "server_ok st kv rest H good s'"
  proof (cases p)
    case (Inl e)
    with run v s1 show ?thesis by (auto simp: eff_bind_def eff_map_err_def promo_ok_server)
  next
    case (Inr q)
    with P history have "promotion_ok (st_gix st) H repo (kv s1) (push_tips request) q" by simp
    then have K: "promo_ok ?w kv rest H good (set (push_tips request)) s1"
      using s1 by (auto simp: promo_ok_server promotion_ok_def)
    have t: "?tail s1 = (r, s')" using run v Inr by (simp add: eff_bind_ok eff_map_err_ok)
    have "eff_spec (promo_ok ?w kv rest H good (set (push_tips request))) (\<lambda>e. True) (\<lambda>x. True) ?tail"
      by (rule eff_spec_bind [OF eff_spec_map_err [OF keep_updates [OF command_updates_wf [OF parse]]]]) auto
    from eff_specD(1) [OF this t K] show ?thesis by (simp add: promo_ok_server)
  qed
  then show "server_ok st kv rest H good s' \<and> (case r of Inl e \<Rightarrow> True | Inr x \<Rightarrow> True)" by (simp split: sum.splits)
qed

lemma receive_keeps:
  assumes "receive_pack st fs repo body s = (resp, s')" and "server_ok st kv rest H good s"
  shows "server_ok st kv rest H good s'"
proof -
  let ?wr = "st_wire st"
  have ingest: "eff_spec (server_ok st kv rest H good) (\<lambda>e. True) (staged_ok H)
      (ingest_pack (walker_new st r) (st_pack st) fs input hash)" for r input hash
  proof -
    have "promo_ok (walker_new st r) kv rest H good {} = server_ok st kv rest H good"
      by (rule ext) (simp add: promo_ok_server)
    with promote_env.ingest_spec [OF promotes indexer fit, of r "{}"] show ?thesis by metis
  qed
  have "eff_spec (server_ok st kv rest H good) (\<lambda>e. True) (\<lambda>x. True)
     (eff_bind (eff_lift (map_err (\<lambda>e. plain 400 (lit ''malformed receive-pack request'')) (rp_parse_request ?wr body))) (\<lambda>request.
      eff_bind (eff_map_err (\<lambda>e. internal_error) (resolve_repo st repo)) (\<lambda>found.
        case found of
          None \<Rightarrow> eff_fail (plain 404 (lit ''repository not found''))
        | Some meta \<Rightarrow>
            eff_bind (eff_map_err (\<lambda>e. push_failed ?wr request (ingest_class e))
              (ingest_pack (walker_new st (repo_id meta)) (st_pack st) fs (push_pack request) (object_format meta))) (\<lambda>staged.
            eff_bind (eff_map_err (\<lambda>e. push_failed ?wr request (promote_class e))
              (validate_and_promote (walker_new st (repo_id meta)) (st_cfg st) staged (push_tips request))) (\<lambda>promotion.
            eff_bind (eff_map_err (\<lambda>e. internal_error)
              (update_refs (st_db st) (repo_id meta) (map command_update (commands request)))) (\<lambda>results.
            eff_return (report_success ?wr request results)))))))"
    by (rule eff_spec_bind [where Q = "\<lambda>request. rp_parse_request ?wr body = Inr request"], rule eff_spec_lift, simp, simp,
        rule eff_spec_bind [OF eff_spec_map_err [OF keep_resolve]], simp, rule eff_spec_option, rule eff_spec_fail, simp,
        rule eff_spec_bind [OF eff_spec_map_err [OF ingest]], simp, rule keep_promote_update)
  from eff_specD(1) [OF this _ assms(2)] assms(1) show ?thesis
    by (auto simp: receive_pack_def respond_def Let_def split: prod.splits sum.splits)
qed

text \<open>In a good state everything a ref reaches is stored.\<close>

lemma refs_complete:
  assumes ok: "server_ok st kv rest H good s" and ref: "ref_view (kv s) r name = Some (Direct i)"
    and reach: "(i, c) \<in> (child_rel (st_gix st) H)\<^sup>*"
  shows "stored r (kv s) c"
proof (rule closed_kv_reach [OF _ _ reach])
  show "gix_ok (st_gix st)" using walker_env.parsers [OF promote_env.axioms(1) [OF promotes]] by simp
  show "closed_kv (st_gix st) H r (kv s)" "stored r (kv s) i"
    using ok ref by (auto simp: server_ok_def storage_closed_def repo_closed_def refs_stored_def)
  from ref obtain bs where "target_decode bs = Inr (Direct i)" by (auto simp: ref_view_def split: option.splits sum.splits)
  then show "oid_ok i" using ref_targets.canonical by fastforce
qed

end

section \<open>What a report says\<close>

lemma class_reasons:
  "objectdb_class e \<noteq> Client reason" "ingest_class f = Client reason \<Longrightarrow> reason \<noteq> lit ''ok''"
  "walk_class g = Client reason \<Longrightarrow> reason \<noteq> lit ''ok''" "promote_class h = Client reason \<Longrightarrow> reason \<noteq> lit ''ok''"
proof -
  show o: "objectdb_class e \<noteq> Client reason" for e by (cases e) (simp_all add: store_class_def)
  show i: "ingest_class f = Client reason \<Longrightarrow> reason \<noteq> lit ''ok''" for f by (cases f) (auto simp: o lit_def)
  show w: "walk_class g = Client reason \<Longrightarrow> reason \<noteq> lit ''ok''" for g
    by (cases g) (auto simp: o lit_def store_class_def)
  show "promote_class h = Client reason \<Longrightarrow> reason \<noteq> lit ''ok''"
  proof (cases h)
    case (PStaged f)
    then show "promote_class h = Client reason \<Longrightarrow> ?thesis" using i [of f] by simp
  next
    case (PWalk g)
    then show "promote_class h = Client reason \<Longrightarrow> ?thesis" using w [of g] by simp
  qed (auto simp: o lit_def store_class_def)
qed

context wire_laws
begin

lemma report_read:
  assumes "report_status caps" and "status (build_report wr caps unpack_line statuses) = 200"
  shows "client_report wr caps (resp_body (build_report wr caps unpack_line statuses)) =
    Some (map Data (report_lines unpack_line statuses))"
  using assms report_reads [of unpack_line statuses caps]
  by (auto simp: build_report_def internal_error_def plain_def git_response_def split: option.splits)

lemma failed_not_ok:
  assumes "report_status (push_caps request)" and "status (push_failed wr request cls) = 200" and "cls \<noteq> Client (lit ''ok'')"
  shows "client_report wr (push_caps request) (resp_body (push_failed wr request cls)) \<noteq> Some (Data (lit ''unpack ok'' @ [10]) # ls)"
proof -
  from assms(2) obtain reason where c: "cls = Client reason"
    by (cases cls) (auto simp: push_failed_def plain_def internal_error_def git_response_def)
  have "lit ''unpack ok'' = lit ''unpack '' @ lit ''ok''" by (simp add: lit_def)
  with report_read [OF assms(1)] assms(2,3) show ?thesis by (auto simp: c push_failed_def report_lines_def)
qed

end

lemma respond_run: "respond m s = (resp, s') \<longleftrightarrow> m s = (Inl resp, s') \<or> m s = (Inr resp, s')"
  by (auto simp: respond_def split: prod.splits sum.splits)

text \<open>A report that begins with success comes from a request that went all the way.\<close>

lemma receive_ok_run:
  assumes "wire_laws (st_wire st)" and parse: "rp_parse_request (st_wire st) body = Inr request"
    and caps: "report_status (push_caps request)"
    and run: "receive_pack st fs repo body s = (resp, s')" and ok: "status resp = 200"
    and read: "client_report (st_wire st) (push_caps request) (resp_body resp) = Some (Data (lit ''unpack ok'' @ [10]) # ls)"
  obtains meta s1 staged s2 promotion s3 results where "resolve_repo st repo s = (Inr (Some meta), s1)"
    "ingest_pack (walker_new st (repo_id meta)) (st_pack st) fs (push_pack request) (object_format meta) s1 = (Inr staged, s2)"
    "validate_and_promote (walker_new st (repo_id meta)) (st_cfg st) staged (push_tips request) s2 = (Inr promotion, s3)"
    "update_refs (st_db st) (repo_id meta) (map command_update (commands request)) s3 = (Inr results, s')"
    "resp = report_success (st_wire st) request results"
proof -
  have p: "plain 400 m \<noteq> resp" "plain 404 m \<noteq> resp" "internal_error \<noteq> resp" for m
    using ok by (auto simp: plain_def internal_error_def git_response_def)
  have f: "push_failed (st_wire st) request (ingest_class e) \<noteq> resp" "push_failed (st_wire st) request (promote_class h) \<noteq> resp" for e h
    using wire_laws.failed_not_ok [OF assms(1) caps] ok read class_reasons(2,4) by blast+
  from run p f that show thesis
    unfolding receive_pack_def Let_def respond_run parse
    by (auto simp: effect_simps eff_bind_Inl split: option.splits)
qed

section \<open>Properties\<close>

text \<open>C10: Whatever bytes a push request holds (malformed, incomplete, racing with others, failing halfway in storage),
  the server's invariant survives it: every stored object is the content its id names, and in every
  repository everything a ref reaches is stored. The condition is on the objects that are ever pushed, and the server does not check
  it: none names one of a later kind in the order blob, tree, commit, tag, which a tree entry that
  names a commit without being a submodule would.\<close>

theorem push_keeps_refs_complete:
  assumes "server_env st kv rest env snap reads writes H good" and "server_ok st kv rest H good s"
    and "receive_pack st fs repo body s = (resp, s')"
  shows "server_ok st kv rest H good s' \<and>
    (\<forall>r name i c. ref_view (kv s') r name = Some (Direct i) \<longrightarrow> (i, c) \<in> (child_rel (st_gix st) H)\<^sup>* \<longrightarrow> stored r (kv s') c)"
proof -
  have ok: "server_ok st kv rest H good s'" by (rule server_env.receive_keeps [OF assms(1,3,2)])
  with server_env.refs_complete [OF assms(1) ok] show ?thesis by blast
qed

text \<open>C11: A report tells the truth: when a client that asked for a report reads \<open>unpack ok\<close>, the pack was staged, validated and
  promoted, and the lines that follow are the outcomes of its commands. Either there was one instant after
  the promotion, reached by what others did meanwhile, at which exactly these
  outcomes are those of the compare-and-swap specification on the repository's refs, and the server now has the refs
  that it leaves and has written nothing but the named refs since; or all commands were rejected and nothing was written
  after the promotion.\<close>

theorem push_report_truthful:
  assumes "wire_laws (st_wire st)" and "slatedb_laws (st_db st) kv rest env snap reads writes"
    and "rp_parse_request (st_wire st) body = Inr request" and "report_status (push_caps request)"
    and "receive_pack st fs repo body s = (resp, s')" and "status resp = 200"
    and "client_report (st_wire st) (push_caps request) (resp_body resp) = Some (Data (lit ''unpack ok'' @ [10]) # ls)"
  shows "\<exists>meta s1 staged s2 promotion s3 results. resolve_repo st repo s = (Inr (Some meta), s1) \<and>
    ingest_pack (walker_new st (repo_id meta)) (st_pack st) fs (push_pack request) (object_format meta) s1 = (Inr staged, s2) \<and>
    validate_and_promote (walker_new st (repo_id meta)) (st_cfg st) staged (push_tips request) s2 = (Inr promotion, s3) \<and>
    ls = map (\<lambda>r. Data (status_line (res_name r, ref_status (outcome r)))) results \<and>
    ((\<exists>u. env s3 u \<and>
        cas_all (ref_view (kv u) (repo_id meta)) (map command_update (commands request)) = (results, ref_view (kv s') (repo_id meta)) \<and>
        rest s' = rest u \<and> unchanged_outside (map (ref_key (repo_id meta) \<circ> cmd_name) (commands request)) (kv u) (kv s')) \<or>
     env s3 s' \<and> results = reject_all (map command_update (commands request)))"
proof -
  from receive_ok_run [OF assms(1,3-7)] obtain meta s1 staged s2 promotion s3 results
    where R: "resolve_repo st repo s = (Inr (Some meta), s1)"
      "ingest_pack (walker_new st (repo_id meta)) (st_pack st) fs (push_pack request) (object_format meta) s1 = (Inr staged, s2)"
      "validate_and_promote (walker_new st (repo_id meta)) (st_cfg st) staged (push_tips request) s2 = (Inr promotion, s3)"
      "update_refs (st_db st) (repo_id meta) (map command_update (commands request)) s3 = (Inr results, s')"
      "resp = report_success (st_wire st) request results" .
  have "updates_wf (map command_update (commands request))"
    using wire_laws.push_tips_ok [OF assms(1,3)]
    by (auto simp: updates_wf_def list_all_iff command_update_def push_tips_def map_filter_def split: option.splits)
  note U = slatedb_laws.update_refs_loop_run [OF assms(2) R(4) [unfolded update_refs_def] this]
  have "map (ref_key (repo_id meta) \<circ> upd_name) (map command_update (commands request)) =
      map (ref_key (repo_id meta) \<circ> cmd_name) (commands request)" by (simp add: command_update_def)
  note U = U [unfolded this]
  have "ls = map (\<lambda>r. Data (status_line (res_name r, ref_status (outcome r)))) results"
    using wire_laws.report_read [OF assms(1,4)] assms(6,7) by (simp add: R(5) report_success_def report_lines_def comp_def)
  with R(1-3) U show ?thesis by blast
qed

section \<open>Witnesses\<close>

definition table_pack :: "object_table \<Rightarrow> gix_pack" where
  "table_pack objs = \<lparr>gp_entries = (\<lambda>pack hash. None),
     gp_write = (\<lambda>pack hash bases. Inr (map_option Inr (pack_bundle (table_staged objs))))\<rparr>"

definition small_server :: "(mem_world, mem_txn) AppState" where
  "small_server = \<lparr>st_db = mem_db, st_os = mem_os, st_zlib = stored_zlib, st_cfg = inline_cfg, auto_create_repos = True,
     st_gix = flat_gix, st_pack = table_pack small_objects, st_wire = pkt_wire, st_fuel = 50\<rparr>"

definition healthy :: staging where
  "healthy = \<lparr>spool_task = True, spool_io = True, scan_open = True, write_task = True, write_open = True\<rparr>"

lemma small_walker_new: "walker_new small_server repo = mem_walker repo 50"
  by (simp add: walker_new_def mem_walker_def small_server_def)

lemma small_server_env:
  "server_env small_server mem_kv mem_rest (=) (\<lambda>t. map_of (t_snap t)) (\<lambda>t. set (t_reads t)) (\<lambda>t. map_of (t_writes t))
     (map_of small_objects) (\<lambda>i g. True)"
proof (rule server_env.intro)
  fix repo
  show "promote_env (walker_new small_server repo) mem_kv mem_rest (=) (\<lambda>t. map_of (t_snap t)) (\<lambda>t. set (t_reads t))
      (\<lambda>t. map_of (t_writes t)) (map_of small_objects) (\<lambda>i g. True)"
    unfolding small_walker_new by (rule mem_promotes.promote_env_axioms)
  show "wire_laws (st_wire small_server)" using pkt.wire_laws_axioms by (simp add: small_server_def)
  show "indexer_ok (st_pack small_server) (map_of small_objects)"
    by (auto simp: indexer_ok_def small_server_def table_pack_def table_staged_def)
  show "bodies_fit (map_of small_objects)"
    using table_staged_ok [OF small_bodies map_le_refl] by (simp add: staged_ok_def bodies_fit_def)
  show "acyclic (child_rel (st_gix small_server) (map_of small_objects))" "kinds_ranked (st_gix small_server) (map_of small_objects)"
    using table_acyclic [OF small_ranked] table_kinds_ranked [OF small_ranked] by (simp_all add: small_server_def)
  show "compression_level (st_cfg small_server) \<le> 9" using inline_level by (simp add: small_server_def)
qed

interpretation small: server_env small_server mem_kv mem_rest "(=)" "\<lambda>t. map_of (t_snap t)" "\<lambda>t. set (t_reads t)"
    "\<lambda>t. map_of (t_writes t)" "map_of small_objects" "\<lambda>i g. True"
  by (rule small_server_env)

text \<open>A server without auto-creation whose registry holds one repository, of id 1, with no objects.\<close>

definition fixed_server :: "(mem_world, mem_txn) AppState" where
  "fixed_server = small_server\<lparr>auto_create_repos := False\<rparr>"

definition reg_world :: mem_world where
  "reg_world = (sample_one, [])"

lemma fixed_walker_new: "walker_new fixed_server repo = mem_walker repo 50"
  by (simp add: walker_new_def mem_walker_def fixed_server_def small_server_def)

lemma fixed_server_env:
  "server_env fixed_server mem_kv mem_rest (=) (\<lambda>t. map_of (t_snap t)) (\<lambda>t. set (t_reads t)) (\<lambda>t. map_of (t_writes t))
     (map_of small_objects) (\<lambda>i g. True)"
  by (rule server_env.intro) (use small.promotes small.wire small.indexer small.fit small.history small.level in \<open>simp_all add: fixed_server_def walker_new_def\<close>)

lemma reg_world_ok: "server_ok fixed_server mem_kv mem_rest (map_of small_objects) (\<lambda>i g. True) reg_world"
proof -
  have "server_ok small_server mem_kv mem_rest (map_of small_objects) (\<lambda>i g. True) ([], [])"
    by (simp add: server_ok_def odb_ok_def storage_closed_def repo_closed_def graph_ok_def closed_kv_def refs_stored_def
        stored_def ref_view_def mem_kv_def mem_rest_def)
  moreover have "resolve_repo small_server (lit ''a'') ([], []) = (Inr (Some (sample_meta 1)), reg_world)"
    using sample_create by (simp add: resolve_repo_def small_server_def eff_map_err_def eff_bind_def eff_return_def reg_world_def)
  ultimately have "server_ok small_server mem_kv mem_rest (map_of small_objects) (\<lambda>i g. True) reg_world"
    using eff_specD(1) [OF small.keep_resolve] by blast
  then show ?thesis by (simp add: server_ok_def fixed_server_def)
qed

text \<open>A push of the small history that creates a branch, step by step.\<close>

definition small_commands :: "Command list" where
  "small_commands = [\<lparr>cmd_old = None, cmd_new = Some (sid 2), cmd_name = lit ''refs/heads/main''\<rparr>]"

definition small_body :: bytes where
  "small_body = the (write_all (map (data_to_write pkt_wire)
     (command_lines Sha1 (lit ''report-status'') small_commands) @ [flush_to_write pkt_wire])) @ [0]"

definition small_request :: PushRequest where
  "small_request = \<lparr>commands = small_commands, push_caps = parse_caps (lit ''report-status''), push_pack = [0]\<rparr>"

lemma small_parse: "rp_parse_request pkt_wire small_body = Inr small_request"
proof -
  have "write_all (map (data_to_write pkt_wire) (command_lines Sha1 (lit ''report-status'') small_commands) @ [flush_to_write pkt_wire]) \<noteq> None"
    by code_simp
  then obtain out where out: "write_all (map (data_to_write pkt_wire) (command_lines Sha1 (lit ''report-status'') small_commands)
      @ [flush_to_write pkt_wire]) = Some out" by blast
  have "\<forall>cmd\<in>set small_commands. command_wf cmd" unfolding list_all_iff [symmetric] by code_simp
  from pkt.rp_parse_written [OF this out, of "[0]"] out show ?thesis
    by (simp add: small_body_def small_request_def) (simp add: small_commands_def)
qed

lemma small_caps: "report_status (push_caps small_request)" "\<not> side_band_64k (push_caps small_request)"
  by code_simp+

lemma small_ingest:
  "ingest_pack (mem_walker repo fuel) (table_pack small_objects) healthy [0] Sha1 s = (Inr (table_staged small_objects), s)"
  by (simp add: ingest_pack_def healthy_def spool_and_scan_def scan_ref_delta_bases_def table_pack_def eff_bind_def
      eff_lift_def eff_return_def write_bundle_def table_staged_def)

definition small_promoted :: mem_world where
  "small_promoted = snd (validate_and_promote (mem_walker (RepoId 1) 50) inline_cfg (table_staged small_objects) [sid 2] reg_world)"

lemma small_promotes:
  "\<exists>p. validate_and_promote (mem_walker (RepoId 1) 50) inline_cfg (table_staged small_objects) [sid 2] reg_world = (Inr p, small_promoted)"
proof -
  have "fst (validate_and_promote (mem_walker (RepoId 1) 50) inline_cfg (table_staged small_objects) [sid 2] reg_world) =
      Inr \<lparr>promoted = [sid 23, sid 22, sid 21, sid 13, sid 12, sid 11, sid 1, sid 2], promo_commits = [sid 1, sid 2]\<rparr>" by code_simp
  then show ?thesis by (metis prod.collapse small_promoted_def)
qed

definition small_updated :: mem_world where
  "small_updated = snd (update_refs mem_db (RepoId 1) (map command_update small_commands) small_promoted)"

lemma small_updates:
  "update_refs mem_db (RepoId 1) (map command_update small_commands) small_promoted =
     (Inr [\<lparr>res_name = lit ''refs/heads/main'', outcome = Updated\<rparr>], small_updated)"
  by (rule prod_eqI) (code_simp, simp add: small_updated_def)

lemma small_received:
  "receive_pack fixed_server healthy (lit ''a'') small_body reg_world =
     (report_success pkt_wire small_request [\<lparr>res_name = lit ''refs/heads/main'', outcome = Updated\<rparr>], small_updated)"
proof -
  obtain p where p: "validate_and_promote (mem_walker (RepoId 1) 50) inline_cfg (table_staged small_objects) [sid 2] reg_world = (Inr p, small_promoted)"
    using small_promotes by blast
  have found: "resolve_repo fixed_server (lit ''a'') reg_world = (Inr (Some (sample_meta 1)), reg_world)"
    using sample_lookup by (simp add: resolve_repo_def fixed_server_def small_server_def eff_map_err_def reg_world_def)
  have tips: "push_tips small_request = [sid 2]" by code_simp
  have fields: "st_wire fixed_server = pkt_wire" "st_pack fixed_server = table_pack small_objects" "st_cfg fixed_server = inline_cfg"
    "st_db fixed_server = mem_db" "repo_id (sample_meta 1) = RepoId 1" "object_format (sample_meta 1) = Sha1"
    "push_pack small_request = [0]" "commands small_request = small_commands"
    by (simp_all add: fixed_server_def small_server_def sample_meta_def small_request_def)
  show ?thesis
    using found p small_updates
    by (simp add: receive_pack_def respond_def Let_def fields fixed_walker_new small_parse small_ingest tips eff_bind_def eff_lift_def
        eff_map_err_def eff_return_def)
qed

theorem push_keeps_refs_complete_witness:
  "server_ok fixed_server mem_kv mem_rest (map_of small_objects) (\<lambda>i g. True) small_updated \<and>
   ref_view (mem_kv small_updated) (RepoId 1) (lit ''refs/heads/main'') = Some (Direct (sid 2)) \<and>
   stored (RepoId 1) (mem_kv small_updated) (sid 21)"
proof -
  have ref: "ref_view (mem_kv small_updated) (RepoId 1) (lit ''refs/heads/main'') = Some (Direct (sid 2))" by code_simp
  have "sid 1 \<in> set (children_of flat_gix (map_of small_objects) (sid 2))"
    "sid 11 \<in> set (children_of flat_gix (map_of small_objects) (sid 1))"
    "sid 21 \<in> set (children_of flat_gix (map_of small_objects) (sid 11))" by code_simp+
  then have "(sid 2, sid 1) \<in> child_rel flat_gix (map_of small_objects)" "(sid 1, sid 11) \<in> child_rel flat_gix (map_of small_objects)"
    "(sid 11, sid 21) \<in> child_rel flat_gix (map_of small_objects)" by (simp_all add: child_rel_def)
  then have "(sid 2, sid 21) \<in> (child_rel flat_gix (map_of small_objects))\<^sup>*"
    by (meson converse_rtrancl_into_rtrancl r_into_rtrancl)
  with push_keeps_refs_complete [OF fixed_server_env reg_world_ok small_received] ref show ?thesis
    by (auto simp: fixed_server_def small_server_def)
qed

lemma small_reported:
  "status (report_success pkt_wire small_request [\<lparr>res_name = lit ''refs/heads/main'', outcome = Updated\<rparr>]) = 200"
proof -
  have "\<forall>d\<in>set (report_lines (lit ''unpack ok'') [(lit ''refs/heads/main'', RefOk)]). d \<noteq> [] \<and> length d \<le> 65516"
    by (simp add: report_lines_def status_line_def)
  from pkt.lines_written [OF this]
  have "write_all ([data_to_write pkt_wire (lit ''unpack ok'' @ [10])] @
      map (data_to_write pkt_wire \<circ> status_line) [(lit ''refs/heads/main'', RefOk)] @ [flush_to_write pkt_wire]) \<noteq> None"
    by (simp add: report_lines_def) blast
  then have "report_body pkt_wire (lit ''unpack ok'') [(lit ''refs/heads/main'', RefOk)] False \<noteq> None"
    unfolding report_body_def by (auto split: option.splits)
  then show ?thesis
    using small_caps by (auto simp: report_success_def build_report_def ref_status_def git_response_def)
qed

theorem push_report_truthful_witness:
  "\<exists>meta s1 staged s2 promotion s3 results. resolve_repo fixed_server (lit ''a'') reg_world = (Inr (Some meta), s1) \<and>
    ingest_pack (walker_new fixed_server (repo_id meta)) (st_pack fixed_server) healthy (push_pack small_request) (object_format meta) s1 =
      (Inr staged, s2) \<and>
    validate_and_promote (walker_new fixed_server (repo_id meta)) (st_cfg fixed_server) staged (push_tips small_request) s2 =
      (Inr promotion, s3) \<and>
    [Data (lit ''ok refs/heads/main'' @ [10])] = map (\<lambda>r. Data (status_line (res_name r, ref_status (outcome r)))) results \<and>
    cas_all (ref_view (mem_kv s3) (repo_id meta)) (map command_update small_commands) =
      (results, ref_view (mem_kv small_updated) (repo_id meta))"
proof -
  let ?r = "report_success pkt_wire small_request [\<lparr>res_name = lit ''refs/heads/main'', outcome = Updated\<rparr>]"
  have wr: "st_wire fixed_server = pkt_wire" "st_db fixed_server = mem_db" by (simp_all add: fixed_server_def small_server_def)
  have "client_report pkt_wire (push_caps small_request) (resp_body ?r) =
      Some (map Data (report_lines (lit ''unpack ok'') [(lit ''refs/heads/main'', RefOk)]))"
    using pkt.report_read [OF small_caps(1)] small_reported by (simp add: report_success_def ref_status_def)
  then have read: "client_report pkt_wire (push_caps small_request) (resp_body ?r) =
      Some (Data (lit ''unpack ok'' @ [10]) # [Data (lit ''ok refs/heads/main'' @ [10])])"
    by (simp add: report_lines_def status_line_def lit_def)
  have rejected: "map (\<lambda>r. Data (status_line (res_name r, ref_status (outcome r)))) (reject_all (map command_update small_commands)) \<noteq>
      [Data (lit ''ok refs/heads/main'' @ [10])]"
    by (simp add: small_commands_def reject_all_def command_update_def ref_status_def status_line_def lit_def)
  have commands: "commands small_request = small_commands" by (simp add: small_request_def)
  from push_report_truthful [of fixed_server, unfolded wr, OF pkt.wire_laws_axioms mem_db.slatedb_laws_axioms small_parse
      small_caps(1) small_received small_reported read, unfolded commands]
  show ?thesis
  proof (elim exE conjE disjE)
    fix meta s1 staged s2 promotion s3 results
    assume "[Data (lit ''ok refs/heads/main'' @ [10])] = map (\<lambda>r. Data (status_line (res_name r, ref_status (outcome r)))) results"
      "results = reject_all (map command_update small_commands)"
    with rejected show ?thesis by simp
  qed (intro exI conjI, assumption+, simp)
qed

end
