(* ===== verification/UploadPack.thy ===== *)
theory UploadPack
  imports Wire
begin

text \<open>
  \<^verbatim>\<open>src/protocol/upload_pack.rs\<close>: the protocol-v2 fetch endpoint. A request names a command with
  arguments; \<open>ls-refs\<close> lists refs, \<open>fetch\<close> plans a pack and streams it over side-band,
  \<open>object-info\<close> and \<open>object-format\<close> answer from metadata. Metrics, log events and timings are left out.
\<close>

section \<open>Requests\<close>

definition UP_RESULT_CONTENT_TYPE :: str where
  "UP_RESULT_CONTENT_TYPE = lit ''application/x-git-upload-pack-result''"

definition MAX_SYMREF_DEPTH :: nat where
  "MAX_SYMREF_DEPTH = 5"

definition MAX_PEEL_DEPTH :: nat where
  "MAX_PEEL_DEPTH = 5"

record UpRequest =
  up_command :: str
  up_object_format :: "str option"
  up_args :: "str list"

text \<open>The second value stands for a loop whose codec never consumes anything.\<close>

datatype UpParseError = UpParseError | UpParseDiverges

text \<open>The state of the loop: the command, the object format, the arguments, and whether a delimiter was seen.\<close>

record up_scan =
  sc_command :: "str option"
  sc_format :: "str option"
  sc_args :: "str list"
  sc_in_args :: bool

definition up_scan_text :: "up_scan \<Rightarrow> str \<Rightarrow> UpParseError + up_scan" where
  "up_scan_text sc text =
     (if sc_in_args sc then Inr (sc\<lparr>sc_args := sc_args sc @ [text]\<rparr>)
      else
        case strip_prefix (lit ''command='') text of
          Some name \<Rightarrow> if sc_command sc \<noteq> None then Inl UpParseError else Inr (sc\<lparr>sc_command := Some name\<rparr>)
        | None \<Rightarrow>
            (case strip_prefix (lit ''object-format='') text of
               Some format \<Rightarrow> Inr (sc\<lparr>sc_format := Some format\<rparr>)
             | None \<Rightarrow> Inr sc))"

fun up_parse_loop :: "gix_wire \<Rightarrow> nat \<Rightarrow> bytes \<Rightarrow> up_scan \<Rightarrow> UpParseError + up_scan" where
  "up_parse_loop wr 0 body sc = Inl UpParseDiverges"
| "up_parse_loop wr (Suc n) body sc =
     (case streaming wr body of
        Inr (Some (line, consumed)) \<Rightarrow>
          (let body = drop consumed body in
           case line of
             Flush \<Rightarrow> Inr sc
           | Delimiter \<Rightarrow> if sc_in_args sc then Inl UpParseError else up_parse_loop wr n body (sc\<lparr>sc_in_args := True\<rparr>)
           | Data data \<Rightarrow>
               and_then (ok_or UpParseError (from_utf8 (chomp data))) (\<lambda>text.
               and_then (up_scan_text sc text) (\<lambda>sc. up_parse_loop wr n body sc))
           | ResponseEnd \<Rightarrow> Inl UpParseError)
      | _ \<Rightarrow> Inl UpParseError)"

definition up_parse_request :: "gix_wire \<Rightarrow> bytes \<Rightarrow> UpParseError + UpRequest" where
  "up_parse_request wr body =
     and_then (up_parse_loop wr (Suc (length body)) body
       \<lparr>sc_command = None, sc_format = None, sc_args = [], sc_in_args = False\<rparr>) (\<lambda>sc.
     and_then (ok_or UpParseError (sc_command sc)) (\<lambda>command.
     Inr \<lparr>up_command = command, up_object_format = sc_format sc, up_args = sc_args sc\<rparr>))"

subsection \<open>Arguments\<close>

record FetchArgs =
  fa_wants :: "ObjectId list"
  fa_haves :: "ObjectId list"
  fa_done :: bool
  fa_no_progress :: bool
  fa_ofs_delta :: bool
  fa_filter :: FilterSpec

definition fetch_args_default :: FetchArgs where
  "fetch_args_default =
     \<lparr>fa_wants = [], fa_haves = [], fa_done = False, fa_no_progress = False, fa_ofs_delta = False, fa_filter = NoFilter\<rparr>"

definition fetch_arg :: "gix_wire \<Rightarrow> FetchArgs \<Rightarrow> str \<Rightarrow> str + FetchArgs" where
  "fetch_arg wr parsed arg =
     (case strip_prefix (lit ''want '') arg of
        Some hex \<Rightarrow>
          and_then (ok_or (lit ''invalid want: '' @ hex) (from_hex wr hex)) (\<lambda>i. Inr (parsed\<lparr>fa_wants := fa_wants parsed @ [i]\<rparr>))
      | None \<Rightarrow>
     (case strip_prefix (lit ''have '') arg of
        Some hex \<Rightarrow>
          and_then (ok_or (lit ''invalid have: '' @ hex) (from_hex wr hex)) (\<lambda>i. Inr (parsed\<lparr>fa_haves := fa_haves parsed @ [i]\<rparr>))
      | None \<Rightarrow>
     (case strip_prefix (lit ''filter '') arg of
        Some spec \<Rightarrow>
          and_then (ok_or (lit ''unsupported filter: '' @ spec) (filter_parse spec)) (\<lambda>f. Inr (parsed\<lparr>fa_filter := f\<rparr>))
      | None \<Rightarrow>
          if arg = lit ''done'' then Inr (parsed\<lparr>fa_done := True\<rparr>)
          else if arg = lit ''no-progress'' then Inr (parsed\<lparr>fa_no_progress := True\<rparr>)
          else if arg = lit ''ofs-delta'' then Inr (parsed\<lparr>fa_ofs_delta := True\<rparr>)
          else if arg = lit ''thin-pack'' \<or> arg = lit ''include-tag'' then Inr parsed
          else Inl (lit ''unexpected fetch argument: '' @ arg))))"

text \<open>A loop over the arguments that stops at the first error.\<close>

fun try_fold :: "('a \<Rightarrow> 'x \<Rightarrow> 'e + 'a) \<Rightarrow> 'a \<Rightarrow> 'x list \<Rightarrow> 'e + 'a" where
  "try_fold f acc [] = Inr acc"
| "try_fold f acc (x # xs) = and_then (f acc x) (\<lambda>acc. try_fold f acc xs)"

definition fetch_args_parse :: "gix_wire \<Rightarrow> str list \<Rightarrow> str + FetchArgs" where
  "fetch_args_parse wr args = try_fold (fetch_arg wr) fetch_args_default args"

record ObjectInfoArgs =
  oi_size :: bool
  oi_oids :: "ObjectId list"

definition object_info_arg :: "gix_wire \<Rightarrow> ObjectInfoArgs \<Rightarrow> str \<Rightarrow> str + ObjectInfoArgs" where
  "object_info_arg wr parsed arg =
     (case strip_prefix (lit ''oid '') arg of
        Some hex \<Rightarrow>
          and_then (ok_or (lit ''invalid oid: '' @ hex) (from_hex wr hex)) (\<lambda>i. Inr (parsed\<lparr>oi_oids := oi_oids parsed @ [i]\<rparr>))
      | None \<Rightarrow>
          if arg = lit ''size'' then Inr (parsed\<lparr>oi_size := True\<rparr>)
          else Inl (lit ''unexpected object-info argument: '' @ arg))"

definition object_info_args_parse :: "gix_wire \<Rightarrow> str list \<Rightarrow> str + ObjectInfoArgs" where
  "object_info_args_parse wr args = try_fold (object_info_arg wr) \<lparr>oi_size = False, oi_oids = []\<rparr> args"

record LsRefsArgs =
  ls_prefixes :: "str list"
  ls_symrefs :: bool
  ls_peel :: bool
  ls_unborn :: bool

definition ls_refs_arg :: "LsRefsArgs \<Rightarrow> str \<Rightarrow> str + LsRefsArgs" where
  "ls_refs_arg parsed arg =
     (case strip_prefix (lit ''ref-prefix '') arg of
        Some p \<Rightarrow> Inr (parsed\<lparr>ls_prefixes := ls_prefixes parsed @ [p]\<rparr>)
      | None \<Rightarrow>
          if arg = lit ''symrefs'' then Inr (parsed\<lparr>ls_symrefs := True\<rparr>)
          else if arg = lit ''peel'' then Inr (parsed\<lparr>ls_peel := True\<rparr>)
          else if arg = lit ''unborn'' then Inr (parsed\<lparr>ls_unborn := True\<rparr>)
          else Inl arg)"

definition ls_refs_args_parse :: "str list \<Rightarrow> str + LsRefsArgs" where
  "ls_refs_args_parse args =
     try_fold ls_refs_arg \<lparr>ls_prefixes = [], ls_symrefs = False, ls_peel = False, ls_unborn = False\<rparr> args"

section \<open>Responses\<close>

definition error_line :: "gix_wire \<Rightarrow> str \<Rightarrow> bytes option" where
  "error_line wr message = error_to_write wr message"

definition version_error :: "gix_wire \<Rightarrow> Response" where
  "version_error wr =
     (case error_line wr (lit ''git protocol version 2 required'') of
        Some body \<Rightarrow> git_response 400 UP_RESULT_CONTENT_TYPE body
      | None \<Rightarrow> internal_error)"

definition err_line :: "gix_wire \<Rightarrow> str \<Rightarrow> Response" where
  "err_line wr message =
     (case error_line wr message of
        Some body \<Rightarrow> git_response 200 UP_RESULT_CONTENT_TYPE body
      | None \<Rightarrow> internal_error)"

definition reject_fetch :: "gix_wire \<Rightarrow> str \<Rightarrow> Response" where
  "reject_fetch wr message = err_line wr message"

definition error_response :: "gix_wire \<Rightarrow> Class \<Rightarrow> Response" where
  "error_response wr cls =
     (case cls of
        Client reason \<Rightarrow> err_line wr reason
      | ClassNotFound \<Rightarrow> plain 404 (lit ''repository not found'')
      | Server \<Rightarrow> internal_error)"

section \<open>Refs\<close>

datatype LsRefsError = LStore StoreError | LObjects ObjectDbError | LDecode ObjectId | LIo

fun ls_refs_class :: "LsRefsError \<Rightarrow> Class" where
  "ls_refs_class (LStore e) = store_class e"
| "ls_refs_class (LObjects e) = objectdb_class e"
| "ls_refs_class (LDecode i) = Server"
| "ls_refs_class LIo = Server"

text \<open>A \<^verbatim>\<open>BTreeMap\<close> as the ascending list of its entries.\<close>

fun btree_insert :: "'k::linorder \<Rightarrow> 'v \<Rightarrow> ('k \<times> 'v) list \<Rightarrow> ('k \<times> 'v) list" where
  "btree_insert k v [] = [(k, v)]"
| "btree_insert k v ((k', v') # kvs) =
     (if k < k' then (k, v) # (k', v') # kvs
      else if k = k' then (k, v) # kvs
      else (k', v') # btree_insert k v kvs)"

fun gather_prefixes ::
    "('s, 't) slatedb \<Rightarrow> RepoId \<Rightarrow> (str \<times> RefTarget) list \<Rightarrow> str list \<Rightarrow> ('s, StoreError, (str \<times> RefTarget) list) eff" where
  "gather_prefixes db repo refs [] = eff_return refs"
| "gather_prefixes db repo refs (p # ps) =
     eff_bind (list_refs db repo (Some p)) (\<lambda>found.
       gather_prefixes db repo (foldl (\<lambda>refs (name, tgt). btree_insert name tgt refs) refs found) ps)"

definition gather_refs :: "('s, 't) slatedb \<Rightarrow> RepoId \<Rightarrow> str list \<Rightarrow> ('s, StoreError, (str \<times> RefTarget) list) eff" where
  "gather_refs db repo wanted = (if wanted = [] then list_refs db repo None else gather_prefixes db repo [] wanted)"

datatype Resolution = Resolved ObjectId | Dangling | TooDeep

fun resolve_ref_loop :: "('s, 't) slatedb \<Rightarrow> RepoId \<Rightarrow> nat \<Rightarrow> RefTarget \<Rightarrow> ('s, StoreError, Resolution) eff" where
  "resolve_ref_loop db repo 0 current = eff_return TooDeep"
| "resolve_ref_loop db repo (Suc n) (Direct i) = eff_return (Resolved i)"
| "resolve_ref_loop db repo (Suc n) (Reference name) =
     eff_bind (get_ref db repo name) (\<lambda>r.
       case r of Some tgt \<Rightarrow> resolve_ref_loop db repo n tgt | None \<Rightarrow> eff_return Dangling)"

definition resolve_ref :: "('s, 't) slatedb \<Rightarrow> RepoId \<Rightarrow> RefTarget \<Rightarrow> ('s, StoreError, Resolution) eff" where
  "resolve_ref db repo tgt = resolve_ref_loop db repo MAX_SYMREF_DEPTH tgt"

fun peel_ref_loop :: "('s, 't) AppState \<Rightarrow> RepoId \<Rightarrow> nat \<Rightarrow> ObjectId \<Rightarrow> bool \<Rightarrow> ('s, LsRefsError, ObjectId option) eff" where
  "peel_ref_loop st repo 0 current peeled = eff_return (if peeled then Some current else None)"
| "peel_ref_loop st repo (Suc n) current peeled =
     eff_bind (eff_map_err LObjects (odb_get (st_db st) (st_os st) (st_zlib st) repo current)) (\<lambda>r.
       case r of
         None \<Rightarrow> eff_return None
       | Some (kind, body) \<Rightarrow>
           if kind \<noteq> KTag then eff_return (if peeled then Some current else None)
           else
             eff_bind (eff_lift (ok_or (LDecode current) (tag_from_bytes (st_gix st) body (oid_kind current)))) (\<lambda>tgt.
               peel_ref_loop st repo n tgt True))"

definition peel_ref :: "('s, 't) AppState \<Rightarrow> RepoId \<Rightarrow> ObjectId \<Rightarrow> ('s, LsRefsError, ObjectId option) eff" where
  "peel_ref st repo i = peel_ref_loop st repo MAX_PEEL_DEPTH i False"

subsection \<open>The ls-refs command\<close>

definition symref_attr :: "LsRefsArgs \<Rightarrow> RefTarget \<Rightarrow> str" where
  "symref_attr args tgt =
     (if ls_symrefs args then (case tgt of Reference inner \<Rightarrow> lit '' symref-target:'' @ inner | Direct i \<Rightarrow> []) else [])"

text \<open>The line of one ref, or nothing when the ref is left out.\<close>

definition ls_refs_line ::
    "('s, 't) AppState \<Rightarrow> RepoId \<Rightarrow> LsRefsArgs \<Rightarrow> str \<Rightarrow> RefTarget \<Rightarrow> ('s, LsRefsError, bytes option) eff" where
  "ls_refs_line st repo args name tgt =
     eff_bind (eff_map_err LStore (resolve_ref (st_db st) repo tgt)) (\<lambda>r.
       case r of
         Resolved i \<Rightarrow>
           let line = to_hex i @ [32] @ name @ symref_attr args tgt in
           if ls_peel args then
             eff_bind (peel_ref st repo i) (\<lambda>peeled. eff_return (Some
               (case peeled of Some p \<Rightarrow> line @ lit '' peeled:'' @ to_hex p @ [10] | None \<Rightarrow> line @ [10])))
           else eff_return (Some (line @ [10]))
       | Dangling \<Rightarrow>
           eff_return
             (case tgt of
                Reference inner \<Rightarrow> if ls_unborn args then Some (lit ''unborn '' @ name @ symref_attr args tgt @ [10]) else None
              | Direct i \<Rightarrow> None)
       | TooDeep \<Rightarrow> eff_return None)"

fun ls_refs_loop ::
    "('s, 't) AppState \<Rightarrow> RepoId \<Rightarrow> LsRefsArgs \<Rightarrow> bytes \<Rightarrow> (str \<times> RefTarget) list \<Rightarrow> ('s, LsRefsError, bytes) eff" where
  "ls_refs_loop st repo args body [] = eff_return body"
| "ls_refs_loop st repo args body ((name, tgt) # refs) =
     eff_bind (ls_refs_line st repo args name tgt) (\<lambda>line.
       case line of
         None \<Rightarrow> ls_refs_loop st repo args body refs
       | Some line \<Rightarrow>
           eff_bind (eff_lift (ok_or LIo (data_to_write (st_wire st) line))) (\<lambda>p.
             ls_refs_loop st repo args (body @ p) refs))"

definition build_ls_refs :: "('s, 't) AppState \<Rightarrow> RepoId \<Rightarrow> LsRefsArgs \<Rightarrow> ('s, LsRefsError, bytes) eff" where
  "build_ls_refs st repo args =
     eff_bind (eff_map_err LStore (gather_refs (st_db st) repo (ls_prefixes args))) (\<lambda>refs.
     eff_bind (ls_refs_loop st repo args [] refs) (\<lambda>body.
     eff_bind (eff_lift (ok_or LIo (flush_to_write (st_wire st)))) (\<lambda>p.
     eff_return (body @ p))))"

definition ls_refs :: "('s, 't) AppState \<Rightarrow> RepoMeta \<Rightarrow> str list \<Rightarrow> ('s, Response, Response) eff" where
  "ls_refs st meta args =
     (let wr = st_wire st in
      eff_bind (eff_lift (map_err (\<lambda>arg. err_line wr (lit ''unexpected ls-refs argument: '' @ arg)) (ls_refs_args_parse args))) (\<lambda>parsed.
      eff_bind (eff_map_err (\<lambda>e. error_response wr (ls_refs_class e)) (build_ls_refs st (repo_id meta) parsed)) (\<lambda>body.
      eff_return (git_response 200 UP_RESULT_CONTENT_TYPE body))))"

section \<open>Object metadata\<close>

definition hash_name :: "HashKind \<Rightarrow> str" where
  "hash_name k = (case k of Sha1 \<Rightarrow> lit ''sha1'' | Sha256 \<Rightarrow> lit ''sha256'')"

definition up_object_format_cmd :: "gix_wire \<Rightarrow> RepoMeta \<Rightarrow> Response" where
  "up_object_format_cmd wr meta =
     (case write_all [data_to_write wr (hash_name (object_format meta) @ [10]), flush_to_write wr] of
        Some body \<Rightarrow> git_response 200 UP_RESULT_CONTENT_TYPE body
      | None \<Rightarrow> internal_error)"

fun object_info_loop :: "('s, 't) AppState \<Rightarrow> RepoId \<Rightarrow> bytes \<Rightarrow> ObjectId list \<Rightarrow> ('s, Response, bytes) eff" where
  "object_info_loop st repo body [] = eff_return body"
| "object_info_loop st repo body (i # oids) =
     eff_bind (eff_map_err (\<lambda>e. error_response (st_wire st) (objectdb_class e)) (odb_size (st_db st) repo i)) (\<lambda>r.
       case r of
         None \<Rightarrow> eff_fail (err_line (st_wire st) (lit ''unknown object '' @ to_hex i))
       | Some (kind, sz) \<Rightarrow>
           eff_bind (eff_lift (ok_or internal_error (data_to_write (st_wire st) (to_hex i @ [32] @ decimal (unat sz) @ [10])))) (\<lambda>p.
             object_info_loop st repo (body @ p) oids))"

definition up_object_info :: "('s, 't) AppState \<Rightarrow> RepoMeta \<Rightarrow> str list \<Rightarrow> ('s, Response, Response) eff" where
  "up_object_info st meta args =
     (let wr = st_wire st in
      eff_bind (eff_lift (map_err (err_line wr) (object_info_args_parse wr args))) (\<lambda>parsed.
      eff_bind (eff_lift (ok_or internal_error (data_to_write wr (lit ''size'' @ [10])))) (\<lambda>body.
      eff_bind (object_info_loop st (repo_id meta) body (oi_oids parsed)) (\<lambda>body.
      eff_bind (eff_lift (ok_or internal_error (flush_to_write wr))) (\<lambda>p.
      eff_return (git_response 200 UP_RESULT_CONTENT_TYPE (body @ p)))))))"

end
