(* ===== verification/Bands.thy ===== *)
theory Bands
  imports Wire
begin

text \<open>
  The response body of a fetch in \<^verbatim>\<open>src/protocol/upload_pack.rs\<close>: the side-band and raw writers
  that cut the pack's bytes into chunks for the body channel, and the routine that runs the pack
  writer over one of them. The byte counters and timings of the writers feed telemetry only and are left
  out.
\<close>

section \<open>The body channel\<close>

text \<open>
  The chunks sent so far. \<open>listening n\<close> tells whether the receiver is still there for the chunk
  after \<open>n\<close> others; a send that finds it gone sends nothing.
\<close>

type_synonym channel = "bytes list"

definition blocking_send :: "(nat \<Rightarrow> bool) \<Rightarrow> bytes \<Rightarrow> (channel, IoError, unit) eff" where
  "blocking_send listening chunk ch =
     (if listening (length ch) then (Inr (), ch @ [chunk]) else (Inl BrokenPipe, ch))"

definition send_band :: "gix_wire \<Rightarrow> (nat \<Rightarrow> bool) \<Rightarrow> Channel \<Rightarrow> bytes \<Rightarrow> (channel, IoError, unit) eff" where
  "send_band wr listening c data =
     (case band_to_write wr c data of
        None \<Rightarrow> eff_fail OtherIo
      | Some packet \<Rightarrow> blocking_send listening packet)"

section \<open>The writers\<close>

text \<open>The buffer of bytes not yet sent and the channel: \<^verbatim>\<open>BandWriter\<close> and \<^verbatim>\<open>RawWriter\<close> alike.\<close>

record ChunkWriter =
  cw_buf :: bytes
  cw_chan :: channel

text \<open>The loop of \<^verbatim>\<open>write\<close>: full chunks leave the buffer before they are sent.\<close>

function drain_buffer :: "(bytes \<Rightarrow> (channel, IoError, unit) eff) \<Rightarrow> bytes \<Rightarrow> channel \<Rightarrow> (IoError + unit) \<times> ChunkWriter" where
  "drain_buffer send buf ch =
     (if length buf \<ge> MAX_BAND_DATA then
        (case send (take MAX_BAND_DATA buf) ch of
           (Inl e, ch) \<Rightarrow> (Inl e, \<lparr>cw_buf = drop MAX_BAND_DATA buf, cw_chan = ch\<rparr>)
         | (Inr _, ch) \<Rightarrow> drain_buffer send (drop MAX_BAND_DATA buf) ch)
      else (Inr (), \<lparr>cw_buf = buf, cw_chan = ch\<rparr>))"
  by pat_completeness auto
termination
  by (relation "measure (\<lambda>(send, buf, ch). length buf)") (auto simp: MAX_BAND_DATA_def)

declare drain_buffer.simps [simp del]

definition cw_write :: "(bytes \<Rightarrow> (channel, IoError, unit) eff) \<Rightarrow> bytes \<Rightarrow> (ChunkWriter, IoError, unit) eff" where
  "cw_write send data w = drain_buffer send (cw_buf w @ data) (cw_chan w)"

definition cw_flush :: "(bytes \<Rightarrow> (channel, IoError, unit) eff) \<Rightarrow> (ChunkWriter, IoError, unit) eff" where
  "cw_flush send w =
     (if cw_buf w \<noteq> [] then
        (case send (cw_buf w) (cw_chan w) of (r, ch) \<Rightarrow> (r, \<lparr>cw_buf = [], cw_chan = ch\<rparr>))
      else (Inr (), w))"

text \<open>\<^verbatim>\<open>BandWriter::send_data\<close> and \<^verbatim>\<open>RawWriter::send_chunk\<close>.\<close>

definition send_data :: "gix_wire \<Rightarrow> (nat \<Rightarrow> bool) \<Rightarrow> bytes \<Rightarrow> (channel, IoError, unit) eff" where
  "send_data wr listening data = send_band wr listening ChData data"

definition send_chunk :: "(nat \<Rightarrow> bool) \<Rightarrow> bytes \<Rightarrow> (channel, IoError, unit) eff" where
  "send_chunk listening data = blocking_send listening data"

section \<open>The pack writer over a sink\<close>

text \<open>
  \<^verbatim>\<open>gix_pack\<close>'s writer as the byte strings it passes to \<^verbatim>\<open>write_all\<close>, with a private state; after
  the trailer it flushes the output. Both writers accept all of a write at once, so \<^verbatim>\<open>write_all\<close>
  is one \<^verbatim>\<open>write\<close>, or none for no bytes.
\<close>

record 'g gix_bytes =
  gb_init :: 'g
  gb_header :: "nat \<Rightarrow> HashKind \<Rightarrow> 'g \<times> bytes list"
  gb_entry :: "'g \<Rightarrow> OutEntry \<Rightarrow> 'g \<times> bytes list"
  gb_trailer :: "'g \<Rightarrow> bytes list \<times> ObjectId"

fun sink_writes :: "(bytes \<Rightarrow> (channel, IoError, unit) eff) \<Rightarrow> bytes list \<Rightarrow> (ChunkWriter, IoError, unit) eff" where
  "sink_writes send [] = eff_return ()"
| "sink_writes send (d # ds) = eff_bind (if d = [] then eff_return () else cw_write send d) (\<lambda>_. sink_writes send ds)"

definition sink_writer :: "'g gix_bytes \<Rightarrow> (bytes \<Rightarrow> (channel, IoError, unit) eff) \<Rightarrow> ('g \<times> ChunkWriter) pack_writer" where
  "sink_writer gb send = \<lparr>
     pw_header = (\<lambda>n k (g, w).
       let (g, ds) = gb_header gb n k; (r, w) = sink_writes send ds w in (r, (g, w))),
     pw_entry = (\<lambda>e (g, w).
       let (g, ds) = gb_entry gb g e; (r, w) = sink_writes send ds w in (r, (g, w))),
     pw_trailer = (\<lambda>(g, w).
       let (ds, digest) = gb_trailer gb g;
           (r, w) = eff_bind (sink_writes send ds) (\<lambda>_. cw_flush send) w in
       (and_then r (\<lambda>_. Inr (Some digest)), (g, w)))\<rparr>"

section \<open>Streaming a pack\<close>

fun fetch_object_class :: "FetchObjectError \<Rightarrow> Class" where
  "fetch_object_class (FObjects e) = objectdb_class e"
| "fetch_object_class (FMissing i) = Server"

definition is_broken_pipe :: "'e PackOutError \<Rightarrow> bool" where
  "is_broken_pipe err = (case err of PWrite BrokenPipe \<Rightarrow> True | _ \<Rightarrow> False)"

text \<open>A send whose result is ignored.\<close>

definition send_anyway :: "(channel, IoError, unit) eff \<Rightarrow> channel \<Rightarrow> channel" where
  "send_anyway m ch = snd (m ch)"

definition progress_line :: "gix_wire \<Rightarrow> (nat \<Rightarrow> bool) \<Rightarrow> bool \<Rightarrow> str \<Rightarrow> nat \<Rightarrow> channel \<Rightarrow> channel" where
  "progress_line wr listening no_progress verb count ch =
     (if \<not> no_progress
      then send_anyway (send_band wr listening ChProgress (verb @ [32] @ decimal count @ lit '' objects'' @ [10])) ch
      else ch)"

definition stream_pack ::
    "gix_wire \<Rightarrow> 'g gix_bytes \<Rightarrow> zlib_rs \<Rightarrow> (nat \<Rightarrow> bool) \<Rightarrow> (FetchObjectError + PackEntry) list \<Rightarrow> nat \<Rightarrow> HashKind
      \<Rightarrow> bool \<Rightarrow> bool \<Rightarrow> bool \<Rightarrow> channel \<Rightarrow> channel" where
  "stream_pack wr gb Z listening objs count object_hash sideband no_progress ofs body =
     (if \<not> sideband then
        (case write_pack_with_options (sink_writer gb (send_chunk listening)) Z objs count object_hash \<lparr>ofs_deltas = ofs\<rparr>
            delta_stats_default (gb_init gb, \<lparr>cw_buf = [], cw_chan = body\<rparr>) of
           ((r, stats), (g, w)) \<Rightarrow> cw_chan w)
      else
        let body = progress_line wr listening no_progress (lit ''packing'') count body in
        (case write_pack_with_options (sink_writer gb (send_data wr listening)) Z objs count object_hash \<lparr>ofs_deltas = ofs\<rparr>
            delta_stats_default (gb_init gb, \<lparr>cw_buf = [], cw_chan = body\<rparr>) of
           ((r, stats), (g, w)) \<Rightarrow>
             (case r of
                Inr digest \<Rightarrow>
                  let body = progress_line wr listening no_progress (lit ''packed'') count (cw_chan w) in
                  (case flush_to_write wr of
                     Some packet \<Rightarrow> send_anyway (blocking_send listening packet) body
                   | None \<Rightarrow> body)
              | Inl err \<Rightarrow>
                  if is_broken_pipe err then cw_chan w
                  else
                    let reason = (case packout_class fetch_object_class err of Client reason \<Rightarrow> reason | _ \<Rightarrow> lit ''internal error'') in
                    send_anyway (send_band wr listening ChError reason) (cw_chan w))))"

end
