(* ===== verification/FetchEndpoint.thy ===== *)
theory FetchEndpoint
  imports UploadPack Bands
begin

text \<open>
  The rest of \<^verbatim>\<open>src/protocol/upload_pack.rs\<close>: the \<open>fetch\<close> command, which plans a pack and answers
  with the negotiation's result followed by the streamed pack, and the dispatch of a request to its
  command.
\<close>

section \<open>The pack as a response\<close>

text \<open>
  What the tasks of one response see of each other: whether the pack writer still takes entries from
  the lookups, and whether the client still takes chunks from the writer.
\<close>

record fetch_io =
  writer_listening :: "nat \<Rightarrow> bool"
  client_listening :: "nat \<Rightarrow> bool"

definition stream_pack_response ::
    "('s, 't) AppState \<Rightarrow> 'g gix_bytes \<Rightarrow> fetch_io \<Rightarrow> RepoMeta \<Rightarrow> ScheduledObject list \<Rightarrow> nat \<Rightarrow> bytes \<Rightarrow> bool \<Rightarrow> bool \<Rightarrow> bool
      \<Rightarrow> ('s, Response, Response) eff" where
  "stream_pack_response st gb io meta objs count pre sideband no_progress ofs =
     eff_bind (eff_map_err (\<lambda>e. internal_error)
       (feed_objects (st_db st) (st_os st) (repo_id meta) (writer_listening io) 0 objs)) (\<lambda>items.
     eff_return (git_response 200 UP_RESULT_CONTENT_TYPE
       (pre @ concat (stream_pack (st_wire st) gb (st_zlib st) (client_listening io) items count (object_format meta)
          sideband no_progress ofs []))))"

section \<open>The fetch command\<close>

definition ack_line :: "ObjectId \<Rightarrow> bytes" where
  "ack_line i = lit ''ACK '' @ to_hex i @ [10]"

definition negotiation_prefix :: "gix_wire \<Rightarrow> bool \<Rightarrow> ObjectId list \<Rightarrow> bytes option" where
  "negotiation_prefix wr fdone shared =
     write_all
       ((if \<not> fdone
         then [data_to_write wr (lit ''acknowledgments'' @ [10])] @
           (if shared = [] then [data_to_write wr (lit ''NAK'' @ [10])] else map (data_to_write wr \<circ> ack_line) shared) @
           [data_to_write wr (lit ''ready'' @ [10]), delim_to_write wr]
         else []) @
        [data_to_write wr (lit ''packfile'' @ [10])])"

definition up_fetch :: "('s, 't) AppState \<Rightarrow> 'g gix_bytes \<Rightarrow> fetch_io \<Rightarrow> RepoMeta \<Rightarrow> str list \<Rightarrow> ('s, Response, Response) eff" where
  "up_fetch st gb io meta args =
     (let wr = st_wire st in
      eff_bind (eff_lift (map_err (reject_fetch wr) (fetch_args_parse wr args))) (\<lambda>parsed.
      if fa_wants parsed = [] then eff_fail (reject_fetch wr (lit ''fetch requires at least one want''))
      else
        eff_bind (eff_map_err (\<lambda>e. error_response wr (walk_class e))
          (plan_pack (walker_new st (repo_id meta)) (fa_wants parsed) (fa_haves parsed) (fa_filter parsed) (fa_ofs_delta parsed))) (\<lambda>plan.
        let count = length (plan_objects plan) in
        if 2 ^ 32 \<le> count then eff_fail (reject_fetch wr (lit ''too many objects for one pack''))
        else
          eff_bind (eff_lift (ok_or internal_error (negotiation_prefix wr (fa_done parsed) (plan_common plan)))) (\<lambda>pre.
          stream_pack_response st gb io meta (plan_objects plan) count pre True (fa_no_progress parsed) (fa_ofs_delta parsed)))))"

section \<open>The endpoint\<close>

text \<open>The value of the \<^verbatim>\<open>Git-Protocol\<close> header, when there is one that is visible ASCII.\<close>

type_synonym headers = "str option"

fun contains_str :: "str \<Rightarrow> str \<Rightarrow> bool" where
  "contains_str p [] = (p = [])"
| "contains_str p (c # s) = (prefix p (c # s) \<or> contains_str p s)"

definition wants_v2 :: "headers \<Rightarrow> bool" where
  "wants_v2 h = (case h of Some v \<Rightarrow> contains_str (lit ''version=2'') v | None \<Rightarrow> False)"

definition upload_pack ::
    "('s, 't) AppState \<Rightarrow> 'g gix_bytes \<Rightarrow> fetch_io \<Rightarrow> str \<Rightarrow> headers \<Rightarrow> bytes \<Rightarrow> 's \<Rightarrow> Response \<times> 's" where
  "upload_pack st gb io repo h body =
     (let wr = st_wire st in
      respond
        (if \<not> wants_v2 h then eff_fail (version_error wr)
         else
           eff_bind (eff_lift (map_err (\<lambda>e. plain 400 (lit ''malformed upload-pack request'')) (up_parse_request wr body))) (\<lambda>request.
           if (case up_object_format request of Some format \<Rightarrow> format \<noteq> lit ''sha1'' | None \<Rightarrow> False)
           then eff_fail (err_line wr (lit ''unsupported object format: '' @ the (up_object_format request)))
           else
             eff_bind (eff_map_err (\<lambda>e. error_response wr (store_class e)) (lookup_repo (st_db st) repo)) (\<lambda>found.
               case found of
                 None \<Rightarrow> eff_fail (plain 404 (lit ''repository not found''))
               | Some meta \<Rightarrow>
                   if up_command request = lit ''ls-refs'' then ls_refs st meta (up_args request)
                   else if up_command request = lit ''fetch'' then up_fetch st gb io meta (up_args request)
                   else if up_command request = lit ''object-format'' then eff_return (up_object_format_cmd wr meta)
                   else if up_command request = lit ''object-info'' then up_object_info st meta (up_args request)
                   else eff_return (err_line wr (lit ''unknown command: '' @ up_command request))))))"

end
