(* ===== verification/Advertise.thy ===== *)
theory Advertise
  imports UploadPack
begin

text \<open>
  \<^verbatim>\<open>src/protocol/advertise.rs\<close>: the service advertisements, each built in a buffer that is
  abandoned when an encoder fails.
\<close>

definition UPLOAD_ADVERTISEMENT_CONTENT_TYPE :: str where
  "UPLOAD_ADVERTISEMENT_CONTENT_TYPE = lit ''application/x-git-upload-pack-advertisement''"

definition RECEIVE_ADVERTISEMENT_CONTENT_TYPE :: str where
  "RECEIVE_ADVERTISEMENT_CONTENT_TYPE = lit ''application/x-git-receive-pack-advertisement''"

text \<open>The version is the package's, \<^verbatim>\<open>0.1.0\<close> in \<^verbatim>\<open>Cargo.toml\<close>.\<close>

definition agent :: str where
  "agent = lit ''miscreant/0.1.0''"

definition adv_upload_pack :: "gix_wire \<Rightarrow> bytes option" where
  "adv_upload_pack wr =
     write_all
       [data_to_write wr (lit ''# service=git-upload-pack'' @ [10]), flush_to_write wr,
        data_to_write wr (lit ''version 2'' @ [10]), data_to_write wr (lit ''agent='' @ agent @ [10]),
        data_to_write wr (lit ''ls-refs=unborn'' @ [10]), data_to_write wr (lit ''fetch=filter'' @ [10]),
        data_to_write wr (lit ''object-info'' @ [10]), data_to_write wr (lit ''object-format=sha1'' @ [10]),
        flush_to_write wr]"

text \<open>The line that carries the capabilities when there is no ref to carry them.\<close>

definition null_line :: "HashKind \<Rightarrow> str \<Rightarrow> bytes" where
  "null_line format caps = to_hex (null_oid format) @ lit '' capabilities^{}'' @ [0] @ caps @ [10]"

text \<open>The ref lines, the capabilities on the first.\<close>

fun adv_ref_lines :: "str \<Rightarrow> bool \<Rightarrow> (str \<times> RefTarget) list \<Rightarrow> bytes list" where
  "adv_ref_lines caps first [] = []"
| "adv_ref_lines caps first ((name, tgt) # refs) =
     (case tgt of
        Reference inner \<Rightarrow> adv_ref_lines caps first refs
      | Direct i \<Rightarrow>
          (if first then to_hex i @ [32] @ name @ [0] @ caps @ [10] else to_hex i @ [32] @ name @ [10])
          # adv_ref_lines caps False refs)"

definition adv_receive_pack :: "gix_wire \<Rightarrow> (str \<times> RefTarget) list \<Rightarrow> HashKind \<Rightarrow> bytes option" where
  "adv_receive_pack wr refs format =
     (let caps = lit ''report-status delete-refs side-band-64k ofs-delta agent='' @ agent;
          lines = adv_ref_lines caps True refs in
      write_all
        ([data_to_write wr (lit ''# service=git-receive-pack'' @ [10]), flush_to_write wr] @
         map (data_to_write wr) (if lines = [] then [null_line format caps] else lines) @
         [flush_to_write wr]))"

record UploadRef =
  ur_name :: str
  ur_oid :: ObjectId
  ur_peeled :: "ObjectId option"

definition peeled_line :: "UploadRef \<Rightarrow> bytes list" where
  "peeled_line r = (case ur_peeled r of Some p \<Rightarrow> [to_hex p @ [32] @ ur_name r @ lit ''^{}'' @ [10]] | None \<Rightarrow> [])"

fun v0_ref_lines :: "str \<Rightarrow> bool \<Rightarrow> UploadRef list \<Rightarrow> bytes list" where
  "v0_ref_lines caps first [] = []"
| "v0_ref_lines caps first (r # refs) =
     (if first then to_hex (ur_oid r) @ [32] @ ur_name r @ [0] @ caps @ [10] else to_hex (ur_oid r) @ [32] @ ur_name r @ [10])
     # peeled_line r @ v0_ref_lines caps False refs"

definition adv_upload_pack_v0 :: "gix_wire \<Rightarrow> UploadRef list \<Rightarrow> str option \<Rightarrow> HashKind \<Rightarrow> bytes option" where
  "adv_upload_pack_v0 wr refs head_symref_target format =
     (let caps = lit ''multi_ack_detailed side-band-64k no-progress ofs-delta agent='' @ agent @
            (case head_symref_target of Some tgt \<Rightarrow> lit '' symref=HEAD:'' @ tgt | None \<Rightarrow> []) in
      write_all
        ([data_to_write wr (lit ''# service=git-upload-pack'' @ [10]), flush_to_write wr] @
         map (data_to_write wr) (if refs = [] then [null_line format caps] else v0_ref_lines caps True refs) @
         [flush_to_write wr]))"

end
