(* ===== verification/UploadPackV0.thy ===== *)
theory UploadPackV0
  imports FetchEndpoint Advertise
begin

text \<open>
  \<^verbatim>\<open>src/protocol/upload_pack_v0.rs\<close>: the classic fetch protocol. The advertisement lists every
  resolvable ref; a request without \<open>done\<close> is a negotiation round, one with it gets the pack.
\<close>

section \<open>The advertisement\<close>

definition V0_HEAD_REF :: str where
  "V0_HEAD_REF = lit ''HEAD''"

text \<open>The loop that splits HEAD off: a later entry of that name replaces an earlier one.\<close>

fun split_head :: "RefTarget option \<Rightarrow> (str \<times> RefTarget) list \<Rightarrow> (str \<times> RefTarget) list \<Rightarrow> RefTarget option \<times> (str \<times> RefTarget) list" where
  "split_head head others [] = (head, others)"
| "split_head head others ((name, tgt) # refs) =
     (if name = V0_HEAD_REF then split_head (Some tgt) others refs else split_head head (others @ [(name, tgt)]) refs)"

fun v0_resolve :: "('s, 't) AppState \<Rightarrow> RepoId \<Rightarrow> UploadRef list \<Rightarrow> (str \<times> RefTarget) list \<Rightarrow> ('s, LsRefsError, UploadRef list) eff" where
  "v0_resolve st repo advertised [] = eff_return advertised"
| "v0_resolve st repo advertised ((name, tgt) # refs) =
     eff_bind (eff_map_err LStore (resolve_ref (st_db st) repo tgt)) (\<lambda>r.
       case r of
         Resolved i \<Rightarrow>
           eff_bind (peel_ref st repo i) (\<lambda>peeled.
             v0_resolve st repo (advertised @ [\<lparr>ur_name = name, ur_oid = i, ur_peeled = peeled\<rparr>]) refs)
       | _ \<Rightarrow> v0_resolve st repo advertised refs)"

definition v0_head ::
    "('s, 't) AppState \<Rightarrow> RepoId \<Rightarrow> RefTarget option \<Rightarrow> ('s, LsRefsError, UploadRef list \<times> str option) eff" where
  "v0_head st repo head =
     (case head of
        None \<Rightarrow> eff_return ([], None)
      | Some tgt \<Rightarrow>
          eff_bind (eff_map_err LStore (resolve_ref (st_db st) repo tgt)) (\<lambda>r.
            eff_return
              (case r of
                 Resolved i \<Rightarrow>
                   ([\<lparr>ur_name = V0_HEAD_REF, ur_oid = i, ur_peeled = None\<rparr>],
                    (case tgt of Reference inner \<Rightarrow> Some inner | Direct j \<Rightarrow> None))
               | _ \<Rightarrow> ([], None))))"

definition build_advertisement :: "('s, 't) AppState \<Rightarrow> RepoMeta \<Rightarrow> ('s, LsRefsError, bytes) eff" where
  "build_advertisement st meta =
     eff_bind (eff_map_err LStore (list_refs (st_db st) (repo_id meta) None)) (\<lambda>refs.
     let (head, others) = split_head None [] refs in
     eff_bind (v0_head st (repo_id meta) head) (\<lambda>(advertised, symref_target).
     eff_bind (v0_resolve st (repo_id meta) advertised others) (\<lambda>advertised.
     eff_lift (ok_or LIo (adv_upload_pack_v0 (st_wire st) advertised symref_target (object_format meta))))))"

definition v0_advertise :: "('s, 't) AppState \<Rightarrow> RepoMeta \<Rightarrow> ('s, unit, bytes) eff" where
  "v0_advertise st meta = eff_map_err (\<lambda>e. ()) (build_advertisement st meta)"

section \<open>Requests\<close>

record V0Request =
  v0_wants :: "ObjectId list"
  v0_haves :: "ObjectId list"
  v0_done :: bool
  v0_side_band_64k :: bool
  v0_no_progress :: bool
  v0_ofs_delta :: bool
  v0_multi_ack_detailed :: bool

definition v0_request_default :: V0Request where
  "v0_request_default = \<lparr>v0_wants = [], v0_haves = [], v0_done = False, v0_side_band_64k = False, v0_no_progress = False,
     v0_ofs_delta = False, v0_multi_ack_detailed = False\<rparr>"

text \<open>The third value stands for a loop whose codec never consumes anything.\<close>

datatype V0ParseError = Malformed | FilterUnsupported | V0Diverges

definition v0_cap :: "V0Request \<Rightarrow> str \<Rightarrow> V0Request" where
  "v0_cap request token =
     (let name = takeWhile (\<lambda>b. b \<noteq> 61) token in
      if name = lit ''side-band-64k'' then request\<lparr>v0_side_band_64k := True\<rparr>
      else if name = lit ''no-progress'' then request\<lparr>v0_no_progress := True\<rparr>
      else if name = lit ''multi_ack_detailed'' then request\<lparr>v0_multi_ack_detailed := True\<rparr>
      else if name = lit ''ofs-delta'' then request\<lparr>v0_ofs_delta := True\<rparr>
      else request)"

definition v0_parse_caps :: "str \<Rightarrow> V0Request \<Rightarrow> V0Request" where
  "v0_parse_caps caps request = foldl v0_cap request (split_all 32 caps)"

definition v0_want :: "gix_wire \<Rightarrow> V0Request \<Rightarrow> bool \<Rightarrow> str \<Rightarrow> V0ParseError + V0Request" where
  "v0_want wr request first_want tail =
     (let (hex, caps) = (case split_once 32 tail of Some (hex, caps) \<Rightarrow> (hex, Some caps) | None \<Rightarrow> (tail, None)) in
      and_then (ok_or Malformed (from_hex wr hex)) (\<lambda>i.
        let request = request\<lparr>v0_wants := v0_wants request @ [i]\<rparr> in
        Inr (if first_want then (case caps of Some caps \<Rightarrow> v0_parse_caps caps request | None \<Rightarrow> request) else request)))"

fun v0_parse_loop :: "gix_wire \<Rightarrow> nat \<Rightarrow> bytes \<Rightarrow> V0Request \<Rightarrow> bool \<Rightarrow> bool \<Rightarrow> V0ParseError + V0Request" where
  "v0_parse_loop wr 0 body request first_want saw_line = Inl V0Diverges"
| "v0_parse_loop wr (Suc n) body request first_want saw_line =
     (if body = [] then (if \<not> saw_line then Inl Malformed else Inr request)
      else
        case streaming wr body of
          Inr (Some (line, consumed)) \<Rightarrow>
            (let body = drop consumed body in
             case line of
               Flush \<Rightarrow> v0_parse_loop wr n body request first_want True
             | Data data \<Rightarrow>
                 and_then (ok_or Malformed (from_utf8 (chomp data))) (\<lambda>text.
                   if text = lit ''done'' then Inr (request\<lparr>v0_done := True\<rparr>)
                   else
                     case strip_prefix (lit ''want '') text of
                       Some tail \<Rightarrow>
                         and_then (v0_want wr request first_want tail) (\<lambda>request.
                           v0_parse_loop wr n body request False True)
                     | None \<Rightarrow>
                         (case strip_prefix (lit ''have '') text of
                            Some hex \<Rightarrow>
                              and_then (ok_or Malformed (from_hex wr hex)) (\<lambda>i.
                                v0_parse_loop wr n body (request\<lparr>v0_haves := v0_haves request @ [i]\<rparr>) first_want True)
                          | None \<Rightarrow>
                              if strip_prefix (lit ''filter '') text \<noteq> None then Inl FilterUnsupported else Inl Malformed))
             | _ \<Rightarrow> Inl Malformed)
        | _ \<Rightarrow> Inl Malformed)"

definition v0_parse_request :: "gix_wire \<Rightarrow> bytes \<Rightarrow> V0ParseError + V0Request" where
  "v0_parse_request wr body = v0_parse_loop wr (Suc (length body)) body v0_request_default True False"

section \<open>Rounds\<close>

definition v0_malformed :: "gix_wire \<Rightarrow> Response" where
  "v0_malformed wr =
     (case error_line wr (lit ''malformed upload-pack request'') of
        Some body \<Rightarrow> git_response 400 UP_RESULT_CONTENT_TYPE body
      | None \<Rightarrow> internal_error)"

definition classify_walk_error :: "gix_wire \<Rightarrow> WalkError \<Rightarrow> Response" where
  "classify_walk_error wr err = error_response wr (walk_class err)"

definition ack_negotiation_block :: "gix_wire \<Rightarrow> ObjectId list \<Rightarrow> bool \<Rightarrow> bool \<Rightarrow> bytes option" where
  "ack_negotiation_block wr shared ready multi_ack_detailed =
     write_all (map (data_to_write wr)
       ((if multi_ack_detailed
         then map (\<lambda>i. lit ''ACK '' @ to_hex i @ lit '' common'' @ [10]) shared @
           (if ready \<and> shared \<noteq> [] then [lit ''ACK '' @ to_hex (last shared) @ lit '' ready'' @ [10]] else [])
         else []) @
        [lit ''NAK'' @ [10]]))"

definition ack_done_line :: "gix_wire \<Rightarrow> ObjectId list \<Rightarrow> bytes option" where
  "ack_done_line wr shared =
     (if shared \<noteq> [] then data_to_write wr (ack_line (last shared)) else data_to_write wr (lit ''NAK'' @ [10]))"

definition negotiate :: "gix_wire \<Rightarrow> ('s, 't) walker \<Rightarrow> V0Request \<Rightarrow> ('s, Response, Response) eff" where
  "negotiate wr w request =
     eff_bind (eff_map_err (classify_walk_error wr) (partition_wants w (v0_wants request))) (\<lambda>partition.
     eff_bind (eff_map_err (classify_walk_error wr) (select_commits w (history partition) (v0_haves request))) (\<lambda>sel.
     let ready = common sel \<noteq> [] \<and> bounded_by_haves sel in
     eff_bind (eff_lift (ok_or internal_error (ack_negotiation_block wr (common sel) ready (v0_multi_ack_detailed request)))) (\<lambda>body.
     eff_return (git_response 200 UP_RESULT_CONTENT_TYPE body))))"

definition stream_done_round ::
    "('s, 't) AppState \<Rightarrow> 'g gix_bytes \<Rightarrow> fetch_io \<Rightarrow> RepoMeta \<Rightarrow> ('s, 't) walker \<Rightarrow> V0Request \<Rightarrow> ('s, Response, Response) eff" where
  "stream_done_round st gb io meta w request =
     (let wr = st_wire st in
      eff_bind (eff_map_err (classify_walk_error wr)
        (plan_pack w (v0_wants request) (v0_haves request) NoFilter (v0_ofs_delta request))) (\<lambda>plan.
      let count = length (plan_objects plan) in
      if 2 ^ 32 \<le> count then eff_fail (reject_fetch wr (lit ''too many objects for one pack''))
      else
        eff_bind (eff_lift (ok_or internal_error (ack_done_line wr (plan_common plan)))) (\<lambda>pre.
        stream_pack_response st gb io meta (plan_objects plan) count pre (v0_side_band_64k request) (v0_no_progress request)
          (v0_ofs_delta request))))"

definition v0_upload_pack ::
    "('s, 't) AppState \<Rightarrow> 'g gix_bytes \<Rightarrow> fetch_io \<Rightarrow> str \<Rightarrow> bytes \<Rightarrow> 's \<Rightarrow> Response \<times> 's" where
  "v0_upload_pack st gb io repo body =
     (let wr = st_wire st in
      respond
        (eff_bind (eff_lift (map_err (\<lambda>e.
            if e = FilterUnsupported then reject_fetch wr (lit ''filter requires protocol v2'') else v0_malformed wr)
            (v0_parse_request wr body))) (\<lambda>request.
         eff_bind (eff_map_err (\<lambda>e. error_response wr (store_class e)) (lookup_repo (st_db st) repo)) (\<lambda>found.
           case found of
             None \<Rightarrow> eff_fail (plain 404 (lit ''repository not found''))
           | Some meta \<Rightarrow>
               if v0_wants request = [] then eff_fail (reject_fetch wr (lit ''fetch requires at least one want''))
               else if v0_done request then stream_done_round st gb io meta (walker_new st (repo_id meta)) request
               else negotiate wr (walker_new st (repo_id meta)) request))))"

end
