(* ===== verification/Http.thy ===== *)
theory Http
  imports UploadPackV0 ReceivePack
begin

text \<open>
  \<^verbatim>\<open>src/protocol/http.rs\<close>: routing. The repository is the request path less its endpoint suffix;
  the service parameter, the method's endpoint and the protocol header choose the handler. The
  tracing spans and the metrics label's registration are left out.
\<close>

definition INFO_REFS :: str where
  "INFO_REFS = lit ''info/refs''"

definition UPLOAD_PACK :: str where
  "UPLOAD_PACK = lit ''git-upload-pack''"

definition RECEIVE_PACK :: str where
  "RECEIVE_PACK = lit ''git-receive-pack''"

definition SERVICE_UPLOAD_PACK :: str where
  "SERVICE_UPLOAD_PACK = lit ''git-upload-pack''"

definition SERVICE_RECEIVE_PACK :: str where
  "SERVICE_RECEIVE_PACK = lit ''git-receive-pack''"

definition strip_endpoint :: "str \<Rightarrow> str \<Rightarrow> str option" where
  "strip_endpoint path endpoint =
     (if path = endpoint then Some []
      else Option.bind (strip_suffix endpoint path) (strip_suffix [47]))"

definition repo_name :: "str \<Rightarrow> unit + str" where
  "repo_name pre =
     (let name = (case strip_suffix (lit ''.git'') pre of Some n \<Rightarrow> n | None \<Rightarrow> pre) in
      if name = [] then Inl ()
      else if list_ex (\<lambda>c. c = [] \<or> c = lit ''.'' \<or> c = lit ''..'') (split_all 47 name) then Inl ()
      else Inr name)"

text \<open>\<^verbatim>\<open>find_map\<close>: the first pair that has the prefix.\<close>

definition service_param :: "str option \<Rightarrow> str option" where
  "service_param query =
     Option.bind query (\<lambda>q.
       case List.map_filter (strip_prefix (lit ''service='')) (split_all 38 q) of [] \<Rightarrow> None | v # vs \<Rightarrow> Some v)"

definition classify_endpoint :: "str \<Rightarrow> str option \<Rightarrow> str option" where
  "classify_endpoint path query =
     (let path = (case strip_prefix [47] path of Some p \<Rightarrow> p | None \<Rightarrow> path) in
      if strip_endpoint path INFO_REFS \<noteq> None then
        (if service_param query = Some SERVICE_UPLOAD_PACK then Some (lit ''advert-upload'')
         else if service_param query = Some SERVICE_RECEIVE_PACK then Some (lit ''advert-receive'')
         else None)
      else if strip_endpoint path RECEIVE_PACK \<noteq> None then Some (lit ''receive-pack'')
      else if strip_endpoint path UPLOAD_PACK \<noteq> None then Some (lit ''upload-pack'')
      else None)"

definition upload_pack_advert :: "('s, 't) AppState \<Rightarrow> str \<Rightarrow> headers \<Rightarrow> 's \<Rightarrow> Response \<times> 's" where
  "upload_pack_advert st repo h =
     respond
       (eff_bind (eff_map_err (\<lambda>e. internal_error) (lookup_repo (st_db st) repo)) (\<lambda>found.
          case found of
            None \<Rightarrow> eff_fail (plain 404 (lit ''repository not found''))
          | Some meta \<Rightarrow>
              if wants_v2 h then
                eff_bind (eff_lift (ok_or internal_error (adv_upload_pack (st_wire st)))) (\<lambda>body.
                eff_return (git_response 200 UPLOAD_ADVERTISEMENT_CONTENT_TYPE body))
              else
                eff_bind (eff_map_err (\<lambda>e. internal_error) (v0_advertise st meta)) (\<lambda>body.
                eff_return (git_response 200 UPLOAD_ADVERTISEMENT_CONTENT_TYPE body))))"

definition receive_pack_advert :: "('s, 't) AppState \<Rightarrow> str \<Rightarrow> 's \<Rightarrow> Response \<times> 's" where
  "receive_pack_advert st repo =
     respond
       (eff_bind
         (if auto_create_repos st then eff_map_err (\<lambda>e. internal_error) (get_or_create_repo (st_db st) repo)
          else
            eff_bind (eff_map_err (\<lambda>e. internal_error) (lookup_repo (st_db st) repo)) (\<lambda>found.
              case found of
                None \<Rightarrow> eff_fail (plain 404 (lit ''repository not found''))
              | Some meta \<Rightarrow> eff_return meta)) (\<lambda>meta.
        eff_bind (eff_map_err (\<lambda>e. internal_error) (list_refs (st_db st) (repo_id meta) None)) (\<lambda>refs.
        eff_bind (eff_lift (ok_or internal_error (adv_receive_pack (st_wire st) refs (object_format meta)))) (\<lambda>body.
        eff_return (git_response 200 RECEIVE_ADVERTISEMENT_CONTENT_TYPE body)))))"

definition info_refs :: "('s, 't) AppState \<Rightarrow> str \<Rightarrow> str option \<Rightarrow> headers \<Rightarrow> 's \<Rightarrow> Response \<times> 's" where
  "info_refs st path query h =
     (case strip_endpoint path INFO_REFS of
        None \<Rightarrow> Pair (plain 404 (lit ''not found''))
      | Some pre \<Rightarrow>
          (case repo_name pre of
             Inl e \<Rightarrow> Pair (plain 400 (lit ''invalid repository name''))
           | Inr repo \<Rightarrow>
               if service_param query = Some SERVICE_UPLOAD_PACK then upload_pack_advert st repo h
               else if service_param query = Some SERVICE_RECEIVE_PACK then receive_pack_advert st repo
               else Pair (plain 400 (lit ''missing or unsupported service parameter''))))"

definition git_rpc ::
    "('s, 't) AppState \<Rightarrow> 'g gix_bytes \<Rightarrow> fetch_io \<Rightarrow> staging \<Rightarrow> str \<Rightarrow> headers \<Rightarrow> bytes \<Rightarrow> 's \<Rightarrow> Response \<times> 's" where
  "git_rpc st gb io fs path h body =
     (case strip_endpoint path RECEIVE_PACK of
        Some pre \<Rightarrow>
          (case repo_name pre of
             Inl e \<Rightarrow> Pair (plain 400 (lit ''invalid repository name''))
           | Inr repo \<Rightarrow> receive_pack st fs repo body)
      | None \<Rightarrow>
          (case strip_endpoint path UPLOAD_PACK of
             Some pre \<Rightarrow>
               (case repo_name pre of
                  Inl e \<Rightarrow> Pair (plain 400 (lit ''invalid repository name''))
                | Inr repo \<Rightarrow>
                    if wants_v2 h then upload_pack st gb io repo h body else v0_upload_pack st gb io repo body)
           | None \<Rightarrow> Pair (plain 404 (lit ''not found''))))"

end
