(* ===== verification/Streaming.thy ===== *)
theory Streaming
  imports FetchEndpoint Fetch Packets
begin

text \<open>
  The fetch response on the wire: how the writers cut a pack into chunks, what a client reads back
  from a side-band response, and that a response which is terminated is complete.
\<close>

section \<open>Chunks on a channel\<close>

lemma chunks_full:
  assumes "\<forall>c\<in>set cs. length c = n" and "length buf < n"
  shows "chunks n (concat cs @ buf) = cs @ (if buf = [] then [] else [buf])"
  using assms
proof (induction cs)
  case Nil
  then show ?case by (auto simp: chunks.simps)
next
  case (Cons c cs)
  then have "c \<noteq> []" "0 < n" by auto
  with Cons show ?case by (subst chunks.simps) auto
qed

text \<open>The writer has taken \<open>data\<close>: the full chunks are on the channel, the rest is in the buffer.\<close>

definition cw_holds :: "(bytes \<Rightarrow> bytes option) \<Rightarrow> channel \<Rightarrow> bytes \<Rightarrow> ChunkWriter \<Rightarrow> bool" where
  "cw_holds frame ch0 data w \<longleftrightarrow>
     (\<exists>cs ps. concat cs @ cw_buf w = data \<and> length (cw_buf w) < MAX_BAND_DATA \<and> (\<forall>c\<in>set cs. length c = MAX_BAND_DATA) \<and>
        map frame cs = map Some ps \<and> cw_chan w = ch0 @ ps)"

text \<open>Whatever happened, the channel holds frames of non-empty chunks.\<close>

definition cw_framed :: "(bytes \<Rightarrow> bytes option) \<Rightarrow> channel \<Rightarrow> ChunkWriter \<Rightarrow> bool" where
  "cw_framed frame ch0 w \<longleftrightarrow> (\<exists>cs ps. [] \<notin> set cs \<and> map frame cs = map Some ps \<and> cw_chan w = ch0 @ ps)"

lemma cw_holds_new: "cw_holds frame ch0 [] \<lparr>cw_buf = [], cw_chan = ch0\<rparr>"
  unfolding cw_holds_def by (intro exI [of _ "[]"]) (simp add: MAX_BAND_DATA_def)

lemma cw_framed_new: "cw_framed frame ch0 \<lparr>cw_buf = buf, cw_chan = ch0\<rparr>"
  unfolding cw_framed_def by (intro exI [of _ "[]"]) simp

lemma cw_framed_snoc:
  assumes "cw_framed frame ch0 w" and "d \<noteq> []" and "frame d = Some p"
  shows "cw_framed frame ch0 \<lparr>cw_buf = buf, cw_chan = cw_chan w @ [p]\<rparr>"
proof -
  from assms(1) obtain cs ps where "[] \<notin> set cs" "map frame cs = map Some ps" "cw_chan w = ch0 @ ps" by (auto simp: cw_framed_def)
  with assms(2,3) show ?thesis unfolding cw_framed_def by (intro exI [of _ "cs @ [d]"] exI [of _ "ps @ [p]"]) auto
qed

section \<open>The writer's runs\<close>

text \<open>Whatever the outcome, an invariant of the sink that every part of the writer keeps is kept.\<close>

lemma write_loop_keeps:
  assumes "\<forall>e w. J w \<longrightarrow> J (snd (pw_entry W e w))" and "\<forall>w. J w \<longrightarrow> J (snd (pw_trailer W w))"
  shows "J w \<Longrightarrow> J (snd (write_loop W Z options items written cs stats w))"
proof (induction items arbitrary: written cs stats w)
  case Nil
  then have "J (snd (pw_trailer W w))" using assms by blast
  then show ?case by (auto split: prod.splits sum.splits)
next
  case (Cons item items)
  have "J w'" if "pw_entry W e w = (q, w')" for e q w' using assms(1) Cons.prems that by (metis snd_conv)
  with Cons.prems Cons.IH show ?case by (cases item) (auto split: prod.splits sum.splits)
qed

lemma write_pack_keeps:
  assumes "\<forall>n k w. J w \<longrightarrow> J (snd (pw_header W n k w))"
    and "\<forall>e w. J w \<longrightarrow> J (snd (pw_entry W e w))" and "\<forall>w. J w \<longrightarrow> J (snd (pw_trailer W w))" and "J w"
    and "write_pack_with_options W Z items n k options stats w = (r, w')"
  shows "J w'"
proof -
  obtain q w1 where w1: "pw_header W n k w = (q, w1)" by force
  then have "J w1" using assms(1,4) by (metis snd_conv)
  obtain x w2 where w2: "write_loop W Z options items 0 candidates_default stats w1 = (x, w2)" by (metis surj_pair)
  then have "J w2" using write_loop_keeps [OF assms(2,3) \<open>J w1\<close>] by (metis snd_conv)
  have "w' = w1 \<or> w' = w2"
    using w1 w2 assms(5) by (auto simp: write_pack_with_options_def split: sum.splits prod.splits if_splits option.splits)
  with \<open>J w1\<close> \<open>J w2\<close> show ?thesis by blast
qed

text \<open>With a sink that takes everything and objects whose streams inflate, the pack is completed.\<close>

lemma next_entry_total:
  assumes "stored_body Z obj \<noteq> None"
  shows "\<exists>e cs' stats'. next_entry Z options obj n cs stats = (Inr e, cs', stats')"
  using assms
  by (auto simp: next_entry_def delta_or_full_def stored_body_def keep_full_def Let_def split: option.splits prod.splits)

lemma write_loop_completes:
  assumes entry: "\<forall>e w. J w \<longrightarrow> (\<exists>w'. pw_entry W e w = (Inr (), w') \<and> J w')"
    and trailer: "\<forall>w. J w \<longrightarrow> (\<exists>d w'. pw_trailer W w = (Inr (Some d), w'))"
  shows "J w \<Longrightarrow> \<forall>obj\<in>set objs. stored_body Z obj \<noteq> None \<Longrightarrow>
    \<exists>d stats' w'. write_loop W Z options (map Inr objs :: ('e + PackEntry) list) written cs stats w = ((Inr (Some d, written + length objs), stats'), w')"
proof (induction objs arbitrary: written cs stats w)
  case Nil
  with trailer show ?case by auto
next
  case (Cons obj objs)
  from Cons.prems(2) next_entry_total [of Z obj options written cs stats]
  obtain e cs1 stats1 where nx: "next_entry Z options obj written cs stats = (Inr e :: 'e PackOutError + OutEntry, cs1, stats1)" by auto
  from entry Cons.prems(1) obtain w1 where w1: "pw_entry W e w = (Inr (), w1)" "J w1" by blast
  have "\<forall>obj\<in>set objs. stored_body Z obj \<noteq> None" using Cons.prems(2) by simp
  from Cons.IH [OF w1(2) this, of "written + 1" cs1 stats1] nx w1(1) show ?case by auto
qed

lemma write_pack_completes:
  assumes header: "\<exists>w'. pw_header W (length objs) k w = (Inr (), w') \<and> J w'"
    and "\<forall>e w. J w \<longrightarrow> (\<exists>w'. pw_entry W e w = (Inr (), w') \<and> J w')"
    and "\<forall>w. J w \<longrightarrow> (\<exists>d w'. pw_trailer W w = (Inr (Some d), w'))"
    and "\<forall>obj\<in>set objs. stored_body Z obj \<noteq> None"
  shows "\<exists>d stats' w'. write_pack_with_options W Z (map Inr objs :: ('e + PackEntry) list) (length objs) k options stats w = ((Inr d, stats'), w')"
proof -
  from header obtain w1 where w1: "pw_header W (length objs) k w = (Inr (), w1)" "J w1" by blast
  from write_loop_completes [OF assms(2,3) w1(2) assms(4), of options 0 candidates_default stats] obtain d stats' w'
    where "write_loop W Z options (map Inr objs :: ('e + PackEntry) list) 0 candidates_default stats w1
      = ((Inr (Some d, 0 + length objs), stats'), w')" by blast
  with w1(1) show ?thesis by (simp add: write_pack_with_options_def)
qed

text \<open>The bytes of a pack.\<close>

fun entries_bytes :: "'g gix_bytes \<Rightarrow> 'g \<Rightarrow> OutEntry list \<Rightarrow> 'g \<times> bytes" where
  "entries_bytes gb g [] = (g, [])"
| "entries_bytes gb g (e # es) =
     (let (g, ds) = gb_entry gb g e; (g, bs) = entries_bytes gb g es in (g, concat ds @ bs))"

definition pack_bytes :: "'g gix_bytes \<Rightarrow> HashKind \<Rightarrow> OutEntry list \<Rightarrow> bytes" where
  "pack_bytes gb k es =
     (let (g, hs) = gb_header gb (length es) k; (g, bs) = entries_bytes gb g es; (ts, digest) = gb_trailer gb g in
      concat hs @ bs @ concat ts)"

text \<open>A send puts the frame of its data on the channel, or fails and puts nothing.\<close>

locale chunk_sink =
  fixes send :: "bytes \<Rightarrow> (channel, IoError, unit) eff" and frame :: "bytes \<Rightarrow> bytes option"
  assumes sent: "send d ch = (Inr u, ch') \<Longrightarrow> \<exists>p. frame d = Some p \<and> ch' = ch @ [p]"
    and unsent: "send d ch = (Inl e, ch') \<Longrightarrow> ch' = ch"
begin


lemma drain_run:
  assumes "drain_buffer send buf ch = (r, w)"
  shows "\<exists>cs ps. (\<forall>c\<in>set cs. length c = MAX_BAND_DATA) \<and> map frame cs = map Some ps \<and> cw_chan w = ch @ ps \<and>
    (r = Inr () \<longrightarrow> buf = concat cs @ cw_buf w \<and> length (cw_buf w) < MAX_BAND_DATA)"
  using assms
proof (induction "length buf" arbitrary: buf ch rule: less_induct)
  case less
  show ?case
  proof (cases "MAX_BAND_DATA \<le> length buf")
    case False
    with less.prems show ?thesis by (intro exI [of _ "[]"]) (auto simp: drain_buffer.simps)
  next
    case True
    let ?c = "take MAX_BAND_DATA buf" and ?buf = "drop MAX_BAND_DATA buf"
    obtain q ch' where q: "send ?c ch = (q, ch')" by force
    show ?thesis
    proof (cases q)
      case (Inl e)
      with less.prems True q unsent [of ?c ch e ch'] show ?thesis
        by (intro exI [of _ "[]"]) (auto simp: drain_buffer.simps [of send buf])
    next
      case (Inr u)
      with q sent obtain p where p: "frame ?c = Some p" "ch' = ch @ [p]" by blast
      have "length ?buf < length buf" using True by (simp add: MAX_BAND_DATA_def)
      moreover have "drain_buffer send ?buf ch' = (r, w)"
        using less.prems True q Inr by (simp add: drain_buffer.simps [of send buf])
      ultimately obtain cs ps where R: "\<forall>c\<in>set cs. length c = MAX_BAND_DATA" "map frame cs = map Some ps" "cw_chan w = ch' @ ps"
        "r = Inr () \<longrightarrow> ?buf = concat cs @ cw_buf w \<and> length (cw_buf w) < MAX_BAND_DATA"
        using less.hyps by blast
      have "buf = concat (?c # cs) @ cw_buf w" if "r = Inr ()"
        using R(4) that append_take_drop_id [of MAX_BAND_DATA buf] by simp
      moreover have "cw_chan w = ch @ p # ps" using R(3) p(2) by simp
      ultimately show ?thesis using R(1,2,4) p(1) True by (intro exI [of _ "?c # cs"] exI [of _ "p # ps"]) simp
    qed
  qed
qed

lemma write_holds:
  assumes "cw_write send d w = (Inr (), w')" and "cw_holds frame ch0 data w"
  shows "cw_holds frame ch0 (data @ d) w'"
proof -
  from assms(2) obtain cs ps where H: "concat cs @ cw_buf w = data" "\<forall>c\<in>set cs. length c = MAX_BAND_DATA"
    "map frame cs = map Some ps" "cw_chan w = ch0 @ ps" by (auto simp: cw_holds_def)
  from drain_run [OF assms(1) [unfolded cw_write_def]] obtain ds qs where D: "\<forall>c\<in>set ds. length c = MAX_BAND_DATA"
    "map frame ds = map Some qs" "cw_chan w' = cw_chan w @ qs" "cw_buf w @ d = concat ds @ cw_buf w'"
    "length (cw_buf w') < MAX_BAND_DATA" by auto
  have "concat (cs @ ds) @ cw_buf w' = data @ d" using H(1) D(4) by auto
  with H D show ?thesis unfolding cw_holds_def by (intro exI [of _ "cs @ ds"] exI [of _ "ps @ qs"]) auto
qed

lemma write_framed:
  assumes "cw_framed frame ch0 w" and "cw_write send d w = (r, w')"
  shows "cw_framed frame ch0 w'"
proof -
  from assms(1) obtain cs ps where "[] \<notin> set cs" "map frame cs = map Some ps" "cw_chan w = ch0 @ ps" by (auto simp: cw_framed_def)
  moreover from drain_run [OF assms(2) [unfolded cw_write_def]] obtain ds qs where
    "\<forall>c\<in>set ds. length c = MAX_BAND_DATA" "map frame ds = map Some qs" "cw_chan w' = cw_chan w @ qs" by auto
  moreover then have "[] \<notin> set ds" by (auto simp: MAX_BAND_DATA_def)
  ultimately show ?thesis unfolding cw_framed_def by (intro exI [of _ "cs @ ds"] exI [of _ "ps @ qs"]) auto
qed

lemma writes_holds:
  "sink_writes send ds w = (Inr (), w') \<Longrightarrow> cw_holds frame ch0 data w \<Longrightarrow> cw_holds frame ch0 (data @ concat ds) w'"
proof (induction ds arbitrary: data w)
  case (Cons d ds)
  from Cons.prems(1) obtain w1 where w1: "(if d = [] then eff_return () else cw_write send d) w = (Inr (), w1)"
    "sink_writes send ds w1 = (Inr (), w')" by (auto simp: eff_bind_def split: prod.splits sum.splits)
  then have "cw_holds frame ch0 (data @ d) w1" using write_holds Cons.prems(2) by (auto simp: eff_return_def split: if_splits)
  from Cons.IH [OF w1(2) this] show ?case by simp
qed (simp add: eff_return_def)

lemma writes_framed: "cw_framed frame ch0 w \<Longrightarrow> cw_framed frame ch0 (snd (sink_writes send ds w))"
proof (induction ds arbitrary: w)
  case (Cons d ds)
  obtain r w1 where w1: "(if d = [] then eff_return () else cw_write send d) w = (r, w1)" by force
  then have "cw_framed frame ch0 w1" using write_framed Cons.prems by (auto simp: eff_return_def split: if_splits)
  with Cons.IH w1 show ?case by (auto simp: eff_bind_def split: sum.splits)
qed (simp add: eff_return_def)

lemma flush_framed: "cw_framed frame ch0 w \<Longrightarrow> cw_framed frame ch0 (snd (cw_flush send w))"
proof -
  assume w: "cw_framed frame ch0 w"
  obtain r ch where r: "send (cw_buf w) (cw_chan w) = (r, ch)" by force
  have "cw_framed frame ch0 \<lparr>cw_buf = [], cw_chan = ch\<rparr>" if b: "cw_buf w \<noteq> []"
  proof (cases r)
    case (Inl e)
    with r have "ch = cw_chan w" using unsent by blast
    with w show ?thesis by (simp add: cw_framed_def)
  next
    case (Inr u)
    from sent [OF r [unfolded Inr]] obtain p where "frame (cw_buf w) = Some p" "ch = cw_chan w @ [p]" by blast
    with cw_framed_snoc [OF w b] show ?thesis by simp
  qed
  with w r show ?thesis by (simp add: cw_flush_def)
qed

text \<open>After the flush the channel holds the frames of the data's chunks.\<close>

lemma flush_sends:
  assumes "cw_holds frame ch0 data w" and "cw_flush send w = (Inr (), w')"
  shows "\<exists>ps. map frame (chunks MAX_BAND_DATA data) = map Some ps \<and> cw_chan w' = ch0 @ ps"
proof -
  from assms(1) obtain cs ps where H: "concat cs @ cw_buf w = data" "length (cw_buf w) < MAX_BAND_DATA"
    "\<forall>c\<in>set cs. length c = MAX_BAND_DATA" "map frame cs = map Some ps" "cw_chan w = ch0 @ ps" by (auto simp: cw_holds_def)
  have chunks: "chunks MAX_BAND_DATA data = cs @ (if cw_buf w = [] then [] else [cw_buf w])"
    using chunks_full [OF H(3,2)] H(1) by simp
  show ?thesis
  proof (cases "cw_buf w = []")
    case True
    with assms(2) H(4,5) chunks show ?thesis by (auto simp: cw_flush_def)
  next
    case False
    with assms(2) obtain ch where "send (cw_buf w) (cw_chan w) = (Inr (), ch)" "cw_chan w' = ch"
      by (auto simp: cw_flush_def split: prod.splits)
    with sent obtain p where "frame (cw_buf w) = Some p" "cw_chan w' = cw_chan w @ [p]" by blast
    with False H(4,5) chunks show ?thesis by (intro exI [of _ "ps @ [p]"]) simp
  qed
qed

text \<open>The pack writer over the sink.\<close>

lemma feed_holds:
  assumes "feed (sink_writer gb send) es (g, w) = (Inr (), (g', w'))" and "cw_holds frame ch0 data w"
  shows "fst (entries_bytes gb g es) = g' \<and> cw_holds frame ch0 (data @ snd (entries_bytes gb g es)) w'"
  using assms
proof (induction es arbitrary: g w data)
  case Nil
  then show ?case by (simp add: eff_return_def)
next
  case (Cons e es)
  obtain g1 ds where e: "gb_entry gb g e = (g1, ds)" by force
  with Cons.prems(1) obtain w1 where w1: "sink_writes send ds w = (Inr (), w1)"
    "feed (sink_writer gb send) es (g1, w1) = (Inr (), (g', w'))"
    by (auto simp: eff_bind_def sink_writer_def split: prod.splits sum.splits)
  from Cons.IH [OF w1(2) writes_holds [OF w1(1) Cons.prems(2)]] e show ?case by (auto split: prod.splits)
qed

lemma pack_streamed:
  assumes "pw_header (sink_writer gb send) (length es) k (g0, \<lparr>cw_buf = [], cw_chan = ch0\<rparr>) = (Inr (), s)"
    and "feed (sink_writer gb send) es s = (Inr (), s')"
    and "pw_trailer (sink_writer gb send) s' = (Inr digest, (g, w))"
  shows "\<exists>ps. map frame (chunks MAX_BAND_DATA (pack_bytes gb k es)) = map Some ps \<and> cw_chan w = ch0 @ ps"
proof -
  obtain g1 hs where h: "gb_header gb (length es) k = (g1, hs)" by force
  with assms(1) obtain w1 where w1: "sink_writes send hs \<lparr>cw_buf = [], cw_chan = ch0\<rparr> = (Inr (), w1)" and s: "s = (g1, w1)"
    by (auto simp: sink_writer_def split: prod.splits)
  have H1: "cw_holds frame ch0 (concat hs) w1" using writes_holds [OF w1 cw_holds_new] by simp
  obtain g2 w2 where s': "s' = (g2, w2)" by force
  note H2 = feed_holds [OF assms(2) [unfolded s s'] H1]
  obtain ts d where t: "gb_trailer gb g2 = (ts, d)" by force
  with assms(3) s' obtain w3 where w3: "sink_writes send ts w2 = (Inr (), w3)" "cw_flush send w3 = (Inr (), w)"
    by (auto simp: sink_writer_def eff_bind_def and_then_eq_Inr split: prod.splits sum.splits)
  from flush_sends [OF writes_holds [OF w3(1) conjunct2 [OF H2]] w3(2)] H2 h t show ?thesis
    by (auto simp: pack_bytes_def split: prod.splits)
qed

lemma pack_framed:
  assumes "write_pack_with_options (sink_writer gb send) Z items n k options stats (g0, \<lparr>cw_buf = [], cw_chan = ch0\<rparr>) = (r, (g, w))"
  shows "cw_framed frame ch0 w"
proof -
  have "cw_framed frame ch0 (snd (g, w))"
  proof (rule write_pack_keeps [where J = "\<lambda>s. cw_framed frame ch0 (snd s)", OF _ _ _ _ assms])
    show "\<forall>n k s. cw_framed frame ch0 (snd s) \<longrightarrow> cw_framed frame ch0 (snd (snd (pw_header (sink_writer gb send) n k s)))"
      by (simp add: sink_writer_def case_prod_beta Let_def writes_framed)
    show "\<forall>e s. cw_framed frame ch0 (snd s) \<longrightarrow> cw_framed frame ch0 (snd (snd (pw_entry (sink_writer gb send) e s)))"
      by (simp add: sink_writer_def case_prod_beta Let_def writes_framed)
    have "cw_framed frame ch0 (snd (eff_bind (sink_writes send ds) (\<lambda>_. cw_flush send) w))" if "cw_framed frame ch0 w" for ds w
      using writes_framed [OF that, of ds] flush_framed by (auto simp: eff_bind_def split: prod.splits sum.splits)
    then show "\<forall>s. cw_framed frame ch0 (snd s) \<longrightarrow> cw_framed frame ch0 (snd (snd (pw_trailer (sink_writer gb send) s)))"
      by (simp add: sink_writer_def case_prod_beta Let_def)
  qed (simp add: cw_framed_new)
  then show ?thesis by simp
qed

end

text \<open>A sink that takes every chunk.\<close>

locale open_sink = chunk_sink +
  assumes accepts: "d \<noteq> [] \<Longrightarrow> length d \<le> MAX_BAND_DATA \<Longrightarrow> \<exists>ch'. send d ch = (Inr (), ch')"
begin

lemma write_accepted: "\<exists>w'. cw_write send d w = (Inr (), w') \<and> length (cw_buf w') < MAX_BAND_DATA"
proof -
  have "fst (drain_buffer send buf ch) = Inr ()" for buf ch
  proof (induction "length buf" arbitrary: buf ch rule: less_induct)
    case less
    show ?case
    proof (cases "MAX_BAND_DATA \<le> length buf")
      case True
      then have "take MAX_BAND_DATA buf \<noteq> []" "length (drop MAX_BAND_DATA buf) < length buf" by (auto simp: MAX_BAND_DATA_def)
      moreover from accepts [OF this(1)] obtain ch' where "send (take MAX_BAND_DATA buf) ch = (Inr (), ch')" by auto
      ultimately show ?thesis using less [of "drop MAX_BAND_DATA buf"] True by (simp add: drain_buffer.simps [of send buf])
    qed (simp add: drain_buffer.simps)
  qed
  then obtain w' where "drain_buffer send (cw_buf w @ d) (cw_chan w) = (Inr (), w')" by (metis prod.collapse)
  with drain_run [OF this] show ?thesis by (auto simp: cw_write_def)
qed

lemma writes_accepted:
  "length (cw_buf w) < MAX_BAND_DATA \<Longrightarrow> \<exists>w'. sink_writes send ds w = (Inr (), w') \<and> length (cw_buf w') < MAX_BAND_DATA"
proof (induction ds arbitrary: w)
  case (Cons d ds)
  obtain w1 where "(if d = [] then eff_return () else cw_write send d) w = (Inr (), w1)" "length (cw_buf w1) < MAX_BAND_DATA"
    using write_accepted [of d w] Cons.prems by (cases "d = []") (auto simp: eff_return_def)
  with Cons.IH [of w1] show ?case by (auto simp: eff_bind_def)
qed (simp add: eff_return_def)

lemma flush_accepted: "length (cw_buf w) < MAX_BAND_DATA \<Longrightarrow> \<exists>w'. cw_flush send w = (Inr (), w')"
  using accepts [of "cw_buf w" "cw_chan w"] by (auto simp: cw_flush_def)

lemma pack_accepted:
  assumes "\<forall>obj\<in>set objs. stored_body Z obj \<noteq> None"
  shows "\<exists>d stats' s. write_pack_with_options (sink_writer gb send) Z (map Inr objs :: ('e + PackEntry) list) (length objs) k options stats
    (g, \<lparr>cw_buf = [], cw_chan = ch\<rparr>) = ((Inr d, stats'), s)"
proof (rule write_pack_completes [where J = "\<lambda>s. length (cw_buf (snd s)) < MAX_BAND_DATA", OF _ _ _ assms])
  have "length (cw_buf \<lparr>cw_buf = [], cw_chan = ch\<rparr>) < MAX_BAND_DATA" by (simp add: MAX_BAND_DATA_def)
  from writes_accepted [OF this, of "snd (gb_header gb (length objs) k)"]
  show "\<exists>s'. pw_header (sink_writer gb send) (length objs) k (g, \<lparr>cw_buf = [], cw_chan = ch\<rparr>) = (Inr (), s') \<and>
      length (cw_buf (snd s')) < MAX_BAND_DATA"
    by (auto simp: sink_writer_def split: prod.splits)
  have "\<exists>s'. pw_entry (sink_writer gb send) e (g, w) = (Inr (), s') \<and> length (cw_buf (snd s')) < MAX_BAND_DATA"
    if "length (cw_buf w) < MAX_BAND_DATA" for e g w
    using writes_accepted [OF that, of "snd (gb_entry gb g e)"] by (auto simp: sink_writer_def split: prod.splits)
  then show "\<forall>e s. length (cw_buf (snd s)) < MAX_BAND_DATA \<longrightarrow>
      (\<exists>s'. pw_entry (sink_writer gb send) e s = (Inr (), s') \<and> length (cw_buf (snd s')) < MAX_BAND_DATA)" by auto
  have "\<exists>d s'. pw_trailer (sink_writer gb send) (g, w) = (Inr (Some d), s')" if w: "length (cw_buf w) < MAX_BAND_DATA" for g w
  proof -
    obtain ts d where t: "gb_trailer gb g = (ts, d)" by force
    from writes_accepted [OF w] obtain w1 where w1: "sink_writes send ts w = (Inr (), w1)" "length (cw_buf w1) < MAX_BAND_DATA" by blast
    with flush_accepted obtain w2 where "cw_flush send w1 = (Inr (), w2)" by blast
    with w1 t show ?thesis by (simp add: sink_writer_def eff_bind_def)
  qed
  then show "\<forall>s. length (cw_buf (snd s)) < MAX_BAND_DATA \<longrightarrow> (\<exists>d s'. pw_trailer (sink_writer gb send) s = (Inr (Some d), s'))" by auto
qed

end

section \<open>The two writers\<close>

lemma blocking_send_cases:
  "blocking_send listening d ch = (r, ch') \<Longrightarrow> (r = Inr () \<and> ch' = ch @ [d]) \<or> (r = Inl BrokenPipe \<and> ch' = ch)"
  by (auto simp: blocking_send_def split: if_splits)

interpretation raw: chunk_sink "send_chunk listening" Some for listening
  by unfold_locales (auto simp: send_chunk_def dest!: blocking_send_cases)

interpretation band: chunk_sink "send_data wr listening" "band_to_write wr ChData" for wr listening
  by unfold_locales (auto simp: send_data_def send_band_def eff_fail_def split: option.splits dest!: blocking_send_cases)

interpretation raw_open: open_sink "send_chunk (\<lambda>n. True)" Some
  by unfold_locales (simp add: send_chunk_def blocking_send_def)

text \<open>A packet-line codec takes a chunk of the writer's size.\<close>

sublocale wire_laws \<subseteq> banded: open_sink "send_data wr (\<lambda>n. True)" "band_to_write wr ChData"
proof unfold_locales
  fix d :: bytes and ch :: channel assume d: "d \<noteq> []" "length d \<le> MAX_BAND_DATA"
  then have "data_to_write wr (channel_byte ChData # d) \<noteq> None" using data_fits by (auto simp: MAX_BAND_DATA_def)
  with band_frames [OF d(1), of ChData] show "\<exists>ch'. send_data wr (\<lambda>n. True) d ch = (Inr (), ch')"
    by (auto simp: send_data_def send_band_def blocking_send_def)
qed

section \<open>What the client reads\<close>

text \<open>The lines on a channel, none of which ends the section.\<close>

definition carries :: "gix_wire \<Rightarrow> PacketLine list \<Rightarrow> channel \<Rightarrow> bool" where
  "carries wr ls ps \<longleftrightarrow> Flush \<notin> set ls \<and> map (line_to_write wr) ls = map Some ps"

lemma carries_Nil [simp]: "carries wr [] []"
  by (simp add: carries_def)

lemma carries_append: "carries wr ls ps \<Longrightarrow> carries wr ls' ps' \<Longrightarrow> carries wr (ls @ ls') (ps @ ps')"
  by (simp add: carries_def)

lemma channel_data_append [simp]: "channel_data ch (ls @ ls') = channel_data ch ls @ channel_data ch ls'"
  by (simp add: channel_data_def)

lemma channel_data_Nil [simp]: "channel_data ch [] = []"
  by (simp add: channel_data_def)

lemma channel_byte_inj [simp]: "channel_byte c = channel_byte c' \<longleftrightarrow> c = c'"
  by (cases c; cases c') auto

lemma channel_data_other: "c \<noteq> ch \<Longrightarrow> channel_data ch (map (\<lambda>d. Data (channel_byte c # d)) ds) = []"
  by (simp add: channel_data_def)

text \<open>No failure of a fetch after its planning is the client's.\<close>

lemma objects_server: "objectdb_class e = Server"
  by (cases e) (simp_all add: store_class_def)

lemma fetch_errors_server: "packout_class fetch_object_class err = Server"
proof (cases err)
  case (PInput e)
  then show ?thesis by (cases e) (simp_all add: objects_server)
qed simp_all

context wire_laws
begin

lemma carries_bands:
  assumes "[] \<notin> set cs" and "map (band_to_write wr c) cs = map Some ps"
  shows "carries wr (map (\<lambda>d. Data (channel_byte c # d)) cs) ps"
proof -
  have "band_to_write wr c d = line_to_write wr (Data (channel_byte c # d))" if "d \<in> set cs" for d
  proof -
    have "d \<noteq> []" using assms(1) that by blast
    from band_frames [OF this] show ?thesis by (simp add: line_to_write_def)
  qed
  then have "map (band_to_write wr c) cs = map (line_to_write wr) (map (\<lambda>d. Data (channel_byte c # d)) cs)" by simp
  with assms(2) show ?thesis by (auto simp: carries_def)
qed

lemma read_lines_unterminated:
  "carries wr ls ps \<Longrightarrow> read_lines wr n (concat ps) = None"
proof (induction ls arbitrary: ps n)
  case Nil
  have "streaming wr [] \<noteq> Inr (Some x)" for x using consumes [of "[]" "fst x" "snd x"] by auto
  with Nil show ?case by (cases n) (auto simp: carries_def split: sum.splits option.splits)
next
  case (Cons l ls)
  then obtain p ps' where p: "ps = p # ps'" "line_to_write wr l = Some p" "l \<noteq> Flush" "carries wr ls ps'"
    by (cases ps) (auto simp: carries_def)
  with Cons.IH line_reads [OF p(2), of "concat ps'"] show ?case by (cases n) auto
qed

lemma read_unterminated: "carries wr ls ps \<Longrightarrow> read_section wr (concat ps) = None"
  unfolding read_section_def by (rule read_lines_unterminated)

lemma read_terminated:
  assumes "carries wr ls ps" and "flush_to_write wr = Some p"
  shows "read_section wr (concat (ps @ [p])) = Some (ls, [])"
proof -
  have m: "map (line_to_write wr) ls = map Some ps" using assms(1) by (simp add: carries_def)
  have "write_all (map (line_to_write wr) ls @ [flush_to_write wr]) = Some (concat (ps @ [p]))"
    unfolding m write_all_Some assms(2) by (auto simp: comp_def)
  from read_section_written [OF this, of "[]"] assms(1) show ?thesis by (simp add: carries_def)
qed

lemma send_carries:
  assumes "d \<noteq> []"
  shows "\<exists>ls ps. carries wr ls ps \<and> send_anyway (send_band wr listening c d) ch = ch @ ps \<and>
    (\<forall>c'. c' \<noteq> c \<longrightarrow> channel_data c' ls = [])"
proof (cases "\<exists>p. band_to_write wr c d = Some p \<and> listening (length ch)")
  case True
  then obtain p where p: "band_to_write wr c d = Some p" "listening (length ch)" by blast
  have "carries wr [Data (channel_byte c # d)] [p]" using carries_bands [of "[d]" c "[p]"] assms p(1) by simp
  moreover have "\<forall>c'. c' \<noteq> c \<longrightarrow> channel_data c' [Data (channel_byte c # d)] = []" by (auto simp: channel_data_def)
  moreover have "send_anyway (send_band wr listening c d) ch = ch @ [p]"
    using p by (simp add: send_anyway_def send_band_def blocking_send_def)
  ultimately show ?thesis by blast
next
  case False
  then have "send_anyway (send_band wr listening c d) ch = ch"
    by (auto simp: send_anyway_def send_band_def blocking_send_def eff_fail_def split: option.splits)
  then show ?thesis by (intro exI [of _ "[]"]) simp
qed

lemma progress_carries:
  "\<exists>ls ps. carries wr ls ps \<and> progress_line wr listening np verb n ch = ch @ ps \<and> channel_data ChData ls = [] \<and> channel_data ChError ls = []"
proof (cases np)
  case True
  then show ?thesis by (intro exI [of _ "[]"]) (simp add: progress_line_def)
next
  case False
  have "\<exists>ls ps. carries wr ls ps \<and>
      send_anyway (send_band wr listening ChProgress (verb @ [32] @ decimal n @ lit '' objects'' @ [10])) ch = ch @ ps \<and>
      (\<forall>c'. c' \<noteq> ChProgress \<longrightarrow> channel_data c' ls = [])"
    by (rule send_carries) simp
  with False show ?thesis by (auto simp: progress_line_def)
qed

end

context wire_laws
begin

lemma band_pack_written:
  assumes Z: "zlib_ok Z" and run: "write_pack_with_options (sink_writer gb (send_data wr listening)) Z items n k options stats
      (g0, \<lparr>cw_buf = [], cw_chan = ch0\<rparr>) = ((Inr d, stats'), (g, w))"
  obtains es ls ps where "pack_of Z items es" "length es = n" "carries wr ls ps" "cw_chan w = ch0 @ ps"
    "channel_data ChData ls = pack_bytes gb k es" "channel_data ChError ls = []"
proof -
  from write_pack_sound [OF Z run] obtain objs es s s' where W: "items = map Inr objs" "length es = n"
    "pw_header (sink_writer gb (send_data wr listening)) n k (g0, \<lparr>cw_buf = [], cw_chan = ch0\<rparr>) = (Inr (), s)"
    "feed (sink_writer gb (send_data wr listening)) es s = (Inr (), s')"
    "pw_trailer (sink_writer gb (send_data wr listening)) s' = (Inr (Some d), (g, w))"
    "map out_id es = map entry_id objs" "unpack Z [] es = map (stored_body Z) objs" "depth_one es" by blast
  let ?cs = "chunks MAX_BAND_DATA (pack_bytes gb k es)"
  from band.pack_streamed [OF W(3) [folded W(2)] W(4,5)] obtain ps where
    P: "map (band_to_write wr ChData) ?cs = map Some ps" "cw_chan w = ch0 @ ps" by blast
  have "[] \<notin> set ?cs" using chunks_bounds by blast
  note B = carries_bands [OF this P(1)]
  have "concat ?cs = pack_bytes gb k es" by (rule concat_chunks) (simp add: MAX_BAND_DATA_def)
  from that [OF _ W(2) B P(2) channel_data_bands [of _ ?cs, unfolded this] channel_data_other] W show thesis
    unfolding pack_of_def by blast
qed

text \<open>A side-band response that is terminated carries the whole pack; any other carries no flush.\<close>

lemma stream_carries:
  assumes Z: "zlib_ok Z" and ch: "stream_pack wr gb Z listening items n k True np ofs [] = ch"
  shows "(\<exists>ls. carries wr ls ch) \<or>
    (\<exists>es ls ps p. pack_of Z items es \<and> length es = n \<and> carries wr ls ps \<and> flush_to_write wr = Some p \<and> ch = ps @ [p] \<and>
       channel_data ChData ls = pack_bytes gb k es \<and> channel_data ChError ls = [])"
proof -
  from progress_carries [of listening np "lit ''packing''" n "[]"] obtain l0 ch0 where
    c0: "carries wr l0 ch0" "progress_line wr listening np (lit ''packing'') n [] = ch0" "channel_data ChData l0 = []" "channel_data ChError l0 = []"
    by auto
  obtain r stats' g w where run: "write_pack_with_options (sink_writer gb (send_data wr listening)) Z items n k \<lparr>ofs_deltas = ofs\<rparr>
      delta_stats_default (gb_init gb, \<lparr>cw_buf = [], cw_chan = ch0\<rparr>) = ((r, stats'), (g, w))" by (metis surj_pair)
  show ?thesis
  proof (cases r)
    case (Inl err)
    from band.pack_framed [OF run] obtain cs qs where F: "[] \<notin> set cs" "map (band_to_write wr ChData) cs = map Some qs" "cw_chan w = ch0 @ qs"
      by (auto simp: cw_framed_def)
    note c1 = carries_append [OF c0(1) carries_bands [OF F(1,2)], folded F(3)]
    have "lit ''internal error'' \<noteq> []" by (simp add: lit_def)
    from send_carries [OF this, of listening ChError "cw_chan w"] obtain ls ps where E: "carries wr ls ps"
      "send_anyway (send_band wr listening ChError (lit ''internal error'')) (cw_chan w) = cw_chan w @ ps" by blast
    have "ch = cw_chan w \<or> ch = cw_chan w @ ps"
      using ch run Inl c0(2) E(2) by (auto simp: stream_pack_def Let_def fetch_errors_server)
    with c1 carries_append [OF c1 E(1)] show ?thesis by blast
  next
    case (Inr d)
    from band_pack_written [OF Z run [unfolded Inr]] obtain es l1 ps1 where W: "pack_of Z items es" "length es = n" "carries wr l1 ps1"
      "cw_chan w = ch0 @ ps1" "channel_data ChData l1 = pack_bytes gb k es" "channel_data ChError l1 = []" by blast
    from progress_carries [of listening np "lit ''packed''" n "cw_chan w"] obtain l2 ps2 where
      c2: "carries wr l2 ps2" "progress_line wr listening np (lit ''packed'') n (cw_chan w) = cw_chan w @ ps2"
        "channel_data ChData l2 = []" "channel_data ChError l2 = []" by blast
    have C: "carries wr (l0 @ l1 @ l2) (cw_chan w @ ps2)"
      using carries_append [OF c0(1) carries_append [OF W(3) c2(1)]] W(4) by simp
    moreover have "channel_data ChData (l0 @ l1 @ l2) = pack_bytes gb k es" "channel_data ChError (l0 @ l1 @ l2) = []"
      using c0 c2 W by simp_all
    moreover obtain p where p: "flush_to_write wr = Some p" using flush_writes by blast
    moreover have "ch = cw_chan w @ ps2 \<or> ch = (cw_chan w @ ps2) @ [p]"
      using ch run Inr c0(2) c2(2) p by (auto simp: stream_pack_def Let_def send_anyway_def blocking_send_def)
    ultimately show ?thesis using W(1,2) by blast
  qed
qed

text \<open>When everyone listens and every stored stream inflates, the response is terminated.\<close>

lemma stream_terminates:
  assumes "\<forall>obj\<in>set objs. stored_body Z obj \<noteq> None"
  shows "\<exists>ps p. flush_to_write wr = Some p \<and>
    stream_pack wr gb Z (\<lambda>n. True) (map Inr objs) (length objs) k True np ofs [] = ps @ [p]"
proof -
  obtain ch0 where c0: "progress_line wr (\<lambda>n. True) np (lit ''packing'') (length objs) [] = ch0" by blast
  from banded.pack_accepted [OF assms, of gb k "\<lparr>ofs_deltas = ofs\<rparr>" delta_stats_default "gb_init gb" ch0] obtain d stats' g w where run:
    "write_pack_with_options (sink_writer gb (send_data wr (\<lambda>n. True))) Z (map Inr objs :: (FetchObjectError + PackEntry) list) (length objs) k
      \<lparr>ofs_deltas = ofs\<rparr> delta_stats_default (gb_init gb, \<lparr>cw_buf = [], cw_chan = ch0\<rparr>) = ((Inr d, stats'), (g, w))"
    by auto
  moreover obtain p where "flush_to_write wr = Some p" using flush_writes by blast
  ultimately show ?thesis
    by (auto simp: stream_pack_def Let_def c0 send_anyway_def blocking_send_def)
qed

lemma carries_no_flush: "flush_to_write wr = Some p \<Longrightarrow> \<not> carries wr ls (ps @ [p])"
proof
  assume p: "flush_to_write wr = Some p" and c: "carries wr ls (ps @ [p])"
  then obtain ls' l where "line_to_write wr l = Some p" "l \<noteq> Flush"
    by (cases ls rule: rev_cases) (auto simp: carries_def)
  with line_reads [of l p "[]"] flush_reads [OF p, of "[]"] show False by simp
qed

text \<open>A response: header lines, then the stream.\<close>

lemma response_read:
  assumes "zlib_ok Z" and "carries wr hs hps"
    and read: "read_section wr (concat hps @ concat (stream_pack wr gb Z listening items n k True np ofs [])) = Some (lines, tail)"
  obtains es ls where "lines = hs @ ls" "tail = []" "pack_of Z items es" "length es = n"
    "channel_data ChData ls = pack_bytes gb k es" "channel_data ChError ls = []"
proof -
  let ?ch = "stream_pack wr gb Z listening items n k True np ofs []"
  have "\<not> carries wr ls ?ch" for ls
    using read read_unterminated [OF carries_append [OF assms(2)], of ls ?ch] by auto
  with stream_carries [OF assms(1) refl] obtain es ls ps p where S: "pack_of Z items es" "length es = n" "carries wr ls ps"
    "flush_to_write wr = Some p" "?ch = ps @ [p]" "channel_data ChData ls = pack_bytes gb k es" "channel_data ChError ls = []" by blast
  from read_terminated [OF carries_append [OF assms(2) S(3)] S(4)] read S(5) have "lines = hs @ ls" "tail = []" by auto
  from that [OF this S(1,2,6,7)] show thesis .
qed

end

text \<open>Without side-band the body is the pack.\<close>

lemma raw_stream:
  assumes "zlib_ok Z" and "\<forall>obj\<in>set objs. stored_body Z obj \<noteq> None"
  shows "\<exists>es. pack_of Z (map Inr objs) es \<and>
    concat (stream_pack wr gb Z (\<lambda>n. True) (map Inr objs) (length objs) k False np ofs []) = pack_bytes gb k es"
proof -
  let ?W = "sink_writer gb (send_chunk (\<lambda>n. True))" and ?w = "(gb_init gb, \<lparr>cw_buf = [], cw_chan = []\<rparr>)"
  from raw_open.pack_accepted [OF assms(2), of gb k "\<lparr>ofs_deltas = ofs\<rparr>" delta_stats_default "gb_init gb" "[]"] obtain d stats' g w
    where run: "write_pack_with_options ?W Z (map Inr objs :: (FetchObjectError + PackEntry) list) (length objs) k
      \<lparr>ofs_deltas = ofs\<rparr> delta_stats_default ?w = ((Inr d, stats'), (g, w))" by auto
  from write_pack_sound [OF assms(1) run] obtain objs' es s s' where W:
    "map Inr objs = (map Inr objs' :: (FetchObjectError + PackEntry) list)" "length es = length objs"
    "pw_header ?W (length objs) k ?w = (Inr (), s)" "feed ?W es s = (Inr (), s')" "pw_trailer ?W s' = (Inr (Some d), (g, w))"
    "map out_id es = map entry_id objs'" "unpack Z [] es = map (stored_body Z) objs'" "depth_one es" by blast
  from raw.pack_streamed [OF W(3) [folded W(2)] W(4,5)] obtain ps where
    "map Some (chunks MAX_BAND_DATA (pack_bytes gb k es)) = map Some ps" "cw_chan w = ps" by auto
  then have "cw_chan w = chunks MAX_BAND_DATA (pack_bytes gb k es)" by (simp add: inj_map_eq_map)
  moreover have "concat (chunks MAX_BAND_DATA (pack_bytes gb k es)) = pack_bytes gb k es"
    by (rule concat_chunks) (simp add: MAX_BAND_DATA_def)
  ultimately show ?thesis using run W(1,6-8) by (auto simp: stream_pack_def pack_of_def)
qed

lemma stream_delivered:
  assumes "wire_laws wr" and "zlib_ok Z" and "\<forall>obj\<in>set objs. stored_body Z obj \<noteq> None"
  shows "\<exists>es lines. read_section wr (concat (stream_pack wr gb Z (\<lambda>n. True) (map Inr objs) (length objs) k True no_progress ofs []))
      = Some (lines, []) \<and> channel_data ChData lines = pack_bytes gb k es \<and> unpack Z [] es = map (stored_body Z) objs"
    and "\<exists>es. concat (stream_pack wr gb Z (\<lambda>n. True) (map Inr objs) (length objs) k False no_progress ofs []) = pack_bytes gb k es \<and>
      unpack Z [] es = map (stored_body Z) objs"
proof -
  let ?ch = "stream_pack wr gb Z (\<lambda>n. True) (map Inr objs) (length objs) k True no_progress ofs []"
  from wire_laws.stream_terminates [OF assms(1,3)] obtain ps p where "flush_to_write wr = Some p" "?ch = ps @ [p]" by blast
  then have "\<not> carries wr ls ?ch" for ls using wire_laws.carries_no_flush [OF assms(1)] by metis
  with wire_laws.stream_carries [OF assms(1,2) refl] obtain es ls ps p where S: "pack_of Z (map Inr objs) es" "carries wr ls ps"
    "flush_to_write wr = Some p" "?ch = ps @ [p]" "channel_data ChData ls = pack_bytes gb k es" by blast
  from wire_laws.read_terminated [OF assms(1) S(2,3)] S show "\<exists>es lines. read_section wr (concat ?ch) = Some (lines, []) \<and>
      channel_data ChData lines = pack_bytes gb k es \<and> unpack Z [] es = map (stored_body Z) objs"
    by (auto simp: pack_of_def)
  show "\<exists>es. concat (stream_pack wr gb Z (\<lambda>n. True) (map Inr objs) (length objs) k False no_progress ofs []) = pack_bytes gb k es \<and>
      unpack Z [] es = map (stored_body Z) objs"
    using raw_stream [OF assms(2,3), of wr gb k no_progress ofs] by (auto simp: pack_of_def)
qed

section \<open>Properties\<close>

text \<open>C4: A client that reads a streamed pack up to the closing flush has all of it: whatever failed and
  whenever the client or the writer stopped listening, a side-band response that ends in a flush
  carries on channel 1 exactly the bytes of a pack with one entry per planned object, which decode
  to the stored contents, nothing on the error channel, and nothing after the flush.\<close>

theorem streamed_pack_exact:
  assumes "wire_laws wr" and "zlib_ok Z"
    and "read_section wr (concat (stream_pack wr gb Z listening items n k True no_progress ofs [])) = Some (lines, tail)"
  shows "\<exists>objs es. items = map Inr objs \<and> length es = n \<and> map out_id es = map entry_id objs \<and>
    unpack Z [] es = map (stored_body Z) objs \<and> depth_one es \<and>
    channel_data ChData lines = pack_bytes gb k es \<and> channel_data ChError lines = [] \<and> tail = []"
proof -
  have "read_section wr (concat [] @ concat (stream_pack wr gb Z listening items n k True no_progress ofs [])) = Some (lines, tail)"
    using assms(3) by simp
  from wire_laws.response_read [OF assms(1,2) carries_Nil this] obtain es ls where "lines = [] @ ls" "tail = []" "pack_of Z items es"
    "length es = n" "channel_data ChData ls = pack_bytes gb k es" "channel_data ChError ls = []" by blast
  then show ?thesis by (auto simp: pack_of_def)
qed

text \<open>C5: A pack whose objects can all be read is delivered: when the client keeps reading, a side-band
  response is terminated by a flush after the pack's bytes, and without side-band the body is the
  pack itself; both packs decode to the stored contents.\<close>

theorem stream_completes:
  assumes "wire_laws wr" and "zlib_ok Z" and "\<forall>obj\<in>set objs. stored_body Z obj \<noteq> None"
  shows "(\<exists>es lines. read_section wr (concat (stream_pack wr gb Z (\<lambda>n. True) (map Inr objs) (length objs) k True no_progress ofs []))
      = Some (lines, []) \<and> channel_data ChData lines = pack_bytes gb k es \<and> unpack Z [] es = map (stored_body Z) objs) \<and>
    (\<exists>es. concat (stream_pack wr gb Z (\<lambda>n. True) (map Inr objs) (length objs) k False no_progress ofs []) = pack_bytes gb k es \<and>
      unpack Z [] es = map (stored_body Z) objs)"
  using stream_delivered [OF assms] by blast

section \<open>Witnesses\<close>

text \<open>A byte layout: a magic, the entries' streams, and a fixed digest.\<close>

definition plain_bytes :: "unit gix_bytes" where
  "plain_bytes = \<lparr>gb_init = (), gb_header = (\<lambda>n k. ((), [lit ''PACK'', [word_of_nat n]])),
     gb_entry = (\<lambda>g e. ((), [[word_of_nat (out_size e)], compressed_data e])), gb_trailer = (\<lambda>g. ([replicate 20 0], replicate 20 0))\<rparr>"

lemma small_entries_stored: "\<forall>obj\<in>set small_entries. stored_body stored_zlib obj \<noteq> None"
proof -
  have "list_all (\<lambda>obj. stored_body stored_zlib obj \<noteq> None) small_entries" by code_simp
  then show ?thesis by (simp add: list_all_iff)
qed

theorem streamed_pack_exact_witness:
  "\<exists>lines tail objs es. read_section pkt_wire (concat (stream_pack pkt_wire plain_bytes stored_zlib (\<lambda>n. True) (map Inr small_entries) 5
      Sha1 True False True [])) = Some (lines, tail) \<and>
    map Inr small_entries = (map Inr objs :: (FetchObjectError + PackEntry) list) \<and> length es = 5 \<and>
    map out_id es = map entry_id objs \<and>
    unpack stored_zlib [] es = map (stored_body stored_zlib) objs \<and> depth_one es \<and>
    channel_data ChData lines = pack_bytes plain_bytes Sha1 es \<and> channel_data ChError lines = [] \<and> tail = []"
proof -
  have n: "length small_entries = 5" by (simp add: small_entries_def small_plan_def)
  from stream_delivered(1) [OF pkt.wire_laws_axioms stored_zlib_ok small_entries_stored, of plain_bytes Sha1 False True, unfolded n]
  obtain lines where R: "read_section pkt_wire (concat (stream_pack pkt_wire plain_bytes stored_zlib (\<lambda>n. True) (map Inr small_entries) 5
      Sha1 True False True [])) = Some (lines, [])" by blast
  from streamed_pack_exact [OF pkt.wire_laws_axioms stored_zlib_ok R] R show ?thesis by blast
qed

theorem stream_completes_witness:
  "(\<exists>es lines. read_section pkt_wire (concat (stream_pack pkt_wire plain_bytes stored_zlib (\<lambda>n. True) (map Inr small_entries)
      (length small_entries) Sha1 True False True [])) = Some (lines, []) \<and> channel_data ChData lines = pack_bytes plain_bytes Sha1 es \<and>
      unpack stored_zlib [] es = map (stored_body stored_zlib) small_entries) \<and>
    (\<exists>es. concat (stream_pack pkt_wire plain_bytes stored_zlib (\<lambda>n. True) (map Inr small_entries) (length small_entries) Sha1 False False True [])
      = pack_bytes plain_bytes Sha1 es \<and> unpack stored_zlib [] es = map (stored_body stored_zlib) small_entries)"
  by (rule stream_completes [OF pkt.wire_laws_axioms stored_zlib_ok small_entries_stored])

end
