(* ===== verification/Requests.thy ===== *)
theory Requests
  imports UploadPack Packets
begin

text \<open>
  The protocol-v2 request parser against the packet-line reader: a request is a section of lines,
  and which sections it accepts.
\<close>

section \<open>A request is a section\<close>

text \<open>One line of a request.\<close>

fun up_line :: "up_scan \<Rightarrow> PacketLine \<Rightarrow> UpParseError + up_scan" where
  "up_line sc Delimiter = (if sc_in_args sc then Inl UpParseError else Inr (sc\<lparr>sc_in_args := True\<rparr>))"
| "up_line sc (Data d) = and_then (ok_or UpParseError (from_utf8 (chomp d))) (up_scan_text sc)"
| "up_line sc _ = Inl UpParseError"

lemma up_parse_lines:
  "read_lines wr n body = Some (ls, tail) \<Longrightarrow> up_parse_loop wr n body sc = try_fold up_line sc ls"
proof (induction n arbitrary: body sc ls)
  case (Suc n)
  from Suc.prems obtain line k where s: "streaming wr body = Inr (Some (line, k))"
    by (auto split: sum.splits option.splits)
  show ?case
  proof (cases "line = Flush")
    case False
    with Suc.prems s obtain ls' where ls: "ls = line # ls'" "read_lines wr n (drop k body) = Some (ls', tail)" by auto
    from Suc.IH [OF ls(2)] s ls False show ?thesis
      by (cases line) (auto simp: and_then_def Let_def ok_or_def from_utf8_def split: sum.splits)
  qed (use Suc.prems s in auto)
qed simp

lemma up_parse_no_section: "read_lines wr n body = None \<Longrightarrow> up_parse_loop wr n body sc \<noteq> Inr sc'"
proof (induction n arbitrary: body sc)
  case (Suc n)
  show ?case
  proof (cases "\<exists>line k. streaming wr body = Inr (Some (line, k))")
    case True
    then obtain line k where s: "streaming wr body = Inr (Some (line, k))" by blast
    with Suc.prems have n: "read_lines wr n (drop k body) = None" "line \<noteq> Flush" by (auto split: if_splits)
    from Suc.IH [OF n(1)] s n(2) show ?thesis by (cases line) (auto simp: and_then_eq_Inr Let_def)
  qed (auto split: sum.splits option.splits)
qed simp

text \<open>The arguments, and the lines before them.\<close>

definition text_line :: "bytes \<Rightarrow> bool" where
  "text_line d \<longleftrightarrow> valid_utf8 (chomp d)"

lemma fold_args:
  assumes "sc_in_args sc"
  shows "try_fold up_line sc ls = Inr sc' \<longleftrightarrow>
    (\<exists>args. ls = map Data args \<and> list_all text_line args \<and> sc' = sc\<lparr>sc_args := sc_args sc @ map chomp args\<rparr>)"
  using assms
proof (induction ls arbitrary: sc)
  case Nil
  then show ?case by auto
next
  case (Cons l ls)
  show ?case
  proof (cases l)
    case (Data d)
    have "sc_in_args (sc\<lparr>sc_args := sc_args sc @ [chomp d]\<rparr>)" using Cons.prems by simp
    from Cons.IH [OF this] Cons.prems Data show ?thesis
      by (auto simp: up_scan_text_def from_utf8_def text_line_def and_then_def map_eq_Cons_conv Cons_eq_map_conv split: if_splits)
  qed (use Cons.prems in auto)
qed

definition command_names :: "bytes list \<Rightarrow> str list" where
  "command_names heads = List.map_filter (strip_prefix (lit ''command='') \<circ> chomp) heads"

definition format_names :: "bytes list \<Rightarrow> str list" where
  "format_names heads = List.map_filter (strip_prefix (lit ''object-format='') \<circ> chomp) heads"

lemma one_prefix: "strip_prefix (lit ''command='') t = Some a \<Longrightarrow> strip_prefix (lit ''object-format='') t = None"
  by (cases t) (auto simp: strip_prefix_def lit_def split: if_splits)

lemma names_Cons:
  "command_names (d # ds) = (case strip_prefix (lit ''command='') (chomp d) of Some c \<Rightarrow> c # command_names ds | None \<Rightarrow> command_names ds)"
  "format_names (d # ds) = (case strip_prefix (lit ''object-format='') (chomp d) of Some f \<Rightarrow> f # format_names ds | None \<Rightarrow> format_names ds)"
  by (simp_all add: command_names_def format_names_def map_filter_def split: option.split)

lemma fold_heads:
  assumes "\<not> sc_in_args sc"
  shows "try_fold up_line sc (map Data heads) = Inr sc' \<longleftrightarrow>
    list_all text_line heads \<and> length (command_names heads) + (if sc_command sc = None then 0 else 1) \<le> 1 \<and>
    sc' = sc\<lparr>sc_command := (if command_names heads = [] then sc_command sc else Some (hd (command_names heads))),
             sc_format := (if format_names heads = [] then sc_format sc else Some (last (format_names heads)))\<rparr>"
  using assms
proof (induction heads arbitrary: sc)
  case Nil
  then show ?case by (auto simp: command_names_def format_names_def map_filter_def)
next
  case (Cons d heads)
  show ?case
  proof (cases "text_line d")
    case True
    then have line: "up_line sc (Data d) = up_scan_text sc (chomp d)" by (simp add: text_line_def from_utf8_def ok_or_def and_then_def)
    show ?thesis
    proof (cases "strip_prefix (lit ''command='') (chomp d)")
      case (Some c)
      have "\<not> sc_in_args (sc\<lparr>sc_command := Some c\<rparr>)" using Cons.prems by simp
      from Cons.IH [OF this] Cons.prems True Some one_prefix [OF Some] show ?thesis
        by (cases "sc_command sc") (auto simp: line up_scan_text_def and_then_def names_Cons simp del: up_line.simps)
    next
      case None
      have "\<not> sc_in_args (sc\<lparr>sc_format := f\<rparr>)" for f using Cons.prems by simp
      note IH = Cons.IH [OF this] Cons.IH [OF Cons.prems]
      show ?thesis
        using IH Cons.prems True None
        by (cases "strip_prefix (lit ''object-format='') (chomp d)")
          (auto simp: line up_scan_text_def and_then_def names_Cons simp del: up_line.simps)
    qed
  next
    case False
    then show ?thesis by (simp add: text_line_def from_utf8_def ok_or_def and_then_def)
  qed
qed

lemma try_fold_append: "try_fold f a (xs @ ys) = and_then (try_fold f a xs) (\<lambda>b. try_fold f b ys)"
  by (induction xs arbitrary: a) (auto simp: and_then_def split: sum.splits)

text \<open>The lines of a request: header lines, and after a delimiter the arguments.\<close>

definition request_lines :: "bytes list \<Rightarrow> bytes list option \<Rightarrow> PacketLine list" where
  "request_lines heads args = map Data heads @ (case args of None \<Rightarrow> [] | Some as \<Rightarrow> Delimiter # map Data as)"

definition request_of :: "bytes list \<Rightarrow> bytes list option \<Rightarrow> UpRequest \<Rightarrow> bool" where
  "request_of heads args request \<longleftrightarrow>
     list_all text_line (heads @ case_option [] id args) \<and> command_names heads = [up_command request] \<and>
     up_object_format request = (if format_names heads = [] then None else Some (last (format_names heads))) \<and>
     up_args request = map chomp (case_option [] id args)"

lemma split_heads: "(\<exists>heads. ls = map Data heads) \<or> (\<exists>heads l ms. ls = map Data heads @ l # ms \<and> (\<forall>d. l \<noteq> Data d))"
proof (induction ls)
  case (Cons l ls)
  show ?case
  proof (cases "\<exists>d. l = Data d")
    case True
    then obtain d where d: "l = Data d" by blast
    from Cons show ?thesis
    proof (elim disjE exE conjE)
      fix heads assume "ls = map Data heads"
      with d have "l # ls = map Data (d # heads)" by simp
      then show ?thesis by (intro disjI1 exI)
    next
      fix heads m ms assume m: "ls = map Data heads @ m # ms" "\<forall>d. m \<noteq> Data d"
      with d have "l # ls = map Data (d # heads) @ m # ms" by simp
      with m(2) show ?thesis by (intro disjI2 exI conjI)
    qed
  next
    case False
    then show ?thesis by (intro disjI2 exI [of _ "[]"] exI [of _ l] exI [of _ ls]) simp
  qed
qed simp

abbreviation scan_start :: up_scan where
  "scan_start \<equiv> \<lparr>sc_command = None, sc_format = None, sc_args = [], sc_in_args = False\<rparr>"

lemma scan_request:
  "(\<exists>sc. try_fold up_line scan_start ls = Inr sc \<and> sc_command sc = Some (up_command request) \<and>
      sc_format sc = up_object_format request \<and> sc_args sc = up_args request) \<longleftrightarrow>
    (\<exists>heads args. ls = request_lines heads args \<and> request_of heads args request)"
proof -
  have heads: "try_fold up_line scan_start (map Data heads) = Inr sc \<longleftrightarrow> list_all text_line heads \<and> length (command_names heads) \<le> 1 \<and>
      sc = scan_start\<lparr>sc_command := (if command_names heads = [] then None else Some (hd (command_names heads))),
        sc_format := (if format_names heads = [] then None else Some (last (format_names heads)))\<rparr>" for heads sc
    using fold_heads [of scan_start heads sc] by simp
  have delim: "try_fold up_line sc (Delimiter # ms) = Inr sc' \<longleftrightarrow>
      (\<exists>as. ms = map Data as \<and> list_all text_line as \<and> sc' = sc\<lparr>sc_in_args := True, sc_args := sc_args sc @ map chomp as\<rparr>)"
    if "\<not> sc_in_args sc" for sc sc' ms
    using that fold_args [of "sc\<lparr>sc_in_args := True\<rparr>" ms sc'] by (simp add: and_then_def)
  show ?thesis
  proof
    assume "\<exists>sc. try_fold up_line scan_start ls = Inr sc \<and> sc_command sc = Some (up_command request) \<and>
      sc_format sc = up_object_format request \<and> sc_args sc = up_args request"
    then obtain sc where sc: "try_fold up_line scan_start ls = Inr sc" "sc_command sc = Some (up_command request)"
      "sc_format sc = up_object_format request" "sc_args sc = up_args request" by blast
    have one: "command_names heads = [up_command request]"
      if "length (command_names heads) \<le> 1" "(if command_names heads = [] then None else Some (hd (command_names heads))) = Some (up_command request)" for heads
      using that by (cases "command_names heads") (auto split: if_splits)
    from split_heads [of ls] show "\<exists>heads args. ls = request_lines heads args \<and> request_of heads args request"
    proof (elim disjE exE conjE)
      fix heads assume "ls = map Data heads"
      with sc heads [of heads sc] one [of heads] have "ls = request_lines heads None \<and> request_of heads None request"
        by (auto simp: request_lines_def request_of_def)
      then show ?thesis by blast
    next
      fix heads l ms assume ls: "ls = map Data heads @ l # ms" and l: "\<forall>d. l \<noteq> Data d"
      from sc(1) obtain sc1 where sc1: "try_fold up_line scan_start (map Data heads) = Inr sc1" "try_fold up_line sc1 (l # ms) = Inr sc"
        by (auto simp: ls try_fold_append and_then_eq_Inr simp del: try_fold.simps)
      from sc1(2) l have "l = Delimiter" by (cases l) (auto simp: and_then_def)
      moreover have "\<not> sc_in_args sc1" using heads [of heads sc1] sc1(1) by simp
      ultimately obtain as where "ms = map Data as" "list_all text_line as" "sc = sc1\<lparr>sc_in_args := True, sc_args := sc_args sc1 @ map chomp as\<rparr>"
        using sc1(2) delim by blast
      with sc ls \<open>l = Delimiter\<close> heads [of heads sc1] sc1(1) one [of heads]
      have "ls = request_lines heads (Some as) \<and> request_of heads (Some as) request"
        by (auto simp: request_lines_def request_of_def)
      then show ?thesis by blast
    qed
  next
    assume "\<exists>heads args. ls = request_lines heads args \<and> request_of heads args request"
    then obtain hs args where ls: "ls = request_lines hs args" and r: "request_of hs args request" by blast
    let ?sc = "scan_start\<lparr>sc_command := Some (up_command request), sc_format := up_object_format request\<rparr>"
    have h: "try_fold up_line scan_start (map Data hs) = Inr ?sc" using r heads [of hs ?sc] by (simp add: request_of_def)
    show "\<exists>sc. try_fold up_line scan_start ls = Inr sc \<and> sc_command sc = Some (up_command request) \<and>
      sc_format sc = up_object_format request \<and> sc_args sc = up_args request"
    proof (cases args)
      case None
      with ls r h show ?thesis by (simp add: request_lines_def request_of_def)
    next
      case (Some as)
      with r delim [of ?sc "map Data as" "?sc\<lparr>sc_in_args := True, sc_args := map chomp as\<rparr>"]
      have "try_fold up_line ?sc (Delimiter # map Data as) = Inr (?sc\<lparr>sc_in_args := True, sc_args := map chomp as\<rparr>)"
        by (auto simp: request_of_def simp del: try_fold.simps)
      with Some ls r h show ?thesis by (simp add: request_lines_def request_of_def try_fold_append and_then_def del: try_fold.simps)
    qed
  qed
qed

lemma request_parses:
  "up_parse_request wr body = Inr request \<longleftrightarrow>
    (\<exists>heads args tail. read_section wr body = Some (request_lines heads args, tail) \<and> request_of heads args request)"
proof (cases "read_section wr body")
  case None
  then show ?thesis
    using up_parse_no_section [of wr "Suc (length body)" body scan_start]
    by (auto simp: up_parse_request_def read_section_def and_then_eq_Inr simp del: up_parse_loop.simps read_lines.simps)
next
  case (Some x)
  then obtain ls tail where x: "read_section wr body = Some (ls, tail)" by (cases x) auto
  have loop: "up_parse_loop wr (Suc (length body)) body scan_start = try_fold up_line scan_start ls"
    by (rule up_parse_lines) (use x in \<open>simp add: read_section_def\<close>)
  have "up_parse_request wr body = Inr request \<longleftrightarrow>
      (\<exists>sc. try_fold up_line scan_start ls = Inr sc \<and> sc_command sc = Some (up_command request) \<and>
        sc_format sc = up_object_format request \<and> sc_args sc = up_args request)"
    unfolding up_parse_request_def loop by (cases request) (auto simp: and_then_eq_Inr ok_or_def split: option.splits)
  with x show ?thesis unfolding scan_request by auto
qed

section \<open>Properties\<close>

text \<open>C26: The request parser accepts exactly the framed requests: a body whose first section holds text
  lines, one of them naming the command, then optionally a delimiter and the argument lines; the
  object format is the last one named, and what follows the flush is ignored.\<close>

theorem request_exact:
  "up_parse_request wr body = Inr request \<longleftrightarrow>
    (\<exists>heads args tail. read_section wr body = Some (request_lines heads args, tail) \<and> request_of heads args request)"
  by (rule request_parses)

end
