(* ===== verification/Server_Correct.thy ===== *)
theory Server_Correct
  imports Receive_Correct Http Streaming Requests
begin

text \<open>
  The server as a whole: every request keeps the invariant under which the refs of every
  repository are complete, and a fetch response that ends delivers what was asked for.
\<close>

section \<open>Reads\<close>

context store_client
begin

lemma keep_get_ref: "eff_spec I (\<lambda>e. True) (\<lambda>v. True) (get_ref db repo name)"
  unfolding get_ref_def by (rule eff_spec_bind [OF eff_spec_map_err [OF keep_get]]) (auto intro: eff_spec_lift)

lemma keep_list_refs: "eff_spec I (\<lambda>e. True) (\<lambda>v. True) (list_refs db repo p)"
  unfolding list_refs_def Let_def by (rule eff_spec_bind [OF eff_spec_map_err [OF keep_scan]]) (auto intro: eff_spec_lift)

lemma keep_gather: "eff_spec I (\<lambda>e. True) (\<lambda>v. True) (gather_refs db repo ps)"
proof -
  have "eff_spec I (\<lambda>e. True) (\<lambda>v. True) (gather_prefixes db repo refs ps)" for refs
    by (induction ps arbitrary: refs) (auto intro: eff_spec_bind [OF keep_list_refs])
  then show ?thesis by (simp add: gather_refs_def keep_list_refs)
qed

lemma keep_resolve_ref: "eff_spec I (\<lambda>e. True) (\<lambda>v. True) (resolve_ref db repo tgt)"
proof -
  have "eff_spec I (\<lambda>e. True) (\<lambda>v. True) (resolve_ref_loop db repo n tgt)" for n
  proof (induction n arbitrary: tgt)
    case (Suc n)
    then show ?case by (cases tgt) (auto intro!: eff_spec_bind [OF keep_get_ref] split: option.split)
  qed auto
  then show ?thesis by (simp add: resolve_ref_def)
qed

end

lemmas eff_spec_binds = eff_spec_bind [where Q = "\<lambda>x. True"] eff_spec_map_err [where E' = "\<lambda>e. True"]

lemma eff_spec_lift_any: "eff_spec I (\<lambda>e. True) (\<lambda>x. True) (eff_lift r)"
  by (rule eff_spec_lift) simp_all

lemma eff_spec_any:
  "eff_spec I (\<lambda>e. True) (\<lambda>x. True) (eff_return v)" "eff_spec I (\<lambda>e. True) (\<lambda>x. True) (eff_fail f)"
  by auto

context server_env
begin

lemma keep_reads:
  assumes "\<And>s0. eff_spec (env s0) (\<lambda>e. True) (\<lambda>x. True) m"
  shows "eff_spec (server_ok st kv rest H good) (\<lambda>e. True) (\<lambda>x. True) m"
proof (rule eff_specI)
  fix s r s' assume s: "server_ok st kv rest H good s" and run: "m s = (r, s')"
  have "env s s" using slatedb_laws.env_refl [OF slate] by blast
  from eff_specD(1) [OF assms run this] server_env_step s
  show "server_ok st kv rest H good s' \<and> (case r of Inl e \<Rightarrow> True | Inr x \<Rightarrow> True)" by (simp split: sum.splits)
qed

lemma walks: "walker_env (walker_new st repo) kv rest env snap reads writes H good"
  by (rule promote_env.axioms(1) [OF promotes])

lemmas keep_lookup = store_client.keep_lookup [OF client]
lemmas keep_list_refs = store_client.keep_list_refs [OF client]
lemmas keep_gather = store_client.keep_gather [OF client]
lemmas keep_resolve_ref = store_client.keep_resolve_ref [OF client]

lemma keep_odb_get: "eff_spec (server_ok st kv rest H good) (\<lambda>e. True) (\<lambda>x. True) (odb_get (st_db st) (st_os st) (st_zlib st) repo i)"
  by (rule keep_reads) (use walker_env.env_spec_odb_get [OF walks, where repo = repo] in simp)

lemma keep_odb_size: "eff_spec (server_ok st kv rest H good) (\<lambda>e. True) (\<lambda>x. True) (odb_size (st_db st) repo i)"
  by (rule keep_reads) (use walker_env.env_spec_odb_size [OF walks, where repo = repo] in simp)

lemma keep_read_compressed: "eff_spec (server_ok st kv rest H good) (\<lambda>e. True) (\<lambda>x. True) (read_compressed (st_db st) (st_os st) repo i)"
  by (rule keep_reads) (use walker_env.env_spec_read_compressed [OF walks, where repo = repo] in simp)

section \<open>The read commands\<close>

lemma keep_peel: "eff_spec (server_ok st kv rest H good) (\<lambda>e. True) (\<lambda>x. True) (peel_ref st repo i)"
proof -
  have "eff_spec (server_ok st kv rest H good) (\<lambda>e. True) (\<lambda>x. True) (peel_ref_loop st repo n i p)" for n p
  proof (induction n arbitrary: i p)
    case (Suc n)
    show ?case
      unfolding peel_ref_loop.simps
      by (rule eff_spec_bind [OF eff_spec_map_err [OF keep_odb_get]], simp, rule eff_spec_option)
        (auto intro!: eff_spec_bind [OF eff_spec_lift_any] Suc split: prod.split)
  qed auto
  then show ?thesis by (simp add: peel_ref_def)
qed

lemma keep_ls_refs: "eff_spec (server_ok st kv rest H good) (\<lambda>e. True) (\<lambda>x. True) (ls_refs st meta args)"
proof -
  have line: "eff_spec (server_ok st kv rest H good) (\<lambda>e. True) (\<lambda>x. True) (ls_refs_line st repo a name tgt)" for repo a name tgt
    unfolding ls_refs_line_def Let_def
    by (rule eff_spec_bind [OF eff_spec_map_err [OF keep_resolve_ref]])
      (auto intro!: eff_spec_bind [OF keep_peel] split: Resolution.split)
  have loop: "eff_spec (server_ok st kv rest H good) (\<lambda>e. True) (\<lambda>x. True) (ls_refs_loop st repo a body refs)" for repo a body refs
  proof (induction refs arbitrary: body)
    case (Cons r refs)
    show ?case
      by (cases r) (auto intro!: eff_spec_bind [OF line] eff_spec_bind [OF eff_spec_lift_any] Cons split: option.split)
  qed auto
  show ?thesis
    unfolding ls_refs_def build_ls_refs_def Let_def
    by (intro eff_spec_binds eff_spec_lift_any keep_gather loop eff_spec_return) simp_all
qed

lemma keep_object_info: "eff_spec (server_ok st kv rest H good) (\<lambda>e. True) (\<lambda>x. True) (up_object_info st meta args)"
proof -
  have loop: "eff_spec (server_ok st kv rest H good) (\<lambda>e. True) (\<lambda>x. True) (object_info_loop st repo body ids)" for repo body ids
  proof (induction ids arbitrary: body)
    case (Cons i ids)
    show ?case
      unfolding object_info_loop.simps
      by (rule eff_spec_bind [OF eff_spec_map_err [OF keep_odb_size]], simp, rule eff_spec_option)
        (auto intro!: eff_spec_bind [OF eff_spec_lift_any] Cons split: prod.split)
  qed auto
  show ?thesis
    unfolding up_object_info_def Let_def by (intro eff_spec_binds eff_spec_lift_any loop eff_spec_return) simp_all
qed

lemma keep_feed: "eff_spec (server_ok st kv rest H good) (\<lambda>e. True) (\<lambda>x. True) (feed_objects (st_db st) (st_os st) repo listening n objs)"
proof (induction objs arbitrary: n)
  case (Cons obj objs)
  show ?case
    unfolding feed_objects.simps Let_def
    by (rule eff_spec_bind [OF eff_spec_attempt [OF keep_read_compressed]])
      (intro eff_spec_if eff_spec_return eff_spec_bind [OF Cons] TrueI)
qed auto

lemma keep_stream:
  "eff_spec (server_ok st kv rest H good) (\<lambda>e. True) (\<lambda>x. True) (stream_pack_response st gb io meta objs n pre sb np ofs)"
  unfolding stream_pack_response_def by (intro eff_spec_binds keep_feed eff_spec_return) simp_all

lemma keep_advertisement: "eff_spec (server_ok st kv rest H good) (\<lambda>e. True) (\<lambda>x. True) (build_advertisement st meta)"
proof -
  have head: "eff_spec (server_ok st kv rest H good) (\<lambda>e. True) (\<lambda>x. True) (v0_head st repo h)" for repo h
    unfolding v0_head_def by (rule eff_spec_option) (auto intro!: eff_spec_bind [OF eff_spec_map_err [OF keep_resolve_ref]])
  have refs: "eff_spec (server_ok st kv rest H good) (\<lambda>e. True) (\<lambda>x. True) (v0_resolve st repo adv rs)" for repo adv rs
  proof (induction rs arbitrary: adv)
    case (Cons r rs)
    show ?case
      by (cases r) (auto intro!: eff_spec_bind [OF eff_spec_map_err [OF keep_resolve_ref]] eff_spec_bind [OF keep_peel] Cons
          split: Resolution.split)
  qed auto
  show ?thesis
    unfolding build_advertisement_def Let_def
    by (rule eff_spec_bind [OF eff_spec_map_err [OF keep_list_refs]])
      (auto intro!: eff_spec_bind [OF head] eff_spec_bind [OF refs] eff_spec_lift_any split: prod.split)
qed

lemma keep_respond:
  assumes "eff_spec (server_ok st kv rest H good) (\<lambda>e. True) (\<lambda>x. True) m" and "server_ok st kv rest H good s"
  shows "server_ok st kv rest H good (snd (respond m s))"
  using eff_specD(1) [OF assms(1) _ assms(2)] by (cases "m s") (auto simp: respond_def split: sum.splits)

lemma keep_creation: "eff_spec (server_ok st kv rest H good) (\<lambda>e. True) (\<lambda>x. True) (get_or_create_repo (st_db st) repo)"
proof -
  have "store_client.safe_writes kv rest (server_ok st kv rest H good) (put_entries (create_entries repo n))" for n
    unfolding store_client.safe_writes_def [OF client] by (simp add: server_ok_def odb_ok_create closed_create)
  from store_client.keep_get_or_create [OF client this] show ?thesis .
qed

lemma keep_info_refs:
  assumes "server_ok st kv rest H good s"
  shows "server_ok st kv rest H good (snd (info_refs st path query h s))"
proof -
  have "server_ok st kv rest H good (snd (upload_pack_advert st repo h s))" for repo
    unfolding upload_pack_advert_def v0_advertise_def
    by (rule keep_respond [OF eff_spec_bind [OF eff_spec_map_err [OF keep_lookup]] assms], simp, rule eff_spec_option)
      (auto intro!: eff_spec_bind [OF eff_spec_map_err [OF eff_spec_map_err [OF keep_advertisement]]]
        eff_spec_bind [OF eff_spec_lift_any])
  moreover have "server_ok st kv rest H good (snd (receive_pack_advert st repo s))" for repo
    unfolding receive_pack_advert_def
    by (rule keep_respond [OF _ assms], rule eff_spec_bind [where Q = "\<lambda>x. True"], rule eff_spec_if)
      (auto intro!: eff_spec_binds keep_creation keep_lookup keep_list_refs eff_spec_lift_any split: option.split)
  ultimately show ?thesis using assms by (auto simp: info_refs_def split: option.split sum.split)
qed

end

section \<open>The walking commands\<close>

context object_source
begin

lemma source_walks: "walk_source w I H good source_error"
  by (rule source.walk_source_axioms)

end

text \<open>A server whose trees name trees only as trees: no entry of blob mode names one.\<close>

locale fetch_env = server_env +
  assumes kinds: "kinds_ok (st_gix st) H"
begin

lemma server_walks: "walk_source (walker_new st repo) (server_ok st kv rest H good) H good source_error"
proof -
  have "promo_ok (walker_new st repo) kv rest H good {} = server_ok st kv rest H good" by (rule ext) (simp add: promo_ok_server)
  with object_source.source_walks [OF promote_env.promo_source [OF promotes, where K = "{}"]] show ?thesis by metis
qed

lemma keep_plan:
  assumes "list_all oid_ok wants" and "list_all oid_ok haves"
  shows "eff_spec (server_ok st kv rest H good) (\<lambda>e. True) (plan_ok (st_gix st) H f wants haves)
    (plan_pack (walker_new st repo) wants haves f ofs)"
  by (rule eff_spec_weaken [OF walk_source.plan_pack_spec [OF server_walks]]) (use kinds assms in \<open>auto simp: list_all_iff\<close>)

lemma keep_negotiate:
  assumes "list_all oid_ok (v0_wants request)" and "list_all oid_ok (v0_haves request)"
  shows "eff_spec (server_ok st kv rest H good) (\<lambda>e. True) (\<lambda>x. True) (negotiate wr (walker_new st repo) request)"
proof -
  have part: "eff_spec (server_ok st kv rest H good) (\<lambda>e. True) (\<lambda>p. list_all oid_ok (history p))
      (partition_wants (walker_new st repo) (v0_wants request))"
    by (rule eff_spec_weaken [OF walk_source.partition_wants_spec [OF server_walks]]) (use assms in \<open>auto simp: list_all_iff\<close>)
  have sel: "eff_spec (server_ok st kv rest H good) (\<lambda>e. True) (\<lambda>x. True) (select_commits (walker_new st repo) ws (v0_haves request))"
    if "list_all oid_ok ws" for ws
    by (rule eff_spec_weaken [OF walk_source.select_commits_spec [OF server_walks, where prec = False]])
      (use assms that in \<open>auto simp: list_all_iff\<close>)
  show ?thesis
    unfolding negotiate_def Let_def
    by (rule eff_spec_bind [OF eff_spec_map_err [OF part]], simp, rule eff_spec_bind [OF eff_spec_map_err [OF sel]])
      (auto intro!: eff_spec_bind [OF eff_spec_lift_any])
qed

end

section \<open>Requests name well-formed ids\<close>

lemma try_fold_keeps:
  assumes "try_fold f acc xs = Inr r" and "P acc" and "\<And>a x b. f a x = Inr b \<Longrightarrow> P a \<Longrightarrow> P b"
  shows "P r"
  using assms(1,2) by (induction xs arbitrary: acc) (auto simp: and_then_eq_Inr intro: assms(3))

context wire_laws
begin

lemma fetch_args_oids:
  assumes "fetch_args_parse wr args = Inr parsed"
  shows "list_all oid_ok (fa_wants parsed) \<and> list_all oid_ok (fa_haves parsed)"
  using assms unfolding fetch_args_parse_def
proof (rule try_fold_keeps)
  fix a x b assume "fetch_arg wr a x = Inr b" "list_all oid_ok (fa_wants a) \<and> list_all oid_ok (fa_haves a)"
  then show "list_all oid_ok (fa_wants b) \<and> list_all oid_ok (fa_haves b)"
    using hex_ok by (auto simp: fetch_arg_def and_then_eq_Inr split: option.splits if_splits)
qed (simp add: fetch_args_default_def)

lemma v0_caps_oids:
  "v0_wants (v0_parse_caps caps request) = v0_wants request" "v0_haves (v0_parse_caps caps request) = v0_haves request"
proof -
  have "v0_wants (foldl v0_cap request ts) = v0_wants request \<and> v0_haves (foldl v0_cap request ts) = v0_haves request" for ts
    by (induction ts arbitrary: request) (auto simp: v0_cap_def Let_def)
  then show "v0_wants (v0_parse_caps caps request) = v0_wants request" "v0_haves (v0_parse_caps caps request) = v0_haves request"
    by (simp_all add: v0_parse_caps_def)
qed

lemma v0_request_oids:
  assumes "v0_parse_request wr body = Inr request"
  shows "list_all oid_ok (v0_wants request) \<and> list_all oid_ok (v0_haves request)"
proof -
  have "list_all oid_ok (v0_wants r) \<and> list_all oid_ok (v0_haves r)"
    if "v0_parse_loop wr n body r0 fw sl = Inr r" "list_all oid_ok (v0_wants r0) \<and> list_all oid_ok (v0_haves r0)" for n body r0 fw sl r
    using that
  proof (induction n arbitrary: body r0 fw sl)
    case (Suc n)
    have want: "list_all oid_ok (v0_wants r1) \<and> list_all oid_ok (v0_haves r1)" if "v0_want wr r0 fw tl = Inr r1" for tl r1
      using that Suc.prems(2) hex_ok by (auto simp: v0_want_def Let_def and_then_eq_Inr v0_caps_oids split: option.splits prod.splits)
    show ?case
      using Suc.prems Suc.IH want hex_ok
      by (auto simp: Let_def and_then_eq_Inr split: if_splits sum.splits option.splits prod.splits PacketLine.splits)
  qed simp
  from this [OF assms [unfolded v0_parse_request_def]] show ?thesis by (simp add: v0_request_default_def)
qed

end

section \<open>The endpoints\<close>

text \<open>The lines before the pack.\<close>

definition negotiation_lines :: "bool \<Rightarrow> ObjectId list \<Rightarrow> PacketLine list" where
  "negotiation_lines fdone shared =
     (if fdone then []
      else [Data (lit ''acknowledgments'' @ [10])] @
        (if shared = [] then [Data (lit ''NAK'' @ [10])] else map (Data \<circ> ack_line) shared) @
        [Data (lit ''ready'' @ [10]), Delimiter]) @
     [Data (lit ''packfile'' @ [10])]"

lemma negotiation_prefix_carries:
  assumes "negotiation_prefix wr fdone shared = Some pre"
  shows "\<exists>ps. carries wr (negotiation_lines fdone shared) ps \<and> pre = concat ps"
proof -
  let ?ls = "negotiation_lines fdone shared"
  have lines: "line_to_write wr (Data d) = data_to_write wr d" "line_to_write wr Delimiter = delim_to_write wr" for d
    by (simp_all add: line_to_write_def)
  have acks: "map (line_to_write wr) (map (Data \<circ> ack_line) shared) = map (data_to_write wr \<circ> ack_line) shared"
    by (simp add: lines)
  have "negotiation_prefix wr fdone shared = write_all (map (line_to_write wr) ?ls)"
    unfolding negotiation_prefix_def negotiation_lines_def by (cases fdone; cases "shared = []") (simp_all only: lines acks list.map map_append if_True if_False not_True_eq_False not_False_eq_True simp_thms)
  with assms have w: "None \<notin> set (map (line_to_write wr) ?ls)" "pre = concat (map the (map (line_to_write wr) ?ls))"
    by (simp_all only: write_all_Some simp_thms)
  have "Flush \<notin> set ?ls" by (auto simp: negotiation_lines_def)
  moreover have "line_to_write wr l = Some (the (line_to_write wr l))" if "l \<in> set ?ls" for l
    using w(1) that by (metis image_eqI list.set_map option.exhaust_sel)
  ultimately have "carries wr ?ls (map the (map (line_to_write wr) ?ls))" by (simp add: carries_def)
  with w(2) show ?thesis by blast
qed

lemma up_fetch_run:
  assumes "up_fetch st gb io meta args s = (Inr resp, s')"
  obtains parsed plan s1 items pre where "fetch_args_parse (st_wire st) args = Inr parsed"
    "plan_pack (walker_new st (repo_id meta)) (fa_wants parsed) (fa_haves parsed) (fa_filter parsed) (fa_ofs_delta parsed) s = (Inr plan, s1)"
    "negotiation_prefix (st_wire st) (fa_done parsed) (plan_common plan) = Some pre"
    "feed_objects (st_db st) (st_os st) (repo_id meta) (writer_listening io) 0 (plan_objects plan) s1 = (Inr items, s')"
    "resp_body resp = pre @ concat (stream_pack (st_wire st) gb (st_zlib st) (client_listening io) items (length (plan_objects plan))
       (object_format meta) True (fa_no_progress parsed) (fa_ofs_delta parsed) [])"
  using assms unfolding up_fetch_def Let_def stream_pack_response_def
  by (auto simp: effect_simps git_response_def split: if_splits)

context fetch_env
begin

lemma keep_fetch: "eff_spec (server_ok st kv rest H good) (\<lambda>e. True) (\<lambda>x. True) (up_fetch st gb io meta args)"
  unfolding up_fetch_def Let_def
  by (rule eff_spec_bind [where Q = "\<lambda>p. list_all oid_ok (fa_wants p) \<and> list_all oid_ok (fa_haves p)"], rule eff_spec_lift)
    (auto dest!: wire_laws.fetch_args_oids [OF wire] split: sum.splits
      intro!: eff_spec_if eff_spec_bind [OF eff_spec_map_err [OF keep_plan]] eff_spec_bind [OF eff_spec_lift_any] keep_stream)

lemma keep_upload_pack:
  assumes "server_ok st kv rest H good s"
  shows "server_ok st kv rest H good (snd (upload_pack st gb io repo h body s))"
  unfolding upload_pack_def Let_def
  by (rule keep_respond [OF eff_spec_if assms])
    (auto intro!: eff_spec_any eff_spec_bind [OF eff_spec_lift_any] eff_spec_bind [OF eff_spec_map_err [OF keep_lookup]]
      keep_ls_refs keep_fetch keep_object_info split: option.split)

lemma keep_v0_upload_pack:
  assumes "server_ok st kv rest H good s"
  shows "server_ok st kv rest H good (snd (v0_upload_pack st gb io repo body s))"
proof -
  have stream: "eff_spec (server_ok st kv rest H good) (\<lambda>e. True) (\<lambda>x. True) (stream_done_round st gb io meta (walker_new st r) request)"
    if "list_all oid_ok (v0_wants request) \<and> list_all oid_ok (v0_haves request)" for meta r request
    unfolding stream_done_round_def Let_def
    by (rule eff_spec_bind [OF eff_spec_map_err [OF keep_plan]])
      (use that in \<open>auto intro!: eff_spec_if eff_spec_bind [OF eff_spec_lift_any] keep_stream\<close>)
  show ?thesis
    unfolding v0_upload_pack_def Let_def
    by (rule keep_respond [OF eff_spec_bind [where Q = "\<lambda>r. list_all oid_ok (v0_wants r) \<and> list_all oid_ok (v0_haves r)"] assms],
        rule eff_spec_lift)
      (auto dest!: wire_laws.v0_request_oids [OF wire] split: sum.splits option.split
        intro!: eff_spec_bind [OF eff_spec_map_err [OF keep_lookup]] stream keep_negotiate)
qed

lemma keep_git_rpc:
  assumes "server_ok st kv rest H good s"
  shows "server_ok st kv rest H good (snd (git_rpc st gb io fs path h body s))"
proof -
  have "server_ok st kv rest H good (snd (receive_pack st fs repo body s))" for repo
    using receive_keeps [of fs repo body s "fst (receive_pack st fs repo body s)" "snd (receive_pack st fs repo body s)"] assms by simp
  with assms keep_upload_pack keep_v0_upload_pack show ?thesis
    by (auto simp: git_rpc_def split: option.split sum.split)
qed

text \<open>A terminated fetch response delivers.\<close>

lemma fetch_responds:
  assumes s: "server_ok st kv rest H good s" and run: "up_fetch st gb io meta args s = (Inr resp, s')"
    and read: "read_section (st_wire st) (resp_body resp) = Some (lines, tail)"
  shows "\<exists>parsed shared es ls. fetch_args_parse (st_wire st) args = Inr parsed \<and> tail = [] \<and>
    lines = negotiation_lines (fa_done parsed) shared @ ls \<and>
    channel_data ChData ls = pack_bytes gb (object_format meta) es \<and> channel_data ChError ls = [] \<and>
    delivers (st_gix st) H (st_zlib st) (fa_filter parsed) (fa_wants parsed) (fa_haves parsed) shared es"
proof -
  obtain parsed plan s1 items pre where
    parse: "fetch_args_parse (st_wire st) args = Inr parsed" and
    plan: "plan_pack (walker_new st (repo_id meta)) (fa_wants parsed) (fa_haves parsed) (fa_filter parsed) (fa_ofs_delta parsed) s = (Inr plan, s1)"
    and pre: "negotiation_prefix (st_wire st) (fa_done parsed) (plan_common plan) = Some pre"
    and feed: "feed_objects (st_db st) (st_os st) (repo_id meta) (writer_listening io) 0 (plan_objects plan) s1 = (Inr items, s')"
    and body: "resp_body resp = pre @ concat (stream_pack (st_wire st) gb (st_zlib st) (client_listening io) items (length (plan_objects plan))
       (object_format meta) True (fa_no_progress parsed) (fa_ofs_delta parsed) [])" by (rule up_fetch_run [OF run])
  from negotiation_prefix_carries [OF pre] obtain hps where hps:
    "carries (st_wire st) (negotiation_lines (fa_done parsed) (plan_common plan)) hps" "pre = concat hps" by blast
  have Z: "zlib_ok (st_zlib st)" using promote_env.zlib_laws [OF promotes] by simp
  obtain es ls where R: "lines = negotiation_lines (fa_done parsed) (plan_common plan) @ ls" "tail = []"
    "pack_of (st_zlib st) items es" "length es = length (plan_objects plan)"
    "channel_data ChData ls = pack_bytes gb (object_format meta) es" "channel_data ChError ls = []"
    by (rule wire_laws.response_read [OF wire Z hps(1) read [unfolded body hps(2)]])
  have w: "walk_ok (walker_new st (repo_id meta)) kv rest H good s"
    using s promo_ok_server [of st "repo_id meta" kv rest H good "{}" s] by (simp add: promo_ok_def)
  have oids: "list_all oid_ok (fa_wants parsed)" "list_all oid_ok (fa_haves parsed)"
    using wire_laws.fetch_args_oids [OF wire parse] by simp_all
  have "delivers (st_gix st) H (st_zlib st) (fa_filter parsed) (fa_wants parsed) (fa_haves parsed) (plan_common plan) es"
    using walker_env.fetch_delivers(1) [OF walks _ oids w plan] kinds feed R(3,4) by simp
  with parse R show ?thesis by blast
qed

end

section \<open>Rejections\<close>

text \<open>A rejection in the protocol is one error line with no flush after it.\<close>

definition rejection :: "gix_wire \<Rightarrow> Response \<Rightarrow> bool" where
  "rejection wr resp \<longleftrightarrow> status resp \<noteq> 200 \<or> read_section wr (resp_body resp) = None"

lemma rejection_plain [simp]: "n \<noteq> 200 \<Longrightarrow> rejection wr (plain n m)" "rejection wr internal_error"
  by (simp_all add: rejection_def plain_def internal_error_def git_response_def)

lemma sum_Inl [simp]:
  "map_err g v = Inl e \<longleftrightarrow> (\<exists>f. v = Inl f \<and> e = g f)" "ok_or d x = Inl e \<longleftrightarrow> x = None \<and> e = d"
  by (auto simp: map_err_def ok_or_def split: sum.splits option.splits)

lemma try_fold_fails:
  assumes "try_fold f acc xs = Inl e" and "\<And>a x e. f a x = Inl e \<Longrightarrow> P e"
  shows "P e"
  using assms(1) by (induction xs arbitrary: acc) (auto simp: and_then_def split: sum.splits intro: assms(2))

lemma fetch_args_reason: "fetch_args_parse wr args = Inl m \<Longrightarrow> m \<noteq> []"
  unfolding fetch_args_parse_def
  by (erule try_fold_fails)
    (auto simp: fetch_arg_def and_then_def ok_or_def lit_def split: option.splits if_splits sum.splits)

lemma walk_reason: "walk_class e = Client m \<Longrightarrow> m \<noteq> []"
  by (cases e) (auto simp: lit_def store_class_def objects_server)

context wire_laws
begin

lemma response_written:
  assumes Z: "zlib_ok Z" and h: "carries wr hs hps" and objs: "\<forall>obj\<in>set objs. stored_body Z obj \<noteq> None"
  shows "\<exists>lines. read_section wr (concat hps @
    concat (stream_pack wr gb Z (\<lambda>n. True) (map Inr objs) (length objs) k True np ofs [])) = Some (lines, [])"
proof -
  let ?ch = "stream_pack wr gb Z (\<lambda>n. True) (map Inr objs) (length objs) k True np ofs []"
  from stream_terminates [OF objs] obtain ps p where "flush_to_write wr = Some p" "?ch = ps @ [p]" by blast
  then have "\<not> carries wr ls ?ch" for ls using carries_no_flush by metis
  with stream_carries [OF Z refl] obtain ls ps p where S: "carries wr ls ps" "flush_to_write wr = Some p" "?ch = ps @ [p]" by blast
  from read_terminated [OF carries_append [OF h S(1)] S(2)] S(3) show ?thesis by auto
qed

lemma err_line_rejection: "m \<noteq> [] \<Longrightarrow> rejection wr (err_line wr m)"
proof (cases "error_to_write wr m")
  case (Some p)
  assume m: "m \<noteq> []"
  with Some error_frames [OF m] have "carries wr [Data (lit ''ERR '' @ m)] [p]" by (simp add: carries_def line_to_write_def)
  from read_unterminated [OF this] Some show ?thesis by (simp add: rejection_def err_line_def error_line_def git_response_def)
qed (simp add: err_line_def error_line_def)

lemma fetch_rejection:
  assumes "up_fetch st gb io meta args s = (Inl resp, s')" and "st_wire st = wr"
  shows "rejection wr resp"
proof -
  have "rejection wr (error_response wr (walk_class e))" for e
    using walk_reason [of e] by (cases "walk_class e") (auto simp: error_response_def err_line_rejection)
  moreover have "rejection wr (reject_fetch wr m)" if "m \<noteq> []" for m using err_line_rejection [OF that] by (simp add: reject_fetch_def)
  moreover have "lit ''fetch requires at least one want'' \<noteq> []" "lit ''too many objects for one pack'' \<noteq> []" by (simp_all add: lit_def)
  ultimately show ?thesis
    using assms fetch_args_reason unfolding up_fetch_def Let_def stream_pack_response_def
    by (auto simp: effect_simps eff_bind_Inl split: if_splits)
qed

end

section \<open>Histories of requests\<close>

text \<open>What can happen to the world: a request runs, or someone else takes a step.\<close>

inductive request_step :: "('s, 't) AppState \<Rightarrow> 'g gix_bytes \<Rightarrow> ('s \<Rightarrow> 's \<Rightarrow> bool) \<Rightarrow> 's \<Rightarrow> 's \<Rightarrow> bool"
  for st gb env where
  post: "git_rpc st gb io fs path h body s = (resp, s') \<Longrightarrow> request_step st gb env s s'"
| advert: "info_refs st path query h s = (resp, s') \<Longrightarrow> request_step st gb env s s'"
| others: "env s s' \<Longrightarrow> request_step st gb env s s'"

context fetch_env
begin

lemma step_keeps: "request_step st gb env s s' \<Longrightarrow> server_ok st kv rest H good s \<Longrightarrow> server_ok st kv rest H good s'"
proof (induction rule: request_step.induct)
  case (post io fs path h body s resp s')
  then show ?case using keep_git_rpc [of s gb io fs path h body] by simp
next
  case (advert path query h s resp s')
  then show ?case using keep_info_refs [of s path query h] by simp
qed (rule server_env_step)

lemma run_keeps: "(request_step st gb env)\<^sup>*\<^sup>* s s' \<Longrightarrow> server_ok st kv rest H good s \<Longrightarrow> server_ok st kv rest H good s'"
  by (induction rule: rtranclp_induct) (auto dest: step_keeps)

end

section \<open>Properties\<close>

text \<open>C1: A fetch that ends delivers: whatever the storage, the writer or the client did meanwhile, if the
  response to a fetch request is a success that can be read up to its flush, it holds the
  negotiation's lines and then a pack, complete on channel 1 with no error reported, whose entries
  decode to the contents their ids name and cover everything wanted that is not reachable from an
  acknowledged have; only haves of the request are acknowledged, so without any the pack is the whole
  of what is wanted. The request leaves the server's invariant intact. The objects of the store are those in
  which no object names one of a later kind and no tree entry of blob mode names a tree; the server checks neither.\<close>

theorem fetch_response_complete:
  assumes "fetch_env st kv rest env snap reads writes H good" and "server_ok st kv rest H good s"
    and "up_parse_request (st_wire st) body = Inr request" and "up_command request = lit ''fetch''"
    and "upload_pack st gb io repo h body s = (resp, s')" and "status resp = 200"
    and "read_section (st_wire st) (resp_body resp) = Some (lines, tail)"
  shows "server_ok st kv rest H good s' \<and>
    (\<exists>meta s1 parsed shared es ls. lookup_repo (st_db st) repo s = (Inr (Some meta), s1) \<and>
       fetch_args_parse (st_wire st) (up_args request) = Inr parsed \<and> tail = [] \<and>
       lines = negotiation_lines (fa_done parsed) shared @ ls \<and>
       channel_data ChData ls = pack_bytes gb (object_format meta) es \<and> channel_data ChError ls = [] \<and>
       delivers (st_gix st) H (st_zlib st) (fa_filter parsed) (fa_wants parsed) (fa_haves parsed) shared es)"
proof
  note server = fetch_env.axioms(1) [OF assms(1)]
  note wire = server_env.wire [OF server]
  show "server_ok st kv rest H good s'" using fetch_env.keep_upload_pack [OF assms(1,2), of gb io repo h body] assms(5) by simp
  have R: "\<not> rejection (st_wire st) resp" using assms(6,7) by (simp add: rejection_def)
  have "rejection (st_wire st) (err_line (st_wire st) (lit m @ x))" if "m \<noteq> []" for m x
    by (rule wire_laws.err_line_rejection [OF wire]) (simp add: that lit_def)
  moreover have "rejection (st_wire st) (version_error (st_wire st))"
    by (simp add: version_error_def rejection_def git_response_def internal_error_def plain_def split: option.split)
  moreover have "error_response (st_wire st) (store_class e) = internal_error" for e by (simp add: error_response_def store_class_def)
  moreover have "lit ''fetch'' \<noteq> lit ''ls-refs''" by (simp add: lit_def)
  ultimately obtain meta s1 where L: "lookup_repo (st_db st) repo s = (Inr (Some meta), s1)"
    and F: "up_fetch st gb io meta (up_args request) s1 = (Inl resp, s') \<or> up_fetch st gb io meta (up_args request) s1 = (Inr resp, s')"
    using assms(3-5) R unfolding upload_pack_def Let_def respond_run
    by (auto simp: effect_simps eff_bind_Inl split: if_splits option.splits)
  have F: "up_fetch st gb io meta (up_args request) s1 = (Inr resp, s')"
    using F R wire_laws.fetch_rejection [OF wire _ refl] by blast
  have "server_ok st kv rest H good s1" using eff_specD(1) [OF server_env.keep_lookup [OF server] L assms(2)] .
  from fetch_env.fetch_responds [OF assms(1) this F assms(7)] L show "\<exists>meta s1 parsed shared es ls.
      lookup_repo (st_db st) repo s = (Inr (Some meta), s1) \<and>
      fetch_args_parse (st_wire st) (up_args request) = Inr parsed \<and> tail = [] \<and>
      lines = negotiation_lines (fa_done parsed) shared @ ls \<and>
      channel_data ChData ls = pack_bytes gb (object_format meta) es \<and> channel_data ChError ls = [] \<and>
      delivers (st_gix st) H (st_zlib st) (fa_filter parsed) (fa_wants parsed) (fa_haves parsed) shared es" by blast
qed

text \<open>C2: However many requests of any kind the server handles, whatever bytes they hold and whatever fails inside
  them, and whoever else writes to the store, every ref of every repository stays complete: all
  that it reaches is stored. The condition is on the objects that are ever pushed, and the server does not check it: none names
  one of a later kind in the order blob, tree, commit, tag (a tree entry that names a commit without being a
  submodule does), and no tree entry of blob mode names a tree.\<close>

theorem requests_keep_refs_complete:
  assumes "fetch_env st kv rest env snap reads writes H good" and "server_ok st kv rest H good s"
    and "(request_step st gb env)\<^sup>*\<^sup>* s s'"
  shows "server_ok st kv rest H good s' \<and>
    (\<forall>r name i c. ref_view (kv s') r name = Some (Direct i) \<longrightarrow> (i, c) \<in> (child_rel (st_gix st) H)\<^sup>* \<longrightarrow> stored r (kv s') c)"
  using fetch_env.run_keeps [OF assms(1,3,2)] server_env.refs_complete [OF fetch_env.axioms(1) [OF assms(1)]] by blast

section \<open>Witnesses\<close>

lemma to_hex_length: "length (to_hex bs) = 2 * length bs"
  by (induction bs) (simp_all add: to_hex_def)

lemma fixed_fetch_env:
  "fetch_env fixed_server mem_kv mem_rest (=) (\<lambda>t. map_of (t_snap t)) (\<lambda>t. set (t_reads t)) (\<lambda>t. map_of (t_writes t))
     (map_of small_objects) (\<lambda>i g. True)"
  by (rule fetch_env.intro [OF fixed_server_env], unfold_locales) (simp add: fixed_server_def small_server_def small_kinds)

interpretation fixed: fetch_env fixed_server mem_kv mem_rest "(=)" "\<lambda>t. map_of (t_snap t)" "\<lambda>t. set (t_reads t)"
    "\<lambda>t. map_of (t_writes t)" "map_of small_objects" "\<lambda>i g. True"
  by (rule fixed_fetch_env)

lemma small_push_step: "request_step fixed_server plain_bytes (=) reg_world small_updated"
proof (rule request_step.post)
  have "strip_endpoint (lit ''a/git-receive-pack'') RECEIVE_PACK = Some (lit ''a'')" "repo_name (lit ''a'') = Inr (lit ''a'')" by code_simp+
  with small_received show "git_rpc fixed_server plain_bytes io healthy (lit ''a/git-receive-pack'') h small_body reg_world =
      (report_success pkt_wire small_request [\<lparr>res_name = lit ''refs/heads/main'', outcome = Updated\<rparr>], small_updated)" for io h
    by (simp add: git_rpc_def)
qed

theorem requests_keep_refs_complete_witness:
  "server_ok fixed_server mem_kv mem_rest (map_of small_objects) (\<lambda>i g. True) small_updated \<and>
   ref_view (mem_kv small_updated) (RepoId 1) (lit ''refs/heads/main'') = Some (Direct (sid 2)) \<and>
   stored (RepoId 1) (mem_kv small_updated) (sid 2)"
proof -
  have "ref_view (mem_kv small_updated) (RepoId 1) (lit ''refs/heads/main'') = Some (Direct (sid 2))" by code_simp
  moreover have "(request_step fixed_server plain_bytes (=))\<^sup>*\<^sup>* reg_world small_updated" using small_push_step by (rule r_into_rtranclp)
  ultimately show ?thesis using requests_keep_refs_complete [OF fixed_fetch_env reg_world_ok] by blast
qed

text \<open>A fetch of the pushed branch.\<close>

definition fetch_lines :: "PacketLine list" where
  "fetch_lines = request_lines [lit ''command=fetch'']
     (Some [lit ''want '' @ to_hex (sid 2), lit ''done'', lit ''no-progress''])"

definition fetch_request :: UpRequest where
  "fetch_request = \<lparr>up_command = lit ''fetch'', up_object_format = None,
     up_args = [lit ''want '' @ to_hex (sid 2), lit ''done'', lit ''no-progress'']\<rparr>"

definition fetch_all :: fetch_io where
  "fetch_all = \<lparr>writer_listening = (\<lambda>n. True), client_listening = (\<lambda>n. True)\<rparr>"

definition fetch_parsed :: FetchArgs where
  "fetch_parsed = fetch_args_default\<lparr>fa_wants := [sid 2], fa_done := True, fa_no_progress := True\<rparr>"

lemma fetch_body: "\<exists>body. up_parse_request pkt_wire body = Inr fetch_request"
proof -
  let ?heads = "[lit ''command=fetch'']" and ?args = "[lit ''want '' @ to_hex (sid 2), lit ''done'', lit ''no-progress'']"
  have "line_to_write pkt_wire l \<noteq> None" if "l \<in> set fetch_lines" for l
    using that pkt.delim_writes pkt.data_fits
    by (auto simp: fetch_lines_def request_lines_def line_to_write_def lit_def to_hex_length sid_def)
  then have "\<forall>p\<in>set (map (line_to_write pkt_wire) fetch_lines @ [flush_to_write pkt_wire]). p \<noteq> None"
    using pkt.flush_writes by auto
  from write_all_total [OF this] obtain out where
    out: "write_all (map (line_to_write pkt_wire) fetch_lines @ [flush_to_write pkt_wire]) = Some out" by blast
  have "Flush \<notin> set fetch_lines" by (simp add: fetch_lines_def request_lines_def)
  from pkt.read_section_written [OF out this, of "[]"] have read: "read_section pkt_wire out = Some (request_lines ?heads (Some ?args), [])"
    by (simp add: fetch_lines_def)
  have "request_of ?heads (Some ?args) fetch_request" unfolding request_of_def by code_simp
  with read have "up_parse_request pkt_wire out = Inr fetch_request" unfolding request_parses by blast
  then show ?thesis by blast
qed

definition fetch_plan :: PackPlan where
  "fetch_plan = projr (fst (plan_pack (mem_walker (RepoId 1) 50) [sid 2] [] NoFilter False small_updated))"

definition fetch_planned :: mem_world where
  "fetch_planned = snd (plan_pack (mem_walker (RepoId 1) 50) [sid 2] [] NoFilter False small_updated)"

definition fetch_items :: "(FetchObjectError + PackEntry) list" where
  "fetch_items = projr (fst (feed_objects mem_db mem_os (RepoId 1) (\<lambda>n. True) 0 (plan_objects fetch_plan) fetch_planned))"

lemma fetch_planned_run: "plan_pack (mem_walker (RepoId 1) 50) [sid 2] [] NoFilter False small_updated = (Inr fetch_plan, fetch_planned)"
proof (rule prod_eqI)
  have "isl (fst (plan_pack (mem_walker (RepoId 1) 50) [sid 2] [] NoFilter False small_updated)) = False" by code_simp
  then show "fst (plan_pack (mem_walker (RepoId 1) 50) [sid 2] [] NoFilter False small_updated) = fst (Inr fetch_plan, fetch_planned)"
    by (cases "fst (plan_pack (mem_walker (RepoId 1) 50) [sid 2] [] NoFilter False small_updated)") (simp_all add: fetch_plan_def)
qed (simp add: fetch_planned_def)

lemma fetch_plan_length: "length (plan_objects fetch_plan) = 8"
  by code_simp

lemma fetch_items_stored:
  "map (\<lambda>x. case x of Inr e \<Rightarrow> stored_body stored_zlib e \<noteq> None | Inl e \<Rightarrow> False) fetch_items = replicate 8 True"
  by code_simp

lemma fetch_items_fed: "isl (fst (feed_objects mem_db mem_os (RepoId 1) (\<lambda>n. True) 0 (plan_objects fetch_plan) fetch_planned)) = False"
  by code_simp

lemma fetch_lookup: "lookup_repo mem_db (lit ''a'') small_updated = (Inr (Some (sample_meta 1)), small_updated)"
  by code_simp

lemma fetch_parses: "fetch_args_parse pkt_wire (up_args fetch_request) = Inr fetch_parsed"
  by code_simp

theorem fetch_response_complete_witness:
  "\<exists>body resp s' lines meta s1 es ls.
     upload_pack fixed_server plain_bytes fetch_all (lit ''a'') (Some (lit ''version=2'')) body small_updated = (resp, s') \<and>
     lookup_repo mem_db (lit ''a'') small_updated = (Inr (Some meta), s1) \<and>
     read_section pkt_wire (resp_body resp) = Some (lines, []) \<and> lines = negotiation_lines True [] @ ls \<and>
     channel_data ChData ls = pack_bytes plain_bytes (object_format meta) es \<and> channel_data ChError ls = [] \<and>
     delivers flat_gix (map_of small_objects) stored_zlib NoFilter [sid 2] [] [] es"
proof -
  obtain body where body: "up_parse_request pkt_wire body = Inr fetch_request" using fetch_body by blast
  have fields: "st_wire fixed_server = pkt_wire" "st_db fixed_server = mem_db" "st_os fixed_server = mem_os" "st_zlib fixed_server = stored_zlib"
    "st_gix fixed_server = flat_gix" "repo_id (sample_meta 1) = RepoId 1"
    by (simp_all add: fixed_server_def small_server_def sample_meta_def)
  have parsed: "fa_wants fetch_parsed = [sid 2]" "fa_haves fetch_parsed = []" "fa_filter fetch_parsed = NoFilter" "fa_done fetch_parsed"
    "\<not> fa_ofs_delta fetch_parsed" "fa_no_progress fetch_parsed" by (simp_all add: fetch_parsed_def fetch_args_default_def)
  have "pkt_line (lit ''packfile'' @ [10]) \<noteq> None" by (simp add: pkt_line_def lit_def)
  then have "negotiation_prefix pkt_wire True (plan_common fetch_plan) \<noteq> None"
    by (auto simp: negotiation_prefix_def pkt_wire_def)
  then obtain pre where pre: "negotiation_prefix pkt_wire True (plan_common fetch_plan) = Some pre" by blast
  from negotiation_prefix_carries [OF pre] obtain hps where hps: "carries pkt_wire (negotiation_lines True (plan_common fetch_plan)) hps"
    "pre = concat hps" by blast
  let ?feed = "feed_objects mem_db mem_os (RepoId 1) (\<lambda>n. True) 0 (plan_objects fetch_plan) fetch_planned"
  obtain s2 where feed: "?feed = (Inr fetch_items, s2)"
    using fetch_items_fed by (cases ?feed; cases "fst ?feed") (auto simp: fetch_items_def)
  define objs where "objs = map projr fetch_items"
  have entry: "\<exists>e. x = Inr e \<and> stored_body stored_zlib e \<noteq> None" if "x \<in> set fetch_items" for x
  proof -
    have "(case x of Inr e \<Rightarrow> stored_body stored_zlib e \<noteq> None | Inl e \<Rightarrow> False) \<in>
        set (map (\<lambda>x. case x of Inr e \<Rightarrow> stored_body stored_zlib e \<noteq> None | Inl e \<Rightarrow> False) fetch_items)" using that by force
    then show ?thesis unfolding fetch_items_stored by (cases x) auto
  qed
  then have items: "fetch_items = map Inr objs" by (auto simp: objs_def comp_def intro!: map_idI [symmetric]) fastforce
  have stored: "\<forall>obj\<in>set objs. stored_body stored_zlib obj \<noteq> None" using entry by (fastforce simp: objs_def)
  have n: "length objs = 8" using arg_cong [OF fetch_items_stored, of length] by (simp add: objs_def)
  let ?body = "concat hps @ concat (stream_pack pkt_wire plain_bytes stored_zlib (\<lambda>n. True) (map Inr objs) 8 Sha1 True True False [])"
  let ?resp = "git_response 200 UP_RESULT_CONTENT_TYPE ?body"
  have "up_fetch fixed_server plain_bytes fetch_all (sample_meta 1) (up_args fetch_request) small_updated = (Inr ?resp, s2)"
    using feed fetch_planned_run
    by (simp add: up_fetch_def Let_def fields fetch_parses parsed fixed_walker_new fetch_plan_length pre hps(2) stream_pack_response_def
        fetch_all_def items [symmetric] eff_bind_def eff_lift_def eff_map_err_def eff_return_def sample_meta_def ok_or_def)
  then have run: "upload_pack fixed_server plain_bytes fetch_all (lit ''a'') (Some (lit ''version=2'')) body small_updated = (?resp, s2)"
  proof -
    assume f: "up_fetch fixed_server plain_bytes fetch_all (sample_meta 1) (up_args fetch_request) small_updated = (Inr ?resp, s2)"
    have "wants_v2 (Some (lit ''version=2''))" "lit ''fetch'' \<noteq> lit ''ls-refs''" by code_simp+
    with f body fetch_lookup show ?thesis
      by (simp add: upload_pack_def Let_def fields respond_def eff_bind_def eff_lift_def eff_map_err_def fetch_request_def)
  qed
  from pkt.response_written [OF stored_zlib_ok hps(1) stored, of plain_bytes Sha1 True False, unfolded n] obtain lines where
    read: "read_section pkt_wire ?body = Some (lines, [])" by blast
  have ok: "server_ok fixed_server mem_kv mem_rest (map_of small_objects) (\<lambda>i g. True) small_updated"
    using fixed.run_keeps [OF r_into_rtranclp, OF small_push_step] reg_world_ok by blast
  have cmd: "up_command fetch_request = lit ''fetch''" by (simp add: fetch_request_def)
  have "\<exists>meta s1 parsed shared es ls. lookup_repo mem_db (lit ''a'') small_updated = (Inr (Some meta), s1) \<and>
       fetch_args_parse pkt_wire (up_args fetch_request) = Inr parsed \<and> ([] :: bytes) = [] \<and>
       lines = negotiation_lines (fa_done parsed) shared @ ls \<and>
       channel_data ChData ls = pack_bytes plain_bytes (object_format meta) es \<and> channel_data ChError ls = [] \<and>
       delivers flat_gix (map_of small_objects) stored_zlib (fa_filter parsed) (fa_wants parsed) (fa_haves parsed) shared es"
    by (rule conjunct2 [OF fetch_response_complete [OF fixed_fetch_env ok, unfolded fields, OF body cmd run]])
      (use read in \<open>simp_all add: git_response_def\<close>)
  then obtain meta s1 shared es ls where L: "lookup_repo mem_db (lit ''a'') small_updated = (Inr (Some meta), s1)"
    "lines = negotiation_lines True shared @ ls" "channel_data ChData ls = pack_bytes plain_bytes (object_format meta) es"
    "channel_data ChError ls = []" and D: "delivers flat_gix (map_of small_objects) stored_zlib NoFilter [sid 2] [] shared es"
    unfolding fetch_parses by (auto simp: parsed)
  from D have "shared = []" by (simp add: delivers_def)
  moreover have "read_section pkt_wire (resp_body ?resp) = Some (lines, [])" using read by (simp add: git_response_def)
  ultimately show ?thesis using run L D by blast
qed

end
