(* ===== verification/PartCache.thy ===== *)
theory PartCache
  imports Wire "HOL-Library.AList"
begin

text \<open>
  \<^verbatim>\<open>src/storage/part_cache\<close>: the disk part cache in front of the object store. An object is cached
  as a head file, which holds its metadata, and as files of a fixed part size; reads are served from the
  files and fall back to the object store, whose answers are admitted. Object-store and disk are
  parameters; \<^verbatim>\<open>u64\<close> and \<^verbatim>\<open>usize\<close> sums and products that can pass the width wrap. Concurrent misses that
  share one fetch (\<^verbatim>\<open>SingleFlight\<close>) are the fetch itself, the file-handle cache is the file it
  opens, and the access counters are left out.
\<close>

section \<open>Metadata\<close>

record ObjectMeta =
  om_location :: str
  om_last_modified :: int
  om_size :: nat
  om_e_tag :: "str option"
  om_version :: "str option"

text \<open>The last constructor stands for the attributes the cache does not keep.\<close>

datatype Attribute = CacheControl | ContentDisposition | ContentEncoding | ContentLanguage | ContentType
  | Metadata str | OtherAttribute str

type_synonym Attributes = "(Attribute \<times> str) list"

record LocalCacheHead =
  lh_location :: str
  lh_last_modified :: str
  lh_size :: nat
  lh_e_tag :: "str option"
  lh_version :: "str option"
  lh_attributes :: "(str \<times> str) list"

text \<open>The time format and the JSON of a head, with times as instants and the default one 0.\<close>

record head_format =
  to_rfc3339 :: "int \<Rightarrow> str"
  parse_time :: "str \<Rightarrow> int option"
  to_json :: "LocalCacheHead \<Rightarrow> bytes option"
  from_json :: "bytes \<Rightarrow> LocalCacheHead option"

definition head_meta :: "head_format \<Rightarrow> LocalCacheHead \<Rightarrow> ObjectMeta" where
  "head_meta F h = \<lparr>om_location = lh_location h,
     om_last_modified = (case parse_time F (lh_last_modified h) of Some t \<Rightarrow> t | None \<Rightarrow> 0),
     om_size = lh_size h, om_e_tag = lh_e_tag h, om_version = lh_version h\<rparr>"

definition attribute_of :: "str \<Rightarrow> Attribute" where
  "attribute_of key =
     (if key = lit ''Cache-Control'' then CacheControl
      else if key = lit ''Content-Disposition'' then ContentDisposition
      else if key = lit ''Content-Encoding'' then ContentEncoding
      else if key = lit ''Content-Language'' then ContentLanguage
      else if key = lit ''Content-Type'' then ContentType
      else Metadata key)"

fun attribute_name :: "Attribute \<Rightarrow> str option" where
  "attribute_name CacheControl = Some (lit ''Cache-Control'')"
| "attribute_name ContentDisposition = Some (lit ''Content-Disposition'')"
| "attribute_name ContentEncoding = Some (lit ''Content-Encoding'')"
| "attribute_name ContentLanguage = Some (lit ''Content-Language'')"
| "attribute_name ContentType = Some (lit ''Content-Type'')"
| "attribute_name (Metadata key) = Some key"
| "attribute_name (OtherAttribute key) = None"

text \<open>Inserting the pairs of one hash map into another, in the order of its iteration.\<close>

definition head_attributes :: "LocalCacheHead \<Rightarrow> Attributes" where
  "head_attributes h = foldl (\<lambda>attrs (key, v). AList.update (attribute_of key) v attrs) [] (lh_attributes h)"

definition cache_head :: "head_format \<Rightarrow> ObjectMeta \<Rightarrow> Attributes \<Rightarrow> LocalCacheHead" where
  "cache_head F meta attrs = \<lparr>lh_location = om_location meta, lh_last_modified = to_rfc3339 F (om_last_modified meta),
     lh_size = om_size meta, lh_e_tag = om_e_tag meta, lh_version = om_version meta,
     lh_attributes = foldl (\<lambda>m (key, v). case attribute_name key of Some k \<Rightarrow> AList.update k v m | None \<Rightarrow> m) [] attrs\<rparr>"

section \<open>Ranges\<close>

datatype GetRange = Bounded nat nat | Offset nat | Suffix nat

datatype InvalidGetRange = StartTooLarge nat nat | Inconsistent nat nat

text \<open>The last value is a panic, which no caller handles.\<close>

datatype CacheError = InvalidRange InvalidGetRange | Upstream nat | CacheIo | CachePanic

datatype PartCacheError = InvalidPartSize nat

definition wrap64 :: "nat \<Rightarrow> nat" where
  "wrap64 n = n mod 2 ^ 64"

definition div_ceil :: "nat \<Rightarrow> nat \<Rightarrow> nat" where
  "div_ceil a b = a div b + (if a mod b = 0 then 0 else 1)"

definition align_range :: "nat \<times> nat \<Rightarrow> nat \<Rightarrow> nat \<times> nat" where
  "align_range r alignment =
     (fst r - fst r mod alignment, wrap64 (div_ceil (snd r) alignment * alignment))"

definition align_get_range :: "nat \<Rightarrow> GetRange \<Rightarrow> GetRange" where
  "align_get_range part_size r =
     (case r of
        Bounded i j \<Rightarrow> (case align_range (i, j) part_size of (i, j) \<Rightarrow> Bounded i j)
      | Suffix n \<Rightarrow> Suffix (snd (align_range (0, n) part_size))
      | Offset i \<Rightarrow> Offset (i - i mod part_size))"

definition canonicalize_range :: "GetRange option \<Rightarrow> nat \<Rightarrow> CacheError + (nat \<times> nat)" where
  "canonicalize_range r object_size =
     (case r of
        None \<Rightarrow> Inr (0, object_size)
      | Some (Bounded i j) \<Rightarrow>
          if object_size \<le> i then Inl (InvalidRange (StartTooLarge i object_size))
          else if j \<le> i then Inl (InvalidRange (Inconsistent i j))
          else Inr (i, min j object_size)
      | Some (Offset i) \<Rightarrow>
          if object_size \<le> i then Inl (InvalidRange (StartTooLarge i object_size)) else Inr (i, object_size)
      | Some (Suffix n) \<Rightarrow> Inr (object_size - n, object_size))"

text \<open>The first part starts, and the last part ends, where the range does.\<close>

definition split_range_into_parts :: "nat \<Rightarrow> nat \<times> nat \<Rightarrow> (nat \<times> (nat \<times> nat)) list" where
  "split_range_into_parts part_size r =
     (let (i, j) = align_range r part_size;
          start_part = i div part_size;
          end_part = j div part_size in
      map (\<lambda>p. (p,
        (if p = start_part then fst r mod part_size else 0,
         if p + 1 = end_part \<and> snd r mod part_size \<noteq> 0 then snd r mod part_size else part_size)))
        [start_part..<end_part])"

section \<open>The disk\<close>

text \<open>
  Files of the cache directory: the contents of an open file, a write through a temporary file that
  is renamed into place, and the notes to the evictor, which say whether its queue took them.
\<close>

datatype EntryAccess = Read nat | Write nat | DeleteEntry

record 's disk =
  read_file :: "str \<Rightarrow> ('s, CacheError, bytes option) eff"
  replace_file :: "str \<Rightarrow> bytes \<Rightarrow> ('s, CacheError, unit) eff"
  track_access :: "str \<Rightarrow> EntryAccess \<Rightarrow> ('s, CacheError, bool) eff"
  delete_dir :: "str \<Rightarrow> ('s, CacheError, unit) eff"

record 's fs_storage =
  root_folder :: str
  fs_disk :: "'s disk"
  fs_evictor :: bool
  fs_format :: head_format

definition pad9 :: "str \<Rightarrow> str" where
  "pad9 s = replicate (9 - length s) 48 @ s"

definition make_part_path :: "str \<Rightarrow> str \<Rightarrow> nat \<Rightarrow> nat \<Rightarrow> str" where
  "make_part_path root location part_number part_size =
     (let part_size_name =
        (if part_size mod (1024 * 1024) = 0 then decimal (part_size div (1024 * 1024)) @ lit ''mb''
         else decimal (part_size div 1024) @ lit ''kb'') in
      root @ [47] @ location @ [47] @ lit ''_part'' @ part_size_name @ [45] @ pad9 (decimal part_number))"

definition make_head_path :: "str \<Rightarrow> str \<Rightarrow> str" where
  "make_head_path root location = root @ [47] @ location @ [47] @ lit ''_head''"

definition atomic_write :: "'s fs_storage \<Rightarrow> str \<Rightarrow> bytes \<Rightarrow> ('s, CacheError, unit) eff" where
  "atomic_write fs path buf =
     (let put = replace_file (fs_disk fs) path buf in
      if fs_evictor fs then
        eff_bind (track_access (fs_disk fs) path (Write (length buf))) (\<lambda>taken. if \<not> taken then eff_return () else put)
      else put)"

definition save_part :: "'s fs_storage \<Rightarrow> nat \<Rightarrow> str \<Rightarrow> nat \<Rightarrow> bytes \<Rightarrow> ('s, CacheError, unit) eff" where
  "save_part fs part_size location n buf = atomic_write fs (make_part_path (root_folder fs) location n part_size) buf"

text \<open>A positional read of exactly the range, which fails at the end of the file.\<close>

definition read_exact_at :: "bytes \<Rightarrow> nat \<Rightarrow> nat \<Rightarrow> CacheError + bytes" where
  "read_exact_at content i len = (if i + len \<le> length content then Inr (slice content i (i + len)) else Inl CacheIo)"

definition note_read :: "'s fs_storage \<Rightarrow> str \<Rightarrow> nat \<Rightarrow> ('s, CacheError, unit) eff" where
  "note_read fs path n =
     (if fs_evictor fs then eff_bind (track_access (fs_disk fs) path (Read n)) (\<lambda>taken. eff_return ()) else eff_return ())"

definition entry_read_part :: "'s fs_storage \<Rightarrow> nat \<Rightarrow> str \<Rightarrow> nat \<Rightarrow> nat \<times> nat \<Rightarrow> ('s, CacheError, bytes option) eff" where
  "entry_read_part fs part_size location n r =
     (let path = make_part_path (root_folder fs) location n part_size in
      eff_bind (read_file (fs_disk fs) path) (\<lambda>file.
        case file of
          None \<Rightarrow> eff_return None
        | Some content \<Rightarrow>
            eff_bind (eff_lift (read_exact_at content (fst r) (snd r - fst r))) (\<lambda>buffer.
            eff_bind (note_read fs path part_size) (\<lambda>_. eff_return (Some buffer)))))"

definition read_head :: "'s fs_storage \<Rightarrow> str \<Rightarrow> ('s, CacheError, (ObjectMeta \<times> Attributes) option) eff" where
  "read_head fs location =
     (let path = make_head_path (root_folder fs) location in
      eff_bind (read_file (fs_disk fs) path) (\<lambda>file.
        case file of
          None \<Rightarrow> eff_return None
        | Some content \<Rightarrow>
            eff_bind (eff_lift (ok_or CacheIo (from_utf8 content))) (\<lambda>text.
            eff_bind (eff_lift (ok_or CacheIo (from_json (fs_format fs) text))) (\<lambda>head.
            eff_bind (note_read fs path (length content)) (\<lambda>_.
            eff_return (Some (head_meta (fs_format fs) head, head_attributes head)))))))"

definition save_head :: "'s fs_storage \<Rightarrow> str \<Rightarrow> ObjectMeta \<Rightarrow> Attributes \<Rightarrow> ('s, CacheError, unit) eff" where
  "save_head fs location meta attrs =
     eff_bind (eff_attempt (read_head fs location)) (\<lambda>r.
       if (case r of Inr (Some x) \<Rightarrow> True | _ \<Rightarrow> False) then eff_return ()
       else
         eff_bind (eff_lift (ok_or CacheIo (to_json (fs_format fs) (cache_head (fs_format fs) meta attrs)))) (\<lambda>buf.
         atomic_write fs (make_head_path (root_folder fs) location) buf))"

definition entry_delete :: "'s fs_storage \<Rightarrow> str \<Rightarrow> ('s, CacheError, unit) eff" where
  "entry_delete fs location =
     (let path = root_folder fs @ [47] @ location in
      if fs_evictor fs then eff_bind (track_access (fs_disk fs) path DeleteEntry) (\<lambda>taken. eff_return ())
      else delete_dir (fs_disk fs) path)"

section \<open>The cached store\<close>

record GetResult =
  gr_meta :: ObjectMeta
  gr_attributes :: Attributes
  gr_range :: "nat \<times> nat"
  gr_stream :: "(CacheError + bytes) list"

record PutResult =
  pr_e_tag :: "str option"
  pr_version :: "str option"

record 's upstream =
  get_opts :: "str \<Rightarrow> GetRange option \<Rightarrow> bool \<Rightarrow> ('s, CacheError, GetResult) eff"
  put_opts :: "str \<Rightarrow> bytes list \<Rightarrow> Attributes \<Rightarrow> ('s, CacheError, PutResult) eff"
  delete_object :: "str \<Rightarrow> ('s, CacheError, str) eff"

record 's CachedObjectStore =
  object_store :: "'s upstream"
  part_size_bytes :: nat
  cache_storage :: "'s fs_storage"
  cache_puts :: bool

definition cached_store_new :: "'s upstream \<Rightarrow> 's fs_storage \<Rightarrow> nat \<Rightarrow> bool \<Rightarrow> PartCacheError + 's CachedObjectStore" where
  "cached_store_new store storage part_size puts =
     (if part_size = 0 \<or> part_size mod 1024 \<noteq> 0 then Inl (InvalidPartSize part_size)
      else Inr \<lparr>object_store = store, part_size_bytes = part_size, cache_storage = storage, cache_puts = puts\<rparr>)"

text \<open>\<^verbatim>\<open>.ok()\<close> drops an error, not a panic.\<close>

definition swallow :: "('s, CacheError, 'a) eff \<Rightarrow> ('s, CacheError, unit) eff" where
  "swallow m = eff_bind (eff_attempt m) (\<lambda>r. if r = Inl CachePanic then eff_fail CachePanic else eff_return ())"

text \<open>The bytes of a stream, up to its first error.\<close>

fun collect_bytes :: "(CacheError + bytes) list \<Rightarrow> CacheError + bytes" where
  "collect_bytes [] = Inr []"
| "collect_bytes (Inl e # items) = Inl e"
| "collect_bytes (Inr b # items) = and_then (collect_bytes items) (\<lambda>bs. Inr (b @ bs))"

text \<open>The inner loop: full parts leave the buffer, for a positive part size.\<close>

function save_full_parts :: "'s CachedObjectStore \<Rightarrow> str \<Rightarrow> nat \<Rightarrow> bytes \<Rightarrow> ('s, CacheError, nat \<times> bytes) eff" where
  "save_full_parts c location n buffer =
     (if part_size_bytes c = 0 then eff_fail CachePanic
      else if part_size_bytes c \<le> length buffer then
        eff_bind (save_part (cache_storage c) (part_size_bytes c) location n (take (part_size_bytes c) buffer)) (\<lambda>_.
        save_full_parts c location (n + 1) (drop (part_size_bytes c) buffer))
      else eff_return (n, buffer))"
  by pat_completeness auto
termination
  by (relation "measure (\<lambda>(c, location, n, buffer). length buffer)") auto

declare save_full_parts.simps [simp del]

fun save_parts_loop :: "'s CachedObjectStore \<Rightarrow> str \<Rightarrow> (CacheError + bytes) list \<Rightarrow> nat \<Rightarrow> bytes \<Rightarrow> nat \<Rightarrow> ('s, CacheError, nat) eff" where
  "save_parts_loop c location [] n buffer saved =
     (if buffer \<noteq> [] then eff_bind (save_part (cache_storage c) (part_size_bytes c) location n buffer) (\<lambda>_. eff_return saved)
      else eff_return saved)"
| "save_parts_loop c location (Inl e # items) n buffer saved = eff_fail e"
| "save_parts_loop c location (Inr chunk # items) n buffer saved =
     eff_bind (save_full_parts c location n (buffer @ chunk)) (\<lambda>(n, buffer).
     save_parts_loop c location items n buffer (saved + length chunk))"

definition save_parts_stream :: "'s CachedObjectStore \<Rightarrow> str \<Rightarrow> (CacheError + bytes) list \<Rightarrow> nat \<Rightarrow> ('s, CacheError, nat) eff" where
  "save_parts_stream c location stream start_part_number = save_parts_loop c location stream start_part_number [] 0"

text \<open>The two assertions are panics.\<close>

definition save_get_result :: "'s CachedObjectStore \<Rightarrow> str \<Rightarrow> GetResult \<Rightarrow> ('s, CacheError, nat) eff" where
  "save_get_result c location result =
     (let part_size = part_size_bytes c; (i, j) = gr_range result; object_size = om_size (gr_meta result) in
      if i mod part_size \<noteq> 0 then eff_fail CachePanic
      else if j mod part_size \<noteq> 0 \<and> j \<noteq> object_size then eff_fail CachePanic
      else
        eff_bind (save_head (cache_storage c) location (gr_meta result) (gr_attributes result)) (\<lambda>_.
        eff_bind (save_parts_stream c location (gr_stream result) (i div part_size)) (\<lambda>_.
        eff_return object_size)))"

definition head_only_get_result :: "ObjectMeta \<Rightarrow> Attributes \<Rightarrow> GetResult" where
  "head_only_get_result meta attrs = \<lparr>gr_meta = meta, gr_attributes = attrs, gr_range = (0, 0), gr_stream = []\<rparr>"

definition cached_head :: "'s CachedObjectStore \<Rightarrow> str \<Rightarrow> bool \<Rightarrow> ('s, CacheError, GetResult) eff" where
  "cached_head c location admit_on_miss =
     eff_bind (eff_attempt (read_head (cache_storage c) location)) (\<lambda>r.
       case r of
         Inr (Some (meta, attrs)) \<Rightarrow> eff_return (head_only_get_result meta attrs)
       | _ \<Rightarrow>
           eff_bind (get_opts (object_store c) location None True) (\<lambda>result.
           eff_bind (if admit_on_miss then swallow (save_get_result c location result) else eff_return ()) (\<lambda>_.
           eff_return (head_only_get_result (gr_meta result) (gr_attributes result)))))"

definition maybe_prefetch_range :: "'s CachedObjectStore \<Rightarrow> str \<Rightarrow> GetRange option \<Rightarrow> ('s, CacheError, ObjectMeta \<times> Attributes) eff" where
  "maybe_prefetch_range c location r =
     eff_bind (eff_attempt (read_head (cache_storage c) location)) (\<lambda>head.
       case head of
         Inr (Some (meta, attrs)) \<Rightarrow> eff_return (meta, attrs)
       | _ \<Rightarrow>
           eff_bind (get_opts (object_store c) location (map_option (align_get_range (part_size_bytes c)) r) False) (\<lambda>result.
           eff_bind (swallow (save_get_result c location result)) (\<lambda>_.
           eff_return (gr_meta result, gr_attributes result))))"

text \<open>\<^verbatim>\<open>Bytes::slice\<close> panics out of range.\<close>

definition bytes_slice :: "bytes \<Rightarrow> nat \<times> nat \<Rightarrow> CacheError + bytes" where
  "bytes_slice bs r = (if fst r \<le> snd r \<and> snd r \<le> length bs then Inr (slice bs (fst r) (snd r)) else Inl CachePanic)"

definition cached_read_part :: "'s CachedObjectStore \<Rightarrow> str \<Rightarrow> nat \<Rightarrow> nat \<times> nat \<Rightarrow> bool \<Rightarrow> ('s, CacheError, bytes) eff" where
  "cached_read_part c location part_id r force_refresh =
     (let part_size = part_size_bytes c in
      eff_bind (if force_refresh then eff_return (Inr None)
        else eff_attempt (entry_read_part (cache_storage c) part_size location part_id r)) (\<lambda>cached.
        case cached of
          Inr (Some bs) \<Rightarrow> eff_return bs
        | _ \<Rightarrow>
            eff_bind (get_opts (object_store c) location
              (Some (Bounded (wrap64 (part_id * part_size)) (wrap64 ((part_id + 1) * part_size)))) False) (\<lambda>result.
            eff_bind (eff_lift (collect_bytes (gr_stream result))) (\<lambda>bs.
            eff_bind (swallow (save_head (cache_storage c) location (gr_meta result) (gr_attributes result))) (\<lambda>_.
            eff_bind (swallow (save_part (cache_storage c) part_size location part_id bs)) (\<lambda>_.
            eff_lift (bytes_slice bs r)))))))"

text \<open>The stream of the answer is read by the caller, part after part.\<close>

definition cached_get_opts :: "'s CachedObjectStore \<Rightarrow> str \<Rightarrow> GetRange option \<Rightarrow> bool \<Rightarrow> ('s, CacheError, GetResult) eff" where
  "cached_get_opts c location r force_refresh =
     eff_bind (maybe_prefetch_range c location r) (\<lambda>(meta, attrs).
     eff_bind (eff_lift (canonicalize_range r (om_size meta))) (\<lambda>range.
     eff_bind (eff_map (\<lambda>(part_id, r). eff_attempt (cached_read_part c location part_id r force_refresh))
       (split_range_into_parts (part_size_bytes c) range)) (\<lambda>items.
     eff_return \<lparr>gr_meta = meta, gr_attributes = attrs, gr_range = range, gr_stream = items\<rparr>)))"

definition store_get_opts :: "'s CachedObjectStore \<Rightarrow> str \<Rightarrow> GetRange option \<Rightarrow> bool \<Rightarrow> ('s, CacheError, GetResult) eff" where
  "store_get_opts c location r head = (if head then cached_head c location True else cached_get_opts c location r False)"

definition build_head :: "str \<Rightarrow> nat \<Rightarrow> PutResult \<Rightarrow> ObjectMeta" where
  "build_head location sz result = \<lparr>om_location = location, om_last_modified = 0, om_size = sz,
     om_e_tag = pr_e_tag result, om_version = pr_version result\<rparr>"

definition cached_put_opts :: "'s CachedObjectStore \<Rightarrow> str \<Rightarrow> bytes list \<Rightarrow> Attributes \<Rightarrow> ('s, CacheError, PutResult) eff" where
  "cached_put_opts c location payload attrs =
     (if \<not> cache_puts c then put_opts (object_store c) location payload attrs
      else
        eff_bind (put_opts (object_store c) location payload attrs) (\<lambda>result.
        eff_bind (swallow (save_parts_stream c location (map Inr payload) 0)) (\<lambda>_.
        eff_bind (swallow (save_head (cache_storage c) location
          (build_head location (length (concat payload)) result) attrs)) (\<lambda>_.
        eff_return result))))"

text \<open>Deleting a stream of locations: each is deleted upstream, then its entry.\<close>

fun delete_stream :: "'s CachedObjectStore \<Rightarrow> str list \<Rightarrow> ('s, CacheError, (CacheError + str) list) eff" where
  "delete_stream c [] = eff_return []"
| "delete_stream c (l # ls) =
     eff_bind (eff_attempt (delete_object (object_store c) l)) (\<lambda>result.
     eff_bind (case result of Inr location \<Rightarrow> swallow (entry_delete (cache_storage c) location) | Inl e \<Rightarrow> eff_return ()) (\<lambda>_.
     eff_bind (delete_stream c ls) (\<lambda>results. eff_return (result # results))))"

end
