(* ===== verification/PartCache_Correct.thy ===== *)
theory PartCache_Correct
  imports PartCache
begin

text \<open>
  The part cache against the object store it fronts: reading through the cache is reading the object,
  whatever files are there, are evicted meanwhile, or cannot be read or written.
\<close>

section \<open>Paths\<close>

fun decimal_value :: "str \<Rightarrow> nat" where
  "decimal_value s = foldl (\<lambda>v d. v * 10 + (unat d - 48)) 0 s"

lemma decimal_value_decimal: "decimal_value (decimal n) = n"
proof (induction n rule: decimal.induct)
  case (1 n)
  have digit: "unat (48 + word_of_nat d :: u8) - 48 = d" if "d < 10" for d
    using that by (simp add: unat_word_ariths unat_of_nat)
  show ?case
  proof (cases "n < 10")
    case True
    with digit [of n] show ?thesis by (simp add: decimal.simps [of n])
  next
    case False
    with 1 digit [of "n mod 10"] show ?thesis by (simp add: decimal.simps [of n])
  qed
qed

lemma decimal_value_pad: "decimal_value (pad9 s) = decimal_value s"
proof -
  have "foldl (\<lambda>v d. v * 10 + (unat d - 48)) 0 (replicate k (48 :: u8)) = 0" for k by (induction k) simp_all
  then show ?thesis by (simp add: pad9_def)
qed

lemma decimal_digits: "d \<in> set (decimal n) \<Longrightarrow> d \<noteq> 47"
proof (induction n rule: decimal.induct)
  case (1 n)
  have "(48 + word_of_nat k :: u8) \<noteq> 47" if "k < 10" for k
  proof -
    from that have "unat (48 + word_of_nat k :: u8) = 48 + k" by (simp add: unat_word_ariths unat_of_nat)
    moreover have "unat (47 :: u8) = 47" by simp
    ultimately have "unat (48 + word_of_nat k :: u8) \<noteq> unat (47 :: u8)" by linarith
    then show ?thesis by metis
  qed
  with 1 show ?case by (cases "n < 10") (auto simp: decimal.simps [of n])
qed

text \<open>The file name after the last separator.\<close>

lemma last_component:
  assumes "xs @ [47] @ a = ys @ [47] @ b" and "(47 :: u8) \<notin> set a" and "47 \<notin> set b"
  shows "xs = ys \<and> a = b"
proof -
  have "takeWhile (\<lambda>x. x \<noteq> 47) (rev a @ [47] @ rev xs) = rev a" "takeWhile (\<lambda>x. x \<noteq> 47) (rev b @ [47] @ rev ys) = rev b"
    using assms(2,3) by (auto simp: takeWhile_tail)
  moreover have "rev a @ [47] @ rev xs = rev b @ [47] @ rev ys" using arg_cong [OF assms(1), of rev] by simp
  ultimately show ?thesis by (metis append_same_eq assms(1) rev_rev_ident same_append_eq)
qed

definition part_name :: "nat \<Rightarrow> nat \<Rightarrow> str" where
  "part_name ps n = lit ''_part'' @
     (if ps mod (1024 * 1024) = 0 then decimal (ps div (1024 * 1024)) @ lit ''mb'' else decimal (ps div 1024) @ lit ''kb'') @
     [45] @ pad9 (decimal n)"

lemma part_path_eq: "make_part_path root l n ps = (root @ [47] @ l) @ [47] @ part_name ps n"
  by (simp add: make_part_path_def part_name_def)

lemma head_path_eq: "make_head_path root l = (root @ [47] @ l) @ [47] @ lit ''_head''"
  by (simp add: make_head_path_def)

lemma part_name_plain: "47 \<notin> set (part_name ps n)"
  by (auto simp: part_name_def pad9_def lit_def dest: decimal_digits)

lemma head_name_plain: "47 \<notin> set (lit ''_head'')"
  by (simp add: lit_def)

lemma part_name_inj: "part_name ps n = part_name ps m \<Longrightarrow> n = m"
proof -
  assume "part_name ps n = part_name ps m"
  then have "pad9 (decimal n) = pad9 (decimal m)" by (simp add: part_name_def)
  then show ?thesis by (metis decimal_value_decimal decimal_value_pad)
qed

lemma part_path_inj: "make_part_path root l n ps = make_part_path root l' m ps \<longleftrightarrow> l = l' \<and> n = m"
proof
  assume "make_part_path root l n ps = make_part_path root l' m ps"
  from last_component [OF this [unfolded part_path_eq] part_name_plain part_name_plain] show "l = l' \<and> n = m"
    by (auto dest: part_name_inj)
qed simp

lemma head_path_inj: "make_head_path root l = make_head_path root l' \<longleftrightarrow> l = l'"
  by (simp add: make_head_path_def)

lemma part_not_head: "make_part_path root l n ps \<noteq> make_head_path root l'"
proof
  assume "make_part_path root l n ps = make_head_path root l'"
  from last_component [OF this [unfolded part_path_eq head_path_eq] part_name_plain head_name_plain]
  show False by (auto simp: part_name_def lit_def)
qed

section \<open>Ranges\<close>

text \<open>The parts of a range, as bounds in the object.\<close>

lemma slice_full: "slice bs i (i + length bs) = drop i bs"
  by (simp add: slice_def)

lemma slice_slice: "j \<le> n \<Longrightarrow> i \<le> j \<Longrightarrow> slice (slice bs m (m + n)) i j = slice bs (m + i) (m + j)"
  by (simp add: slice_def take_drop min_def add.commute)

lemma div_ceil_bounds:
  assumes "0 < ps"
  shows "j \<le> div_ceil j ps * ps" and "div_ceil j ps * ps < j + ps"
proof -
  define q where "q = j div ps"
  define m where "m = j mod ps"
  have "j = q * ps + m" "m < ps" using assms by (simp_all add: q_def m_def)
  moreover have "div_ceil j ps * ps = (if m = 0 then q * ps else q * ps + ps)" by (simp add: div_ceil_def q_def m_def)
  ultimately show "j \<le> div_ceil j ps * ps" "div_ceil j ps * ps < j + ps" using assms by simp_all
qed

lemma align_down: "i - i mod ps = i div ps * (ps :: nat)"
  by (metis minus_mod_eq_div_mult)

lemma align_range_small:
  assumes "0 < ps" and "j + ps \<le> 2 ^ 64"
  shows "align_range (i, j) ps = (i div ps * ps, div_ceil j ps * ps)"
  using div_ceil_bounds(2) [OF assms(1), of j] assms(2) by (simp add: align_range_def wrap64_def align_down)

text \<open>The bounds of each part are those of its share of the range.\<close>

lemma split_parts:
  assumes "0 < ps" and "j + ps \<le> 2 ^ 64" and "i \<le> j" and "(p, a, b) \<in> set (split_range_into_parts ps (i, j))"
  shows "i div ps \<le> p" and "p < div_ceil j ps" and "p * ps + a = max i (p * ps)" and "p * ps + b = min j ((p + 1) * ps)"
    and "a \<le> b" and "b \<le> ps"
proof -
  from assms(4) have p: "i div ps \<le> p" "p < div_ceil j ps"
    and a: "a = (if p = i div ps then i mod ps else 0)"
    and b: "b = (if p + 1 = div_ceil j ps \<and> j mod ps \<noteq> 0 then j mod ps else ps)"
    using assms(1) by (auto simp: split_range_into_parts_def align_range_small [OF assms(1,2)] Let_def)
  show "i div ps \<le> p" "p < div_ceil j ps" by (fact p)+
  have i: "i = i div ps * ps + i mod ps" "i mod ps < ps" using assms(1) by simp_all
  have j: "j = j div ps * ps + j mod ps" "j mod ps < ps" using assms(1) by simp_all
  show A: "p * ps + a = max i (p * ps)"
  proof (cases "p = i div ps")
    case True
    with i(1) a show ?thesis by (metis max.absorb1 le_add1)
  next
    case False
    with p(1) have "(i div ps + 1) * ps \<le> p * ps" by (intro mult_le_mono1) simp
    then have "i \<le> p * ps" using i by (metis add_mult_distrib add_le_cancel_left le_trans less_imp_le_nat mult_1)
    with False a show ?thesis by (simp add: max_def)
  qed
  show B: "p * ps + b = min j ((p + 1) * ps)"
  proof (cases "p + 1 = div_ceil j ps \<and> j mod ps \<noteq> 0")
    case True
    then have "p = j div ps" by (auto simp: div_ceil_def)
    with True b j div_ceil_bounds(1) [OF assms(1), of j] show ?thesis by (simp add: min_def algebra_simps)
  next
    case False
    have "div_ceil j ps = j div ps + (if j mod ps = 0 then 0 else 1)" by (simp add: div_ceil_def)
    with p(2) False have "p + 1 \<le> j div ps" by (cases "j mod ps = 0") simp_all
    then have "(p + 1) * ps \<le> j div ps * ps" by (rule mult_le_mono1)
    with j(1) have "(p + 1) * ps \<le> j" by linarith
    with False b show ?thesis by (auto simp: min_def algebra_simps)
  qed
  have "p * ps < j"
  proof -
    have "(p + 1) * ps \<le> div_ceil j ps * ps" by (rule mult_le_mono1) (use p(2) in simp)
    with div_ceil_bounds(2) [OF assms(1), of j] show ?thesis by simp
  qed
  moreover have "i < (p + 1) * ps" using p(1) i by (metis Suc_eq_plus1 assms(1) div_less_iff_less_mult less_Suc_eq_le)
  ultimately have "max i (p * ps) \<le> min j ((p + 1) * ps)" using assms(3) by simp
  with A B show "a \<le> b" by linarith
  from B show "b \<le> ps" by (simp add: algebra_simps min_def split: if_splits)
qed

text \<open>
  The ranges of an object of \<open>len\<close> bytes that can be aligned to parts: their ends in 64 bits, and
  the start of a suffix, which is aligned in its length only, when the object ends at a part
  boundary or the aligned suffix is all of it.
\<close>

definition alignable :: "nat \<Rightarrow> nat \<Rightarrow> GetRange option \<Rightarrow> bool" where
  "alignable ps len r \<longleftrightarrow>
     (case r of
        Some (Bounded i j) \<Rightarrow> j + ps \<le> 2 ^ 64
      | Some (Suffix n) \<Rightarrow> n + ps \<le> 2 ^ 64 \<and> (len mod ps = 0 \<or> len \<le> div_ceil n ps * ps)
      | _ \<Rightarrow> True)"

lemma suffix_start:
  assumes "len mod ps = 0 \<or> len \<le> k * ps"
  shows "(len - k * ps) mod (ps :: nat) = 0"
proof (cases "len \<le> k * ps")
  case False
  with assms obtain q where "len = q * ps" by (auto simp: mod_eq_0_iff_dvd elim!: dvdE)
  then show ?thesis by (simp add: diff_mult_distrib [symmetric])
qed simp

lemma aligned_range:
  assumes "0 < ps" and "alignable ps n r" and "canonicalize_range (map_option (align_get_range ps) r) n = Inr (i, j)"
  shows "i mod ps = 0" and "i \<le> j" and "j \<le> n" and "j mod ps = 0 \<or> j = n"
  using assms by (auto simp: canonicalize_range_def alignable_def align_get_range_def align_range_small align_down suffix_start
    split: option.splits GetRange.splits if_splits)

lemma aligned_valid:
  assumes "0 < ps" and "alignable ps n r" and "canonicalize_range r n = Inr ij"
  shows "\<exists>ij'. canonicalize_range (map_option (align_get_range ps) r) n = Inr ij'"
proof (cases r)
  case (Some g)
  have down: "i div ps * ps \<le> i" for i by simp
  show ?thesis
  proof (cases g)
    case (Bounded i j)
    from Some Bounded assms have "i < j" "i < n" by (auto simp: canonicalize_range_def split: if_splits)
    with div_ceil_bounds(1) [OF assms(1), of j] down [of i] have "i div ps * ps < div_ceil j ps * ps" "i div ps * ps < n"
      by linarith+
    with Some Bounded assms(1,2) show ?thesis
      by (simp add: canonicalize_range_def alignable_def align_get_range_def align_range_small)
  next
    case (Offset i)
    from Some Offset assms(3) have "i < n" by (auto simp: canonicalize_range_def split: if_splits)
    with down [of i] have "i div ps * ps < n" by (rule le_less_trans)
    with Some Offset show ?thesis by (simp add: canonicalize_range_def align_get_range_def align_down)
  qed (use Some in \<open>simp add: canonicalize_range_def align_get_range_def\<close>)
qed (use assms in \<open>simp add: canonicalize_range_def\<close>)

lemma canonical_bounds: "canonicalize_range r n = Inr (i, j) \<Longrightarrow> i \<le> j \<and> j \<le> n"
  by (auto simp: canonicalize_range_def split: option.splits GetRange.splits if_splits)

section \<open>The contract of an object store\<close>

lemma eff_spec_ok_or:
  assumes "v = None \<Longrightarrow> E e" and "\<And>x. v = Some x \<Longrightarrow> eff_spec I E P (f x)"
  shows "eff_spec I E P (eff_bind (eff_lift (ok_or e v)) f)"
  by (rule eff_spec_bind [OF eff_spec_lift [where P = "\<lambda>x. v = Some x"]]) (use assms in \<open>auto simp: ok_or_def split: option.splits\<close>)


text \<open>
  The items of a stream of \<open>xs\<close>: consecutive pieces of it, all of them or up to an error the store may have.
\<close>

fun streams :: "(CacheError \<Rightarrow> bool) \<Rightarrow> (CacheError + bytes) list \<Rightarrow> bytes \<Rightarrow> bool" where
  "streams fails [] xs \<longleftrightarrow> xs = []"
| "streams fails (Inl e # items) xs \<longleftrightarrow> fails e"
| "streams fails (Inr b # items) xs \<longleftrightarrow> take (length b) xs = b \<and> streams fails items (drop (length b) xs)"

lemma streams_collect:
  "streams fails items xs \<Longrightarrow> case collect_bytes items of Inl e \<Rightarrow> fails e | Inr ys \<Rightarrow> ys = xs"
proof (induction items arbitrary: xs rule: collect_bytes.induct)
  case (3 b items)
  then have "take (length b) xs = b" "case collect_bytes items of Inl e \<Rightarrow> fails e | Inr ys \<Rightarrow> ys = drop (length b) xs"
    by auto
  then show ?case by (cases "collect_bytes items") (simp_all, metis append_take_drop_id)
qed simp_all

text \<open>The parts of a range, one item each.\<close>

lemma streams_parts:
  assumes "list_all2 (\<lambda>p. case_sum fails (\<lambda>b. b = slice bs (max i (p * ps)) (min j ((p + 1) * ps)))) [s..<m] items"
    and "j \<le> length bs" and "i \<le> j" and "i \<le> (s + 1) * ps" and "\<And>p. p < m \<Longrightarrow> p * ps \<le> j"
  shows "streams fails items (slice bs (max i (s * ps)) (min j (max i (m * ps))))"
  using assms(1,4)
proof (induction items arbitrary: s rule: list.induct)
  case Nil
  from Nil.prems(1) have "[s..<m] = []" by simp
  then have "m \<le> s" by (auto simp: upt_eq_Nil_conv)
  then have "max i (m * ps) \<le> max i (s * ps)" by (intro max.mono mult_le_mono1) simp_all
  then show ?case by (simp add: slice_def)
next
  case (Cons item items)
  from Cons.prems have sm: "s < m" by (cases "s < m") simp_all
  then have "[s..<m] = s # [s + 1..<m]" by (simp add: upt_conv_Cons)
  with Cons.prems(1) have item: "case_sum fails (\<lambda>b. b = slice bs (max i (s * ps)) (min j ((s + 1) * ps))) item"
    and items: "list_all2 (\<lambda>p. case_sum fails (\<lambda>b. b = slice bs (max i (p * ps)) (min j ((p + 1) * ps)))) [s + 1..<m] items"
    by (simp_all only: list_all2_Cons)
  have "(s + 1) * ps \<le> m * ps" using sm by (intro mult_le_mono1) simp
  then have le: "max i (s * ps) \<le> min j ((s + 1) * ps)" "min j ((s + 1) * ps) \<le> min j (max i (m * ps))"
    using assms(2,3,5) Cons.prems(2) sm by auto
  have rest: "slice bs (min j ((s + 1) * ps)) (min j (max i (m * ps))) = slice bs (max i ((s + 1) * ps)) (min j (max i (m * ps)))"
    using Cons.prems(2) by (cases "(s + 1) * ps \<le> j") (simp_all add: slice_def)
  have "streams fails items (slice bs (max i ((s + 1) * ps)) (min j (max i (m * ps))))"
    by (rule Cons.IH [OF items]) (use Cons.prems(2) in simp)
  note rec = this
  show ?case
  proof (cases item)
    case (Inr b)
    define a where "a = slice bs (max i (s * ps)) (min j ((s + 1) * ps))"
    have "slice bs (max i (s * ps)) (min j (max i (m * ps))) = a @ slice bs (max i ((s + 1) * ps)) (min j (max i (m * ps)))"
      unfolding rest [symmetric] a_def by (rule slice_join [OF le, symmetric])
    moreover have "b = a" using item by (simp only: Inr a_def sum.case)
    ultimately show ?thesis using rec by (simp only: Inr streams.simps) simp
  qed (use item in simp)
qed

text \<open>A range as the object store answers it, and the answer to a request for metadata.\<close>

definition serves :: "(CacheError \<Rightarrow> bool) \<Rightarrow> bytes \<Rightarrow> GetRange option \<Rightarrow> GetResult \<Rightarrow> bool" where
  "serves fails bs r g \<longleftrightarrow>
     om_size (gr_meta g) = length bs \<and> canonicalize_range r (length bs) = Inr (gr_range g) \<and>
     streams fails (gr_stream g) (slice bs (fst (gr_range g)) (snd (gr_range g)))"

definition serves_head :: "(CacheError \<Rightarrow> bool) \<Rightarrow> bytes \<Rightarrow> GetResult \<Rightarrow> bool" where
  "serves_head fails bs g \<longleftrightarrow>
     om_size (gr_meta g) = length bs \<and> fst (gr_range g) = 0 \<and> snd (gr_range g) \<in> {0, length bs} \<and>
     (gr_stream g = [] \<or> streams fails (gr_stream g) bs)"

definition bad_request :: "(str \<rightharpoonup> bytes) \<Rightarrow> str \<Rightarrow> GetRange option \<Rightarrow> CacheError \<Rightarrow> bool" where
  "bad_request B l r e \<longleftrightarrow> (\<exists>bs e'. B l = Some bs \<and> canonicalize_range r (length bs) = Inl e') \<and> e \<noteq> CachePanic"

locale object_store_contract =
  fixes get :: "str \<Rightarrow> GetRange option \<Rightarrow> bool \<Rightarrow> ('s, CacheError, GetResult) eff"
    and I :: "'s \<Rightarrow> bool" and B :: "str \<rightharpoonup> bytes" and fails :: "str \<Rightarrow> CacheError \<Rightarrow> bool" and asks :: "str \<Rightarrow> GetRange option \<Rightarrow> bool"
  assumes get_law: "asks l r \<Longrightarrow> eff_spec I (\<lambda>e. fails l e \<or> bad_request B l r e) (\<lambda>g. \<exists>bs. B l = Some bs \<and> serves (fails l) bs r g) (get l r False)"
    and head_law: "eff_spec I (fails l) (\<lambda>g. \<exists>bs. B l = Some bs \<and> serves_head (fails l) bs g) (get l None True)"
begin

text \<open>Reading all bytes of an answer.\<close>

lemma read_range:
  assumes "asks l r"
  shows "eff_spec I (\<lambda>e. fails l e \<or> bad_request B l r e)
     (\<lambda>x. \<exists>bs i j. B l = Some bs \<and> canonicalize_range r (length bs) = Inr (i, j) \<and> x = slice bs i j)
     (eff_bind (get l r False) (\<lambda>g. eff_lift (collect_bytes (gr_stream g))))"
proof (rule eff_spec_bind [OF get_law [OF assms]])
  fix g assume "\<exists>bs. B l = Some bs \<and> serves (fails l) bs r g"
  then obtain bs where g: "B l = Some bs" "serves (fails l) bs r g" by blast
  then have "canonicalize_range r (length bs) = Inr (fst (gr_range g), snd (gr_range g))"
    and "case collect_bytes (gr_stream g) of Inl e \<Rightarrow> fails l e | Inr ys \<Rightarrow> ys = slice bs (fst (gr_range g)) (snd (gr_range g))"
    using streams_collect by (auto simp: serves_def)
  with g(1) show "eff_spec I (\<lambda>e. fails l e \<or> bad_request B l r e)
     (\<lambda>x. \<exists>bs i j. B l = Some bs \<and> canonicalize_range r (length bs) = Inr (i, j) \<and> x = slice bs i j)
     (eff_lift (collect_bytes (gr_stream g)))"
    by (intro eff_spec_lift) (auto intro: prod.collapse [symmetric])
qed

end

section \<open>The cache in front of it\<close>

text \<open>
  What a file of the cache may hold: a part of the object it is named for, or a head with its size.
  Objects are immutable, so \<open>B\<close> is what a location holds for good.
\<close>

definition sound_file :: "'s CachedObjectStore \<Rightarrow> (str \<rightharpoonup> bytes) \<Rightarrow> str \<Rightarrow> bytes \<Rightarrow> bool" where
  "sound_file c B p b \<longleftrightarrow>
     (let root = root_folder (cache_storage c); ps = part_size_bytes c in
      (\<forall>l n. p = make_part_path root l n ps \<longrightarrow> (\<exists>bs. B l = Some bs \<and> b = slice bs (n * ps) ((n + 1) * ps))) \<and>
      (\<forall>l h. p = make_head_path root l \<longrightarrow> valid_utf8 b \<longrightarrow> from_json (fs_format (cache_storage c)) b = Some h \<longrightarrow>
         (\<exists>bs. B l = Some bs \<and> lh_size h = length bs)))"

definition files_ok :: "'s CachedObjectStore \<Rightarrow> (str \<rightharpoonup> bytes) \<Rightarrow> ('s \<Rightarrow> str \<rightharpoonup> bytes) \<Rightarrow> 's \<Rightarrow> bool" where
  "files_ok c B files s \<longleftrightarrow> (\<forall>p b. files s p = Some b \<longrightarrow> sound_file c B p b)"

definition sized :: "(str \<rightharpoonup> bytes) \<Rightarrow> str \<Rightarrow> ObjectMeta \<Rightarrow> bool" where
  "sized B l meta \<longleftrightarrow> (\<exists>bs. B l = Some bs \<and> om_size meta = length bs)"

text \<open>What others do to the files meanwhile: evict some, and put sound ones.\<close>

definition others :: "'s CachedObjectStore \<Rightarrow> (str \<rightharpoonup> bytes) \<Rightarrow> ('s \<Rightarrow> str \<rightharpoonup> bytes) \<Rightarrow> (str \<rightharpoonup> bytes) \<Rightarrow> 's \<Rightarrow> bool" where
  "others c B files m s' \<longleftrightarrow> (\<forall>p b. files s' p = Some b \<longrightarrow> m p = Some b \<or> sound_file c B p b)"

locale cache_laws = up: object_store_contract "get_opts (object_store c)" "files_ok c B files" B fails "\<lambda>l r. True"
  for c :: "'s CachedObjectStore" and files :: "'s \<Rightarrow> str \<rightharpoonup> bytes" and B :: "str \<rightharpoonup> bytes" and fails :: "str \<Rightarrow> CacheError \<Rightarrow> bool" +
  assumes built: "cached_store_new (object_store c) (cache_storage c) (part_size_bytes c) (cache_puts c) = Inr c"
    and object_bound: "B l = Some bs \<Longrightarrow> length bs + part_size_bytes c \<le> 2 ^ 64"
    and no_panic: "\<not> fails l CachePanic"
    and read_file_law: "read_file (fs_disk (cache_storage c)) p s = (r, s') \<Longrightarrow>
      others c B files (files s) s' \<and> r \<noteq> Inl CachePanic \<and> (\<forall>b. r = Inr (Some b) \<longrightarrow> files s p = Some b \<or> sound_file c B p b)"
    and replace_file_law: "replace_file (fs_disk (cache_storage c)) p b s = (r', s') \<Longrightarrow>
      r' \<noteq> Inl CachePanic \<and> (others c B files (files s) s' \<or> others c B files ((files s)(p \<mapsto> b)) s')"
    and track_access_law: "track_access (fs_disk (cache_storage c)) p a s = (r'', s') \<Longrightarrow>
      r'' \<noteq> Inl CachePanic \<and> others c B files (files s) s'"
    and json_law: "to_json (fs_format (cache_storage c)) h = Some b \<Longrightarrow>
      from_json (fs_format (cache_storage c)) b = Some h' \<Longrightarrow> lh_size h' = lh_size h"
begin

lemma part_size_pos: "0 < part_size_bytes c"
  using built by (auto simp: cached_store_new_def split: if_splits)

abbreviation quiet :: "CacheError \<Rightarrow> bool" where
  "quiet e \<equiv> e \<noteq> CachePanic"

lemma others_keep: "others c B files m s' \<Longrightarrow> (\<And>p b. m p = Some b \<Longrightarrow> sound_file c B p b) \<Longrightarrow> files_ok c B files s'"
  by (auto simp: others_def files_ok_def)

lemma others_keep_ok: "others c B files (files s) s' \<Longrightarrow> files_ok c B files s \<Longrightarrow> files_ok c B files s'"
  by (erule others_keep) (simp add: files_ok_def)

lemma spec_read_file:
  "eff_spec (files_ok c B files) quiet (\<lambda>f. \<forall>b. f = Some b \<longrightarrow> sound_file c B p b) (read_file (fs_disk (cache_storage c)) p)"
proof (rule eff_specI)
  fix s r s' assume s: "files_ok c B files s" and run: "read_file (fs_disk (cache_storage c)) p s = (r, s')"
  note L = read_file_law [OF run]
  have "\<forall>b. r = Inr (Some b) \<longrightarrow> sound_file c B p b" using L s unfolding files_ok_def by blast
  with others_keep_ok [OF conjunct1 [OF L] s] L
  show "files_ok c B files s' \<and> (case r of Inl e \<Rightarrow> quiet e | Inr f \<Rightarrow> \<forall>b. f = Some b \<longrightarrow> sound_file c B p b)"
    by (cases r) simp_all
qed

lemma spec_replace_file:
  assumes "sound_file c B p b"
  shows "eff_spec (files_ok c B files) quiet (\<lambda>u. True) (replace_file (fs_disk (cache_storage c)) p b)"
proof (rule eff_specI)
  fix s r s' assume s: "files_ok c B files s" and run: "replace_file (fs_disk (cache_storage c)) p b s = (r, s')"
  note L = replace_file_law [OF run]
  from L have "files_ok c B files s'"
    using others_keep_ok [OF _ s] others_keep [of "(files s)(p \<mapsto> b)"] s assms
    by (metis files_ok_def fun_upd_apply option.inject)
  with L show "files_ok c B files s' \<and> (case r of Inl e \<Rightarrow> quiet e | Inr u \<Rightarrow> True)" by (cases r) simp_all
qed

lemma spec_track_access: "eff_spec (files_ok c B files) quiet (\<lambda>u. True) (track_access (fs_disk (cache_storage c)) p a)"
proof (rule eff_specI)
  fix s r s' assume s: "files_ok c B files s" and run: "track_access (fs_disk (cache_storage c)) p a s = (r, s')"
  note L = track_access_law [OF run]
  from others_keep_ok [OF conjunct2 [OF L] s] L
  show "files_ok c B files s' \<and> (case r of Inl e \<Rightarrow> quiet e | Inr u \<Rightarrow> True)" by (cases r) simp_all
qed

lemma spec_note_read: "eff_spec (files_ok c B files) quiet (\<lambda>u. True) (note_read (cache_storage c) p n)"
  unfolding note_read_def by (rule eff_spec_if) (auto intro!: eff_spec_bind [OF spec_track_access])

lemma spec_atomic_write:
  assumes "sound_file c B p b"
  shows "eff_spec (files_ok c B files) quiet (\<lambda>u. True) (atomic_write (cache_storage c) p b)"
  unfolding atomic_write_def Let_def
  by (intro eff_spec_if eff_spec_bind [OF spec_track_access] spec_replace_file [OF assms] eff_spec_return) simp_all

lemma sound_part:
  assumes "B l = Some bs" and "b = slice bs (n * part_size_bytes c) ((n + 1) * part_size_bytes c)"
  shows "sound_file c B (make_part_path (root_folder (cache_storage c)) l n (part_size_bytes c)) b"
  using assms part_not_head by (auto simp: sound_file_def part_path_inj)

lemma sound_head:
  assumes "B l = Some bs" and "to_json (fs_format (cache_storage c)) h = Some b" and "lh_size h = length bs"
  shows "sound_file c B (make_head_path (root_folder (cache_storage c)) l) b"
  using assms part_not_head json_law [OF assms(2)] by (auto simp: sound_file_def head_path_inj part_not_head [symmetric])

lemma spec_save_part:
  assumes "B l = Some bs" and "b = slice bs (n * part_size_bytes c) ((n + 1) * part_size_bytes c)"
  shows "eff_spec (files_ok c B files) quiet (\<lambda>u. True) (save_part (cache_storage c) (part_size_bytes c) l n b)"
  unfolding save_part_def by (rule spec_atomic_write [OF sound_part [OF assms]])

lemma sound_head_sized:
  assumes "sound_file c B (make_head_path (root_folder (cache_storage c)) l) b" and "valid_utf8 b"
    and "from_json (fs_format (cache_storage c)) b = Some h"
  shows "sized B l (head_meta (fs_format (cache_storage c)) h)"
  using assms by (auto simp: sound_file_def sized_def head_meta_def head_path_inj Let_def)

lemma spec_read_head:
  "eff_spec (files_ok c B files) quiet (\<lambda>r. \<forall>meta attrs. r = Some (meta, attrs) \<longrightarrow> sized B l meta)
     (read_head (cache_storage c) l)"
  unfolding read_head_def Let_def
  by (rule eff_spec_bind [OF spec_read_file], rule eff_spec_option, blast, intro eff_spec_ok_or)
    (auto intro!: eff_spec_bind [OF spec_note_read] eff_spec_return intro: sound_head_sized)

lemma spec_save_head:
  assumes "sized B l meta"
  shows "eff_spec (files_ok c B files) quiet (\<lambda>u. True) (save_head (cache_storage c) l meta attrs)"
  unfolding save_head_def
proof (rule eff_spec_bind [OF eff_spec_attempt [OF spec_read_head]], intro eff_spec_if eff_spec_ok_or)
  fix b assume "to_json (fs_format (cache_storage c)) (cache_head (fs_format (cache_storage c)) meta attrs) = Some b"
  with assms show "eff_spec (files_ok c B files) quiet (\<lambda>u. True)
     (atomic_write (cache_storage c) (make_head_path (root_folder (cache_storage c)) l) b)"
    unfolding sized_def by (auto intro!: spec_atomic_write sound_head simp: cache_head_def)
qed auto

lemma spec_swallow:
  assumes "eff_spec (files_ok c B files) quiet P m"
  shows "eff_spec (files_ok c B files) E (\<lambda>u. True) (swallow m)"
  unfolding swallow_def
  by (rule eff_spec_bind [OF eff_spec_attempt [OF assms]]) (auto split: sum.splits intro!: eff_spec_if)

text \<open>Saving a stream of the object from a part boundary on.\<close>

lemma spec_save_full_parts:
  assumes "B l = Some bs" and "take (length buffer) (drop (n * part_size_bytes c) bs) = buffer"
  shows "eff_spec (files_ok c B files) quiet
     (\<lambda>(m, rest). length rest < part_size_bytes c \<and> m * part_size_bytes c + length rest = n * part_size_bytes c + length buffer \<and>
        take (length rest) (drop (m * part_size_bytes c) bs) = rest)
     (save_full_parts c l n buffer)"
  using assms(2)
proof (induction c\<equiv>c l\<equiv>l n buffer rule: save_full_parts.induct)
  case (1 n buffer)
  let ?ps = "part_size_bytes c"
  show ?case
  proof (cases "?ps \<le> length buffer")
    case True
    have part: "take ?ps buffer = slice bs (n * ?ps) ((n + 1) * ?ps)"
      using True by (subst 1(2) [symmetric]) (simp add: slice_def min_absorb1)
    have "take (length (drop ?ps buffer)) (drop ((n + 1) * ?ps) bs) = drop ?ps buffer"
      using True by (subst (2) 1(2) [symmetric]) (simp add: drop_take add.commute)
    note IH = 1(1) [OF _ True this]
    have "save_full_parts c l n buffer = eff_bind (save_part (cache_storage c) ?ps l n (take ?ps buffer)) (\<lambda>_.
        save_full_parts c l (n + 1) (drop ?ps buffer))"
      using True part_size_pos by (subst save_full_parts.simps) simp
    then show ?thesis
      by (simp only:, intro eff_spec_bind [OF spec_save_part [OF assms(1) part]] eff_spec_weaken [OF IH])
        (use True part_size_pos in \<open>auto simp: algebra_simps\<close>)
  next
    case False
    with 1 part_size_pos show ?thesis
      by (subst save_full_parts.simps) (auto intro!: eff_spec_return)
  qed
qed

lemma spec_save_parts_loop:
  assumes "B l = Some bs" and "j \<le> length bs" and "j mod part_size_bytes c = 0 \<or> j = length bs"
    and "streams (fails l) items (slice bs (n * part_size_bytes c + length buffer) j)"
    and "length buffer < part_size_bytes c" and "n * part_size_bytes c + length buffer \<le> j"
    and "take (length buffer) (drop (n * part_size_bytes c) bs) = buffer"
  shows "eff_spec (files_ok c B files) quiet (\<lambda>u. True) (save_parts_loop c l items n buffer saved)"
  using assms(4-)
proof (induction c\<equiv>c l\<equiv>l items n buffer saved rule: save_parts_loop.induct)
  case (1 n buffer saved)
  let ?ps = "part_size_bytes c"
  show ?case
  proof (cases "buffer = []")
    case False
    from 1 have j: "j = n * ?ps + length buffer" using assms(2) by (auto simp: slice_def)
    with False 1(2) have "j mod ?ps \<noteq> 0" by simp
    with assms(3) j have len: "length bs = n * ?ps + length buffer" by simp
    have "buffer = slice bs (n * ?ps) ((n + 1) * ?ps)"
      using 1(2) len by (subst 1(4) [symmetric]) (simp add: slice_def)
    with False show ?thesis by (auto intro!: eff_spec_bind [OF spec_save_part [OF assms(1)]])
  qed auto
next
  case (2 e items n buffer saved)
  with no_panic show ?case by auto
next
  case (3 chunk items n buffer saved)
  let ?ps = "part_size_bytes c" and ?k = "n * part_size_bytes c + length buffer"
  have chunk: "take (length chunk) (slice bs ?k j) = chunk" "streams (fails l) items (drop (length chunk) (slice bs ?k j))"
    using 3(2) by simp_all
  have le: "?k + length chunk \<le> j" using arg_cong [OF chunk(1), of length] 3(4) by simp
  have c1: "take (length chunk) (drop ?k bs) = chunk" using chunk(1) le by (simp add: slice_def min_absorb1)
  have grown: "take (length (buffer @ chunk)) (drop (n * ?ps) bs) = buffer @ chunk"
    using 3(5) c1 by (simp add: take_add add.commute)
  have rest: "streams (fails l) items (slice bs (?k + length chunk) j)"
    using chunk(2) by (simp add: slice_def drop_take add.commute add.left_commute)
  show ?case
    unfolding save_parts_loop.simps
  proof (rule eff_spec_bind [OF spec_save_full_parts [OF assms(1) grown]], clarify)
    fix m b assume mb: "length b < ?ps" "m * ?ps + length b = n * ?ps + length (buffer @ chunk)" "take (length b) (drop (m * ?ps) bs) = b"
    show "eff_spec (files_ok c B files) quiet (\<lambda>u. True) (save_parts_loop c l items m b (saved + length chunk))"
      by (rule 3(1)) (use mb rest le in \<open>simp_all add: add.assoc\<close>)
  qed
qed

lemma spec_save_parts:
  assumes "B l = Some bs" and "streams (fails l) items (slice bs (n * part_size_bytes c) j)"
    and "n * part_size_bytes c \<le> j" and "j \<le> length bs" and "j mod part_size_bytes c = 0 \<or> j = length bs"
  shows "eff_spec (files_ok c B files) quiet (\<lambda>u. True) (save_parts_stream c l items n)"
  unfolding save_parts_stream_def
  by (rule spec_save_parts_loop [OF assms(1,4,5)]) (use assms part_size_pos in simp_all)

lemma spec_save_get_result:
  assumes "B l = Some bs" and "om_size (gr_meta g) = length bs" and "gr_range g = (i, j)" and "i mod part_size_bytes c = 0"
    and "j mod part_size_bytes c = 0 \<or> j = length bs" and "gr_stream g = [] \<or> streams (fails l) (gr_stream g) (slice bs i k)"
    and "i \<le> k" and "k \<le> length bs" and "k mod part_size_bytes c = 0 \<or> k = length bs"
  shows "eff_spec (files_ok c B files) quiet (\<lambda>u. True) (save_get_result c l g)"
proof -
  have i: "i div part_size_bytes c * part_size_bytes c = i" using assms(4) by auto
  have meta: "sized B l (gr_meta g)" using assms(1,2) by (simp add: sized_def)
  have parts: "eff_spec (files_ok c B files) quiet (\<lambda>u. True) (save_parts_stream c l (gr_stream g) (i div part_size_bytes c))"
  proof (cases "gr_stream g = []")
    case True
    then show ?thesis by (auto simp: save_parts_stream_def)
  next
    case False
    with assms(6-) i show ?thesis by (intro spec_save_parts [OF assms(1)]) simp_all
  qed
  have "eff_spec (files_ok c B files) quiet (\<lambda>u. True)
     (eff_bind (save_head (cache_storage c) l (gr_meta g) (gr_attributes g)) (\<lambda>_.
      eff_bind (save_parts_stream c l (gr_stream g) (i div part_size_bytes c)) (\<lambda>_. eff_return (om_size (gr_meta g)))))"
    by (intro eff_spec_bind [OF spec_save_head [OF meta]] eff_spec_bind [OF parts] eff_spec_return) simp
  with assms(2-5) show ?thesis by (auto simp: save_get_result_def Let_def)
qed

lemma spec_head_miss:
  "eff_spec (files_ok c B files) (fails l) (\<lambda>g. \<exists>bs. B l = Some bs \<and> serves_head (fails l) bs g) (cached_head c l True)"
proof -
  have hit: "serves_head (fails l) bs (head_only_get_result meta attrs)" if "om_size meta = length bs" for bs meta attrs
    using that by (simp add: serves_head_def head_only_get_result_def)
  have miss: "eff_spec (files_ok c B files) (fails l) (\<lambda>g. \<exists>bs. B l = Some bs \<and> serves_head (fails l) bs g)
     (eff_bind (get_opts (object_store c) l None True) (\<lambda>g.
      eff_bind (if True then swallow (save_get_result c l g) else eff_return ()) (\<lambda>_.
      eff_return (head_only_get_result (gr_meta g) (gr_attributes g)))))"
  proof (rule eff_spec_bind [OF up.head_law], elim exE conjE)
    fix g bs assume g: "B l = Some bs" "serves_head (fails l) bs g"
    then have save: "eff_spec (files_ok c B files) quiet (\<lambda>u. True) (save_get_result c l g)"
      by (intro spec_save_get_result [of l bs g 0 "snd (gr_range g)" "length bs"])
        (auto simp: serves_head_def slice_def prod_eq_iff)
    from g hit show "eff_spec (files_ok c B files) (fails l) (\<lambda>g. \<exists>bs. B l = Some bs \<and> serves_head (fails l) bs g)
     (eff_bind (if True then swallow (save_get_result c l g) else eff_return ()) (\<lambda>_.
      eff_return (head_only_get_result (gr_meta g) (gr_attributes g))))"
      by (simp, intro eff_spec_bind [OF spec_swallow [OF save]] eff_spec_return) (auto simp: serves_head_def)
  qed
  show ?thesis
    unfolding cached_head_def
  proof (rule eff_spec_bind [OF eff_spec_attempt [OF spec_read_head]])
    fix r :: "CacheError + (ObjectMeta \<times> Attributes) option"
    assume "case r of Inl e \<Rightarrow> quiet e | Inr x \<Rightarrow> \<forall>meta attrs. x = Some (meta, attrs) \<longrightarrow> sized B l meta"
    with miss hit show "eff_spec (files_ok c B files) (fails l) (\<lambda>g. \<exists>bs. B l = Some bs \<and> serves_head (fails l) bs g)
       (case r of Inr (Some (meta, attrs)) \<Rightarrow> eff_return (head_only_get_result meta attrs)
        | _ \<Rightarrow> eff_bind (get_opts (object_store c) l None True) (\<lambda>result.
            eff_bind (if True then swallow (save_get_result c l result) else eff_return ()) (\<lambda>_.
            eff_return (head_only_get_result (gr_meta result) (gr_attributes result)))))"
      by (auto simp: sized_def split: sum.split option.split intro!: eff_spec_return)
  qed
qed

lemma spec_prefetch:
  assumes "\<forall>bs. B l = Some bs \<longrightarrow> alignable (part_size_bytes c) (length bs) r"
  shows "eff_spec (files_ok c B files) (\<lambda>e. fails l e \<or> bad_request B l r e) (\<lambda>(meta, attrs). sized B l meta) (maybe_prefetch_range c l r)"
proof -
  let ?r = "map_option (align_get_range (part_size_bytes c)) r"
  have bad: "bad_request B l ?r e \<Longrightarrow> bad_request B l r e" for e
    unfolding bad_request_def using aligned_valid [OF part_size_pos] assms by (metis sum.distinct(1) sum.exhaust)
  have miss: "eff_spec (files_ok c B files) (\<lambda>e. fails l e \<or> bad_request B l r e) (\<lambda>(meta, attrs). sized B l meta)
     (eff_bind (get_opts (object_store c) l ?r False) (\<lambda>g.
      eff_bind (swallow (save_get_result c l g)) (\<lambda>_. eff_return (gr_meta g, gr_attributes g))))"
  proof (rule eff_spec_bind [OF eff_spec_weaken [OF up.get_law]], simp, use bad in blast, assumption, elim exE conjE)
    fix g bs assume g: "B l = Some bs" "serves (fails l) bs ?r g"
    then have canon: "canonicalize_range ?r (length bs) = Inr (fst (gr_range g), snd (gr_range g))" by (simp add: serves_def)
    from g(1) assms have "alignable (part_size_bytes c) (length bs) r" by blast
    from g aligned_range [OF part_size_pos this canon] have "eff_spec (files_ok c B files) quiet (\<lambda>u. True) (save_get_result c l g)"
      by (intro spec_save_get_result [of l bs g "fst (gr_range g)" "snd (gr_range g)" "snd (gr_range g)"])
        (simp_all add: serves_def)
    from spec_swallow [OF this] g show "eff_spec (files_ok c B files) (\<lambda>e. fails l e \<or> bad_request B l r e) (\<lambda>(meta, attrs). sized B l meta)
       (eff_bind (swallow (save_get_result c l g)) (\<lambda>_. eff_return (gr_meta g, gr_attributes g)))"
      by (intro eff_spec_bind eff_spec_return) (auto simp: serves_def sized_def)
  qed
  show ?thesis
    unfolding maybe_prefetch_range_def
  proof (rule eff_spec_bind [OF eff_spec_attempt [OF spec_read_head]])
    fix h :: "CacheError + (ObjectMeta \<times> Attributes) option"
    assume "case h of Inl e \<Rightarrow> quiet e | Inr x \<Rightarrow> \<forall>meta attrs. x = Some (meta, attrs) \<longrightarrow> sized B l meta"
    with miss show "eff_spec (files_ok c B files) (\<lambda>e. fails l e \<or> bad_request B l r e) (\<lambda>(meta, attrs). sized B l meta)
       (case h of Inr (Some (meta, attrs)) \<Rightarrow> eff_return (meta, attrs)
        | _ \<Rightarrow> eff_bind (get_opts (object_store c) l ?r False) (\<lambda>result.
            eff_bind (swallow (save_get_result c l result)) (\<lambda>_. eff_return (gr_meta result, gr_attributes result))))"
      by (auto split: sum.split option.split intro!: eff_spec_return)
  qed
qed

lemma spec_entry_read_part:
  assumes "B l = Some bs" and "i \<le> j" and "j \<le> part_size_bytes c"
  shows "eff_spec (files_ok c B files) quiet
     (\<lambda>r. \<forall>b. r = Some b \<longrightarrow> b = slice bs (n * part_size_bytes c + i) (n * part_size_bytes c + j))
     (entry_read_part (cache_storage c) (part_size_bytes c) l n (i, j))"
  unfolding entry_read_part_def Let_def
proof (rule eff_spec_bind [OF spec_read_file], rule eff_spec_option)
  fix f content
  let ?ps = "part_size_bytes c"
  assume f: "\<forall>b. f = Some b \<longrightarrow> sound_file c B (make_part_path (root_folder (cache_storage c)) l n ?ps) b" "f = Some content"
  with assms(1) have "content = slice bs (n * ?ps) (n * ?ps + ?ps)"
    by (auto simp: sound_file_def Let_def part_path_inj add.commute)
  with assms have "read_exact_at content i (j - i) = Inr b \<Longrightarrow> b = slice bs (n * ?ps + i) (n * ?ps + j)" for b
    using slice_slice [of j ?ps i bs "n * ?ps"] by (auto simp: read_exact_at_def split: if_splits)
  then show "eff_spec (files_ok c B files) quiet
     (\<lambda>r. \<forall>b. r = Some b \<longrightarrow> b = slice bs (n * ?ps + i) (n * ?ps + j))
     (eff_bind (eff_lift (read_exact_at content (fst (i, j)) (snd (i, j) - fst (i, j)))) (\<lambda>buffer.
      eff_bind (note_read (cache_storage c) (make_part_path (root_folder (cache_storage c)) l n ?ps) ?ps) (\<lambda>_. eff_return (Some buffer))))"
    by (intro eff_spec_bind [OF eff_spec_lift [where P = "\<lambda>b. b = slice bs (n * ?ps + i) (n * ?ps + j)"]]
        eff_spec_bind [OF spec_note_read] eff_spec_return) (auto simp: read_exact_at_def split: if_splits)
qed auto

text \<open>A part that is fetched whole, admitted, and cut.\<close>

lemma spec_fetch_part:
  assumes "B l = Some bs" and "i \<le> j" and "j \<le> part_size_bytes c"
    and "n * part_size_bytes c < length bs" and "n * part_size_bytes c + j \<le> length bs"
  shows "eff_spec (files_ok c B files) (fails l) (\<lambda>b. b = slice bs (n * part_size_bytes c + i) (n * part_size_bytes c + j))
     (eff_bind (get_opts (object_store c) l
        (Some (Bounded (wrap64 (n * part_size_bytes c)) (wrap64 ((n + 1) * part_size_bytes c)))) False) (\<lambda>g.
      eff_bind (eff_lift (collect_bytes (gr_stream g))) (\<lambda>b.
      eff_bind (swallow (save_head (cache_storage c) l (gr_meta g) (gr_attributes g))) (\<lambda>_.
      eff_bind (swallow (save_part (cache_storage c) (part_size_bytes c) l n b)) (\<lambda>_.
      eff_lift (bytes_slice b (i, j)))))))"
proof (rule eff_spec_bind [OF eff_spec_weaken [OF up.get_law]], simp)
  let ?ps = "part_size_bytes c"
  let ?r = "Some (Bounded (wrap64 (n * ?ps)) (wrap64 ((n + 1) * ?ps)))"
  have "(n + 1) * ?ps < 2 ^ 64" using assms(4) object_bound [OF assms(1)] by simp
  then have canon: "canonicalize_range ?r (length bs) = Inr (n * ?ps, min ((n + 1) * ?ps) (length bs))"
    using assms(4) part_size_pos by (simp add: wrap64_def canonicalize_range_def)
  show "fails l e \<or> bad_request B l ?r e \<Longrightarrow> fails l e" for e using assms(1) canon by (simp add: bad_request_def)
  fix g assume "\<exists>bs. B l = Some bs \<and> serves (fails l) bs ?r g"
  with assms(1) have g: "sized B l (gr_meta g)" and served: "serves (fails l) bs ?r g" by (auto simp: serves_def sized_def)
  have whole: "slice bs (n * ?ps) (min ((n + 1) * ?ps) (length bs)) = slice bs (n * ?ps) ((n + 1) * ?ps)"
    using assms(4) by (auto simp: slice_def min_def)
  from served canon have st: "streams (fails l) (gr_stream g) (slice bs (n * ?ps) ((n + 1) * ?ps))"
    unfolding serves_def whole [symmetric] by (metis fst_conv snd_conv sum.inject(2))
  have piece: "bytes_slice (slice bs (n * ?ps) ((n + 1) * ?ps)) (i, j) = Inr (slice bs (n * ?ps + i) (n * ?ps + j))"
    using assms(2-) slice_slice [of j ?ps i bs "n * ?ps"] by (simp add: bytes_slice_def add.commute)
  show "eff_spec (files_ok c B files) (fails l) (\<lambda>b. b = slice bs (n * ?ps + i) (n * ?ps + j))
   (eff_bind (eff_lift (collect_bytes (gr_stream g))) (\<lambda>b.
    eff_bind (swallow (save_head (cache_storage c) l (gr_meta g) (gr_attributes g))) (\<lambda>_.
    eff_bind (swallow (save_part (cache_storage c) ?ps l n b)) (\<lambda>_.
    eff_lift (bytes_slice b (i, j))))))"
    by (rule eff_spec_bind [OF eff_spec_lift [where P = "\<lambda>b. b = slice bs (n * ?ps) ((n + 1) * ?ps)"]],
        use streams_collect [OF st] in simp, use streams_collect [OF st] in simp,
        intro eff_spec_bind [OF spec_swallow [OF spec_save_head [OF g]]]
          eff_spec_bind [OF spec_swallow [OF spec_save_part [OF assms(1)]]] eff_spec_lift)
      (use piece in simp_all)
qed

lemma spec_read_part:
  assumes "B l = Some bs" and "i \<le> j" and "j \<le> part_size_bytes c"
    and "n * part_size_bytes c < length bs" and "n * part_size_bytes c + j \<le> length bs"
  shows "eff_spec (files_ok c B files) (fails l) (\<lambda>b. b = slice bs (n * part_size_bytes c + i) (n * part_size_bytes c + j))
     (cached_read_part c l n (i, j) force)"
  unfolding cached_read_part_def Let_def
proof (rule eff_spec_bind [where Q = "\<lambda>r. \<forall>b. r = Inr (Some b) \<longrightarrow> b = slice bs (n * part_size_bytes c + i) (n * part_size_bytes c + j)"])
  show "eff_spec (files_ok c B files) (fails l)
      (\<lambda>r. \<forall>b. r = Inr (Some b) \<longrightarrow> b = slice bs (n * part_size_bytes c + i) (n * part_size_bytes c + j))
      (if force then eff_return (Inr None) else eff_attempt (entry_read_part (cache_storage c) (part_size_bytes c) l n (i, j)))"
    by (rule eff_spec_if, rule eff_spec_return, simp,
        rule eff_spec_weaken [OF eff_spec_attempt [OF spec_entry_read_part [OF assms(1-3)]]]) auto
qed (use spec_fetch_part [OF assms] in \<open>auto intro!: eff_spec_return split: sum.split option.split\<close>)

text \<open>The parts of a valid range are read as its stream.\<close>

lemma spec_read_parts:
  assumes "B l = Some bs" and "canonicalize_range r (length bs) = Inr (i, j)"
  shows "eff_spec (files_ok c B files) E (\<lambda>items. streams (fails l) items (slice bs i j))
     (eff_map (\<lambda>(part_id, r). eff_attempt (cached_read_part c l part_id r force)) (split_range_into_parts (part_size_bytes c) (i, j)))"
proof -
  let ?ps = "part_size_bytes c" and ?parts = "split_range_into_parts (part_size_bytes c) (i, j)"
  let ?P = "\<lambda>p. case_sum (fails l) (\<lambda>b. b = slice bs (max i (p * ?ps)) (min j ((p + 1) * ?ps)))"
  have j: "i \<le> j" "j \<le> length bs" using canonical_bounds [OF assms(2)] by simp_all
  from j(2) object_bound [OF assms(1)] have room: "j + ?ps \<le> 2 ^ 64" by simp
  note parts = split_parts [OF part_size_pos room j(1)]
  have one: "eff_spec (files_ok c B files) E (\<lambda>item. ?P (fst part) item)
      (case part of (part_id, r) \<Rightarrow> eff_attempt (cached_read_part c l part_id r force))" if part: "part \<in> set ?parts" for part
  proof -
    obtain p a b where pab: "part = (p, a, b)" by (cases part) auto
    note P = parts [OF part [unfolded pab]]
    have "(p + 1) * ?ps \<le> div_ceil j ?ps * ?ps" using P(2) by (intro mult_le_mono1) simp
    with div_ceil_bounds(2) [OF part_size_pos, of j] have "p * ?ps < j" by simp
    with P(4) j have "eff_spec (files_ok c B files) (fails l) (\<lambda>x. x = slice bs (p * ?ps + a) (p * ?ps + b)) (cached_read_part c l p (a, b) force)"
      by (intro spec_read_part [OF assms(1) P(5,6)]) simp_all
    with P(3,4) have "eff_spec (files_ok c B files) (fails l) (\<lambda>x. x = slice bs (max i (p * ?ps)) (min j ((p + 1) * ?ps))) (cached_read_part c l p (a, b) force)"
      by simp
    from eff_spec_attempt [OF this, of E] show ?thesis by (simp add: pab case_sum_def cong: sum.case_cong)
  qed
  show ?thesis
  proof (rule eff_spec_weaken [OF eff_spec_map [where P = "\<lambda>part. ?P (fst part)"]])
    fix items assume "list_all2 (\<lambda>part. ?P (fst part)) ?parts items"
    then have "list_all2 ?P (map fst ?parts) items" by (simp add: list_all2_map1)
    moreover have "map fst ?parts = [i div ?ps..<div_ceil j ?ps]"
      using part_size_pos by (simp add: split_range_into_parts_def align_range_small [OF part_size_pos room] Let_def comp_def)
    ultimately have items: "list_all2 ?P [i div ?ps..<div_ceil j ?ps] items" by simp
    have start: "i div ?ps * ?ps \<le> i" "i \<le> (i div ?ps + 1) * ?ps"
      using part_size_pos dividend_less_div_times [of ?ps i] by (simp_all add: less_imp_le algebra_simps)
    have below: "p * ?ps \<le> j" if "p < div_ceil j ?ps" for p
    proof -
      have "(p + 1) * ?ps \<le> div_ceil j ?ps * ?ps" using that by (intro mult_le_mono1) simp
      with div_ceil_bounds(2) [OF part_size_pos, of j] show ?thesis by simp
    qed
    from streams_parts [OF items j(2,1) start(2) below]
    show "streams (fails l) items (slice bs i j)"
      using start(1) j(1) div_ceil_bounds(1) [OF part_size_pos, of j] by (simp add: max_def min_def split: if_splits)
  qed (use one in auto)
qed

lemma spec_get_opts:
  assumes "\<forall>bs. B l = Some bs \<longrightarrow> alignable (part_size_bytes c) (length bs) r"
  shows "eff_spec (files_ok c B files) (\<lambda>e. fails l e \<or> bad_request B l r e) (\<lambda>g. \<exists>bs. B l = Some bs \<and> serves (fails l) bs r g)
     (cached_get_opts c l r force)"
  unfolding cached_get_opts_def
proof (rule eff_spec_bind [OF spec_prefetch [OF assms]], clarify)
  fix meta attrs assume "sized B l meta"
  then obtain bs where bs: "B l = Some bs" "om_size meta = length bs" by (auto simp: sized_def)
  show "eff_spec (files_ok c B files) (\<lambda>e. fails l e \<or> bad_request B l r e) (\<lambda>g. \<exists>bs. B l = Some bs \<and> serves (fails l) bs r g)
    (eff_bind (eff_lift (canonicalize_range r (om_size meta))) (\<lambda>range.
     eff_bind (eff_map (\<lambda>(part_id, r). eff_attempt (cached_read_part c l part_id r force))
       (split_range_into_parts (part_size_bytes c) range)) (\<lambda>items.
     eff_return \<lparr>gr_meta = meta, gr_attributes = attrs, gr_range = range, gr_stream = items\<rparr>)))"
  proof (rule eff_spec_bind [OF eff_spec_lift [where P = "\<lambda>range. canonicalize_range r (length bs) = Inr range"]], goal_cases)
    case (1 e)
    with bs show ?case
      by (auto simp: bad_request_def canonicalize_range_def split: option.splits GetRange.splits if_splits)
  next
    case (3 range)
    then have "canonicalize_range r (length bs) = Inr (fst range, snd range)" by simp
    from spec_read_parts [OF bs(1) this] have parts: "eff_spec (files_ok c B files) (\<lambda>e. fails l e \<or> bad_request B l r e)
       (\<lambda>items. streams (fails l) items (slice bs (fst range) (snd range)))
       (eff_map (\<lambda>(part_id, r). eff_attempt (cached_read_part c l part_id r force)) (split_range_into_parts (part_size_bytes c) range))"
      by simp
    show ?case
      by (rule eff_spec_bind [OF parts], rule eff_spec_return) (use bs 3 in \<open>auto simp: serves_def\<close>)
  qed (use bs in simp)
qed

end

text \<open>The cached store keeps the contract of the store it wraps.\<close>

sublocale cache_laws \<subseteq> cached: object_store_contract "store_get_opts c" "files_ok c B files" B fails
    "\<lambda>l r. \<forall>bs. B l = Some bs \<longrightarrow> alignable (part_size_bytes c) (length bs) r"
proof
  show "eff_spec (files_ok c B files) (\<lambda>e. fails l e \<or> bad_request B l r e) (\<lambda>g. \<exists>bs. B l = Some bs \<and> serves (fails l) bs r g)
      (store_get_opts c l r False)" if "\<forall>bs. B l = Some bs \<longrightarrow> alignable (part_size_bytes c) (length bs) r" for l r
    using spec_get_opts [OF that] by (simp add: store_get_opts_def)
  show "eff_spec (files_ok c B files) (fails l) (\<lambda>g. \<exists>bs. B l = Some bs \<and> serves_head (fails l) bs g) (store_get_opts c l None True)" for l
    using spec_head_miss by (simp add: store_get_opts_def)
qed

context cache_laws
begin

lemmas read_cached = cached.read_range

end

section \<open>Writes through the cache\<close>

text \<open>A put creates its object with the payload; whatever is deleted, or evicted, leaves sound files.\<close>

locale cache_writes = cache_laws c files B fails
  for c :: "'s CachedObjectStore" and files :: "'s \<Rightarrow> str \<rightharpoonup> bytes" and B :: "str \<rightharpoonup> bytes"
    and fails :: "str \<Rightarrow> CacheError \<Rightarrow> bool" +
  assumes put_law: "put_opts (object_store c) l payload attrs s = (r, s') \<Longrightarrow>
      others c B files (files s) s' \<and> (case r of Inl e \<Rightarrow> e \<noteq> CachePanic | Inr x \<Rightarrow> B l = Some (concat payload))"
    and delete_law: "delete_object (object_store c) l s = (r', s') \<Longrightarrow> others c B files (files s) s' \<and> r' \<noteq> Inl CachePanic"
    and delete_dir_law: "delete_dir (fs_disk (cache_storage c)) p s = (r'', s') \<Longrightarrow> others c B files (files s) s' \<and> r'' \<noteq> Inl CachePanic"
begin

lemma spec_put:
  "eff_spec (files_ok c B files) quiet (\<lambda>x. B l = Some (concat payload)) (put_opts (object_store c) l payload attrs)"
proof (rule eff_specI)
  fix s r s' assume s: "files_ok c B files s" and run: "put_opts (object_store c) l payload attrs s = (r, s')"
  from put_law [OF run] others_keep_ok [OF _ s]
  show "files_ok c B files s' \<and> (case r of Inl e \<Rightarrow> quiet e | Inr x \<Rightarrow> B l = Some (concat payload))" by simp
qed

lemma streams_payload: "streams f (map Inr payload) (concat payload)"
  by (induction payload) simp_all

lemma put_opts_run:
  assumes "files_ok c B files s" and run: "cached_put_opts c l payload attrs s = (r, s')"
  shows "files_ok c B files s' \<and> r = fst (put_opts (object_store c) l payload attrs s)"
proof -
  obtain r1 s1 where put: "put_opts (object_store c) l payload attrs s = (r1, s1)" by force
  note P = eff_specD [OF spec_put put assms(1)]
  show ?thesis
  proof (cases "\<exists>x. r1 = Inr x \<and> cache_puts c")
    case True
    then obtain x where x: "r1 = Inr x" "cache_puts c" by blast
    note B = P(3) [OF x(1)]
    have parts: "eff_spec (files_ok c B files) quiet (\<lambda>u. True) (save_parts_stream c l (map Inr payload) 0)"
      by (rule spec_save_parts [OF B, of _ _ "length (concat payload)"]) (simp_all add: slice_def streams_payload)
    have head: "sized B l (build_head l (length (concat payload)) x)" using B by (simp add: sized_def build_head_def)
    have "eff_spec (files_ok c B files) (\<lambda>e. False) (\<lambda>y. y = x)
       (eff_bind (swallow (save_parts_stream c l (map Inr payload) 0)) (\<lambda>_.
        eff_bind (swallow (save_head (cache_storage c) l (build_head l (length (concat payload)) x) attrs)) (\<lambda>_.
        eff_return x)))"
      by (intro eff_spec_bind [OF spec_swallow [OF parts]] eff_spec_bind [OF spec_swallow [OF spec_save_head [OF head]]]
          eff_spec_return) (rule refl)
    moreover have "(eff_bind (swallow (save_parts_stream c l (map Inr payload) 0)) (\<lambda>_.
        eff_bind (swallow (save_head (cache_storage c) l (build_head l (length (concat payload)) x) attrs)) (\<lambda>_.
        eff_return x))) s1 = (r, s')"
      using run put x by (simp add: cached_put_opts_def eff_bind_ok)
    ultimately have "files_ok c B files s' \<and> r = Inr x" using P(1) by (cases r) (auto simp: eff_spec_def)
    with put x(1) show ?thesis by simp
  next
    case False
    with run put have "(r, s') = (r1, s1)"
      by (cases r1) (auto simp: cached_put_opts_def eff_bind_err split: if_splits)
    with put P(1) show ?thesis by simp
  qed
qed

lemma spec_entry_delete: "eff_spec (files_ok c B files) quiet (\<lambda>u. True) (entry_delete (cache_storage c) l)"
proof -
  have "eff_spec (files_ok c B files) quiet (\<lambda>u. True) (delete_dir (fs_disk (cache_storage c)) p)" for p
  proof (rule eff_specI)
    fix s r s' assume s: "files_ok c B files s" and run: "delete_dir (fs_disk (cache_storage c)) p s = (r, s')"
    from delete_dir_law [OF run] others_keep_ok [OF _ s]
    show "files_ok c B files s' \<and> (case r of Inl e \<Rightarrow> quiet e | Inr x \<Rightarrow> True)" by (cases r) simp_all
  qed
  then show ?thesis
    unfolding entry_delete_def Let_def by (intro eff_spec_if eff_spec_bind [OF spec_track_access] eff_spec_return) simp_all
qed

lemma spec_delete: "eff_spec (files_ok c B files) quiet (\<lambda>u. True) (delete_object (object_store c) l)"
proof (rule eff_specI)
  fix s r s' assume s: "files_ok c B files s" and run: "delete_object (object_store c) l s = (r, s')"
  from delete_law [OF run] others_keep_ok [OF _ s]
  show "files_ok c B files s' \<and> (case r of Inl e \<Rightarrow> quiet e | Inr x \<Rightarrow> True)" by (cases r) simp_all
qed

lemma spec_delete_stream:
  "eff_spec (files_ok c B files) quiet (\<lambda>rs. length rs = length ls) (delete_stream c ls)"
proof (induction ls)
  case (Cons l ls)
  show ?case
    unfolding delete_stream.simps
    by (rule eff_spec_bind [OF eff_spec_attempt [OF spec_delete]], rule eff_spec_bind [where Q = "\<lambda>u. True"])
      (auto split: sum.split intro!: spec_swallow [OF spec_entry_delete] eff_spec_bind [OF Cons.IH] eff_spec_return)
qed (auto intro: eff_spec_return)

end

section \<open>In memory\<close>

text \<open>One object of 1500 bytes behind a cache with parts of 1024, over files that are a map.\<close>

definition mem_object :: bytes where
  "mem_object = map word_of_nat [0..<1500]"

definition mem_objects :: "str \<rightharpoonup> bytes" where
  "mem_objects = [lit ''a'' \<mapsto> mem_object]"

definition mem_fails :: "str \<Rightarrow> CacheError \<Rightarrow> bool" where
  "mem_fails l e \<longleftrightarrow> mem_objects l = None \<and> e = Upstream 404"

definition mem_meta :: "str \<Rightarrow> bytes \<Rightarrow> ObjectMeta" where
  "mem_meta l bs = \<lparr>om_location = l, om_last_modified = 0, om_size = length bs, om_e_tag = None, om_version = None\<rparr>"

definition mem_get :: "str \<Rightarrow> GetRange option \<Rightarrow> bool \<Rightarrow> (str \<rightharpoonup> bytes, CacheError, GetResult) eff" where
  "mem_get l r head =
     (case mem_objects l of
        None \<Rightarrow> eff_fail (Upstream 404)
      | Some bs \<Rightarrow> eff_bind (eff_lift (canonicalize_range r (length bs))) (\<lambda>(i, j).
          eff_return \<lparr>gr_meta = mem_meta l bs, gr_attributes = [], gr_range = (i, j), gr_stream = [Inr (slice bs i j)]\<rparr>))"

definition mem_upstream :: "(str \<rightharpoonup> bytes) upstream" where
  "mem_upstream = \<lparr>get_opts = mem_get,
     put_opts = (\<lambda>l payload attrs. if mem_objects l = Some (concat payload) then eff_return \<lparr>pr_e_tag = None, pr_version = None\<rparr>
       else eff_fail (Upstream 409)),
     delete_object = (\<lambda>l. eff_return l)\<rparr>"

definition mem_disk :: "(str \<rightharpoonup> bytes) disk" where
  "mem_disk = \<lparr>read_file = (\<lambda>p s. (Inr (s p), s)), replace_file = (\<lambda>p b s. (Inr (), s(p \<mapsto> b))),
     track_access = (\<lambda>p a. eff_return True),
     delete_dir = (\<lambda>p s. (Inr (), \<lambda>q. if take (length p) q = p then None else s q))\<rparr>"

definition mem_format :: head_format where
  "mem_format = \<lparr>to_rfc3339 = (\<lambda>t. []), parse_time = (\<lambda>t. None), to_json = (\<lambda>h. Some (decimal (lh_size h))),
     from_json = (\<lambda>b. Some \<lparr>lh_location = [], lh_last_modified = [], lh_size = decimal_value b, lh_e_tag = None,
       lh_version = None, lh_attributes = []\<rparr>)\<rparr>"

definition mem_cached :: "(str \<rightharpoonup> bytes) CachedObjectStore" where
  "mem_cached = \<lparr>object_store = mem_upstream, part_size_bytes = 1024,
     cache_storage = \<lparr>root_folder = lit ''/c'', fs_disk = mem_disk, fs_evictor = True, fs_format = mem_format\<rparr>, cache_puts = True\<rparr>"

definition mem_files :: "(str \<rightharpoonup> bytes) \<Rightarrow> str \<rightharpoonup> bytes" where
  "mem_files s = s"

lemma canonical_no_panic: "canonicalize_range r n \<noteq> Inl CachePanic"
  by (auto simp: canonicalize_range_def split: option.splits GetRange.splits)

lemma mem_get_serves:
  assumes "mem_get l r False s = (res, s')"
  shows "s' = s \<and> (case res of Inl e \<Rightarrow> mem_fails l e \<or> bad_request mem_objects l r e
     | Inr g \<Rightarrow> \<exists>bs. mem_objects l = Some bs \<and> serves (mem_fails l) bs r g)"
proof (cases "mem_objects l")
  case (Some bs)
  have "take (length (slice bs i j)) (slice bs i j) = slice bs i j" for i j by simp
  with Some assms canonical_no_panic show ?thesis
    by (cases "canonicalize_range r (length bs)")
      (auto simp: mem_get_def eff_lift_def eff_bind_def eff_return_def bad_request_def serves_def mem_meta_def)
qed (use assms in \<open>auto simp: mem_get_def effect_simps mem_fails_def\<close>)

lemma mem_get_head:
  assumes "mem_get l None True s = (res, s')"
  shows "s' = s \<and> (case res of Inl e \<Rightarrow> mem_fails l e | Inr g \<Rightarrow> \<exists>bs. mem_objects l = Some bs \<and> serves_head (mem_fails l) bs g)"
  using assms
  by (auto simp: mem_get_def eff_lift_def eff_bind_def eff_return_def eff_fail_def mem_fails_def canonicalize_range_def
      serves_head_def mem_meta_def slice_def split: option.splits)

interpretation mem_cache: cache_writes mem_cached mem_files mem_objects mem_fails
proof unfold_locales
  show "eff_spec (files_ok mem_cached mem_objects mem_files) (\<lambda>e. mem_fails l e \<or> bad_request mem_objects l r e)
      (\<lambda>g. \<exists>bs. mem_objects l = Some bs \<and> serves (mem_fails l) bs r g) (get_opts (object_store mem_cached) l r False)" for l r
    by (rule eff_specI) (use mem_get_serves in \<open>fastforce simp: mem_cached_def mem_upstream_def\<close>)
  show "eff_spec (files_ok mem_cached mem_objects mem_files) (mem_fails l)
      (\<lambda>g. \<exists>bs. mem_objects l = Some bs \<and> serves_head (mem_fails l) bs g) (get_opts (object_store mem_cached) l None True)" for l
    by (rule eff_specI) (use mem_get_head in \<open>fastforce simp: mem_cached_def mem_upstream_def\<close>)
  show "cached_store_new (object_store mem_cached) (cache_storage mem_cached) (part_size_bytes mem_cached) (cache_puts mem_cached) = Inr mem_cached"
    by (simp add: cached_store_new_def mem_cached_def)
  show "length bs + part_size_bytes mem_cached \<le> 2 ^ 64" if "mem_objects l = Some bs" for l bs
    using that by (auto simp: mem_objects_def mem_cached_def mem_object_def split: if_splits)
  show "lh_size h' = lh_size h" if "to_json (fs_format (cache_storage mem_cached)) h = Some b"
    "from_json (fs_format (cache_storage mem_cached)) b = Some h'" for h h' b
    using that decimal_value_decimal by (auto simp: mem_cached_def mem_format_def)
qed (auto simp: mem_cached_def mem_disk_def mem_upstream_def mem_fails_def mem_files_def others_def effect_simps split: if_splits)

section \<open>Properties\<close>

text \<open>C30: A read through the cache is a read of the object. Whatever the files of the cache are, evicted
  meanwhile, unreadable, or not written, reading a range returns exactly the bytes
  of that range, and fails only where the object store fails for the location or the range is invalid; the files stay sound. The
  conditions are on sizes: the end of a bounded range, the length of a suffix and the length of an object leave room for one part in
  64 bits; and the object that a suffix is read of ends at a part boundary or is no longer than the suffix rounded up to parts. The other
  suffix reads panic when the head is not cached.\<close>

theorem cached_read_exact:
  assumes "cache_laws c files B fails" and "\<forall>bs. B l = Some bs \<longrightarrow> alignable (part_size_bytes c) (length bs) r"
    and "files_ok c B files s"
    and "eff_bind (store_get_opts c l r False) (\<lambda>g. eff_lift (collect_bytes (gr_stream g))) s = (res, s')"
  shows "files_ok c B files s' \<and>
    (case res of
       Inr x \<Rightarrow> \<exists>bs i j. B l = Some bs \<and> canonicalize_range r (length bs) = Inr (i, j) \<and> x = slice bs i j
     | Inl e \<Rightarrow> fails l e \<or> bad_request B l r e)"
  using cache_laws.read_cached [OF assms(1,2)] assms(3,4) unfolding eff_spec_def by blast

lemma mem_object_size: "mem_objects (lit ''a'') = Some mem_object" "length mem_object = 1500"
  by (simp_all add: mem_objects_def mem_object_def)

theorem cached_read_exact_witness:
  "fst (eff_bind (store_get_opts mem_cached (lit ''a'') (Some (Bounded 1000 1200)) False)
     (\<lambda>g. eff_lift (collect_bytes (gr_stream g))) (\<lambda>p. None)) = Inr (slice mem_object 1000 1200) \<and>
   fst (eff_bind (store_get_opts mem_cached (lit ''a'') (Some (Suffix 1100)) False)
     (\<lambda>g. eff_lift (collect_bytes (gr_stream g))) (\<lambda>p. None)) = Inr (slice mem_object 400 1500)"
proof -
  have "fst (eff_bind (store_get_opts mem_cached (lit ''a'') r False)
      (\<lambda>g. eff_lift (collect_bytes (gr_stream g))) (\<lambda>p. None)) = Inr (slice mem_object i j)"
    if r: "alignable 1024 1500 r" "canonicalize_range r 1500 = Inr (i, j)" for r i j
  proof -
    let ?run = "eff_bind (store_get_opts mem_cached (lit ''a'') r False) (\<lambda>g. eff_lift (collect_bytes (gr_stream g))) (\<lambda>p. None)"
    have "\<forall>bs. mem_objects (lit ''a'') = Some bs \<longrightarrow> alignable (part_size_bytes mem_cached) (length bs) r"
      using r(1) by (simp add: mem_object_size mem_cached_def)
    moreover have "files_ok mem_cached mem_objects mem_files (\<lambda>p. None)" by (simp add: files_ok_def mem_files_def)
    moreover have "?run = (fst ?run, snd ?run)" by simp
    ultimately have "case fst ?run of
         Inr x \<Rightarrow> \<exists>bs i j. mem_objects (lit ''a'') = Some bs \<and> canonicalize_range r (length bs) = Inr (i, j) \<and> x = slice bs i j
       | Inl e \<Rightarrow> mem_fails (lit ''a'') e \<or> bad_request mem_objects (lit ''a'') r e"
      by (rule conjunct2 [OF cached_read_exact [OF mem_cache.cache_laws_axioms]])
    with r(2) show ?thesis
      by (cases "fst ?run") (auto simp: mem_fails_def bad_request_def mem_object_size)
  qed
  note read = this
  have "alignable 1024 1500 (Some (Bounded 1000 1200))" "canonicalize_range (Some (Bounded 1000 1200)) 1500 = Inr (1000, 1200)"
    "alignable 1024 1500 (Some (Suffix 1100))" "canonicalize_range (Some (Suffix 1100)) 1500 = Inr (400, 1500)"
    by (simp_all add: alignable_def canonicalize_range_def div_ceil_def)
  with read show ?thesis by blast
qed



text \<open>C32: A suffix read that finds no head panics when the object does not end at a part boundary: the suffix is
  aligned in length, so the answer of the object store starts inside a part, which the save of the answer asserts it does not.\<close>

theorem suffix_read_panics:
  assumes "0 < part_size_bytes c" and "n + part_size_bytes c \<le> 2 ^ 64"
    and "read_head (cache_storage c) l s = (Inr None, s1)"
    and "get_opts (object_store c) l (Some (Suffix (snd (align_range (0, n) (part_size_bytes c))))) False s1 = (Inr g, s2)"
    and "serves fails bs (Some (Suffix (snd (align_range (0, n) (part_size_bytes c))))) g"
    and "snd (align_range (0, n) (part_size_bytes c)) < length bs" and "length bs mod part_size_bytes c \<noteq> 0"
  shows "store_get_opts c l (Some (Suffix n)) False s = (Inl CachePanic, s2)"
proof -
  let ?ps = "part_size_bytes c" and ?n = "snd (align_range (0, n) (part_size_bytes c))"
  have n: "?n = div_ceil n ?ps * ?ps" using align_range_small [OF assms(1,2)] by simp
  have start: "(length bs - ?n) mod ?ps \<noteq> 0"
  proof
    assume "(length bs - ?n) mod ?ps = 0"
    moreover have "length bs = (length bs - ?n) + div_ceil n ?ps * ?ps" using assms(6) n by simp
    ultimately show False using assms(7) by (metis mod_mult_self1)
  qed
  have "gr_range g = (length bs - ?n, length bs)" using assms(5) by (simp add: serves_def canonicalize_range_def)
  with start have "save_get_result c l g = eff_fail CachePanic" by (simp add: save_get_result_def Let_def)
  with assms(3,4) show ?thesis
    by (simp add: store_get_opts_def cached_get_opts_def maybe_prefetch_range_def align_get_range_def swallow_def
        eff_bind_def eff_attempt_def eff_fail_def)
qed

theorem suffix_read_panics_witness:
  "store_get_opts mem_cached (lit ''a'') (Some (Suffix 100)) False (\<lambda>p. None) = (Inl CachePanic, \<lambda>p. None)"
proof (rule suffix_read_panics)
  show "get_opts (object_store mem_cached) (lit ''a'') (Some (Suffix (snd (align_range (0, 100) (part_size_bytes mem_cached))))) False
      (\<lambda>p. None) = (Inr \<lparr>gr_meta = mem_meta (lit ''a'') mem_object, gr_attributes = [], gr_range = (476, 1500),
        gr_stream = [Inr (slice mem_object 476 1500)]\<rparr>, \<lambda>p. None)"
    by (simp add: mem_cached_def mem_upstream_def mem_get_def mem_objects_def mem_object_def canonicalize_range_def align_range_def
        div_ceil_def wrap64_def eff_bind_def eff_lift_def eff_return_def)
  show "read_head (cache_storage mem_cached) (lit ''a'') (\<lambda>p. None) = (Inr None, \<lambda>p. None)"
    by (simp add: mem_cached_def mem_disk_def read_head_def eff_bind_def eff_return_def Let_def)
  show "serves (\<lambda>e. False) mem_object (Some (Suffix (snd (align_range (0, 100) (part_size_bytes mem_cached)))))
      \<lparr>gr_meta = mem_meta (lit ''a'') mem_object, gr_attributes = [], gr_range = (476, 1500),
        gr_stream = [Inr (slice mem_object 476 1500)]\<rparr>"
    by (simp add: serves_def mem_cached_def mem_object_def canonicalize_range_def align_range_def div_ceil_def wrap64_def mem_meta_def)
qed (simp_all add: mem_cached_def mem_object_def align_range_def div_ceil_def wrap64_def)

end
