(* ===== verification/Evictor.thy ===== *)
theory Evictor
  imports PartCache
begin

text \<open>
  \<^verbatim>\<open>src/storage/part_cache/storage_fs.rs\<close>: the evictor of the part cache. It tracks the files of the cache
  with their sizes and access times and, when a write takes the total over the budget, deletes the older
  of two random files until the total is at nine tenths of the budget. The file system is a parameter; random
  draws are a list of numbers, each taken modulo the number of keys. All changes of the state are made under
  one lock (\<^verbatim>\<open>track_lock\<close>), so they are functions of the state; metrics and log messages are left out.
\<close>

section \<open>State\<close>

record CacheEntry =
  access_time :: int
  size_bytes :: nat
  key_index :: nat

record CacheState =
  cs_entries :: "str \<rightharpoonup> CacheEntry"
  cs_keys :: "str list"

record FsCacheEvictorInner =
  max_cache_size_bytes :: nat
  cache_state :: CacheState
  cache_size_bytes :: nat

definition evictor_new :: "nat \<Rightarrow> FsCacheEvictorInner" where
  "evictor_new max_size = \<lparr>max_cache_size_bytes = max_size, cache_state = \<lparr>cs_entries = Map.empty, cs_keys = []\<rparr>, cache_size_bytes = 0\<rparr>"

text \<open>An index that is out of range panics; a loop that waits for a suitable draw may need more of them.\<close>

datatype EvictFault = IndexPanic | OutOfDraws

datatype removal = Removed | NotFound | RemoveFailed

record 'w cache_dir =
  remove_file :: "str \<Rightarrow> 'w \<Rightarrow> removal \<times> 'w"
  read_dir :: "str \<Rightarrow> 'w \<Rightarrow> (str option) list option"
  remove_dir :: "str \<Rightarrow> 'w \<Rightarrow> 'w"

section \<open>Entries\<close>

text \<open>\<^verbatim>\<open>Vec::swap_remove\<close>: the last element takes the place of the one removed.\<close>

definition swap_remove :: "nat \<Rightarrow> 'a list \<Rightarrow> EvictFault + 'a list" where
  "swap_remove i xs = (if i < length xs then Inr ((butlast xs)[i := last xs]) else Inl IndexPanic)"

definition remove_entry :: "CacheState \<Rightarrow> str \<Rightarrow> EvictFault + (CacheEntry option \<times> CacheState)" where
  "remove_entry st path =
     (case cs_entries st path of
        None \<Rightarrow> Inr (None, st)
      | Some removed \<Rightarrow>
          let entries = (cs_entries st)(path := None) in
          and_then (swap_remove (key_index removed) (cs_keys st)) (\<lambda>keys.
            let entries =
              (if key_index removed < length keys then
                 (case entries (keys ! key_index removed) of
                    Some swapped \<Rightarrow> entries(keys ! key_index removed \<mapsto> swapped\<lparr>key_index := key_index removed\<rparr>)
                  | None \<Rightarrow> entries)
               else entries) in
            Inr (Some removed, \<lparr>cs_entries = entries, cs_keys = keys\<rparr>)))"

definition fetch_add :: "nat \<Rightarrow> nat \<Rightarrow> nat" where
  "fetch_add m n = wrap64 (m + n)"

definition fetch_sub :: "nat \<Rightarrow> nat \<Rightarrow> nat" where
  "fetch_sub m n = wrap64 (m + (2 ^ 64 - wrap64 n))"

section \<open>Picking\<close>

text \<open>\<^verbatim>\<open>rng.random_range(0..keys.len())\<close> until an index is neither picked nor excluded.\<close>

fun draw_available :: "nat \<Rightarrow> nat list \<Rightarrow> nat option \<Rightarrow> nat list \<Rightarrow> EvictFault + (nat \<times> nat list)" where
  "draw_available n picked exclude [] = Inl OutOfDraws"
| "draw_available n picked exclude (d # draws) =
     (if d mod n \<notin> set picked \<and> Some (d mod n) \<noteq> exclude then Inr (d mod n, draws)
      else draw_available n picked exclude draws)"

definition pick_random_available_index :: "nat list \<Rightarrow> str list \<Rightarrow> nat list \<Rightarrow> nat option \<Rightarrow> EvictFault + (nat option \<times> nat list)" where
  "pick_random_available_index draws keys picked exclude_idx =
     (let excluded_not_picked = (case exclude_idx of Some idx \<Rightarrow> idx \<notin> set picked | None \<Rightarrow> False);
          available_count = length keys - length picked - (if excluded_not_picked then 1 else 0) in
      if available_count = 0 then Inr (None, draws)
      else and_then (draw_available (length keys) picked exclude_idx draws) (\<lambda>(idx, draws). Inr (Some idx, draws)))"

text \<open>The set of picked indices is the list of them, latest first.\<close>

function pick_loop :: "CacheState \<Rightarrow> nat \<Rightarrow> nat \<Rightarrow> nat list \<Rightarrow> nat list \<Rightarrow> EvictFault + ((str \<times> nat) list \<times> nat list)" where
  "pick_loop st target_bytes simulated_size picked draws =
     (if simulated_size \<le> target_bytes then Inr ([], draws)
      else if length (cs_keys st) - length picked < 2 then Inr ([], draws)
      else
        and_then (pick_random_available_index draws (cs_keys st) picked None) (\<lambda>(idx0, draws).
          case idx0 of None \<Rightarrow> Inr ([], draws) | Some idx0 \<Rightarrow>
            and_then (pick_random_available_index draws (cs_keys st) picked (Some idx0)) (\<lambda>(idx1, draws).
              case idx1 of None \<Rightarrow> Inr ([], draws) | Some idx1 \<Rightarrow>
                (case (cs_entries st (cs_keys st ! idx0), cs_entries st (cs_keys st ! idx1)) of
                   (Some entry0, Some entry1) \<Rightarrow>
                     (let (chosen, entry) = (if access_time entry0 \<le> access_time entry1 then (idx0, entry0) else (idx1, entry1)) in
                      and_then (pick_loop st target_bytes (simulated_size - size_bytes entry) (chosen # picked) draws) (\<lambda>(targets, draws).
                      Inr ((cs_keys st ! chosen, size_bytes entry) # targets, draws)))
                 | _ \<Rightarrow> Inr ([], draws)))))"
  by pat_completeness auto
termination
  by (relation "measure (\<lambda>(st, target, simulated, picked, draws). length (cs_keys st) - length picked)") auto

declare pick_loop.simps [simp del]

definition pick_evict_targets :: "FsCacheEvictorInner \<Rightarrow> nat \<Rightarrow> nat list \<Rightarrow> EvictFault + ((str \<times> nat) list \<times> nat list)" where
  "pick_evict_targets ev target_bytes draws =
     (if length (cs_keys (cache_state ev)) < 2 then Inr ([], draws)
      else pick_loop (cache_state ev) target_bytes (cache_size_bytes ev) [] draws)"

section \<open>Evicting\<close>

text \<open>A file that is already gone is untracked too.\<close>

fun remove_files :: "'w cache_dir \<Rightarrow> (str \<times> nat) list \<Rightarrow> 'w \<Rightarrow> (str \<times> nat) list \<times> 'w" where
  "remove_files d [] w = ([], w)"
| "remove_files d ((target, bytes) # targets) w =
     (let (r, w) = remove_file d target w; (deleted, w) = remove_files d targets w in
      (if r = RemoveFailed then deleted else (target, bytes) # deleted, w))"

fun untrack_targets :: "(str \<times> nat) list \<Rightarrow> FsCacheEvictorInner \<Rightarrow> nat \<Rightarrow> EvictFault + (nat \<times> FsCacheEvictorInner)" where
  "untrack_targets [] ev total_bytes = Inr (total_bytes, ev)"
| "untrack_targets ((target, bytes) # targets) ev total_bytes =
     and_then (remove_entry (cache_state ev) target) (\<lambda>(removed, st).
       if removed \<noteq> None then
         untrack_targets targets (ev\<lparr>cache_state := st, cache_size_bytes := fetch_sub (cache_size_bytes ev) bytes\<rparr>) (total_bytes + bytes)
       else untrack_targets targets (ev\<lparr>cache_state := st\<rparr>) total_bytes)"

definition evict_to_target_size ::
  "'w cache_dir \<Rightarrow> FsCacheEvictorInner \<Rightarrow> nat \<Rightarrow> nat list \<Rightarrow> 'w \<Rightarrow> EvictFault + (nat \<times> FsCacheEvictorInner \<times> nat list \<times> 'w)" where
  "evict_to_target_size d ev target_bytes draws w =
     and_then (pick_evict_targets ev target_bytes draws) (\<lambda>(picked_targets, draws).
       if picked_targets = [] then Inr (0, ev, draws, w)
       else
         (let (deleted_targets, w) = remove_files d picked_targets w in
          if deleted_targets = [] then Inr (0, ev, draws, w)
          else and_then (untrack_targets deleted_targets ev 0) (\<lambda>(evicted, ev). Inr (evicted, ev, draws, w))))"

text \<open>
  \<^verbatim>\<open>((max as f64) * 0.9) as u64\<close>: the product of the rounded budget and the double nearest to 0.9,
  8106479329266893 / 2 ^ 53, rounded to 53 significant bits with ties to even, and truncated.
\<close>

fun bit_length :: "nat \<Rightarrow> nat" where
  "bit_length n = (if n = 0 then 0 else Suc (bit_length (n div 2)))"

declare bit_length.simps [simp del]

definition round_f64 :: "nat \<Rightarrow> nat" where
  "round_f64 n =
     (let k = bit_length n - 53; q = n div 2 ^ k; r = n mod 2 ^ k in
      (if 2 ^ k < 2 * r \<or> 2 * r = 2 ^ k \<and> odd q then q + 1 else q) * 2 ^ k)"

definition nine_tenths :: "nat \<Rightarrow> nat" where
  "nine_tenths n = round_f64 (round_f64 n * 8106479329266893) div 2 ^ 53"

definition track_entry_accessed ::
  "'w cache_dir \<Rightarrow> FsCacheEvictorInner \<Rightarrow> str \<Rightarrow> nat \<Rightarrow> int \<Rightarrow> bool \<Rightarrow> nat list \<Rightarrow> 'w \<Rightarrow>
     EvictFault + (nat \<times> FsCacheEvictorInner \<times> nat list \<times> 'w)" where
  "track_entry_accessed d ev path bytes accessed_time evict draws w =
     (let st = cache_state ev;
          ev = (case cs_entries st path of
                  Some entry \<Rightarrow> ev\<lparr>cache_state := st\<lparr>cs_entries := (cs_entries st)(path \<mapsto> entry\<lparr>access_time := accessed_time\<rparr>)\<rparr>\<rparr>
                | None \<Rightarrow>
                    let entry = \<lparr>access_time = accessed_time, size_bytes = bytes, key_index = length (cs_keys st)\<rparr> in
                    ev\<lparr>cache_state := \<lparr>cs_entries = (cs_entries st)(path \<mapsto> entry), cs_keys = cs_keys st @ [path]\<rparr>,
                       cache_size_bytes := fetch_add (cache_size_bytes ev) bytes\<rparr>) in
      if cache_size_bytes ev \<le> max_cache_size_bytes ev then Inr (0, ev, draws, w)
      else if evict then evict_to_target_size d ev (nine_tenths (max_cache_size_bytes ev)) draws w
      else Inr (0, ev, draws, w))"

section \<open>Deletion, scans and the queue\<close>

fun delete_files :: "'w cache_dir \<Rightarrow> (str option) list \<Rightarrow> 'w \<Rightarrow> str list \<times> 'w" where
  "delete_files d [] w = ([], w)"
| "delete_files d (None # es) w = delete_files d es w"
| "delete_files d (Some p # es) w =
     (let (r, w) = remove_file d p w; (deleted, w) = delete_files d es w in
      (if r = RemoveFailed then deleted else p # deleted, w))"

definition delete_cache_entry :: "'w cache_dir \<Rightarrow> str \<Rightarrow> 'w \<Rightarrow> str list \<times> 'w" where
  "delete_cache_entry d path w =
     (case read_dir d path w of
        Some es \<Rightarrow> (let (deleted, w) = delete_files d es w in (deleted, remove_dir d path w))
      | None \<Rightarrow> ([], w))"

fun untrack_entries :: "str list \<Rightarrow> FsCacheEvictorInner \<Rightarrow> EvictFault + FsCacheEvictorInner" where
  "untrack_entries [] ev = Inr ev"
| "untrack_entries (p # ps) ev =
     and_then (remove_entry (cache_state ev) p) (\<lambda>(removed, st).
       case removed of
         Some entry \<Rightarrow> untrack_entries ps (ev\<lparr>cache_state := st, cache_size_bytes := fetch_sub (cache_size_bytes ev) (size_bytes entry)\<rparr>)
       | None \<Rightarrow> untrack_entries ps (ev\<lparr>cache_state := st\<rparr>))"

definition delete_entry :: "'w cache_dir \<Rightarrow> FsCacheEvictorInner \<Rightarrow> str \<Rightarrow> 'w \<Rightarrow> EvictFault + (FsCacheEvictorInner \<times> 'w)" where
  "delete_entry d ev path w =
     (let (deleted, w) = delete_cache_entry d path w in
      if deleted = [] then Inr (ev, w) else and_then (untrack_entries deleted ev) (\<lambda>ev. Inr (ev, w)))"

text \<open>The files a scan finds, each with its access time and size unless its metadata cannot be read.\<close>

fun scan_entries ::
  "'w cache_dir \<Rightarrow> FsCacheEvictorInner \<Rightarrow> (str \<times> (int \<times> nat) option) list \<Rightarrow> bool \<Rightarrow> nat list \<Rightarrow> 'w \<Rightarrow>
     EvictFault + (FsCacheEvictorInner \<times> nat list \<times> 'w)" where
  "scan_entries d ev [] evict draws w = Inr (ev, draws, w)"
| "scan_entries d ev ((path, None) # files) evict draws w = scan_entries d ev files evict draws w"
| "scan_entries d ev ((path, Some (atime, bytes)) # files) evict draws w =
     and_then (track_entry_accessed d ev path bytes atime evict draws w) (\<lambda>(evicted, ev, draws, w).
     scan_entries d ev files evict draws w)"

text \<open>One message of the evictor's queue, at the time it is taken.\<close>

definition background_evict ::
  "'w cache_dir \<Rightarrow> FsCacheEvictorInner \<Rightarrow> str \<Rightarrow> EntryAccess \<Rightarrow> int \<Rightarrow> nat list \<Rightarrow> 'w \<Rightarrow>
     EvictFault + (FsCacheEvictorInner \<times> nat list \<times> 'w)" where
  "background_evict d ev path access now draws w =
     (case access of
        Read bytes \<Rightarrow> and_then (track_entry_accessed d ev path bytes now False draws w) (\<lambda>(evicted, r). Inr r)
      | Write bytes \<Rightarrow> and_then (track_entry_accessed d ev path bytes now True draws w) (\<lambda>(evicted, r). Inr r)
      | DeleteEntry \<Rightarrow> and_then (delete_entry d ev path w) (\<lambda>(ev, w). Inr (ev, draws, w)))"

end
