(* ===== verification/Evictor_Correct.thy ===== *)
theory Evictor_Correct
  imports Evictor
begin

text \<open>
  The evictor's bookkeeping: in every state that it reaches the index of the keys and the counter of
  bytes agree with the entries, so that no index is out of range, and a write that is tracked ends
  within the budget, or with a single file.
\<close>

section \<open>Consistent states\<close>

definition size_of :: "CacheState \<Rightarrow> str \<Rightarrow> nat" where
  "size_of st p = (case cs_entries st p of Some e \<Rightarrow> size_bytes e | None \<Rightarrow> 0)"

definition tracked_bytes :: "CacheState \<Rightarrow> nat" where
  "tracked_bytes st = (\<Sum>p\<in>set (cs_keys st). size_of st p)"

definition state_ok :: "CacheState \<Rightarrow> bool" where
  "state_ok st \<longleftrightarrow>
     distinct (cs_keys st) \<and> dom (cs_entries st) = set (cs_keys st) \<and>
     (\<forall>p e. cs_entries st p = Some e \<longrightarrow> key_index e < length (cs_keys st) \<and> cs_keys st ! key_index e = p)"

definition evictor_ok :: "FsCacheEvictorInner \<Rightarrow> bool" where
  "evictor_ok ev \<longleftrightarrow> state_ok (cache_state ev) \<and> cache_size_bytes ev = wrap64 (tracked_bytes (cache_state ev))"

lemma swap_remove_spec:
  assumes "distinct xs" and "i < length xs"
  defines "ys \<equiv> (butlast xs)[i := last xs]"
  shows "distinct ys" and "set ys = set xs - {xs ! i}" and "length ys = length xs - 1"
    and "\<And>j. j < length ys \<Longrightarrow> ys ! j = (if j = i then last xs else xs ! j)"
proof -
  from assms(2) obtain bl l where xs: "xs = bl @ [l]" by (cases xs rule: rev_cases) auto
  have l: "l \<notin> set bl" "distinct bl" using assms(1) xs by auto
  have "distinct ys \<and> set ys = set xs - {xs ! i}"
  proof (cases "i < length bl")
    case True
    then obtain a x b where bl: "bl = a @ x # b" "length a = i" using id_take_nth_drop [OF True] by (metis length_take min.absorb4)
    then have "ys = a @ l # b" "xs ! i = x" by (auto simp: ys_def xs nth_append butlast_append)
    with l bl xs show ?thesis by auto
  next
    case False
    with assms(2) xs have "i = length bl" by simp
    then show ?thesis using l by (auto simp: ys_def xs list_update_beyond)
  qed
  then show "distinct ys" "set ys = set xs - {xs ! i}" by simp_all
  show "length ys = length xs - 1" by (simp add: ys_def)
  then show "\<And>j. j < length ys \<Longrightarrow> ys ! j = (if j = i then last xs else xs ! j)"
    by (simp add: ys_def nth_butlast nth_list_update)
qed

lemma remove_entry_spec:
  assumes "state_ok st"
  obtains st' where "remove_entry st p = Inr (cs_entries st p, st')" and "state_ok st'" and "set (cs_keys st') = set (cs_keys st) - {p}"
    and "\<And>q. map_option size_bytes (cs_entries st' q) = (if q = p then None else map_option size_bytes (cs_entries st q))"
proof (cases "cs_entries st p")
  case None
  with assms have "p \<notin> set (cs_keys st)" by (auto simp: state_ok_def)
  with None assms show ?thesis by (intro that [of st]) (auto simp: remove_entry_def)
next
  case (Some e)
  define i keys where "i = key_index e" and "keys = (butlast (cs_keys st))[i := last (cs_keys st)]"
  from assms Some have i: "i < length (cs_keys st)" "cs_keys st ! i = p" and d: "distinct (cs_keys st)"
    by (auto simp: state_ok_def i_def)
  note S = swap_remove_spec [OF d i(1), folded keys_def, unfolded i(2)]
  define ents where "ents = (\<lambda>q. if q = p then None else if i < length keys \<and> q = last (cs_keys st)
    then map_option (\<lambda>e. e\<lparr>key_index := i\<rparr>) (cs_entries st q) else cs_entries st q)"
  have at_i: "i < length keys \<Longrightarrow> keys ! i = last (cs_keys st)" using S(4) by simp
  have last_p: "i < length keys \<Longrightarrow> last (cs_keys st) \<noteq> p"
    using S(2) at_i nth_mem [of i keys] by auto
  have run: "remove_entry st p = Inr (cs_entries st p, \<lparr>cs_entries = ents, cs_keys = keys\<rparr>)"
    using Some i(1) at_i last_p
    by (auto simp: remove_entry_def swap_remove_def Let_def ents_def fun_eq_iff i_def [symmetric] keys_def [symmetric] split: option.splits)
  have ok: "state_ok \<lparr>cs_entries = ents, cs_keys = keys\<rparr>"
    unfolding state_ok_def
  proof (simp, intro conjI allI impI)
    show "distinct keys" by (fact S(1))
    have "dom ents = dom (cs_entries st) - {p}" by (auto simp: ents_def split: if_splits)
    with assms S(2) show "dom ents = set keys" by (simp add: state_ok_def)
    fix q f assume q: "ents q = Some f"
    have "key_index f < length keys \<and> keys ! key_index f = q"
    proof (cases "i < length keys \<and> q = last (cs_keys st)")
      case True
      with q at_i show ?thesis by (auto simp: ents_def split: if_splits)
    next
      case False
      with q have f: "cs_entries st q = Some f" "q \<noteq> p" by (auto simp: ents_def split: if_splits)
      with assms have j: "key_index f < length (cs_keys st)" "cs_keys st ! key_index f = q" by (auto simp: state_ok_def)
      with f(2) i(2) have ne: "key_index f \<noteq> i" by auto
      have "key_index f \<noteq> length (cs_keys st) - 1"
      proof
        assume last: "key_index f = length (cs_keys st) - 1"
        then have "q = last (cs_keys st)" using j by (metis last_conv_nth length_0_conv less_nat_zero_code)
        with False ne last i(1) S(3) show False by auto
      qed
      with j S(3) have lt: "key_index f < length keys" by simp
      with S(4) [OF lt] ne j(2) show ?thesis by simp
    qed
    then show "key_index f < length keys" "keys ! key_index f = q" by simp_all
  qed
  show ?thesis
    by (rule that [OF run ok]) (use S(2) in \<open>auto simp: ents_def option.map_comp comp_def\<close>)
qed

text \<open>What the sizes of a state are, up to the order of its keys.\<close>

lemma size_of_eq: "size_of st p = (case map_option size_bytes (cs_entries st p) of Some n \<Rightarrow> n | None \<Rightarrow> 0)"
  by (simp add: size_of_def split: option.splits)

lemma remove_entry_bytes:
  assumes "state_ok st"
  obtains st' where "remove_entry st p = Inr (cs_entries st p, st')" and "state_ok st'" and "set (cs_keys st') = set (cs_keys st) - {p}"
    and "\<And>q. q \<noteq> p \<Longrightarrow> map_option size_bytes (cs_entries st' q) = map_option size_bytes (cs_entries st q)"
    and "cs_entries st' p = None" and "tracked_bytes st = tracked_bytes st' + size_of st p"
proof (rule remove_entry_spec [OF assms, of p])
  fix st' assume R: "remove_entry st p = Inr (cs_entries st p, st')" "state_ok st'" "set (cs_keys st') = set (cs_keys st) - {p}"
    and sizes: "\<And>q. map_option size_bytes (cs_entries st' q) = (if q = p then None else map_option size_bytes (cs_entries st q))"
  have keep: "(\<Sum>q\<in>set (cs_keys st) - {p}. size_of st' q) = (\<Sum>q\<in>set (cs_keys st) - {p}. size_of st q)"
    by (rule sum.cong) (auto simp: size_of_eq sizes)
  have "tracked_bytes st = tracked_bytes st' + size_of st p"
  proof (cases "p \<in> set (cs_keys st)")
    case True
    then show ?thesis by (simp add: tracked_bytes_def R(3) keep sum.remove)
  next
    case False
    with assms have "cs_entries st p = None" by (auto simp: state_ok_def)
    with False keep show ?thesis by (simp add: tracked_bytes_def R(3) size_of_def)
  qed
  moreover from sizes [of p] have "cs_entries st' p = None" by simp
  ultimately show thesis using R sizes by (intro that [of st']) simp_all
qed

lemma mod_cancel: "0 < M \<Longrightarrow> ((m + n) mod M + (M - n mod M)) mod M = m mod (M :: nat)"
proof -
  assume M: "0 < M"
  have "n = n div M * M + n mod M" by simp
  then have "m + n + (M - n mod M) = m + n div M * M + M" using mod_less_divisor [OF M, of n] by linarith
  then have "(m + n + (M - n mod M)) mod M = m mod M" by (metis mod_add_self2 mod_mult_self1)
  then show ?thesis by (simp only: mod_add_left_eq)
qed

lemma fetch_sub_wrap: "fetch_sub (wrap64 (m + n)) n = wrap64 m"
  unfolding fetch_sub_def wrap64_def by (rule mod_cancel) simp

lemma fetch_add_wrap: "fetch_add (wrap64 m) n = wrap64 (m + n)"
  by (simp add: fetch_add_def wrap64_def mod_simps)

text \<open>\<open>without ev P ev'\<close>: the files of \<open>P\<close> are no longer tracked, and the others as before.\<close>

definition without :: "FsCacheEvictorInner \<Rightarrow> str set \<Rightarrow> FsCacheEvictorInner \<Rightarrow> bool" where
  "without ev P ev' \<longleftrightarrow>
     evictor_ok ev' \<and> max_cache_size_bytes ev' = max_cache_size_bytes ev \<and>
     set (cs_keys (cache_state ev')) = set (cs_keys (cache_state ev)) - P \<and>
     (\<forall>q. q \<notin> P \<longrightarrow> map_option size_bytes (cs_entries (cache_state ev') q) = map_option size_bytes (cs_entries (cache_state ev) q)) \<and>
     (\<forall>q\<in>P. cs_entries (cache_state ev') q = None)"

lemma without_none: "evictor_ok ev \<Longrightarrow> without ev {} ev"
  by (simp add: without_def)

lemma without_trans: "without ev P ev1 \<Longrightarrow> without ev1 Q ev2 \<Longrightarrow> without ev (P \<union> Q) ev2"
  unfolding without_def by (auto simp: option.map_disc_iff) (metis option.map_disc_iff)+

lemma without_one:
  assumes "evictor_ok ev"
  obtains st where "remove_entry (cache_state ev) p = Inr (cs_entries (cache_state ev) p, st)"
    and "cs_entries (cache_state ev) p = None \<Longrightarrow> without ev {p} (ev\<lparr>cache_state := st\<rparr>)"
    and "\<And>e. cs_entries (cache_state ev) p = Some e \<Longrightarrow>
      without ev {p} (ev\<lparr>cache_state := st, cache_size_bytes := fetch_sub (cache_size_bytes ev) (size_bytes e)\<rparr>)"
proof (rule remove_entry_bytes [of "cache_state ev" p])
  show "state_ok (cache_state ev)" using assms by (simp add: evictor_ok_def)
  fix st assume R: "remove_entry (cache_state ev) p = Inr (cs_entries (cache_state ev) p, st)" "state_ok st"
    "set (cs_keys st) = set (cs_keys (cache_state ev)) - {p}"
    "\<And>q. q \<noteq> p \<Longrightarrow> map_option size_bytes (cs_entries st q) = map_option size_bytes (cs_entries (cache_state ev) q)"
    "cs_entries st p = None" "tracked_bytes (cache_state ev) = tracked_bytes st + size_of (cache_state ev) p"
  show thesis
    by (rule that [OF R(1)])
      (use R assms fetch_sub_wrap [of "tracked_bytes st"] in \<open>auto simp: without_def evictor_ok_def size_of_def\<close>)
qed

lemma untrack_targets_spec:
  assumes "evictor_ok ev" and "\<forall>(t, b)\<in>set targets. \<forall>e. cs_entries (cache_state ev) t = Some e \<longrightarrow> size_bytes e = b"
  shows "\<exists>n ev'. untrack_targets targets ev evicted = Inr (n, ev') \<and> without ev (fst ` set targets) ev'"
  using assms
proof (induction targets arbitrary: ev evicted)
  case Nil
  then show ?case by (simp add: without_none)
next
  case (Cons tb targets)
  obtain t b where tb: "tb = (t, b)" by force
  obtain st where R: "remove_entry (cache_state ev) t = Inr (cs_entries (cache_state ev) t, st)"
    "cs_entries (cache_state ev) t = None \<Longrightarrow> without ev {t} (ev\<lparr>cache_state := st\<rparr>)"
    "\<And>e. cs_entries (cache_state ev) t = Some e \<Longrightarrow>
      without ev {t} (ev\<lparr>cache_state := st, cache_size_bytes := fetch_sub (cache_size_bytes ev) (size_bytes e)\<rparr>)"
    using without_one [OF Cons.prems(1), of t] by blast
  have b: "cs_entries (cache_state ev) t = Some e \<Longrightarrow> size_bytes e = b" for e using Cons.prems(2) tb by auto
  define ev1 where "ev1 = (case cs_entries (cache_state ev) t of
      Some e \<Rightarrow> ev\<lparr>cache_state := st, cache_size_bytes := fetch_sub (cache_size_bytes ev) b\<rparr> | None \<Rightarrow> ev\<lparr>cache_state := st\<rparr>)"
  define evicted1 where "evicted1 = (case cs_entries (cache_state ev) t of Some e \<Rightarrow> evicted + b | None \<Rightarrow> evicted)"
  have W: "without ev {t} ev1" using R(2,3) b by (auto simp: ev1_def split: option.splits)
  have "\<forall>(t', b)\<in>set targets. \<forall>e. cs_entries (cache_state ev1) t' = Some e \<longrightarrow> size_bytes e = b"
  proof (clarify)
    fix t' b' e assume t': "(t', b') \<in> set targets" "cs_entries (cache_state ev1) t' = Some e"
    with W have "map_option size_bytes (cs_entries (cache_state ev) t') = Some (size_bytes e)"
      unfolding without_def by (metis option.simps(9) option.distinct(1) singletonD)
    with Cons.prems(2) t'(1) show "size_bytes e = b'" by fastforce
  qed
  moreover have "evictor_ok ev1" using W by (simp add: without_def)
  ultimately obtain n ev' where "untrack_targets targets ev1 evicted1 = Inr (n, ev')" "without ev1 (fst ` set targets) ev'"
    using Cons.IH by blast
  with R(1) without_trans [OF W] show ?case by (auto simp: tb ev1_def evicted1_def split: option.splits)
qed

lemma untrack_entries_spec:
  assumes "evictor_ok ev"
  shows "\<exists>ev'. untrack_entries ps ev = Inr ev' \<and> without ev (set ps) ev'"
  using assms
proof (induction ps arbitrary: ev)
  case Nil
  then show ?case by (simp add: without_none)
next
  case (Cons p ps)
  obtain st where R: "remove_entry (cache_state ev) p = Inr (cs_entries (cache_state ev) p, st)"
    "cs_entries (cache_state ev) p = None \<Longrightarrow> without ev {p} (ev\<lparr>cache_state := st\<rparr>)"
    "\<And>e. cs_entries (cache_state ev) p = Some e \<Longrightarrow>
      without ev {p} (ev\<lparr>cache_state := st, cache_size_bytes := fetch_sub (cache_size_bytes ev) (size_bytes e)\<rparr>)"
    using without_one [OF Cons.prems, of p] by blast
  define ev1 where "ev1 = (case cs_entries (cache_state ev) p of
      Some e \<Rightarrow> ev\<lparr>cache_state := st, cache_size_bytes := fetch_sub (cache_size_bytes ev) (size_bytes e)\<rparr> | None \<Rightarrow> ev\<lparr>cache_state := st\<rparr>)"
  have W: "without ev {p} ev1" using R(2,3) by (auto simp: ev1_def split: option.splits)
  have "evictor_ok ev1" using W by (simp add: without_def)
  from Cons.IH [OF this] obtain ev' where "untrack_entries ps ev1 = Inr ev'" "without ev1 (set ps) ev'" by blast
  with R(1) without_trans [OF W] show ?case by (auto simp: ev1_def split: option.splits)
qed

section \<open>Picking\<close>

text \<open>\<open>supplies n k draws\<close>: after a first stretch, \<open>k\<close> stretches of draws with every index among \<open>n\<close> in each.\<close>

definition supplies :: "nat \<Rightarrow> nat \<Rightarrow> nat list \<Rightarrow> bool" where
  "supplies n k draws \<longleftrightarrow>
     (\<exists>pre blocks. draws = pre @ concat blocks \<and> length blocks = k \<and> (\<forall>b\<in>set blocks. \<forall>i<n. \<exists>d\<in>set b. d mod n = i))"

lemma draw_available_cases:
  assumes "0 < n"
  shows "draw_available n picked exclude draws = Inl OutOfDraws \<or>
    (\<exists>i ds. draw_available n picked exclude draws = Inr (i, ds) \<and> i < n \<and> i \<notin> set picked \<and> Some i \<noteq> exclude)"
  using assms by (induction draws) auto

lemma draw_available_block:
  assumes "d \<in> set xs" and "d mod n \<notin> set picked" and "Some (d mod n) \<noteq> exclude"
  shows "\<exists>i ys. draw_available n picked exclude (xs @ rest) = Inr (i, ys @ rest)"
  using assms by (induction xs) auto

lemma draw_available_supplied:
  assumes "supplies n (Suc k) draws" and "i < n" and "i \<notin> set picked" and "Some i \<noteq> exclude"
  shows "\<exists>j ds. draw_available n picked exclude draws = Inr (j, ds) \<and> supplies n k ds"
proof -
  from assms(1) obtain pre b blocks where D: "draws = (pre @ b) @ concat blocks" "length blocks = k"
    "\<forall>b\<in>set blocks. \<forall>i<n. \<exists>d\<in>set b. d mod n = i" "\<exists>d\<in>set b. d mod n = i"
    using assms(2) by (auto simp: supplies_def length_Suc_conv)
  then obtain d where "d \<in> set (pre @ b)" "d mod n = i" by auto
  with draw_available_block [of d "pre @ b" n picked exclude "concat blocks"] assms(3,4) obtain j ys where
    "draw_available n picked exclude draws = Inr (j, ys @ concat blocks)" by (auto simp: D(1))
  with D(2,3) show ?thesis by (auto simp: supplies_def)
qed

lemma some_available:
  assumes "distinct picked" and "set picked \<subseteq> {..<n}" and "2 \<le> n - length picked"
  shows "\<exists>i<n. i \<notin> set picked \<and> Some i \<noteq> exclude"
proof -
  have "card (set picked \<union> set_option exclude) \<le> length picked + 1"
  proof -
    have "card (set_option exclude) \<le> 1" by (cases exclude) simp_all
    with card_Un_le [of "set picked" "set_option exclude"] distinct_card [OF assms(1)] show ?thesis by linarith
  qed
  then have "card (set picked \<union> set_option exclude) < card {..<n}" using assms(3) by simp
  then have "\<not> {..<n} \<subseteq> set picked \<union> set_option exclude"
    using card_mono [of "set picked \<union> set_option exclude" "{..<n}"] by (cases exclude) auto
  then show ?thesis by auto
qed

text \<open>One round of picks: two draws, and the older of the two files.\<close>

lemma pick_index:
  assumes "distinct picked" and "set picked \<subseteq> {..<length keys}" and "2 \<le> length keys - length picked"
  shows "pick_random_available_index draws keys picked exclude = Inl OutOfDraws \<or>
    (\<exists>i ds. pick_random_available_index draws keys picked exclude = Inr (Some i, ds) \<and> i < length keys \<and> i \<notin> set picked)"
    and "supplies (length keys) (Suc k) draws \<Longrightarrow>
      \<exists>i ds. pick_random_available_index draws keys picked exclude = Inr (Some i, ds) \<and> supplies (length keys) k ds"
proof -
  have eq: "pick_random_available_index draws keys picked exclude =
      and_then (draw_available (length keys) picked exclude draws) (\<lambda>(idx, draws). Inr (Some idx, draws))"
    using assms(3) by (auto simp: pick_random_available_index_def Let_def split: option.splits)
  have "0 < length keys" using assms(3) by linarith
  from draw_available_cases [OF this, of picked exclude draws]
  show "pick_random_available_index draws keys picked exclude = Inl OutOfDraws \<or>
    (\<exists>i ds. pick_random_available_index draws keys picked exclude = Inr (Some i, ds) \<and> i < length keys \<and> i \<notin> set picked)"
    by (auto simp: eq)
  assume "supplies (length keys) (Suc k) draws"
  with some_available [OF assms, of exclude] draw_available_supplied
  show "\<exists>i ds. pick_random_available_index draws keys picked exclude = Inr (Some i, ds) \<and> supplies (length keys) k ds"
    by (fastforce simp: eq)
qed

definition picks_next :: "CacheState \<Rightarrow> nat \<Rightarrow> nat \<Rightarrow> nat list \<Rightarrow> nat list \<Rightarrow> nat \<Rightarrow> nat list \<Rightarrow> bool" where
  "picks_next st target simulated picked draws i ds \<longleftrightarrow>
     i < length (cs_keys st) \<and> i \<notin> set picked \<and>
     pick_loop st target simulated picked draws =
       and_then (pick_loop st target (simulated - size_of st (cs_keys st ! i)) (i # picked) ds) (\<lambda>(targets, ds).
       Inr ((cs_keys st ! i, size_of st (cs_keys st ! i)) # targets, ds))"

lemma pick_round:
  assumes "state_ok st" and "distinct picked" and "set picked \<subseteq> {..<length (cs_keys st)}"
    and "\<not> simulated \<le> target" and "2 \<le> length (cs_keys st) - length picked"
  shows "pick_loop st target simulated picked draws = Inl OutOfDraws \<or> (\<exists>i ds. picks_next st target simulated picked draws i ds)"
    and "supplies (length (cs_keys st)) (Suc (Suc k)) draws \<Longrightarrow>
      \<exists>i ds. picks_next st target simulated picked draws i ds \<and> supplies (length (cs_keys st)) k ds"
proof -
  note P = pick_index [OF assms(2,3,5)]
  have entry: "\<exists>e. cs_entries st (cs_keys st ! i) = Some e" if "i < length (cs_keys st)" for i
    using assms(1) that nth_mem [OF that] by (auto simp: state_ok_def dom_def)
  have step: "\<exists>i. picks_next st target simulated picked draws i ds1"
    if p0: "pick_random_available_index draws (cs_keys st) picked None = Inr (Some i0, ds0)" "i0 < length (cs_keys st)" "i0 \<notin> set picked"
      and p1: "pick_random_available_index ds0 (cs_keys st) picked (Some i0) = Inr (Some i1, ds1)" "i1 < length (cs_keys st)" "i1 \<notin> set picked"
    for i0 ds0 i1 ds1
  proof -
    obtain e0 e1 where e: "cs_entries st (cs_keys st ! i0) = Some e0" "cs_entries st (cs_keys st ! i1) = Some e1"
      using entry [OF p0(2)] entry [OF p1(2)] by blast
    have "picks_next st target simulated picked draws (if access_time e0 \<le> access_time e1 then i0 else i1) ds1"
      using p0 p1 e assms(4,5) unfolding picks_next_def
      by (subst pick_loop.simps) (auto simp: size_of_def)
    then show ?thesis by blast
  qed
  show "pick_loop st target simulated picked draws = Inl OutOfDraws \<or> (\<exists>i ds. picks_next st target simulated picked draws i ds)"
  proof (cases "pick_random_available_index draws (cs_keys st) picked None")
    case (Inl e)
    with P(1) [of draws None] have "e = OutOfDraws" by auto
    with Inl assms(4,5) show ?thesis by (subst pick_loop.simps) simp
  next
    case (Inr r)
    with P(1) [of draws None] obtain i0 ds0 where p0: "pick_random_available_index draws (cs_keys st) picked None = Inr (Some i0, ds0)"
      "i0 < length (cs_keys st)" "i0 \<notin> set picked" by auto
    from P(1) [of ds0 "Some i0"] show ?thesis
    proof
      assume "pick_random_available_index ds0 (cs_keys st) picked (Some i0) = Inl OutOfDraws"
      with p0 assms(4,5) show ?thesis by (subst pick_loop.simps) simp
    qed (use step [OF p0] in blast)
  qed
  assume "supplies (length (cs_keys st)) (Suc (Suc k)) draws"
  from P(2) [OF this, of None] obtain i0 ds0 where p0: "pick_random_available_index draws (cs_keys st) picked None = Inr (Some i0, ds0)"
    and s0: "supplies (length (cs_keys st)) (Suc k) ds0" by blast
  from P(2) [OF s0, of "Some i0"] obtain i1 ds1 where p1: "pick_random_available_index ds0 (cs_keys st) picked (Some i0) = Inr (Some i1, ds1)"
    and s1: "supplies (length (cs_keys st)) k ds1" by blast
  from P(1) [of draws None] P(1) [of ds0 "Some i0"] p0 p1 step [OF p0 _ _ p1] s1
  show "\<exists>i ds. picks_next st target simulated picked draws i ds \<and> supplies (length (cs_keys st)) k ds" by auto
qed

definition picked_targets :: "CacheState \<Rightarrow> nat \<Rightarrow> nat \<Rightarrow> nat list \<Rightarrow> (str \<times> nat) list \<Rightarrow> bool" where
  "picked_targets st target simulated picked targets \<longleftrightarrow>
     (\<exists>is. distinct (is @ picked) \<and> set is \<subseteq> {..<length (cs_keys st)} \<and>
        targets = map (\<lambda>i. (cs_keys st ! i, size_of st (cs_keys st ! i))) is \<and>
        (simulated \<le> target + sum_list (map snd targets) \<or> length (cs_keys st) - length picked - length is < 2))"

lemma picked_none: "simulated \<le> target \<or> length (cs_keys st) - length picked < 2 \<Longrightarrow> distinct picked \<Longrightarrow> picked_targets st target simulated picked []"
  by (auto simp: picked_targets_def)

lemma picked_more:
  assumes "i < length (cs_keys st)" and "picked_targets st target (simulated - size_of st (cs_keys st ! i)) (i # picked) targets"
  shows "picked_targets st target simulated picked ((cs_keys st ! i, size_of st (cs_keys st ! i)) # targets)"
proof -
  from assms(2) obtain js where js: "distinct (js @ i # picked)" "set js \<subseteq> {..<length (cs_keys st)}"
    "targets = map (\<lambda>i. (cs_keys st ! i, size_of st (cs_keys st ! i))) js"
    "simulated - size_of st (cs_keys st ! i) \<le> target + sum_list (map snd targets) \<or>
       length (cs_keys st) - length (i # picked) - length js < 2"
    unfolding picked_targets_def by blast
  show ?thesis
    unfolding picked_targets_def by (rule exI [of _ "i # js"]) (use assms(1) js in auto)
qed

lemma pick_loop_spec:
  assumes "state_ok st" and "distinct picked" and "set picked \<subseteq> {..<length (cs_keys st)}"
  shows "case pick_loop st target simulated picked draws of
      Inl e \<Rightarrow> e = OutOfDraws \<and> \<not> supplies (length (cs_keys st)) (2 * (length (cs_keys st) - length picked)) draws
    | Inr (targets, ds) \<Rightarrow> picked_targets st target simulated picked targets"
  using assms(2,3)
proof (induction "length (cs_keys st) - length picked" arbitrary: picked simulated draws)
  case 0
  then show ?case by (subst pick_loop.simps) (simp add: picked_none)
next
  case (Suc m)
  let ?n = "length (cs_keys st)"
  show ?case
  proof (cases "simulated \<le> target \<or> ?n - length picked < 2")
    case True
    with Suc.prems(1) show ?thesis by (subst pick_loop.simps) (auto intro: picked_none)
  next
    case False
    note R = pick_round [OF assms(1) Suc.prems, where simulated = simulated and target = target]
    have rounds: "2 * (?n - length picked) = Suc (Suc (2 * m))" using Suc.hyps(2) by simp
    have next_ok: "case pick_loop st target simulated picked draws of
        Inl e \<Rightarrow> e = OutOfDraws \<and> \<not> supplies ?n (2 * m) ds
      | Inr (targets, ds) \<Rightarrow> picked_targets st target simulated picked targets"
      if P: "picks_next st target simulated picked draws i ds" for i ds
    proof -
      from P have i: "i < ?n" "i \<notin> set picked" by (simp_all add: picks_next_def)
      have "m = ?n - length (i # picked)" using Suc.hyps(2) by simp
      from Suc.hyps(1) [OF this, where simulated = "simulated - size_of st (cs_keys st ! i)" and draws = ds] i Suc.prems this P picked_more [OF i(1)]
      show ?thesis by (auto simp: picks_next_def split: sum.splits)
    qed
    show ?thesis
    proof (cases "supplies ?n (2 * (?n - length picked)) draws")
      case True
      then have "supplies ?n (Suc (Suc (2 * m))) draws" by (simp only: rounds)
      from R(2) [OF _ _ this] False obtain i ds where "picks_next st target simulated picked draws i ds" "supplies ?n (2 * m) ds"
        by auto
      with next_ok show ?thesis by (fastforce split: sum.splits)
    next
      case nosupply: False
      with R(1) [where draws = draws] False next_ok show ?thesis by (fastforce split: sum.splits)
    qed
  qed
qed

lemma pick_evict_targets_spec:
  assumes "evictor_ok ev"
  shows "case pick_evict_targets ev target draws of
      Inl e \<Rightarrow> e = OutOfDraws \<and> \<not> supplies (length (cs_keys (cache_state ev))) (2 * length (cs_keys (cache_state ev))) draws
    | Inr (targets, ds) \<Rightarrow> picked_targets (cache_state ev) target (cache_size_bytes ev) [] targets"
  using pick_loop_spec [of "cache_state ev" "[]", where target = target and simulated = "cache_size_bytes ev" and draws = draws] assms
  by (auto simp: pick_evict_targets_def evictor_ok_def intro: picked_none split: sum.splits)

section \<open>Evicting\<close>

definition removable :: "'w cache_dir \<Rightarrow> bool" where
  "removable d \<longleftrightarrow> (\<forall>p w. fst (remove_file d p w) \<noteq> RemoveFailed)"

lemma remove_files_subset: "set (fst (remove_files d targets w)) \<subseteq> set targets"
proof (induction targets arbitrary: w)
  case (Cons t targets)
  obtain p b where t: "t = (p, b)" by force
  from Cons.IH [of "snd (remove_file d p w)"] show ?case by (auto simp: t split: prod.splits)
qed simp

lemma remove_files_all: "removable d \<Longrightarrow> fst (remove_files d targets w) = targets"
proof (induction targets arbitrary: w)
  case (Cons t targets)
  obtain p b where t: "t = (p, b)" by force
  from Cons.prems have "fst (remove_file d p w) \<noteq> RemoveFailed" by (simp add: removable_def)
  with Cons.IH [OF Cons.prems, of "snd (remove_file d p w)"] show ?case by (auto simp: t split: prod.splits)
qed simp

lemma picked_sizes:
  assumes "picked_targets st target simulated [] targets" and "(t, b) \<in> set targets"
  shows "b = size_of st t"
  using assms by (auto simp: picked_targets_def)

lemma evicted_total:
  assumes "evictor_ok ev" and "picked_targets (cache_state ev) target (tracked_bytes (cache_state ev)) [] targets"
    and "without ev (fst ` set targets) ev'"
  shows "tracked_bytes (cache_state ev') \<le> target \<or> length (cs_keys (cache_state ev')) < 2"
proof -
  let ?st = "cache_state ev" and ?keys = "cs_keys (cache_state ev)"
  from assms(2) obtain js where js: "distinct js" "set js \<subseteq> {..<length ?keys}"
    "targets = map (\<lambda>i. (?keys ! i, size_of ?st (?keys ! i))) js"
    and goal: "tracked_bytes ?st \<le> target + sum_list (map snd targets) \<or> length ?keys - length js < 2"
    by (auto simp: picked_targets_def)
  have d: "distinct ?keys" "distinct (cs_keys (cache_state ev'))"
    using assms(1,3) by (auto simp: without_def evictor_ok_def state_ok_def)
  have inj: "inj_on ((!) ?keys) (set js)" using d(1) js(2) by (auto simp: inj_on_def nth_eq_iff_index_eq subset_iff)
  have T: "fst ` set targets = (!) ?keys ` set js" by (simp add: js(3) image_image)
  have sub: "fst ` set targets \<subseteq> set ?keys" using js(2) T by auto
  have keys: "set (cs_keys (cache_state ev')) = set ?keys - fst ` set targets" using assms(3) by (simp add: without_def)
  have "length (cs_keys (cache_state ev')) = card (set ?keys - fst ` set targets)" using distinct_card [OF d(2)] keys by simp
  also have "\<dots> = length ?keys - length js"
    using sub distinct_card [OF d(1)] distinct_card [OF js(1)] card_image [OF inj] T by (simp add: card_Diff_subset)
  finally have len: "length (cs_keys (cache_state ev')) = length ?keys - length js" .
  have "sum_list (map snd targets) = (\<Sum>i\<in>set js. size_of ?st (?keys ! i))"
    by (simp add: js(3) comp_def sum_list_distinct_conv_sum_set [OF js(1)])
  also have "\<dots> = (\<Sum>p\<in>fst ` set targets. size_of ?st p)" unfolding T by (simp add: sum.reindex [OF inj])
  finally have sum: "sum_list (map snd targets) = (\<Sum>p\<in>fst ` set targets. size_of ?st p)" .
  have "tracked_bytes (cache_state ev') = (\<Sum>p\<in>set ?keys - fst ` set targets. size_of ?st p)"
    unfolding tracked_bytes_def keys by (rule sum.cong) (use assms(3) in \<open>auto simp: without_def size_of_eq\<close>)
  moreover have "tracked_bytes ?st = (\<Sum>p\<in>set ?keys - fst ` set targets. size_of ?st p) + (\<Sum>p\<in>fst ` set targets. size_of ?st p)"
    unfolding tracked_bytes_def by (rule sum.subset_diff [OF sub]) simp
  ultimately show ?thesis using goal sum len by linarith
qed

lemma evict_spec:
  assumes "evictor_ok ev"
  shows "case evict_to_target_size d ev target draws w of
      Inl e \<Rightarrow> e = OutOfDraws \<and> \<not> supplies (length (cs_keys (cache_state ev))) (2 * length (cs_keys (cache_state ev))) draws
    | Inr (n, ev', ds, w') \<Rightarrow> evictor_ok ev' \<and> max_cache_size_bytes ev' = max_cache_size_bytes ev \<and>
        (tracked_bytes (cache_state ev) < 2 ^ 64 \<longrightarrow> removable d \<longrightarrow>
           tracked_bytes (cache_state ev') \<le> target \<or> length (cs_keys (cache_state ev')) < 2)"
proof (cases "pick_evict_targets ev target draws")
  case (Inl e)
  with pick_evict_targets_spec [OF assms, where target = target and draws = draws] show ?thesis by (simp add: evict_to_target_size_def)
next
  case (Inr r)
  then obtain targets ds where pick: "pick_evict_targets ev target draws = Inr (targets, ds)" by (cases r) auto
  with pick_evict_targets_spec [OF assms, where target = target and draws = draws]
  have P: "picked_targets (cache_state ev) target (cache_size_bytes ev) [] targets" by simp
  obtain deleted w1 where rm: "remove_files d targets w = (deleted, w1)" by force
  have total_ok: "tracked_bytes (cache_state ev') \<le> target \<or> length (cs_keys (cache_state ev')) < 2"
    if "tracked_bytes (cache_state ev) < 2 ^ 64" "without ev (fst ` set targets) ev'" for ev'
    using evicted_total [OF assms _ that(2), where target = target] that(1) P assms by (simp add: evictor_ok_def wrap64_def)
  have all: "removable d \<Longrightarrow> deleted = targets" using remove_files_all [of d targets w] rm by simp
  have "\<forall>(t, b)\<in>set deleted. \<forall>e. cs_entries (cache_state ev) t = Some e \<longrightarrow> size_bytes e = b"
    using remove_files_subset [of d targets w] rm picked_sizes [OF P] by (fastforce simp: size_of_def)
  from untrack_targets_spec [OF assms this, of 0] obtain n ev' where
    U: "untrack_targets deleted ev 0 = Inr (n, ev')" "without ev (fst ` set deleted) ev'" by blast
  show ?thesis
  proof (cases "targets = [] \<or> deleted = []")
    case True
    then have "evict_to_target_size d ev target draws w = Inr (0, ev, ds, w) \<or> evict_to_target_size d ev target draws w = Inr (0, ev, ds, w1)"
      using pick rm by (auto simp: evict_to_target_size_def)
    moreover have "removable d \<Longrightarrow> targets = []" using True all by blast
    ultimately show ?thesis using assms total_ok [of ev] without_none [OF assms] by auto
  next
    case False
    then have "evict_to_target_size d ev target draws w = Inr (n, ev', ds, w1)"
      using pick rm U(1) by (simp add: evict_to_target_size_def)
    then show ?thesis using U(2) total_ok [of ev'] all by (auto simp: without_def)
  qed
qed

section \<open>The target\<close>

lemma bit_length_lower: "0 < n \<Longrightarrow> 2 ^ (bit_length n - 1) \<le> n"
proof (induction n rule: bit_length.induct)
  case (1 n)
  show ?case
  proof (cases "n div 2 = 0")
    case True
    with 1(2) show ?thesis by (simp add: bit_length.simps [of n] bit_length.simps [of 0])
  next
    case False
    then have "0 < bit_length (n div 2)" by (simp add: bit_length.simps [of "n div 2"])
    then obtain k where k: "bit_length (n div 2) = Suc k" by (cases "bit_length (n div 2)") simp_all
    with 1 False have "2 ^ k \<le> n div 2" by simp
    with 1(2) k show ?thesis by (simp add: bit_length.simps [of n])
  qed
qed

text \<open>Rounding to 53 bits adds at most one part in \<open>2 ^ 53\<close>.\<close>

lemma round_f64_le: "round_f64 n * 2 ^ 53 \<le> n * (2 ^ 53 + 1)"
proof -
  define k q r where "k = bit_length n - 53" and "q = n div 2 ^ k" and "r = n mod 2 ^ k"
  have n: "n = q * 2 ^ k + r" unfolding q_def r_def by (rule div_mult_mod_eq [symmetric])
  show ?thesis
  proof (cases "2 ^ k \<le> 2 * r \<and> 0 < k")
    case True
    then have "0 < n" using n by (cases "r = 0") simp_all
    from bit_length_lower [OF this] True have "2 ^ (k + 52) \<le> n" by (simp add: k_def)
    moreover have "2 * (q + 1) * 2 ^ k \<le> 2 * n + 2 ^ k" using True n by simp
    moreover have "(2 ^ (k + 52) :: nat) * 2 = 2 ^ k * 2 ^ 53" by (simp add: power_add)
    ultimately have "2 * ((q + 1) * 2 ^ k * 2 ^ 53) \<le> 2 * (n * (2 ^ 53 + 1))" by (simp add: algebra_simps)
    moreover have "round_f64 n \<le> (q + 1) * 2 ^ k" by (simp add: round_f64_def Let_def k_def [symmetric] q_def [symmetric])
    ultimately show ?thesis by (meson le_trans mult_le_cancel1 mult_le_mono1 zero_less_numeral)
  next
    case False
    have "round_f64 n = q * 2 ^ k"
    proof (cases "k = 0")
      case True
      then show ?thesis by (simp add: round_f64_def Let_def k_def [symmetric] q_def)
    next
      case k: False
      with False have "\<not> 2 ^ k \<le> 2 * r" by simp
      then show ?thesis by (simp add: round_f64_def Let_def k_def [symmetric] q_def [symmetric] r_def [symmetric])
    qed
    with n have "round_f64 n \<le> n" by simp
    then have "round_f64 n * 2 ^ 53 \<le> n * 2 ^ 53" by (rule mult_le_mono1)
    then show ?thesis by (simp add: algebra_simps)
  qed
qed

lemma nine_tenths_le: "nine_tenths n \<le> n"
proof -
  define c M where "c = (8106479329266893 :: nat)" and "M = (2 ^ 53 :: nat)"
  define a b where "a = round_f64 n" and "b = round_f64 (a * c)"
  have "a * M \<le> n * (M + 1)" "b * M \<le> a * c * (M + 1)" using round_f64_le by (simp_all add: a_def b_def M_def)
  then have "b * M * M \<le> a * c * (M + 1) * M" "(a * M) * (c * (M + 1)) \<le> n * (M + 1) * (c * (M + 1))" by (simp_all only: mult_le_mono1)
  then have "b * M * M \<le> n * (c * (M + 1) * (M + 1))" by (simp add: algebra_simps)
  also have "\<dots> \<le> n * (M * M * M)" by (rule mult_le_mono2) (simp add: c_def M_def)
  finally have "b * (M * M) \<le> n * M * (M * M)" by (simp add: algebra_simps)
  then have "b \<le> n * M" by (simp add: M_def)
  then have "b div M \<le> n" by (metis M_def div_le_mono nonzero_mult_div_cancel_right power_not_zero zero_neq_numeral)
  then show ?thesis by (simp add: nine_tenths_def a_def b_def c_def M_def)
qed

section \<open>Tracking\<close>

definition touched :: "FsCacheEvictorInner \<Rightarrow> str \<Rightarrow> nat \<Rightarrow> int \<Rightarrow> FsCacheEvictorInner" where
  "touched ev path bytes t =
     (case cs_entries (cache_state ev) path of
        Some entry \<Rightarrow> ev\<lparr>cache_state := (cache_state ev)\<lparr>cs_entries := (cs_entries (cache_state ev))(path \<mapsto> entry\<lparr>access_time := t\<rparr>)\<rparr>\<rparr>
      | None \<Rightarrow> ev\<lparr>cache_state := \<lparr>cs_entries = (cs_entries (cache_state ev))(path \<mapsto>
            \<lparr>access_time = t, size_bytes = bytes, key_index = length (cs_keys (cache_state ev))\<rparr>),
          cs_keys = cs_keys (cache_state ev) @ [path]\<rparr>, cache_size_bytes := fetch_add (cache_size_bytes ev) bytes\<rparr>)"

lemma track_touched:
  "track_entry_accessed d ev path bytes t evict draws w =
     (let ev = touched ev path bytes t in
      if cache_size_bytes ev \<le> max_cache_size_bytes ev then Inr (0, ev, draws, w)
      else if evict then evict_to_target_size d ev (nine_tenths (max_cache_size_bytes ev)) draws w
      else Inr (0, ev, draws, w))"
  by (cases "cs_entries (cache_state ev) path") (simp_all add: track_entry_accessed_def touched_def Let_def)

lemma touched_spec:
  assumes "evictor_ok ev"
  shows "evictor_ok (touched ev path bytes t)" and "max_cache_size_bytes (touched ev path bytes t) = max_cache_size_bytes ev"
    and "tracked_bytes (cache_state (touched ev path bytes t)) \<le> tracked_bytes (cache_state ev) + bytes"
    and "length (cs_keys (cache_state (touched ev path bytes t))) = card (insert path (set (cs_keys (cache_state ev))))"
proof -
  let ?st = "cache_state ev"
  have st: "distinct (cs_keys ?st)" "dom (cs_entries ?st) = set (cs_keys ?st)"
    "\<And>p e. cs_entries ?st p = Some e \<Longrightarrow> key_index e < length (cs_keys ?st) \<and> cs_keys ?st ! key_index e = p"
    "cache_size_bytes ev = wrap64 (tracked_bytes ?st)"
    using assms by (auto simp: evictor_ok_def state_ok_def)
  have "evictor_ok (touched ev path bytes t) \<and> max_cache_size_bytes (touched ev path bytes t) = max_cache_size_bytes ev \<and>
    tracked_bytes (cache_state (touched ev path bytes t)) \<le> tracked_bytes ?st + bytes \<and>
    length (cs_keys (cache_state (touched ev path bytes t))) = card (insert path (set (cs_keys ?st)))"
  proof (cases "cs_entries ?st path")
    case None
    with st(2) have new: "path \<notin> set (cs_keys ?st)" by auto
    have sizes: "(\<Sum>p\<in>set (cs_keys ?st). size_of (cache_state (touched ev path bytes t)) p) = (\<Sum>p\<in>set (cs_keys ?st). size_of ?st p)"
      by (rule sum.cong) (use new None in \<open>auto simp: touched_def size_of_def\<close>)
    have tracked: "tracked_bytes (cache_state (touched ev path bytes t)) = tracked_bytes ?st + bytes"
      using sizes new None by (simp add: tracked_bytes_def touched_def size_of_def)
    have "state_ok (cache_state (touched ev path bytes t))"
      using st(1,2) new None by (auto simp: state_ok_def touched_def nth_append dest: st(3))
    with tracked show ?thesis
      using None new st(1,4) fetch_add_wrap by (simp add: evictor_ok_def touched_def distinct_card)
  next
    case (Some e)
    with st(2) have old: "path \<in> set (cs_keys ?st)" by auto
    have sizes: "tracked_bytes (cache_state (touched ev path bytes t)) = tracked_bytes ?st"
      unfolding tracked_bytes_def using Some by (intro sum.cong) (auto simp: touched_def size_of_def)
    have "state_ok (cache_state (touched ev path bytes t))"
      using st(1,2) old Some by (auto simp: state_ok_def touched_def dest: st(3))
    with sizes show ?thesis
      using Some old st(1,4) by (simp add: evictor_ok_def touched_def insert_absorb distinct_card)
  qed
  then show "evictor_ok (touched ev path bytes t)" "max_cache_size_bytes (touched ev path bytes t) = max_cache_size_bytes ev"
    "tracked_bytes (cache_state (touched ev path bytes t)) \<le> tracked_bytes (cache_state ev) + bytes"
    "length (cs_keys (cache_state (touched ev path bytes t))) = card (insert path (set (cs_keys (cache_state ev))))" by simp_all
qed

lemma track_spec:
  fixes path :: str
  assumes "evictor_ok ev"
  defines "n \<equiv> card (insert path (set (cs_keys (cache_state ev))))"
  shows "case track_entry_accessed d ev path bytes t evict draws w of
      Inl e \<Rightarrow> e = OutOfDraws \<and> \<not> supplies n (2 * n) draws
    | Inr (k, ev', ds, w') \<Rightarrow> evictor_ok ev' \<and> max_cache_size_bytes ev' = max_cache_size_bytes ev \<and>
        (evict \<longrightarrow> tracked_bytes (cache_state ev) + bytes < 2 ^ 64 \<longrightarrow> removable d \<longrightarrow>
           tracked_bytes (cache_state ev') \<le> max_cache_size_bytes ev \<or> length (cs_keys (cache_state ev')) < 2)"
proof -
  let ?ev = "touched ev path bytes t"
  note T = touched_spec [OF assms(1), of path bytes t]
  have small: "cache_size_bytes ?ev = tracked_bytes (cache_state ?ev)" "tracked_bytes (cache_state ?ev) < 2 ^ 64"
    if "tracked_bytes (cache_state ev) + bytes < 2 ^ 64"
    using T(1,3) that by (simp_all add: evictor_ok_def wrap64_def)
  note E = evict_spec [OF T(1), where d = d and target = "nine_tenths (max_cache_size_bytes ev)" and draws = draws and w = w,
    unfolded T(4) n_def [symmetric]]
  show ?thesis
  proof (cases "cache_size_bytes ?ev \<le> max_cache_size_bytes ev \<or> \<not> evict")
    case True
    with T(1,2) small show ?thesis by (auto simp: track_touched Let_def)
  next
    case False
    then have "track_entry_accessed d ev path bytes t evict draws w = evict_to_target_size d ?ev (nine_tenths (max_cache_size_bytes ev)) draws w"
      by (simp add: track_touched Let_def T(2))
    with E T(2) small(2) nine_tenths_le [of "max_cache_size_bytes ev"] show ?thesis
      by (fastforce split: sum.splits)
  qed
qed

lemma delete_entry_spec:
  assumes "evictor_ok ev"
  shows "\<exists>ev' w'. delete_entry d ev path w = Inr (ev', w') \<and> evictor_ok ev' \<and> max_cache_size_bytes ev' = max_cache_size_bytes ev"
proof -
  obtain deleted w1 where "delete_cache_entry d path w = (deleted, w1)" by force
  with untrack_entries_spec [OF assms, of deleted] assms show ?thesis by (auto simp: delete_entry_def without_def)
qed

text \<open>The states of an evictor: accesses that are tracked, by the queue or by a scan, and deletions, in any order.\<close>

inductive evictor_run :: "'w cache_dir \<Rightarrow> nat \<Rightarrow> FsCacheEvictorInner \<Rightarrow> bool" for d m where
  start: "evictor_run d m (evictor_new m)"
| track: "evictor_run d m ev \<Longrightarrow> track_entry_accessed d ev path bytes t evict draws w = Inr (n, ev', ds, w') \<Longrightarrow> evictor_run d m ev'"
| delete: "evictor_run d m ev \<Longrightarrow> delete_entry d ev path w = Inr (ev', w') \<Longrightarrow> evictor_run d m ev'"

lemma evictor_run_ok: "evictor_run d m ev \<Longrightarrow> evictor_ok ev \<and> max_cache_size_bytes ev = m"
proof (induction rule: evictor_run.induct)
  case start
  then show ?case by (simp add: evictor_new_def evictor_ok_def state_ok_def tracked_bytes_def wrap64_def)
next
  case (track ev path bytes t evict draws w n ev' ds w')
  with track_spec [where ev = ev and path = path and d = d and bytes = bytes and t = t and evict = evict and draws = draws and w = w]
  show ?case by simp
next
  case (delete ev path w ev' w')
  with delete_entry_spec [of ev d path w] show ?case by auto
qed

lemma scan_run:
  "evictor_run d m ev \<Longrightarrow> scan_entries d ev files evict draws w = Inr (ev', ds, w') \<Longrightarrow> evictor_run d m ev'"
proof (induction d ev files evict draws w rule: scan_entries.induct)
  case (3 d ev path atime bytes files evict draws w)
  then show ?case by (auto simp: and_then_eq_Inr) (metis evictor_run.track)
qed auto

lemma background_run:
  "evictor_run d m ev \<Longrightarrow> background_evict d ev path access now draws w = Inr (ev', ds, w') \<Longrightarrow> evictor_run d m ev'"
  by (auto simp: background_evict_def and_then_eq_Inr split: EntryAccess.splits intro: evictor_run.track evictor_run.delete)

section \<open>Properties\<close>

text \<open>A directory that holds its files as a list.\<close>

definition mem_dir :: "str list cache_dir" where
  "mem_dir = \<lparr>remove_file = (\<lambda>p w. (if p \<in> set w then Removed else NotFound, removeAll p w)),
     read_dir = (\<lambda>p w. Some (map Some w)), remove_dir = (\<lambda>p w. w)\<rparr>"

text \<open>C34: In every state the evictor reaches, by messages of its queue and by scans in any order, its keys are
  distinct and are the files of its entries, each entry's index is that of its key, and the counter is the
  sum of the sizes modulo \<open>2 ^ 64\<close>; handling a message from there never indexes the keys out of range.\<close>

theorem evictor_consistent:
  assumes "evictor_run d m ev"
  shows "evictor_ok ev \<and> max_cache_size_bytes ev = m \<and> background_evict d ev path access now draws w \<noteq> Inl IndexPanic"
proof -
  from evictor_run_ok [OF assms] have ok: "evictor_ok ev" "max_cache_size_bytes ev = m" by auto
  have "track_entry_accessed d ev path bytes now evict draws w \<noteq> Inl IndexPanic" for bytes evict
    using track_spec [OF ok(1), where path = path and d = d and bytes = bytes and t = now and evict = evict and draws = draws and w = w] by auto
  then have "background_evict d ev path access now draws w \<noteq> Inl IndexPanic"
    using delete_entry_spec [OF ok(1), of d path w] by (auto simp: background_evict_def and_then_def split: EntryAccess.splits sum.splits)
  with ok show ?thesis by simp
qed

text \<open>Two files are tracked, and the first is deleted, so that the key of the second moves to its index.\<close>

definition two_files :: FsCacheEvictorInner where
  "two_files = touched (touched (evictor_new 100) (lit ''a'') 30 1) (lit ''b'') 40 2"

lemma two_files_run: "evictor_run mem_dir 100 two_files"
proof -
  have "evictor_run mem_dir 100 (touched (evictor_new 100) (lit ''a'') 30 1)"
    by (rule evictor_run.track [OF evictor_run.start, where path = "lit ''a''" and bytes = 30 and t = 1 and evict = True and draws = "[]" and w = "[]"])
      (simp add: track_touched touched_def evictor_new_def fetch_add_def wrap64_def)
  then show ?thesis
    by (rule evictor_run.track [where path = "lit ''b''" and bytes = 40 and t = 2 and evict = True and draws = "[]" and w = "[]"])
      (simp add: track_touched two_files_def touched_def evictor_new_def fetch_add_def wrap64_def lit_def)
qed

theorem evictor_consistent_witness:
  "evictor_ok two_files \<and> cs_keys (cache_state two_files) = [lit ''a'', lit ''b''] \<and>
   background_evict mem_dir two_files (lit ''a'') DeleteEntry 3 [] [lit ''a'', lit ''b''] \<noteq> Inl IndexPanic"
proof -
  have "cs_keys (cache_state two_files) = [lit ''a'', lit ''b'']"
    by (simp add: two_files_def touched_def evictor_new_def lit_def)
  with evictor_consistent [OF two_files_run] show ?thesis by blast
qed

text \<open>C33: A write that is tracked leaves the cache within its budget. When files can be deleted and the draws
  come round to every index often enough, handling the message ends, and the sizes of the files it
  then tracks sum up to at most the budget unless a single file is left.\<close>

theorem write_within_budget:
  assumes "evictor_run d m ev" and "removable d" and "tracked_bytes (cache_state ev) + bytes < 2 ^ 64"
    and "n = card (insert path (set (cs_keys (cache_state ev))))" and "supplies n (2 * n) draws"
  shows "\<exists>ev' ds w'. background_evict d ev path (Write bytes) now draws w = Inr (ev', ds, w') \<and>
    (tracked_bytes (cache_state ev') \<le> m \<or> length (cs_keys (cache_state ev')) < 2)"
proof -
  from evictor_run_ok [OF assms(1)] have ok: "evictor_ok ev" "max_cache_size_bytes ev = m" by auto
  obtain k ev' ds w' where run: "track_entry_accessed d ev path bytes now True draws w = Inr (k, ev', ds, w')"
    "tracked_bytes (cache_state ev') \<le> m \<or> length (cs_keys (cache_state ev')) < 2"
    using track_spec [OF ok(1), where path = path and d = d and bytes = bytes and t = now and evict = True and draws = draws and w = w]
      assms(2-) ok(2) by (fastforce split: sum.splits)
  then show ?thesis by (auto simp: background_evict_def)
qed

theorem write_within_budget_witness:
  "\<exists>ev' ds w'. background_evict mem_dir (touched (evictor_new 100) (lit ''a'') 60 1) (lit ''b'') (Write 60) 7 [0, 1, 0, 1, 0, 1, 0, 1]
      [lit ''a'', lit ''b''] = Inr (ev', ds, w') \<and>
    (tracked_bytes (cache_state ev') \<le> 100 \<or> length (cs_keys (cache_state ev')) < 2)"
proof (rule write_within_budget)
  show "evictor_run mem_dir 100 (touched (evictor_new 100) (lit ''a'') 60 1)"
    by (rule evictor_run.track [OF evictor_run.start, where path = "lit ''a''" and bytes = 60 and t = 1 and evict = True and draws = "[]" and w = "[]"])
      (simp add: track_touched touched_def evictor_new_def fetch_add_def wrap64_def)
  show "supplies 2 (2 * 2) [0, 1, 0, 1, 0, 1, 0, 1]"
    unfolding supplies_def by (rule exI [of _ "[]"], rule exI [of _ "[[0, 1], [0, 1], [0, 1], [0, 1]]"]) (auto simp: less_2_cases_iff)
qed (simp_all add: removable_def mem_dir_def touched_def evictor_new_def tracked_bytes_def size_of_def lit_def)

end
