(* ===== verification/SingleFlight.thy ===== *)
theory SingleFlight
  imports Prelude
begin

text \<open>
  \<^verbatim>\<open>src/storage/part_cache/single_flight.rs\<close>: calls for one key that overlap share one execution. Callers
  interleave at the points where the code takes the lock or awaits, so a group is a state machine: the map
  from keys to their shared cells, what the cells hold, and the guard of every caller that is inside.
\<close>

section \<open>State\<close>

text \<open>
  A caller waits for its cell, runs its function as the cell's initializer, or has its result and is about to
  drop its guard. Callers and cells are numbered; a caller number is one invocation of \<^verbatim>\<open>call\<close>.
\<close>

datatype ('e, 't) phase = Waiting | Running | Returned "'e + 't"

record ('k, 'e, 't) EntryGuard =
  eg_key :: 'k
  eg_cell :: nat
  eg_phase :: "('e, 't) phase"

record ('k, 'e, 't) SingleFlight =
  in_flight :: "'k \<rightharpoonup> nat"
  once_cells :: "nat \<rightharpoonup> 't"
  guards :: "(nat \<times> ('k, 'e, 't) EntryGuard) list"
  next_cell :: nat

definition flight_new :: "('k, 'e, 't) SingleFlight" where
  "flight_new = \<lparr>in_flight = Map.empty, once_cells = Map.empty, guards = [], next_cell = 0\<rparr>"

section \<open>Operations\<close>

text \<open>Entering: the cell of the key, or a fresh one that others will find.\<close>

definition enter_call :: "nat \<Rightarrow> 'k \<Rightarrow> ('k, 'e, 't) SingleFlight \<Rightarrow> ('k, 'e, 't) SingleFlight" where
  "enter_call c k sf =
     (case in_flight sf k of
        Some cell \<Rightarrow> sf\<lparr>guards := (c, \<lparr>eg_key = k, eg_cell = cell, eg_phase = Waiting\<rparr>) # guards sf\<rparr>
      | None \<Rightarrow>
          let cell = next_cell sf in
          sf\<lparr>in_flight := (in_flight sf)(k \<mapsto> cell), next_cell := cell + 1,
             guards := (c, \<lparr>eg_key = k, eg_cell = cell, eg_phase = Waiting\<rparr>) # guards sf\<rparr>)"

definition set_phase :: "nat \<Rightarrow> ('e, 't) phase \<Rightarrow> ('k, 'e, 't) SingleFlight \<Rightarrow> ('k, 'e, 't) SingleFlight" where
  "set_phase c ph sf = sf\<lparr>guards := map (\<lambda>(d, g). (d, if d = c then g\<lparr>eg_phase := ph\<rparr> else g)) (guards sf)\<rparr>"

text \<open>Whether some caller initializes the cell.\<close>

definition initializing :: "nat \<Rightarrow> ('k, 'e, 't) SingleFlight \<Rightarrow> bool" where
  "initializing cell sf \<longleftrightarrow> (\<exists>(d, g) \<in> set (guards sf). eg_cell g = cell \<and> eg_phase g = Running)"

text \<open>
  \<^verbatim>\<open>OnceCell::get_or_try_init\<close>: a caller that finds a value returns it; one that finds the cell empty and
  nobody at it runs its function; otherwise it waits on. A result that is an error leaves the cell empty.
\<close>

definition poll_cell :: "nat \<Rightarrow> ('k, 'e, 't) EntryGuard \<Rightarrow> ('k, 'e, 't) SingleFlight \<Rightarrow> ('k, 'e, 't) SingleFlight" where
  "poll_cell c g sf =
     (case once_cells sf (eg_cell g) of
        Some v \<Rightarrow> set_phase c (Returned (Inr v)) sf
      | None \<Rightarrow> if initializing (eg_cell g) sf then sf else set_phase c Running sf)"

definition finish_init :: "nat \<Rightarrow> ('k, 'e, 't) EntryGuard \<Rightarrow> 'e + 't \<Rightarrow> ('k, 'e, 't) SingleFlight \<Rightarrow> ('k, 'e, 't) SingleFlight" where
  "finish_init c g r sf =
     (case r of
        Inr v \<Rightarrow> set_phase c (Returned (Inr v)) (sf\<lparr>once_cells := (once_cells sf)(eg_cell g \<mapsto> v)\<rparr>)
      | Inl e \<Rightarrow> set_phase c (Returned (Inl e)) sf)"

text \<open>The map holds one reference to a cell, every guard on it another.\<close>

definition strong_count :: "nat \<Rightarrow> ('k, 'e, 't) SingleFlight \<Rightarrow> nat" where
  "strong_count cell sf = 1 + length (filter (\<lambda>(d, g). eg_cell g = cell) (guards sf))"

definition drop_guard :: "nat \<Rightarrow> ('k, 'e, 't) EntryGuard \<Rightarrow> ('k, 'e, 't) SingleFlight \<Rightarrow> ('k, 'e, 't) SingleFlight" where
  "drop_guard c g sf =
     (let sf = sf\<lparr>guards := filter (\<lambda>(d, g). d \<noteq> c) (guards sf)\<rparr> in
      case in_flight sf (eg_key g) of
        Some cell \<Rightarrow> if strong_count cell sf = 1 then sf\<lparr>in_flight := (in_flight sf)(eg_key g := None)\<rparr> else sf
      | None \<Rightarrow> sf)"

section \<open>Interleavings\<close>

text \<open>A guard is dropped when its call returns, and at any other time when the call is cancelled.\<close>

datatype ('k, 'e, 't) flight_event = Enter nat 'k | Poll nat | Finish nat 'k "'e + 't" | DropGuard nat

inductive flight_step :: "('k, 'e, 't) SingleFlight \<Rightarrow> ('k, 'e, 't) flight_event \<Rightarrow> ('k, 'e, 't) SingleFlight \<Rightarrow> bool" where
  enter: "map_of (guards sf) c = None \<Longrightarrow> flight_step sf (Enter c k) (enter_call c k sf)"
| poll: "map_of (guards sf) c = Some g \<Longrightarrow> eg_phase g = Waiting \<Longrightarrow> flight_step sf (Poll c) (poll_cell c g sf)"
| finish: "map_of (guards sf) c = Some g \<Longrightarrow> eg_phase g = Running \<Longrightarrow> flight_step sf (Finish c (eg_key g) r) (finish_init c g r sf)"
| drop: "map_of (guards sf) c = Some g \<Longrightarrow> flight_step sf (DropGuard c) (drop_guard c g sf)"

inductive flight_run :: "('k, 'e, 't) flight_event list \<Rightarrow> ('k, 'e, 't) SingleFlight \<Rightarrow> bool" where
  start: "flight_run [] flight_new"
| step: "flight_run es sf \<Longrightarrow> flight_step sf e sf' \<Longrightarrow> flight_run (es @ [e]) sf'"

section \<open>Invariant\<close>

text \<open>
  A cell is in the map as long as, and only as long as, somebody holds it; at most one of its holders runs,
  and what a call returned is in the cell and was the result of a function run for the key.
\<close>

definition holds :: "('k, 'e, 't) SingleFlight \<Rightarrow> nat \<Rightarrow> ('k, 'e, 't) EntryGuard \<Rightarrow> bool" where
  "holds sf c g \<longleftrightarrow> (c, g) \<in> set (guards sf)"

definition flight_ok :: "('k, 'e, 't) flight_event list \<Rightarrow> ('k, 'e, 't) SingleFlight \<Rightarrow> bool" where
  "flight_ok es sf \<longleftrightarrow>
     distinct (map fst (guards sf)) \<and>
     (\<forall>c g. holds sf c g \<longrightarrow> in_flight sf (eg_key g) = Some (eg_cell g)) \<and>
     (\<forall>k cell. in_flight sf k = Some cell \<longrightarrow> cell < next_cell sf \<and> (\<exists>c g. holds sf c g \<and> eg_key g = k)) \<and>
     (\<forall>k k' cell. in_flight sf k = Some cell \<longrightarrow> in_flight sf k' = Some cell \<longrightarrow> k = k') \<and>
     (\<forall>cell v. once_cells sf cell = Some v \<longrightarrow> cell < next_cell sf) \<and>
     (\<forall>c g d h. holds sf c g \<longrightarrow> holds sf d h \<longrightarrow> eg_phase g = Running \<longrightarrow> eg_phase h = Running \<longrightarrow> eg_key g = eg_key h \<longrightarrow> c = d) \<and>
     (\<forall>c g. holds sf c g \<longrightarrow> eg_phase g = Running \<longrightarrow> once_cells sf (eg_cell g) = None) \<and>
     (\<forall>c g v. holds sf c g \<longrightarrow> eg_phase g = Returned (Inr v) \<longrightarrow> once_cells sf (eg_cell g) = Some v) \<and>
     (\<forall>k cell v. in_flight sf k = Some cell \<longrightarrow> once_cells sf cell = Some v \<longrightarrow> (\<exists>c. Finish c k (Inr v) \<in> set es))"

lemma holds_set_phase:
  "holds (set_phase c ph sf) d h \<longleftrightarrow> (\<exists>g. holds sf d g \<and> h = (if d = c then g\<lparr>eg_phase := ph\<rparr> else g))"
  by (auto simp: holds_def set_phase_def image_iff split: prod.splits)

lemma set_phase_simps [simp]:
  "in_flight (set_phase c ph sf) = in_flight sf" "once_cells (set_phase c ph sf) = once_cells sf"
  "next_cell (set_phase c ph sf) = next_cell sf" "map fst (guards (set_phase c ph sf)) = map fst (guards sf)"
  by (auto simp: set_phase_def)

lemma holds_unique: "flight_ok es sf \<Longrightarrow> holds sf c g \<Longrightarrow> holds sf c h \<Longrightarrow> g = h"
  by (auto simp: flight_ok_def holds_def dest: eq_key_imp_eq_value)

lemma holds_map_of: "map_of (guards sf) c = Some g \<Longrightarrow> holds sf c g"
  by (simp add: holds_def map_of_SomeD)

lemma fresh_caller: "map_of (guards sf) c = None \<Longrightarrow> \<not> holds sf c g"
  by (auto simp: holds_def map_of_eq_None_iff image_iff)

text \<open>Each part of the invariant by its name.\<close>

lemma flight_okD:
  assumes "flight_ok es sf"
  shows "distinct (map fst (guards sf))"
    and "holds sf c g \<Longrightarrow> in_flight sf (eg_key g) = Some (eg_cell g)"
    and "in_flight sf k = Some cell \<Longrightarrow> cell < next_cell sf"
    and "in_flight sf k = Some cell \<Longrightarrow> \<exists>c g. holds sf c g \<and> eg_key g = k"
    and "in_flight sf k = Some cell \<Longrightarrow> in_flight sf k' = Some cell \<Longrightarrow> k = k'"
    and "once_cells sf cell = Some v \<Longrightarrow> cell < next_cell sf"
    and "holds sf c g \<Longrightarrow> holds sf d h \<Longrightarrow> eg_phase g = Running \<Longrightarrow> eg_phase h = Running \<Longrightarrow> eg_key g = eg_key h \<Longrightarrow> c = d"
    and "holds sf c g \<Longrightarrow> eg_phase g = Running \<Longrightarrow> once_cells sf (eg_cell g) = None"
    and "holds sf c g \<Longrightarrow> eg_phase g = Returned (Inr v) \<Longrightarrow> once_cells sf (eg_cell g) = Some v"
    and "in_flight sf k = Some cell \<Longrightarrow> once_cells sf cell = Some v \<Longrightarrow> \<exists>c. Finish c k (Inr v) \<in> set es"
  by (insert assms [unfolded flight_ok_def], elim conjE, assumption) (elim conjE, metis)+

lemma flight_okI:
  assumes "distinct (map fst (guards sf))"
    and "\<And>c g. holds sf c g \<Longrightarrow> in_flight sf (eg_key g) = Some (eg_cell g)"
    and "\<And>k cell. in_flight sf k = Some cell \<Longrightarrow> cell < next_cell sf"
    and "\<And>k cell. in_flight sf k = Some cell \<Longrightarrow> \<exists>c g. holds sf c g \<and> eg_key g = k"
    and "\<And>k k' cell. in_flight sf k = Some cell \<Longrightarrow> in_flight sf k' = Some cell \<Longrightarrow> k = k'"
    and "\<And>cell v. once_cells sf cell = Some v \<Longrightarrow> cell < next_cell sf"
    and "\<And>c g d h. holds sf c g \<Longrightarrow> holds sf d h \<Longrightarrow> eg_phase g = Running \<Longrightarrow> eg_phase h = Running \<Longrightarrow> eg_key g = eg_key h \<Longrightarrow> c = d"
    and "\<And>c g. holds sf c g \<Longrightarrow> eg_phase g = Running \<Longrightarrow> once_cells sf (eg_cell g) = None"
    and "\<And>c g v. holds sf c g \<Longrightarrow> eg_phase g = Returned (Inr v) \<Longrightarrow> once_cells sf (eg_cell g) = Some v"
    and "\<And>k cell v. in_flight sf k = Some cell \<Longrightarrow> once_cells sf cell = Some v \<Longrightarrow> \<exists>c. Finish c k (Inr v) \<in> set es"
  shows "flight_ok es sf"
  unfolding flight_ok_def using assms by blast

lemma ok_enter:
  assumes ok: "flight_ok es sf" and c: "map_of (guards sf) c = None"
  shows "flight_ok es (enter_call c k sf)"
proof -
  define cell where "cell = (case in_flight sf k of Some x \<Rightarrow> x | None \<Rightarrow> next_cell sf)"
  define g where "g = \<lparr>eg_key = k, eg_cell = cell, eg_phase = (Waiting :: ('b, 'c) phase)\<rparr>"
  have E: "in_flight (enter_call c k sf) = (in_flight sf)(k \<mapsto> cell)" "once_cells (enter_call c k sf) = once_cells sf"
    "guards (enter_call c k sf) = (c, g) # guards sf" "next_cell sf \<le> next_cell (enter_call c k sf)" "cell < next_cell (enter_call c k sf)"
    using flight_okD(3) [OF ok] by (auto simp: enter_call_def cell_def g_def Let_def fun_upd_idem_iff split: option.splits)
  have new: "x \<noteq> cell" if "in_flight sf q = Some x" "q \<noteq> k" for q x
    using that flight_okD(3,5) [OF ok] by (fastforce simp: cell_def split: option.splits)
  have H: "holds (enter_call c k sf) d h \<longleftrightarrow> (d = c \<and> h = g) \<or> holds sf d h" for d h by (auto simp: holds_def E)
  have "c \<notin> fst ` set (guards sf)" using c by (simp add: map_of_eq_None_iff)
  show ?thesis
  proof (rule flight_okI)
    show "distinct (map fst (guards (enter_call c k sf)))" using flight_okD(1) [OF ok] \<open>c \<notin> _\<close> by (simp add: E)
    show "in_flight (enter_call c k sf) (eg_key h) = Some (eg_cell h)" if "holds (enter_call c k sf) d h" for d h
      using that flight_okD(2) [OF ok] by (auto simp: H E g_def cell_def split: option.splits)
    show "x < next_cell (enter_call c k sf)" if "in_flight (enter_call c k sf) q = Some x" for q x
      using that flight_okD(3) [OF ok, of q x] E(4,5) by (auto simp: E(1) split: if_splits)
    show "\<exists>d h. holds (enter_call c k sf) d h \<and> eg_key h = q" if "in_flight (enter_call c k sf) q = Some x" for q x
    proof (cases "q = k")
      case True
      then show ?thesis by (intro exI [of _ c] exI [of _ g]) (simp add: H g_def)
    qed (use that flight_okD(4) [OF ok, of q x] in \<open>auto simp: H E(1)\<close>)
    show "q = q'" if "in_flight (enter_call c k sf) q = Some x" "in_flight (enter_call c k sf) q' = Some x" for q q' x
      using that new flight_okD(5) [OF ok, of q x q'] by (auto simp: E(1) split: if_splits)
    show "x < next_cell (enter_call c k sf)" if "once_cells (enter_call c k sf) x = Some v" for x v
      using that flight_okD(6) [OF ok, of x v] E(4) by (simp add: E(2))
    show "d = d'" if "holds (enter_call c k sf) d h" "holds (enter_call c k sf) d' h'" "eg_phase h = Running" "eg_phase h' = Running"
      "eg_key h = eg_key h'" for d h d' h'
      using that flight_okD(7) [OF ok, of d h d' h'] by (auto simp: H g_def)
    show "once_cells (enter_call c k sf) (eg_cell h) = None" if "holds (enter_call c k sf) d h" "eg_phase h = Running" for d h
      using that flight_okD(8) [OF ok, of d h] by (auto simp: H E g_def)
    show "once_cells (enter_call c k sf) (eg_cell h) = Some v" if "holds (enter_call c k sf) d h" "eg_phase h = Returned (Inr v)" for d h v
      using that flight_okD(9) [OF ok, of d h v] by (auto simp: H E g_def)
    show "\<exists>d. Finish d q (Inr v) \<in> set es" if "in_flight (enter_call c k sf) q = Some x" "once_cells (enter_call c k sf) x = Some v" for q x v
    proof -
      have "in_flight sf q = Some x"
        using that flight_okD(6) [OF ok, of x v] by (auto simp: E cell_def split: if_splits option.splits)
      with that(2) flight_okD(10) [OF ok] show ?thesis by (simp add: E(2))
    qed
  qed
qed

lemma ok_set_phase:
  assumes ok: "flight_ok es sf" and g: "holds sf c g"
    and ph: "ph = Running \<Longrightarrow> \<not> initializing (eg_cell g) sf \<and> once_cells sf (eg_cell g) = None"
    and ret: "\<And>v. ph = Returned (Inr v) \<Longrightarrow> once_cells sf (eg_cell g) = Some v"
  shows "flight_ok es (set_phase c ph sf)"
proof (rule flight_okI)
  note O = flight_okD [OF ok]
  let ?sf = "set_phase c ph sf"
  have at_c: "holds sf c h \<Longrightarrow> h = g" for h using holds_unique [OF ok] g by blast
  show "distinct (map fst (guards ?sf))" using O(1) by simp
  show "in_flight ?sf (eg_key h) = Some (eg_cell h)" if "holds ?sf d h" for d h
    using that O(2) by (auto simp: holds_set_phase split: if_splits)
  show "x < next_cell ?sf" if "in_flight ?sf q = Some x" for q x using that O(3) by simp
  show "\<exists>d h. holds ?sf d h \<and> eg_key h = q" if q: "in_flight ?sf q = Some x" for q x
  proof -
    from q O(4) obtain d h where "holds sf d h" "eg_key h = q" by force
    then have "holds ?sf d (if d = c then h\<lparr>eg_phase := ph\<rparr> else h)" "eg_key (if d = c then h\<lparr>eg_phase := ph\<rparr> else h) = q"
      by (auto simp: holds_set_phase)
    then show ?thesis by blast
  qed
  show "q = q'" if "in_flight ?sf q = Some x" "in_flight ?sf q' = Some x" for q q' x using that O(5) by simp
  show "x < next_cell ?sf" if "once_cells ?sf x = Some v" for x v using that O(6) by simp
  have other: False if "ph = Running" "holds sf d h" "eg_phase h = Running" "eg_key h = eg_key g" for d h
    using that ph O(2) [OF that(2)] O(2) [OF g] by (auto simp: initializing_def holds_def)
  show "d = d'" if "holds ?sf d h" "holds ?sf d' h'" "eg_phase h = Running" "eg_phase h' = Running" "eg_key h = eg_key h'" for d h d' h'
    using that other at_c O(7) by (auto simp: holds_set_phase split: if_splits) (metis+)
  show "once_cells ?sf (eg_cell h) = None" if "holds ?sf d h" "eg_phase h = Running" for d h
    using that ph at_c O(8) by (auto simp: holds_set_phase split: if_splits)
  show "once_cells ?sf (eg_cell h) = Some v" if "holds ?sf d h" "eg_phase h = Returned (Inr v)" for d h v
    using that ret at_c O(9) by (auto simp: holds_set_phase split: if_splits)
  show "\<exists>d. Finish d q (Inr v) \<in> set es" if "in_flight ?sf q = Some x" "once_cells ?sf x = Some v" for q x v
    using that O(10) by simp
qed

lemma ok_fill:
  assumes ok: "flight_ok es sf" and g: "holds sf c g" and empty: "once_cells sf (eg_cell g) = None"
    and idle: "\<not> initializing (eg_cell g) sf"
  shows "flight_ok (es @ [Finish c (eg_key g) (Inr v)]) (sf\<lparr>once_cells := (once_cells sf)(eg_cell g \<mapsto> v)\<rparr>)"
proof (rule flight_okI)
  note O = flight_okD [OF ok]
  let ?sf = "sf\<lparr>once_cells := (once_cells sf)(eg_cell g \<mapsto> v)\<rparr>"
  have H: "holds ?sf d h \<longleftrightarrow> holds sf d h" for d h by (simp add: holds_def)
  show "distinct (map fst (guards ?sf))" using O(1) by simp
  show "in_flight ?sf (eg_key h) = Some (eg_cell h)" if "holds ?sf d h" for d h using that O(2) by (simp add: H)
  show "x < next_cell ?sf" if "in_flight ?sf q = Some x" for q x using that O(3) by simp
  show "\<exists>d h. holds ?sf d h \<and> eg_key h = q" if "in_flight ?sf q = Some x" for q x using that O(4) by (simp add: H)
  show "q = q'" if "in_flight ?sf q = Some x" "in_flight ?sf q' = Some x" for q q' x using that O(5) by simp
  show "x < next_cell ?sf" if "once_cells ?sf x = Some w" for x w
    using that O(6) O(3) [OF O(2) [OF g]] by (auto split: if_splits)
  show "d = d'" if "holds ?sf d h" "holds ?sf d' h'" "eg_phase h = Running" "eg_phase h' = Running" "eg_key h = eg_key h'" for d h d' h'
    using that O(7) by (simp add: H)
  show "once_cells ?sf (eg_cell h) = None" if "holds ?sf d h" "eg_phase h = Running" for d h
    using that O(8) idle by (auto simp: H initializing_def holds_def)
  show "once_cells ?sf (eg_cell h) = Some w" if "holds ?sf d h" "eg_phase h = Returned (Inr w)" for d h w
    using that O(9) [of d h w] empty by (auto simp: H)
  show "\<exists>d. Finish d q (Inr w) \<in> set (es @ [Finish c (eg_key g) (Inr v)])"
    if "in_flight ?sf q = Some x" "once_cells ?sf x = Some w" for q x w
  proof (cases "x = eg_cell g")
    case True
    with that O(5) [of q x "eg_key g"] O(2) [OF g] show ?thesis by auto
  next
    case False
    with that O(10) [of q x w] show ?thesis by auto
  qed
qed

lemma ok_more: "flight_ok es sf \<Longrightarrow> flight_ok (es @ [e]) sf"
  using flight_okD [of es sf] by (intro flight_okI) (simp | blast | metis UnI1 set_append)+

lemma ok_poll:
  assumes ok: "flight_ok es sf" and g: "holds sf c g"
  shows "flight_ok es (poll_cell c g sf)"
  using ok ok_set_phase [OF ok g] by (auto simp: poll_cell_def split: option.splits)

lemma ok_finish:
  assumes ok: "flight_ok es sf" and g: "holds sf c g" and run: "eg_phase g = Running"
  shows "flight_ok (es @ [Finish c (eg_key g) r]) (finish_init c g r sf)"
proof (cases r)
  case (Inl e)
  with ok_more [OF ok_set_phase [OF ok g, of "Returned (Inl e)"]] show ?thesis by (simp add: finish_init_def)
next
  case (Inr v)
  let ?g = "g\<lparr>eg_phase := Waiting\<rparr>" and ?sf = "set_phase c Waiting sf"
  let ?sf' = "?sf\<lparr>once_cells := (once_cells sf)(eg_cell g \<mapsto> v)\<rparr>"
  note O = flight_okD [OF ok]
  have waiting: "flight_ok es ?sf" by (rule ok_set_phase [OF ok g]) simp_all
  have held: "holds ?sf c ?g" using g by (auto simp: holds_set_phase)
  have idle: "\<not> initializing (eg_cell g) ?sf"
  proof
    assume "initializing (eg_cell g) ?sf"
    then obtain d h where dh: "holds ?sf d h" "eg_cell h = eg_cell g" "eg_phase h = Running" by (auto simp: initializing_def holds_def)
    from dh(1) obtain h0 where h0: "holds sf d h0" "h = (if d = c then h0\<lparr>eg_phase := Waiting\<rparr> else h0)"
      unfolding holds_set_phase by blast
    with dh(3) have "d \<noteq> c" "holds sf d h" by (auto split: if_splits)
    with dh O(2) [of d h] O(2) [OF g] O(5) [of "eg_key h" _ "eg_key g"] O(7) [OF _ g _ run] show False by force
  qed
  have "flight_ok (es @ [Finish c (eg_key g) (Inr v)]) ?sf'"
    using ok_fill [OF waiting held, of v] idle O(8) [OF g run] by simp
  moreover have "holds ?sf' c ?g" using held by (simp add: holds_def)
  ultimately have "flight_ok (es @ [Finish c (eg_key g) (Inr v)]) (set_phase c (Returned (Inr v)) ?sf')"
    by (rule ok_set_phase) simp_all
  moreover have "set_phase c (Returned (Inr v)) ?sf' = finish_init c g r sf"
    by (simp add: Inr finish_init_def set_phase_def comp_def case_prod_unfold cong: if_cong)
  ultimately show ?thesis by (simp add: Inr)
qed

lemma ok_drop:
  assumes ok: "flight_ok es sf" and g: "holds sf c g"
  shows "flight_ok es (drop_guard c g sf)"
proof -
  note O = flight_okD [OF ok]
  define last where "last \<longleftrightarrow> (\<forall>d h. holds sf d h \<longrightarrow> eg_key h = eg_key g \<longrightarrow> d = c)"
  let ?sf = "drop_guard c g sf"
  have "strong_count (eg_cell g) (sf\<lparr>guards := filter (\<lambda>(d, g). d \<noteq> c) (guards sf)\<rparr>) = 1 \<longleftrightarrow> last"
  proof -
    have "last \<longleftrightarrow> (\<forall>d h. holds sf d h \<longrightarrow> eg_cell h = eg_cell g \<longrightarrow> d = c)"
      unfolding last_def using O(2) O(2) [OF g] O(5) by (metis option.inject)
    then show ?thesis by (auto simp: strong_count_def filter_empty_conv holds_def)
  qed
  then have D: "in_flight ?sf = (if last then (in_flight sf)(eg_key g := None) else in_flight sf)" "once_cells ?sf = once_cells sf"
    "next_cell ?sf = next_cell sf" "guards ?sf = filter (\<lambda>(d, g). d \<noteq> c) (guards sf)"
    using O(2) [OF g] by (auto simp: drop_guard_def Let_def)
  have H: "holds ?sf d h \<longleftrightarrow> holds sf d h \<and> d \<noteq> c" for d h by (auto simp: holds_def D)
  have sub: "in_flight ?sf q = Some x \<Longrightarrow> in_flight sf q = Some x" for q x by (auto simp: D split: if_splits)
  show ?thesis
  proof (rule flight_okI)
    show "distinct (map fst (guards ?sf))" using O(1) by (simp add: D distinct_map_filter)
    show "in_flight ?sf (eg_key h) = Some (eg_cell h)" if "holds ?sf d h" for d h
      using that O(2) [of d h] by (auto simp: H D last_def)
    show "x < next_cell ?sf" if "in_flight ?sf q = Some x" for q x using sub [OF that] O(3) by (simp add: D)
    show "\<exists>d h. holds ?sf d h \<and> eg_key h = q" if q: "in_flight ?sf q = Some x" for q x
    proof (cases "q = eg_key g")
      case True
      with q have "\<not> last" by (auto simp: D)
      then show ?thesis using True by (auto simp: last_def H)
    next
      case False
      from O(4) [OF sub [OF q]] obtain d h where dh: "holds sf d h" "eg_key h = q" by blast
      with False holds_unique [OF ok g] have "d \<noteq> c" by auto
      with dh show ?thesis by (auto simp: H)
    qed
    show "q = q'" if "in_flight ?sf q = Some x" "in_flight ?sf q' = Some x" for q q' x using O(5) sub that by blast
    show "x < next_cell ?sf" if "once_cells ?sf x = Some v" for x v using that O(6) by (simp add: D)
    show "d = d'" if "holds ?sf d h" "holds ?sf d' h'" "eg_phase h = Running" "eg_phase h' = Running" "eg_key h = eg_key h'" for d h d' h'
      using that O(7) [of d h d' h'] by (simp add: H)
    show "once_cells ?sf (eg_cell h) = None" if "holds ?sf d h" "eg_phase h = Running" for d h using that O(8) [of d h] by (simp add: H D)
    show "once_cells ?sf (eg_cell h) = Some v" if "holds ?sf d h" "eg_phase h = Returned (Inr v)" for d h v
      using that O(9) [of d h v] by (simp add: H D)
    show "\<exists>d. Finish d q (Inr v) \<in> set es" if "in_flight ?sf q = Some x" "once_cells ?sf x = Some v" for q x v
      using sub [OF that(1)] that(2) O(10) by (simp add: D)
  qed
qed

lemma flight_run_ok: "flight_run es sf \<Longrightarrow> flight_ok es sf"
proof (induction rule: flight_run.induct)
  case start
  then show ?case by (simp add: flight_ok_def flight_new_def holds_def)
next
  case (step es sf e sf')
  from step.hyps(2) step.IH show ?case
    by cases (auto intro: ok_more ok_enter ok_poll ok_finish ok_drop dest: holds_map_of)
qed

section \<open>Properties\<close>

text \<open>C35: However the callers interleave, fail or are cancelled, at any time at most one of them runs its function for
  a key; all results that calls for the key have and still hold are the same value, which some function run for
  that key returned; and the key is in the map exactly while a caller holds it, so that the map is empty once all have left.\<close>

theorem flights_shared:
  assumes "flight_run es sf"
  shows "(\<forall>c g d h. holds sf c g \<and> holds sf d h \<and> eg_key g = eg_key h \<longrightarrow>
      (eg_phase g = Running \<and> eg_phase h = Running \<longrightarrow> c = d) \<and>
      (\<forall>v w. eg_phase g = Returned (Inr v) \<and> eg_phase h = Returned (Inr w) \<longrightarrow> v = w)) \<and>
    (\<forall>c g v. holds sf c g \<and> eg_phase g = Returned (Inr v) \<longrightarrow> (\<exists>d. Finish d (eg_key g) (Inr v) \<in> set es)) \<and>
    (\<forall>k. in_flight sf k \<noteq> None \<longleftrightarrow> (\<exists>c g. holds sf c g \<and> eg_key g = k))"
proof -
  note O = flight_okD [OF flight_run_ok [OF assms]]
  have "(eg_phase g = Running \<and> eg_phase h = Running \<longrightarrow> c = d) \<and>
      (\<forall>v w. eg_phase g = Returned (Inr v) \<and> eg_phase h = Returned (Inr w) \<longrightarrow> v = w)"
    if "holds sf c g" "holds sf d h" "eg_key g = eg_key h" for c g d h
    using that O(7) [OF that(1,2)] O(2) [OF that(1)] O(2) [OF that(2)] O(9) [OF that(1)] O(9) [OF that(2)] by auto
  moreover have "\<exists>d. Finish d (eg_key g) (Inr v) \<in> set es" if "holds sf c g" "eg_phase g = Returned (Inr v)" for c g v
    using O(10) [OF O(2) [OF that(1)] O(9) [OF that]] .
  moreover have "in_flight sf k \<noteq> None \<longleftrightarrow> (\<exists>c g. holds sf c g \<and> eg_key g = k)" for k
    using O(2,4) by force
  ultimately show ?thesis by blast
qed

text \<open>Two callers of one key: the second enters and polls while the first runs, and gets its value.\<close>

definition two_calls :: "(nat, nat, nat) flight_event list" where
  "two_calls = [Enter 1 7, Enter 2 7, Poll 1, Poll 2, Finish 1 7 (Inr 5), Poll 2]"

definition call_guard :: "(nat, nat) phase \<Rightarrow> (nat, nat, nat) EntryGuard" where
  "call_guard ph = \<lparr>eg_key = 7, eg_cell = 0, eg_phase = ph\<rparr>"

definition two_flights :: "(nat, nat) phase \<Rightarrow> (nat, nat) phase \<Rightarrow> (nat \<rightharpoonup> nat) \<Rightarrow> (nat, nat, nat) SingleFlight" where
  "two_flights ph1 ph2 cells =
     \<lparr>in_flight = [7 \<mapsto> 0], once_cells = cells, guards = [(2, call_guard ph2), (1, call_guard ph1)], next_cell = 1\<rparr>"

lemmas two_flights_defs = two_flights_def call_guard_def set_phase_def initializing_def poll_cell_def finish_init_def

lemma two_flights_run: "flight_run two_calls (two_flights (Returned (Inr 5)) (Returned (Inr 5)) [0 \<mapsto> 5])"
proof -
  have "flight_step (enter_call 1 7 flight_new) (Enter 2 7) (two_flights Waiting Waiting Map.empty)"
    using flight_step.enter [of "enter_call 1 7 flight_new" 2 7]
    by (simp add: enter_call_def flight_new_def two_flights_def call_guard_def)
  moreover have "flight_run [Enter 1 7] (enter_call 1 7 flight_new)"
    using flight_run.step [OF flight_run.start flight_step.enter] by (simp add: flight_new_def)
  ultimately have "flight_run ([Enter 1 7] @ [Enter 2 7]) (two_flights Waiting Waiting Map.empty)" by (rule flight_run.step [rotated])
  moreover have "flight_step (two_flights Waiting Waiting Map.empty) (Poll 1) (two_flights Running Waiting Map.empty)"
    using flight_step.poll [of "two_flights Waiting Waiting Map.empty" 1 "call_guard Waiting"] by (simp add: two_flights_defs)
  moreover have "flight_step (two_flights Running Waiting Map.empty) (Poll 2) (two_flights Running Waiting Map.empty)"
    using flight_step.poll [of "two_flights Running Waiting Map.empty" 2 "call_guard Waiting"] by (simp add: two_flights_defs)
  moreover have "flight_step (two_flights Running Waiting Map.empty) (Finish 1 7 (Inr 5)) (two_flights (Returned (Inr 5)) Waiting [0 \<mapsto> 5])"
    using flight_step.finish [of "two_flights Running Waiting Map.empty" 1 "call_guard Running" "Inr 5"] by (simp add: two_flights_defs)
  moreover have "flight_step (two_flights (Returned (Inr 5)) Waiting [0 \<mapsto> 5]) (Poll 2)
      (two_flights (Returned (Inr 5)) (Returned (Inr 5)) [0 \<mapsto> 5])"
    using flight_step.poll [of "two_flights (Returned (Inr 5)) Waiting [0 \<mapsto> 5]" 2 "call_guard Waiting"] by (simp add: two_flights_defs)
  ultimately have "flight_run (((([Enter 1 7] @ [Enter 2 7]) @ [Poll 1]) @ [Poll 2]) @ [Finish 1 7 (Inr 5)] @ [Poll 2])
      (two_flights (Returned (Inr 5)) (Returned (Inr 5)) [0 \<mapsto> 5])"
    unfolding append_assoc [symmetric] by (blast intro: flight_run.step)
  then show ?thesis by (simp add: two_calls_def)
qed

theorem flights_shared_witness:
  "holds (two_flights (Returned (Inr 5)) (Returned (Inr 5)) [0 \<mapsto> 5]) 2 (call_guard (Returned (Inr 5))) \<and>
   (\<exists>d. Finish d 7 (Inr 5) \<in> set two_calls) \<and>
   in_flight (two_flights (Returned (Inr 5)) (Returned (Inr 5)) [0 \<mapsto> 5]) 7 \<noteq> None"
proof -
  let ?sf = "two_flights (Returned (Inr 5)) (Returned (Inr 5)) [0 \<mapsto> 5]"
  have h: "holds ?sf 2 (call_guard (Returned (Inr 5)))" by (simp add: holds_def two_flights_def)
  have g: "eg_key (call_guard (Returned (Inr 5))) = 7" "eg_phase (call_guard (Returned (Inr 5))) = Returned (Inr 5)"
    by (simp_all add: call_guard_def)
  note S = conjunct2 [OF flights_shared [OF two_flights_run]]
  from conjunct1 [OF S] h g have "\<exists>d. Finish d 7 (Inr 5) \<in> set two_calls" by metis
  moreover from conjunct2 [OF S] h g have "in_flight ?sf 7 \<noteq> None" by blast
  ultimately show ?thesis using h by blast
qed

end
