(* ===== verification/Config.thy ===== *)
theory Config
  imports Receive_Wire FetchEndpoint
begin

text \<open>
  \<^verbatim>\<open>src/config.rs\<close> and the settings part of \<^verbatim>\<open>src/main.rs\<close>: where each setting comes from, what is rejected before
  storage is opened, and the storage URL. The flag parser, the TOML parser, the URL builder and the
  process environment are parameters; paths are those of a Unix system.
\<close>

section \<open>Settings\<close>

type_synonym SocketAddr = "bytes \<times> 16 word"

record Config =
  cfg_bind_addr :: SocketAddr
  cfg_storage_url :: str
  cfg_inline_threshold :: nat
  cfg_auto_create_repos :: bool
  cfg_staging_root :: str
  cfg_cache_dir :: "str option"
  cfg_cache_memory_bytes :: nat
  cfg_cache_disk_bytes :: nat
  cfg_warm_on_start :: bool
  cfg_object_compression_level :: u32
  cfg_config_path :: "str option"

record FileConfig =
  file_bind_addr :: "SocketAddr option"
  file_storage_url :: "str option"
  file_inline_threshold :: "nat option"
  file_auto_create_repos :: "bool option"
  file_staging_root :: "str option"
  file_cache_dir :: "str option"
  file_cache_memory_bytes :: "nat option"
  file_cache_disk_bytes :: "nat option"
  file_warm_on_start :: "bool option"
  file_object_compression_level :: "u32 option"
  file_log_filter :: "str option"

definition default_bind_addr :: SocketAddr where
  "default_bind_addr = ([127, 0, 0, 1], 8470)"

definition default_staging_root :: "str \<Rightarrow> str" where
  "default_staging_root temp_dir = temp_dir @ [47] @ lit ''miscreant-staging''"

definition config_default :: "str \<Rightarrow> Config" where
  "config_default temp_dir = \<lparr>cfg_bind_addr = default_bind_addr, cfg_storage_url = lit ''file://./miscreant-data'',
     cfg_inline_threshold = 65536, cfg_auto_create_repos = True, cfg_staging_root = default_staging_root temp_dir,
     cfg_cache_dir = None, cfg_cache_memory_bytes = 536870912, cfg_cache_disk_bytes = 34359738368,
     cfg_warm_on_start = False, cfg_object_compression_level = 6, cfg_config_path = None\<rparr>"

definition DEFAULT_LOG_FILTER :: str where
  "DEFAULT_LOG_FILTER = lit ''info''"

text \<open>Where the flag parser took a value from; a flag without a default that is not given has no source.\<close>

datatype ValueSource = DefaultValue | EnvVariable | CommandLine

datatype ConfigFileError = ReadConfig str | ParseConfig str

definition file_config_load :: "(str \<Rightarrow> str option) \<Rightarrow> (str \<Rightarrow> FileConfig option) \<Rightarrow> str \<Rightarrow> ConfigFileError + FileConfig" where
  "file_config_load read_to_string from_toml path =
     and_then (ok_or (ReadConfig path) (read_to_string path)) (\<lambda>text. ok_or (ParseConfig path) (from_toml text))"

definition over :: "bool \<Rightarrow> 'a option \<Rightarrow> 'a \<Rightarrow> 'a" where
  "over use_file v current = (case v of Some x \<Rightarrow> if use_file then x else current | None \<Rightarrow> current)"

definition merge_file_config :: "(str \<Rightarrow> ValueSource option) \<Rightarrow> Config \<Rightarrow> FileConfig \<Rightarrow> Config" where
  "merge_file_config value_source config file =
     (let left_at_default = (\<lambda>i. value_source i = Some DefaultValue) in
      \<lparr>cfg_bind_addr = over (left_at_default (lit ''bind_addr'')) (file_bind_addr file) (cfg_bind_addr config),
       cfg_storage_url = over (left_at_default (lit ''storage_url'')) (file_storage_url file) (cfg_storage_url config),
       cfg_inline_threshold = over (left_at_default (lit ''inline_threshold'')) (file_inline_threshold file) (cfg_inline_threshold config),
       cfg_auto_create_repos = over (left_at_default (lit ''auto_create_repos'')) (file_auto_create_repos file) (cfg_auto_create_repos config),
       cfg_staging_root = over (left_at_default (lit ''staging_root'')) (file_staging_root file) (cfg_staging_root config),
       cfg_cache_dir = over (value_source (lit ''cache_dir'') \<notin> {Some CommandLine, Some EnvVariable})
         (map_option Some (file_cache_dir file)) (cfg_cache_dir config),
       cfg_cache_memory_bytes = over (left_at_default (lit ''cache_memory_bytes'')) (file_cache_memory_bytes file) (cfg_cache_memory_bytes config),
       cfg_cache_disk_bytes = over (left_at_default (lit ''cache_disk_bytes'')) (file_cache_disk_bytes file) (cfg_cache_disk_bytes config),
       cfg_warm_on_start = over (left_at_default (lit ''warm_on_start'')) (file_warm_on_start file) (cfg_warm_on_start config),
       cfg_object_compression_level =
         over (left_at_default (lit ''object_compression_level'')) (file_object_compression_level file) (cfg_object_compression_level config),
       cfg_config_path = cfg_config_path config\<rparr>)"

datatype StartError = ConfigFile ConfigFileError | CompressionLevel u32 | WarmWithoutCache

text \<open>The start of \<^verbatim>\<open>main\<close> up to opening storage, and the check that \<^verbatim>\<open>serve\<close> makes first.\<close>

definition effective_config ::
  "(str \<Rightarrow> str option) \<Rightarrow> (str \<Rightarrow> FileConfig option) \<Rightarrow> (str \<Rightarrow> ValueSource option) \<Rightarrow> Config \<Rightarrow> StartError + (Config \<times> str)" where
  "effective_config read_to_string from_toml value_source config =
     and_then
       (case cfg_config_path config of
          None \<Rightarrow> Inr None
        | Some path \<Rightarrow> map_err ConfigFile (and_then (file_config_load read_to_string from_toml path) (\<lambda>f. Inr (Some f)))) (\<lambda>file.
     let config = (case file of Some f \<Rightarrow> merge_file_config value_source config f | None \<Rightarrow> config) in
     if 9 < cfg_object_compression_level config then Inl (CompressionLevel (cfg_object_compression_level config))
     else Inr (config, case file of Some f \<Rightarrow> (case file_log_filter f of Some l \<Rightarrow> l | None \<Rightarrow> DEFAULT_LOG_FILTER)
                        | None \<Rightarrow> DEFAULT_LOG_FILTER))"

definition serve_check :: "Config \<Rightarrow> StartError + unit" where
  "serve_check config = (if cfg_warm_on_start config \<and> cfg_cache_dir config = None then Inl WarmWithoutCache else Inr ())"

section \<open>The storage URL\<close>

text \<open>\<^verbatim>\<open>Path::components\<close>: repeated separators and all \<open>.\<close> but a leading one disappear.\<close>

datatype Component = RootDir | CurDir | ParentDir | Normal str

definition component :: "str \<Rightarrow> Component" where
  "component s = (if s = [46] then CurDir else if s = [46, 46] then ParentDir else Normal s)"

definition is_absolute :: "str \<Rightarrow> bool" where
  "is_absolute p = prefix [47] p"

definition path_components :: "str \<Rightarrow> Component list" where
  "path_components p =
     (let names = filter (\<lambda>s. s \<noteq> []) (split_all 47 p) in
      if is_absolute p then RootDir # map component (filter (\<lambda>s. s \<noteq> [46]) names)
      else
        (case names of
           [] \<Rightarrow> []
         | n # ns \<Rightarrow> component n # map component (filter (\<lambda>s. s \<noteq> [46]) ns)))"

text \<open>\<^verbatim>\<open>PathBuf\<close> operations on the components: \<^verbatim>\<open>join\<close>, \<^verbatim>\<open>pop\<close> (which keeps a root), \<^verbatim>\<open>push\<close> and the text.\<close>

definition path_join :: "Component list \<Rightarrow> Component list \<Rightarrow> Component list" where
  "path_join base p = (case p of RootDir # cs \<Rightarrow> p | _ \<Rightarrow> base @ p)"

definition pop_path :: "Component list \<Rightarrow> Component list" where
  "pop_path out = (if out \<noteq> [] \<and> last out \<noteq> RootDir then butlast out else out)"

definition push_path :: "Component list \<Rightarrow> Component \<Rightarrow> Component list" where
  "push_path out c = (if c = RootDir then [RootDir] else out @ [c])"

fun component_text :: "Component \<Rightarrow> str" where
  "component_text RootDir = []"
| "component_text CurDir = [46]"
| "component_text ParentDir = [46, 46]"
| "component_text (Normal s) = s"

fun join_names :: "str list \<Rightarrow> str" where
  "join_names [] = []"
| "join_names [n] = n"
| "join_names (n # m # ns) = n @ [47] @ join_names (m # ns)"

definition path_text :: "Component list \<Rightarrow> str" where
  "path_text cs = (if cs = [RootDir] then [47] else join_names (map component_text cs))"

fun clean_loop :: "Component list \<Rightarrow> Component list \<Rightarrow> Component list" where
  "clean_loop out [] = out"
| "clean_loop out (CurDir # cs) = clean_loop out cs"
| "clean_loop out (ParentDir # cs) = clean_loop (pop_path out) cs"
| "clean_loop out (c # cs) = clean_loop (push_path out c) cs"

definition clean_path :: "Component list \<Rightarrow> Component list" where
  "clean_path cs = clean_loop [] cs"

datatype UrlError = NoCurrentDir | NotFilePath str

text \<open>The URL of a path, which is relative to the working directory unless it is absolute.\<close>

definition file_url :: "str option \<Rightarrow> (str \<Rightarrow> str option) \<Rightarrow> str \<Rightarrow> UrlError + str" where
  "file_url current_dir from_file_path path_part =
     and_then
       (if is_absolute path_part then Inr (path_components path_part)
        else and_then (ok_or NoCurrentDir current_dir) (\<lambda>cwd. Inr (path_join (path_components cwd) (path_components path_part)))) (\<lambda>absolute.
     let cleaned = path_text (clean_path absolute) in
     ok_or (NotFilePath cleaned) (from_file_path cleaned))"

definition normalize_storage_url :: "str option \<Rightarrow> (str \<Rightarrow> str option) \<Rightarrow> str \<Rightarrow> UrlError + str" where
  "normalize_storage_url current_dir from_file_path raw =
     (case strip_prefix (lit ''file://'') raw of
        Some rest \<Rightarrow> file_url current_dir from_file_path rest
      | None \<Rightarrow>
          (case strip_prefix (lit ''file:'') raw of
             Some rest \<Rightarrow> file_url current_dir from_file_path rest
           | None \<Rightarrow>
               if contains_str (lit ''://'') raw \<or> prefix (lit ''memory:'') raw then Inr raw
               else file_url current_dir from_file_path raw))"

section \<open>Properties\<close>

definition plain_name :: "str \<Rightarrow> bool" where
  "plain_name n \<longleftrightarrow> n \<noteq> [] \<and> n \<noteq> [46] \<and> n \<noteq> [46, 46] \<and> 47 \<notin> set n"

text \<open>The path that a list of names is from the root.\<close>

definition rooted :: "str list \<Rightarrow> Component list" where
  "rooted names = RootDir # map Normal names"

lemma split_all_names: "\<forall>n\<in>set (split_all c s). c \<notin> set n"
proof (induction c s rule: split_all.induct)
  case (1 c s)
  have "split_once c s = Some (a, b) \<Longrightarrow> c \<notin> set a" for a b
    by (auto simp: split_once_def split: list.splits dest: set_takeWhileD)
  then show ?case using 1 by (auto simp: split_all.simps [of c s] split_once_None split: option.splits)
qed

lemma split_all_join:
  assumes "\<forall>n\<in>set ns. 47 \<notin> set n" and "ns \<noteq> []"
  shows "split_all 47 (join_names ns) = ns"
  using assms by (induction ns rule: join_names.induct) (simp_all add: split_all.simps split_once_append split_once_None [THEN iffD2])

lemma path_text_rooted: "ns \<noteq> [] \<Longrightarrow> path_text (rooted ns) = [47] @ join_names ns"
  by (cases ns) (simp_all add: path_text_def rooted_def comp_def)

subsection \<open>What a path names\<close>

text \<open>
  The meaning of a path, as rewriting of its segments: an empty one and \<open>.\<close> stand for nothing, a
  name followed by \<open>..\<close> cancels, and \<open>..\<close> at the root stays there.
\<close>

inductive path_step :: "str list \<Rightarrow> str list \<Rightarrow> bool" where
  empty: "path_step (xs @ [] # ys) (xs @ ys)"
| current: "path_step (xs @ [46] # ys) (xs @ ys)"
| parent: "plain_name n \<Longrightarrow> path_step (xs @ n # [46, 46] # ys) (xs @ ys)"
| above_root: "path_step ([46, 46] # ys) ys"

definition names_of :: "str list \<Rightarrow> str list \<Rightarrow> bool" where
  "names_of segs names \<longleftrightarrow> path_step\<^sup>*\<^sup>* segs names \<and> (\<forall>n\<in>set names. plain_name n)"

text \<open>The segments of a path under a working directory, and the path that a setting spells.\<close>

definition path_segments :: "str option \<Rightarrow> str \<Rightarrow> str list" where
  "path_segments current_dir p =
     (if is_absolute p then [] else case current_dir of Some cwd \<Rightarrow> split_all 47 cwd | None \<Rightarrow> []) @ split_all 47 p"

definition spelled_path :: "str \<Rightarrow> str" where
  "spelled_path raw =
     (if prefix (lit ''file://'') raw then drop (length (lit ''file://'')) raw
      else if prefix (lit ''file:'') raw then drop (length (lit ''file:'')) raw else raw)"

definition other_scheme :: "str \<Rightarrow> bool" where
  "other_scheme raw \<longleftrightarrow> \<not> prefix (lit ''file:'') raw \<and> (contains_str (lit ''://'') raw \<or> prefix (lit ''memory:'') raw)"

lemma component_simps [simp]:
  "component [46] = CurDir" "component [46, 46] = ParentDir" "plain_name n \<Longrightarrow> component n = Normal n"
  by (simp_all add: component_def plain_name_def)

lemma plain_name_nonempty [simp]: "plain_name n \<Longrightarrow> n \<noteq> []"
  by (simp add: plain_name_def)

lemma path_step_snoc:
  "plain_name n \<Longrightarrow> path_step (xs @ [n] @ [46, 46] # ys) (xs @ ys)"
  using path_step.parent [of n xs ys] by simp

lemma clean_loop_append: "clean_loop out (as @ bs) = clean_loop (clean_loop out as) bs"
  by (induction out as rule: clean_loop.induct) simp_all

lemma clean_loop_dots: "clean_loop out (map component (filter (\<lambda>s. s \<noteq> [46]) ns)) = clean_loop out (map component ns)"
  by (induction ns arbitrary: out) (auto simp: component_def)

abbreviation clean_segments :: "str list \<Rightarrow> str list \<Rightarrow> Component list" where
  "clean_segments ns segs \<equiv> clean_loop (rooted ns) (map component (filter (\<lambda>s. s \<noteq> []) segs))"

lemma clean_components:
  "is_absolute p \<Longrightarrow> clean_loop [] (path_components p) = clean_segments [] (split_all 47 p)"
  "\<not> is_absolute p \<Longrightarrow> clean_loop (rooted ns) (path_components p) = clean_segments ns (split_all 47 p)"
proof -
  show "is_absolute p \<Longrightarrow> clean_loop [] (path_components p) = clean_segments [] (split_all 47 p)"
    by (simp add: path_components_def Let_def push_path_def rooted_def clean_loop_dots del: filter_filter)
  show "\<not> is_absolute p \<Longrightarrow> clean_loop (rooted ns) (path_components p) = clean_segments ns (split_all 47 p)"
  proof (cases "filter (\<lambda>s. s \<noteq> []) (split_all 47 p)")
    case (Cons m ms)
    assume "\<not> is_absolute p"
    then have "path_components p = component m # map component (filter (\<lambda>s. s \<noteq> [46]) ms)"
      by (simp add: path_components_def Let_def Cons del: filter_filter filter_eq_Cons_iff)
    then show ?thesis unfolding Cons by (cases "component m") (simp_all add: clean_loop_dots)
  qed (simp add: path_components_def Let_def)
qed

text \<open>The loop computes what the segments name.\<close>

lemma clean_segments_names:
  assumes "\<forall>n\<in>set ns. plain_name n" and "\<forall>s\<in>set segs. 47 \<notin> set s"
  shows "\<exists>names. clean_segments ns segs = rooted names \<and> names_of (ns @ segs) names"
  using assms
proof (induction segs arbitrary: ns)
  case Nil
  then show ?case by (auto simp: names_of_def)
next
  case (Cons s segs)
  have step: "\<exists>names. clean_segments ns (s # segs) = rooted names \<and> names_of (ns @ s # segs) names"
    if "clean_segments ns (s # segs) = clean_segments ms segs" "\<forall>n\<in>set ms. plain_name n" "path_step\<^sup>*\<^sup>* (ns @ s # segs) (ms @ segs)" for ms
  proof -
    from Cons.IH [OF that(2)] Cons.prems(2) obtain names where
      "clean_segments ms segs = rooted names" "names_of (ms @ segs) names" by auto
    with that(1,3) show ?thesis unfolding names_of_def by (metis rtranclp_trans)
  qed
  consider "s = []" | "s = [46]" | "s = [46, 46]" | "plain_name s" using Cons.prems(2) by (auto simp: plain_name_def)
  then show ?case
  proof cases
    case 3
    have "path_step (ns @ s # segs) (butlast ns @ segs)"
      using Cons.prems(1) 3 path_step.above_root [of segs] path_step_snoc [of "last ns" "butlast ns" segs]
      by (cases ns rule: rev_cases) simp_all
    moreover have "pop_path (rooted ns) = rooted (butlast ns)"
      by (cases ns rule: rev_cases) (simp_all add: pop_path_def rooted_def)
    ultimately show ?thesis using 3 Cons.prems(1) by (intro step [of "butlast ns"]) (auto dest: in_set_butlastD)
  next
    case 4
    have "push_path (rooted ns) (Normal s) = rooted (ns @ [s])" by (simp add: push_path_def rooted_def)
    with 4 Cons.prems(1) show ?thesis by (intro step [of "ns @ [s]"]) auto
  next
    case 1
    with Cons.prems(1) path_step.empty [of ns segs] show ?thesis by (intro step [of ns]) auto
  next
    case 2
    with Cons.prems(1) path_step.current [of ns segs] show ?thesis by (intro step [of ns]) auto
  qed
qed

text \<open>Rewriting does not change what the loop computes, so the segments name one path only.\<close>

lemma clean_segments_rooted: "\<exists>ms. clean_segments ns segs = rooted ms"
proof (induction segs arbitrary: ns)
  case (Cons s segs)
  have "pop_path (rooted ns) = rooted (butlast ns)" by (cases ns rule: rev_cases) (simp_all add: pop_path_def rooted_def)
  moreover have "push_path (rooted ns) (Normal s) = rooted (ns @ [s])" by (simp add: push_path_def rooted_def)
  ultimately show ?case using Cons.IH [of ns] Cons.IH [of "butlast ns"] Cons.IH [of "ns @ [s]"]
    by (cases "s = [46]"; cases "s = [46, 46]") (simp_all add: component_def)
qed auto

lemma path_step_clean: "path_step as bs \<Longrightarrow> clean_segments [] as = clean_segments [] bs"
proof (induction rule: path_step.induct)
  case (parent n xs ys)
  obtain ms where "clean_segments [] xs = rooted ms" using clean_segments_rooted by blast
  moreover have "pop_path (push_path (rooted ms) (Normal n)) = rooted ms" by (simp add: pop_path_def push_path_def rooted_def)
  ultimately show ?case using parent by (simp add: clean_loop_append)
qed (simp_all add: clean_loop_append pop_path_def rooted_def)

lemma path_steps_clean: "path_step\<^sup>*\<^sup>* as bs \<Longrightarrow> clean_segments [] as = clean_segments [] bs"
  by (induction rule: rtranclp_induct) (simp_all add: path_step_clean)

lemma clean_fixed: "clean_loop (rooted ns) (map Normal ms) = rooted (ns @ ms)"
proof (induction ms arbitrary: ns)
  case (Cons m ms)
  have "push_path (rooted ns) (Normal m) = rooted (ns @ [m])" by (simp add: push_path_def rooted_def)
  with Cons.IH [of "ns @ [m]"] show ?case by simp
qed simp

lemma names_of_unique:
  assumes "names_of segs names"
  shows "Collect (names_of segs) = {names}"
proof -
  have "clean_segments [] segs = rooted ms" if "names_of segs ms" for ms
  proof -
    have "filter (\<lambda>s. s \<noteq> []) ms = ms" using that by (auto simp: names_of_def filter_id_conv)
    moreover have "map component ms = map Normal ms" using that by (simp add: names_of_def)
    ultimately have "clean_segments [] ms = rooted ms" by (simp only: clean_fixed append_Nil)
    with that path_steps_clean [of segs ms] show ?thesis by (simp add: names_of_def)
  qed
  moreover have "rooted ms = rooted names \<Longrightarrow> ms = names" for ms by (simp add: rooted_def inj_map_eq_map inj_def)
  ultimately have "names_of segs ms \<longleftrightarrow> ms = names" for ms using assms by metis
  then show ?thesis by auto
qed

lemma rooted_again:
  assumes "\<forall>m\<in>set ms. plain_name m"
  shows "path_components (path_text (rooted ms)) = rooted ms" and "clean_path (rooted ms) = rooted ms" and "is_absolute (path_text (rooted ms))"
proof -
  have "clean_loop (rooted []) (map Normal ms) = rooted ms" using clean_fixed [of "[]" ms] by simp
  then show "clean_path (rooted ms) = rooted ms" by (simp add: clean_path_def rooted_def push_path_def)
  show abs: "is_absolute (path_text (rooted ms))"
    by (cases "ms = []") (simp_all add: path_text_rooted is_absolute_def, simp add: path_text_def rooted_def)
  show "path_components (path_text (rooted ms)) = rooted ms"
  proof (cases "ms = []")
    case True
    then show ?thesis by (simp add: path_text_def rooted_def path_components_def is_absolute_def split_all.simps split_once_def)
  next
    case False
    have "split_all 47 (path_text (rooted ms)) = [] # ms"
      using assms False split_all_join [of ms]
      by (subst split_all.simps) (simp add: path_text_rooted split_once_append [of 47 "[]", simplified] plain_name_def)
    moreover have "filter (\<lambda>s. s \<noteq> []) ms = ms" "filter (\<lambda>s. s \<noteq> [46]) ms = ms" "map component ms = map Normal ms"
      using assms by (auto simp: plain_name_def component_def filter_id_conv)
    ultimately show ?thesis using abs by (simp add: path_components_def rooted_def)
  qed
qed

lemma file_url_path:
  assumes "file_url current_dir from_file_path p = Inr u" and "\<forall>d. current_dir = Some d \<longrightarrow> is_absolute d"
  shows "\<exists>names. names_of (path_segments current_dir p) names \<and> from_file_path (path_text (rooted names)) = Some u"
proof -
  have "from_file_path (path_text (clean_segments [] (path_segments current_dir p))) = Some u"
  proof (cases "is_absolute p")
    case True
    with assms(1) show ?thesis by (simp add: file_url_def Let_def clean_path_def clean_components(1) path_segments_def)
  next
    case False
    with assms(1) obtain cwd where cwd: "current_dir = Some cwd"
      "from_file_path (path_text (clean_path (path_join (path_components cwd) (path_components p)))) = Some u"
      by (auto simp: file_url_def Let_def and_then_eq_Inr)
    with assms(2) have abs: "is_absolute cwd" by simp
    obtain ns where ns: "clean_segments [] (split_all 47 cwd) = rooted ns"
      using clean_segments_names [of "[]"] split_all_names [of 47 cwd] by auto
    have "path_join (path_components cwd) (path_components p) = path_components cwd @ path_components p"
      using False by (auto simp: path_join_def path_components_def Let_def component_def split: list.splits Component.splits)
    then have "clean_path (path_join (path_components cwd) (path_components p)) = clean_segments [] (path_segments current_dir p)"
      using False cwd(1) ns
      by (simp add: clean_path_def clean_loop_append clean_components(1) [OF abs] clean_components(2) [OF False] path_segments_def)
    with cwd(2) show ?thesis by simp
  qed
  moreover have "\<forall>s\<in>set (path_segments current_dir p). 47 \<notin> set s"
    using split_all_names by (auto simp: path_segments_def split: option.splits)
  ultimately show ?thesis using clean_segments_names [of "[]" "path_segments current_dir p"] by auto
qed

lemma normalize_file_url:
  assumes "\<not> other_scheme raw"
  shows "normalize_storage_url current_dir from_file_path raw = file_url current_dir from_file_path (spelled_path raw)"
proof -
  have "prefix (lit ''file://'') raw \<Longrightarrow> prefix (lit ''file:'') raw" by (auto simp: prefix_def lit_def)
  then show ?thesis
    using assms by (auto simp: normalize_storage_url_def strip_prefix_def spelled_path_def other_scheme_def)
qed

text \<open>C36: A storage setting with another scheme is passed through unchanged. Any other becomes the URL of one
  absolute path, for a working directory that is absolute: the path whose names are what the segments of the working
  directory (for a relative setting) and of the setting rewrite to, when empty and \<open>.\<close> segments are
  dropped, a name and the \<open>..\<close> after it cancel and \<open>..\<close> stays at the root. Where the URL is that path
  written out without escapes, normalizing it again changes nothing.\<close>

theorem storage_url_normalized:
  assumes "normalize_storage_url current_dir from_file_path raw = Inr u" and "\<forall>d. current_dir = Some d \<longrightarrow> is_absolute d"
  shows "if other_scheme raw then u = raw
    else \<exists>names. Collect (names_of (path_segments current_dir (spelled_path raw))) = {names} \<and>
       from_file_path (path_text (rooted names)) = Some u \<and>
       (u = lit ''file://'' @ path_text (rooted names) \<longrightarrow> normalize_storage_url current_dir from_file_path u = Inr u)"
proof (cases "other_scheme raw")
  case True
  moreover have "prefix (lit ''file://'') raw \<Longrightarrow> prefix (lit ''file:'') raw" by (auto simp: prefix_def lit_def)
  ultimately have "\<not> prefix (lit ''file://'') raw" "\<not> prefix (lit ''file:'') raw"
    "contains_str (lit ''://'') raw \<or> prefix (lit ''memory:'') raw" by (auto simp: other_scheme_def)
  with assms(1) True show ?thesis by (simp add: normalize_storage_url_def strip_prefix_def)
next
  case False
  from file_url_path [OF assms(1) [unfolded normalize_file_url [OF False]] assms(2)] obtain names where
    names: "names_of (path_segments current_dir (spelled_path raw)) names" "from_file_path (path_text (rooted names)) = Some u" by blast
  moreover have "normalize_storage_url current_dir from_file_path (lit ''file://'' @ path_text (rooted names)) = Inr u"
    using names(2) rooted_again [of names] names(1)
    by (simp add: normalize_storage_url_def strip_prefix_def file_url_def Let_def names_of_def)
  moreover note names_of_unique [OF names(1)]
  ultimately show ?thesis using False by metis
qed

theorem storage_url_normalized_witness:
  "\<exists>names. Collect (names_of [[], lit ''srv'', lit ''app'', lit ''.'', lit ''..'', lit ''data'']) = {names} \<and>
     lit ''file://'' @ path_text (rooted names) = lit ''file:///srv/data''"
proof -
  have run: "normalize_storage_url (Some (lit ''/srv/app'')) (\<lambda>p. Some (lit ''file://'' @ p)) (lit ''file://./../data'') = Inr (lit ''file:///srv/data'')"
    and "\<not> other_scheme (lit ''file://./../data'')"
    and "path_segments (Some (lit ''/srv/app'')) (spelled_path (lit ''file://./../data'')) =
      [[], lit ''srv'', lit ''app'', lit ''.'', lit ''..'', lit ''data'']"
    by code_simp+
  with storage_url_normalized [OF run] show ?thesis by (auto simp: is_absolute_def lit_def)
qed

end
