(* ===== verification/Spec2Isabelle.thy ===== *)
theory Spec2Isabelle
  imports PackOut Registry ObjectDb_Correct Selection Filters Fetch Server_Correct
    PartCache_Correct Evictor_Correct SingleFlight Config
begin

text \<open>
  \<^bold>\<open>Verification of miscreant\<close>, a git server whose repositories live in an object store. All paths below are
  under \<^verbatim>\<open>src/src\<close>.

  \<^bold>\<open>The program.\<close> An HTTP request (\<^verbatim>\<open>protocol/http.rs\<close>) names a repository and one of git's services. A push
  (\<^verbatim>\<open>protocol/receive_pack.rs\<close>) is parsed into ref-update commands and a pack; the pack is ingested into a local
  staging area (\<^verbatim>\<open>git/ingest.rs\<close>), validated and promoted into the object database (\<^verbatim>\<open>git/promote.rs\<close>), and the refs
  are moved by one compare-and-swap transaction (\<^verbatim>\<open>storage/store.rs\<close>). A fetch (\<^verbatim>\<open>protocol/upload_pack.rs\<close>, and
  \<^verbatim>\<open>protocol/upload_pack_v0.rs\<close> for the classic protocol) is planned in two phases over the commit graph and the
  trees (\<^verbatim>\<open>git/walk.rs\<close>); the objects are read in their stored, compressed form (\<^verbatim>\<open>storage/objectdb.rs\<close>) and written as
  a pack with deltas (\<^verbatim>\<open>git/pack_out.rs\<close>), which is cut into side-band packets. Underneath, one SlateDB database
  holds four segments of keys (\<^verbatim>\<open>storage/keys.rs\<close>) and typed values (\<^verbatim>\<open>storage/values.rs\<close>), large blobs lie beside it
  (\<^verbatim>\<open>storage/blobs.rs\<close>), and both are read through a disk cache of object parts (\<^verbatim>\<open>storage/part_cache\<close>).

  \<^bold>\<open>Conventions.\<close> \<open>Prelude\<close> fixes the vocabulary: bytes are 8-bit words, \<^verbatim>\<open>Result<T, E>\<close> is \<open>'e + 't\<close> with
  \<open>and_then\<close> for \<^verbatim>\<open>?\<close>, and an asynchronous operation is a state transformer \<open>('s, 'e, 'a) eff\<close> on the world \<open>'s\<close>, composed by
  \<open>eff_bind\<close> and specified by \<open>eff_spec\<close> (an invariant of the world, what errors and what values are possible). Integers
  are words, or naturals with \<open>mod 2 ^ 64\<close>, where a width matters; panics are error values. Other clients act between any
  two operations: the laws of the external engine speak of an environment relation, and the theorems hold for
  every environment that keeps the stated invariant.

  \<^bold>\<open>Components.\<close> Each entry names the theories with the definitions, then those with the proofs.
    \<^item> Keys and values: \<open>Keys\<close> (\<^verbatim>\<open>storage/keys.rs\<close>) and \<open>Values\<close> (\<^verbatim>\<open>storage/values.rs\<close>). Decoding accepts exactly the
      encodings; a ref prefix scans exactly the refs with it; a record with 256 parents does not decode.
    \<^item> Engine and store: \<open>Slate\<close> is the interface to SlateDB, with its transaction and scan contract as the locale
      \<open>slatedb_laws\<close> and an in-memory engine that satisfies it; \<open>Store\<close> is \<^verbatim>\<open>storage/store.rs\<close>. \<open>Store_Correct\<close> shows that a
      batch of ref updates refines one atomic compare-and-swap of the ref table, and that listings are exact;
      \<open>Registry\<close> that creation races bind a name to one repository id and ids are never shared; \<open>Store_Frame\<close> what
      every operation leaves alone.
    \<^item> Objects: \<open>Zlib\<close>, \<open>ObjectDb\<close> (\<^verbatim>\<open>storage/zlib.rs\<close>, \<^verbatim>\<open>blobs.rs\<close>, \<^verbatim>\<open>objectdb.rs\<close>). \<open>ObjectDb_Correct\<close>: what is put is read back,
      as content and as compressed stream, with concurrent writers.
    \<^item> Packs: \<open>Delta\<close> and \<open>PackOut\<close> (\<^verbatim>\<open>git/pack_out.rs\<close>). \<open>Delta_Correct\<close> proves the encoder against a decoder of git's delta
      format, the rolling hash and the word-wise comparison against their definitions, and the index bounds;
      \<open>PackOut\<close> that a written pack decodes to the stored objects.
    \<^item> Walks: \<open>Walk\<close> and \<open>Collect\<close> (\<^verbatim>\<open>git/walk.rs\<close>). \<open>Discovery_Correct\<close> holds the marking invariants of the commit
      selection, \<open>Walk_Correct\<close> and \<open>Select_Correct\<close> its result over storage, \<open>Collect_Correct\<close> and \<open>Collect_Complete\<close> the
      tree phase; \<open>Walk_Storage\<close> interprets the walks' locales on the storage stack, \<open>Samples\<close> has concrete
      repositories, and \<open>Selection\<close> and \<open>Filters\<close> state the results.
    \<^item> Fetch planning: \<open>Plan\<close> (\<^verbatim>\<open>protocol/upload_pack.rs\<close>, \<open>plan_pack\<close> and \<open>feed_objects\<close>). \<open>Plan_Correct\<close>, \<open>Fetch\<close>: every wanted object
      is in the plan, once, or reachable from an acknowledged have of the request; the plan holds nothing else, and
      the pack written from it carries what the plan holds.
    \<^item> Push: \<open>Promote\<close> (\<^verbatim>\<open>git/ingest.rs\<close>, \<^verbatim>\<open>git/promote.rs\<close>). \<open>Promote_Order\<close>, \<open>Promote_Correct\<close>, \<open>Push\<close>: the order of writes
      keeps storage closed under references after every write, as long as no object names one of a later kind; a
      rejected push writes nothing.
    \<^item> Protocol: \<open>Errors\<close> (\<^verbatim>\<open>error.rs\<close>), \<open>Wire\<close>, \<open>ReceivePack\<close>, \<open>UploadPack\<close>, \<open>Bands\<close>, \<open>FetchEndpoint\<close>, \<open>Advertise\<close>,
      \<open>UploadPackV0\<close>, \<open>Http\<close> (\<^verbatim>\<open>protocol\<close>). \<open>Packets\<close> has the contract of the packet-line codec and a codec that obeys it;
      \<open>Receive_Wire\<close>, \<open>Requests\<close> the request formats; \<open>Streaming\<close> what a client reads back from a response;
      \<open>Receive_Correct\<close> the push endpoint and \<open>Server_Correct\<close> the server: every sequence of requests keeps all
      refs complete, and a terminated fetch response delivers what was asked for, under the data conditions below.
    \<^item> Part cache: \<open>PartCache\<close> (\<^verbatim>\<open>storage/part_cache/cached_store.rs\<close>, \<^verbatim>\<open>storage.rs\<close> and the files of \<^verbatim>\<open>storage_fs.rs\<close>), \<open>Evictor\<close>
      (the evictor of \<^verbatim>\<open>storage_fs.rs\<close>) and \<open>SingleFlight\<close> (\<^verbatim>\<open>single_flight.rs\<close>). \<open>PartCache_Correct\<close>: the cached store
      satisfies the contract of the store it wraps, whatever happens to its files, for all ranges but the suffixes
      that start inside a part; \<open>Evictor_Correct\<close>: the
      bookkeeping is consistent and writes end within the budget; \<open>SingleFlight\<close>: interleaved callers share one run.
    \<^item> Settings: \<open>Config\<close> (\<^verbatim>\<open>config.rs\<close> and the start of \<^verbatim>\<open>main.rs\<close>). The meaning of a path is a rewriting relation on
      its segments, and a storage setting becomes the URL of the one path its segments rewrite to.

  \<^bold>\<open>Interfaces.\<close> What one part relies on in another is a locale: \<open>codec\<close> for keys and values, \<open>slatedb_laws\<close> and its extensions for the store's
  clients, \<open>walk_source\<close> and \<open>object_source\<close> for the walks, \<open>walker_env\<close>, \<open>promote_env\<close>, \<open>server_env\<close> and \<open>fetch_env\<close> for
  the storage stack as the handlers see it, \<open>chunk_sink\<close> and \<open>wire_laws\<close> for the response writers, \<open>object_store_contract\<close>,
  \<open>cache_laws\<close> and \<open>cache_writes\<close> for the part cache. Sublocales show that the stack provides what the walks
  need and that the cached store is again an object store; the interpretations in each theory discharge the laws on
  the model's definitions over in-memory engines, and the witnesses run there.

  \<^bold>\<open>Data conditions.\<close> Ids stand for contents that do not change, and references have no cycles, as hashes make them. Two more
  conditions are about what clients push, and the server does not check them: \<open>kinds_ranked\<close> (\<open>Promote_Order\<close>), that no object names one
  of a later kind in the order blob, tree, commit, tag, on which the order of promotion rests; and \<open>kinds_ok\<close>
  (\<open>Collect_Correct\<close>), that no tree entry of blob mode names a tree, on which the tree phase of a fetch rests. They are hypotheses
  of the theorems that need them (\<open>kinds_ranked\<close> is part of \<open>server_env\<close>, \<open>kinds_ok\<close> of \<open>fetch_env\<close>), and \<open>Push\<close> shows that a
  promotion without the first can be cut off with a reference dangling. Compression levels are 0 to 9, as the start of the server
  demands.

  \<^bold>\<open>Loops.\<close> Recursion is structural, or has a measure, wherever the code's loop has one. The graph walks of
  \<^verbatim>\<open>git/walk.rs\<close> and the validation of \<^verbatim>\<open>git/promote.rs\<close> follow references read from storage, which only end on an acyclic
  graph: they take fuel, running out is an error of its own, and the termination theorems bound the fuel that is
  enough by the size of the graph (every commit, tag or tree is expanded once, and the worklists hold each reference
  once). The eviction loop waits for random draws and takes them from a list; the bound says how many are enough.

  \<^bold>\<open>Parameters.\<close> Code outside the repository is an argument with its documented laws: SlateDB, the object store, zlib, the
  parsers of \<^verbatim>\<open>gix_object\<close>, the indexer and pack writer of \<^verbatim>\<open>gix_pack\<close>, the packet-line codec of \<^verbatim>\<open>gix_packetline_blocking\<close>, the
  object hash (content named by an id), the file system, JSON, TOML, URL and flag parsing, random draws and time.

  \<^bold>\<open>Not modelled.\<close> Opening the database, block-cache settings and warming (calls of SlateDB only); metrics, tracing spans
  and log messages; the file-handle cache, which reopens a file that was replaced and so is the file; the calls of the
  cached store that only forward (list, copy, rename, multipart uploads); process start-up after the settings are fixed.

  \<^bold>\<open>What the modelling showed.\<close> The octopus record that cannot be read back (\<open>Values\<close>), the backfill that reports an existing
  commit as missing when it loses a race (\<open>Selection\<close>), the grouped write order that an object naming one of a later kind defeats
  (\<open>Push\<close>), and the suffix read that panics on a cold cache (\<open>PartCache_Correct\<close>) are theorems of their own.
\<close>

end
